(* ===== verification/Prelude.thy ===== *)
theory Prelude
  imports Main "HOL-Library.Word"
begin

text \<open>
  Shared vocabulary of the development: the faults a C++ execution can end in, the result
  type that carries them, C's \<open>int\<close> range, bounds-checked \<open>memcpy\<close> on byte lists, runs of
  fallible step functions with their invariant rule, and round-robin selection. Every other
  theory imports this one.
\<close>

section \<open>Types and rule collections\<close>

type_synonym byte = "8 word"
type_synonym i32 = "32 word"
type_synonym u32 = "32 word"
type_synonym u64 = "64 word"

named_theorems res_simps \<open>evaluation of results and of the checks that produce them\<close>
named_theorems buf_simps \<open>contents of buffers after an operation\<close>

section \<open>Faults and results\<close>

text \<open>
  The ways in which an execution stops or leaves the language's defined behaviour: a failed
  \<open>assert\<close>, \<open>exit(1)\<close>, a null or dangling pointer that is dereferenced, an access outside an
  array, signed overflow, a read of an uninitialised member, an iterator used after the
  element it denotes was erased, a division by zero. \<open>No_return\<close> is not a fault of the
  language: it says that the system calls supplied to the model ran out before the loop that
  consumes them was left.
\<close>

datatype fault =
    Assert_failed
  | Exit_failure
  | Null_deref
  | Dangling
  | Out_of_bounds
  | Int_overflow
  | Uninit_read
  | Invalid_iterator
  | Div_by_zero
  | No_return

type_synonym 'a res = "fault + 'a"

definition res_bind :: "'a res \<Rightarrow> ('a \<Rightarrow> 'b res) \<Rightarrow> 'b res" where
  "res_bind r f = (case r of Inl e \<Rightarrow> Inl e | Inr x \<Rightarrow> f x)"

definition check :: "fault \<Rightarrow> bool \<Rightarrow> unit res" where
  "check e b = (if b then Inr () else Inl e)"

definition deref :: "('k \<rightharpoonup> 'v) \<Rightarrow> 'k \<Rightarrow> 'v res" where
  "deref m k = (case m k of None \<Rightarrow> Inl Dangling | Some v \<Rightarrow> Inr v)"

lemma res_bind_simps [simp, res_simps]:
  "res_bind (Inl e) f = Inl e"
  "res_bind (Inr x) f = f x"
  by (simp_all add: res_bind_def)

lemma res_bind_Inr_iff [res_simps]:
  "res_bind r f = Inr y \<longleftrightarrow> (\<exists>x. r = Inr x \<and> f x = Inr y)"
  by (cases r) auto

lemma res_bind_Inl_iff:
  "res_bind r f = Inl e \<longleftrightarrow> r = Inl e \<or> (\<exists>x. r = Inr x \<and> f x = Inl e)"
  by (cases r) auto

lemma res_bind_assoc: "res_bind (res_bind r f) g = res_bind r (\<lambda>x. res_bind (f x) g)"
  by (cases r) auto

lemma check_Inr_iff [res_simps]: "check e b = Inr u \<longleftrightarrow> b"
  by (simp add: check_def)

lemma check_simps [simp]: "check e True = Inr ()" "check e False = Inl e"
  by (simp_all add: check_def)

lemma deref_Inr_iff [res_simps]: "deref m k = Inr v \<longleftrightarrow> m k = Some v"
  by (simp add: deref_def split: option.splits)

lemma deref_Some [simp]: "m k = Some v \<Longrightarrow> deref m k = Inr v"
  by (simp add: deref_def)

lemma deref_None [simp]: "m k = None \<Longrightarrow> deref m k = Inl Dangling"
  by (simp add: deref_def)

lemma res_bindE:
  assumes "res_bind r f = Inr y"
  obtains x where "r = Inr x" and "f x = Inr y"
  using assms by (auto simp: res_bind_Inr_iff)

text \<open>
  Objects that exist once: \<open>pthread_once\<close> runs the initialisation on the first call, and every later
  call finds the same object, whatever it would make.
\<close>

definition pthread_once :: "'a option \<Rightarrow> 'a res \<Rightarrow> ('a \<times> 'a option) res" where
  "pthread_once inst init = (case inst of Some x \<Rightarrow> Inr (x, inst) | None \<Rightarrow> res_bind init (\<lambda>x. Inr (x, Some x)))"

lemma pthread_once_same: "pthread_once inst init = Inr (x, inst') \<Longrightarrow> pthread_once inst' init' = Inr (x, inst')"
  by (auto simp: pthread_once_def res_bind_Inr_iff split: option.splits)

section \<open>C integers and memory copies\<close>

abbreviation INT_MAX :: int where
  "INT_MAX \<equiv> 2147483647"

definition in_int :: "int \<Rightarrow> bool" where
  "in_int x \<longleftrightarrow> - 2147483648 \<le> x \<and> x \<le> INT_MAX"

definition blit :: "nat \<Rightarrow> 'a list \<Rightarrow> 'a list \<Rightarrow> 'a list" where
  "blit off src dst = take off dst @ src @ drop (off + length src) dst"

text \<open>
  \<open>memcpy(dst + off, src, n)\<close> where \<open>dst\<close> and \<open>src\<close> are whole allocations (or what is left of
  one behind a pointer). A negative \<open>n\<close> becomes a huge \<open>size_t\<close>, so it is out of bounds too.
\<close>

definition c_memcpy :: "byte list \<Rightarrow> int \<Rightarrow> byte list \<Rightarrow> int \<Rightarrow> byte list res" where
  "c_memcpy dst off src n =
     (if 0 \<le> off \<and> 0 \<le> n \<and> off + n \<le> int (length dst) \<and> n \<le> int (length src)
      then Inr (blit (nat off) (take (nat n) src) dst)
      else Inl Out_of_bounds)"

lemma length_blit [simp]: "off + length src \<le> length dst \<Longrightarrow> length (blit off src dst) = length dst"
  by (simp add: blit_def)

lemma take_blit [simp]: "off \<le> length dst \<Longrightarrow> take off (blit off src dst) = take off dst"
  by (simp add: blit_def)

lemma take_blit_end [simp]:
  "off \<le> length dst \<Longrightarrow> take (off + length src) (blit off src dst) = take off dst @ src"
  by (simp add: blit_def)

lemma take_blit_end' [simp]:
  "off \<le> length dst \<Longrightarrow> n = length src \<Longrightarrow> take (off + n) (blit off src dst) = take off dst @ src"
  by simp

lemma blit_0 [simp]: "blit 0 src dst = src @ drop (length src) dst"
  by (simp add: blit_def)

lemma take_drop_split: "take n (drop m xs) @ drop (m + n) xs = drop m xs"
  by (metis add.commute append_take_drop_id drop_drop)

lemma count_list_distinct: "distinct xs \<Longrightarrow> count_list xs x = (if x \<in> set xs then 1 else 0)"
  by (induction xs) auto

lemma c_memcpy_Inr_iff [res_simps]:
  "c_memcpy dst off src n = Inr d \<longleftrightarrow>
     0 \<le> off \<and> 0 \<le> n \<and> off + n \<le> int (length dst) \<and> n \<le> int (length src) \<and>
     d = blit (nat off) (take (nat n) src) dst"
  by (auto simp: c_memcpy_def)

lemma c_memcpy_length: "c_memcpy dst off src n = Inr d \<Longrightarrow> length d = length dst"
  by (auto simp: c_memcpy_Inr_iff nat_le_iff min_def intro!: length_blit)

section \<open>Runs of fallible steps\<close>

primrec run :: "('s \<Rightarrow> 'e \<Rightarrow> 's res) \<Rightarrow> 's \<Rightarrow> 'e list \<Rightarrow> 's res" where
  "run step s [] = Inr s"
| "run step s (e # es) = res_bind (step s e) (\<lambda>s'. run step s' es)"

lemma run_append: "run step s (es @ fs) = res_bind (run step s es) (\<lambda>s'. run step s' fs)"
  by (induction es arbitrary: s) (auto simp: res_bind_assoc)

text \<open>
  The contract of a component whose operations keep an invariant: one law about one step.
  What follows from it once and for all is that every run keeps the invariant.
\<close>

locale invariant_steps =
  fixes step :: "'s \<Rightarrow> 'e \<Rightarrow> 's res"
    and inv :: "'s \<Rightarrow> bool"
  assumes inv_step: "inv s \<Longrightarrow> step s e = Inr s' \<Longrightarrow> inv s'"
begin

lemma inv_run: "inv s \<Longrightarrow> run step s es = Inr s' \<Longrightarrow> inv s'"
proof (induction es arbitrary: s)
  case Nil
  then show ?case by simp
next
  case (Cons e es)
  from Cons.prems(2) obtain t where t: "step s e = Inr t" and r: "run step t es = Inr s'"
    by (auto elim: res_bindE)
  from Cons.prems(1) t have "inv t" by (rule inv_step)
  then show ?case using r by (rule Cons.IH)
qed

end

text \<open>A component that in addition never faults from a state that satisfies its invariant.\<close>

locale total_steps = invariant_steps +
  assumes step_total: "inv s \<Longrightarrow> \<exists>s'. step s e = Inr s'"
begin

lemma run_total: "inv s \<Longrightarrow> \<exists>s'. run step s es = Inr s' \<and> inv s'"
proof (induction es arbitrary: s)
  case Nil
  then show ?case by simp
next
  case (Cons e es)
  then obtain t where t: "step s e = Inr t" using step_total by blast
  with Cons.prems have "inv t" by (rule inv_step)
  with Cons.IH t show ?case by simp
qed

end

end
