(* ===== verification/Io_Buf.thy ===== *)
theory Io_Buf
  imports Prelude
begin

text \<open>
  \<open>class io_buf\<close> (reactor/include/io_buf.h, reactor/src/io_buf.cc): a byte array of fixed
  capacity with a window \<open>[head, head + length)\<close> of unprocessed bytes, and the \<open>next\<close> link that
  threads idle buffers into the free lists of the pool. The operations are \<open>clear\<close>, \<open>adjust\<close>,
  \<open>copy\<close> and \<open>pop\<close>; \<open>bytes\<close> is the abstraction: what the window holds. At the end the buffer
  is shown to implement a bounded byte queue, the interface its clients rely on.
\<close>

section \<open>The buffer and its operations\<close>

record io_buf =
  b_next :: "nat option"
  b_capacity :: int
  b_length :: int
  b_head :: int
  b_data :: "byte list"

text \<open>\<open>new char[size]\<close> leaves the bytes indeterminate: they are an argument.\<close>

definition io_buf_new :: "(nat \<Rightarrow> byte) \<Rightarrow> int \<Rightarrow> io_buf" where
  "io_buf_new junk sz =
     \<lparr>b_next = None, b_capacity = sz, b_length = 0, b_head = 0,
      b_data = map junk [0..<nat sz]\<rparr>"

definition io_buf_clear :: "io_buf \<Rightarrow> io_buf" where
  "io_buf_clear b = b\<lparr>b_length := 0, b_head := 0\<rparr>"

text \<open>\<open>memmove(data, data + head, length)\<close>: source and target may overlap, the source is read first.\<close>

definition io_buf_adjust :: "io_buf \<Rightarrow> io_buf res" where
  "io_buf_adjust b =
     (if b_head b \<noteq> 0 then
        (if b_length b \<noteq> 0 then
           (if 0 \<le> b_head b then
              res_bind (c_memcpy (b_data b) 0 (drop (nat (b_head b)) (b_data b)) (b_length b))
                (\<lambda>d. Inr (b\<lparr>b_data := d, b_head := 0\<rparr>))
            else Inl Out_of_bounds)
         else Inr (b\<lparr>b_head := 0\<rparr>))
      else Inr b)"

definition io_buf_copy :: "io_buf \<Rightarrow> io_buf \<Rightarrow> io_buf res" where
  "io_buf_copy b other =
     res_bind (c_memcpy (b_data b) 0 (b_data other) (b_length other))
       (\<lambda>d. Inr (b\<lparr>b_data := d, b_length := b_length other, b_head := 0\<rparr>))"

definition io_buf_pop :: "io_buf \<Rightarrow> int \<Rightarrow> io_buf res" where
  "io_buf_pop b n =
     (if n > b_length b then Inr b
      else if in_int (b_length b - n) \<and> in_int (b_head b + n)
      then Inr (b\<lparr>b_length := b_length b - n, b_head := b_head b + n\<rparr>)
      else Inl Int_overflow)"

text \<open>
  What the clients do to append: \<open>memcpy(data + length, src, n); length += n\<close>. It appends to
  the window only while \<open>head\<close> is 0, which the clients assert.
\<close>

definition io_buf_append :: "io_buf \<Rightarrow> byte list \<Rightarrow> int \<Rightarrow> io_buf res" where
  "io_buf_append b src n =
     res_bind (c_memcpy (b_data b) (b_length b) src n)
       (\<lambda>d. Inr (b\<lparr>b_data := d, b_length := b_length b + n\<rparr>))"

section \<open>Abstraction and well-formedness\<close>

definition bytes :: "io_buf \<Rightarrow> byte list" where
  "bytes b = take (nat (b_length b)) (drop (nat (b_head b)) (b_data b))"

definition buf_ok :: "io_buf \<Rightarrow> bool" where
  "buf_ok b \<longleftrightarrow> 0 \<le> b_head b \<and> 0 \<le> b_length b \<and> b_head b + b_length b \<le> b_capacity b \<and>
     int (length (b_data b)) = b_capacity b \<and> b_capacity b \<le> INT_MAX"

definition room :: "io_buf \<Rightarrow> int" where
  "room b = b_capacity b - b_length b"

lemma buf_ok_new [simp]: "0 \<le> n \<Longrightarrow> n \<le> INT_MAX \<Longrightarrow> buf_ok (io_buf_new junk n)"
  by (simp add: buf_ok_def io_buf_new_def)

lemma new_fields [simp]:
  "b_next (io_buf_new junk n) = None" "b_capacity (io_buf_new junk n) = n"
  "b_length (io_buf_new junk n) = 0" "b_head (io_buf_new junk n) = 0"
  by (simp_all add: io_buf_new_def)

lemma bytes_new [simp, buf_simps]: "bytes (io_buf_new junk n) = []"
  by (simp add: bytes_def io_buf_new_def)

lemma buf_ok_next [simp]: "buf_ok (b\<lparr>b_next := p\<rparr>) = buf_ok b"
  by (simp add: buf_ok_def)

lemma bytes_next [simp, buf_simps]: "bytes (b\<lparr>b_next := p\<rparr>) = bytes b"
  by (simp add: bytes_def)

lemma buf_ok_clear [simp]: "buf_ok b \<Longrightarrow> buf_ok (io_buf_clear b)"
  by (simp add: buf_ok_def io_buf_clear_def)

lemma clear_fields [simp]:
  "b_next (io_buf_clear b) = b_next b" "b_capacity (io_buf_clear b) = b_capacity b"
  "b_length (io_buf_clear b) = 0" "b_head (io_buf_clear b) = 0"
  by (simp_all add: io_buf_clear_def)

lemma bytes_clear [simp, buf_simps]: "bytes (io_buf_clear b) = []"
  by (simp add: bytes_def io_buf_clear_def)

lemma length_bytes [simp]: "buf_ok b \<Longrightarrow> int (length (bytes b)) = b_length b"
  by (auto simp: buf_ok_def bytes_def)

lemma length_bytes_nat: "buf_ok b \<Longrightarrow> length (bytes b) = nat (b_length b)"
  using length_bytes[of b] by linarith

lemma bytes_Nil_iff: "buf_ok b \<Longrightarrow> bytes b = [] \<longleftrightarrow> b_length b = 0"
  using length_bytes_nat[of b] by (auto simp: buf_ok_def bytes_def)

lemma io_buf_pop_ok:
  assumes "buf_ok b" and "0 \<le> n" and "n \<le> b_length b"
  shows "io_buf_pop b n = Inr (b\<lparr>b_length := b_length b - n, b_head := b_head b + n\<rparr>)"
  using assms by (auto simp: buf_ok_def io_buf_pop_def in_int_def)

lemma io_buf_pop_spec:
  assumes "buf_ok b" and "0 \<le> n" and "n \<le> b_length b"
  shows "\<exists>b'. io_buf_pop b n = Inr b' \<and> buf_ok b' \<and> bytes b' = drop (nat n) (bytes b) \<and>
    b_length b' = b_length b - n \<and> b_head b' = b_head b + n \<and>
    b_capacity b' = b_capacity b \<and> b_next b' = b_next b \<and> b_data b' = b_data b"
proof -
  have "bytes (b\<lparr>b_length := b_length b - n, b_head := b_head b + n\<rparr>) = drop (nat n) (bytes b)"
    using assms by (simp add: bytes_def drop_take nat_diff_distrib nat_add_distrib buf_ok_def add.commute)
  then show ?thesis
    using assms by (auto simp: io_buf_pop_ok) (auto simp: buf_ok_def)
qed

lemma io_buf_pop_too_long: "n > b_length b \<Longrightarrow> io_buf_pop b n = Inr b"
  by (simp add: io_buf_pop_def)

lemma io_buf_adjust_spec:
  assumes "buf_ok b"
  shows "\<exists>b'. io_buf_adjust b = Inr b' \<and> buf_ok b' \<and> bytes b' = bytes b \<and> b_head b' = 0 \<and>
    b_length b' = b_length b \<and> b_capacity b' = b_capacity b \<and> b_next b' = b_next b"
proof (cases "b_head b = 0 \<or> b_length b = 0")
  case True
  then show ?thesis
    using assms by (auto simp: io_buf_adjust_def bytes_def buf_ok_def)
next
  case False
  let ?d = "blit 0 (take (nat (b_length b)) (drop (nat (b_head b)) (b_data b))) (b_data b)"
  from False assms have h: "0 < b_head b" "0 < b_length b"
      "b_head b + b_length b \<le> int (length (b_data b))"
    by (auto simp: buf_ok_def)
  then have c: "c_memcpy (b_data b) 0 (drop (nat (b_head b)) (b_data b)) (b_length b) = Inr ?d"
    by (auto simp: c_memcpy_Inr_iff nat_le_iff of_nat_diff)
  then have a: "io_buf_adjust b = Inr (b\<lparr>b_data := ?d, b_head := 0\<rparr>)"
    using h by (simp add: io_buf_adjust_def)
  have "length ?d = length (b_data b)"
    using c by (rule c_memcpy_length)
  then show ?thesis
    using a h assms by (auto simp: buf_ok_def bytes_def)
qed

lemma io_buf_append_spec:
  assumes "buf_ok b" and "b_head b = 0" and "0 \<le> n" and "n \<le> room b" and "n \<le> int (length src)"
  shows "\<exists>b'. io_buf_append b src n = Inr b' \<and> buf_ok b' \<and> b_head b' = 0 \<and>
    bytes b' = bytes b @ take (nat n) src \<and> b_length b' = b_length b + n \<and>
    b_capacity b' = b_capacity b \<and> b_next b' = b_next b"
proof -
  let ?s = "take (nat n) src"
  let ?d = "blit (nat (b_length b)) ?s (b_data b)"
  have ls: "length ?s = nat n" using assms(3,5) by (simp add: nat_le_iff)
  have c: "c_memcpy (b_data b) (b_length b) src n = Inr ?d"
    using assms by (simp add: c_memcpy_Inr_iff buf_ok_def room_def)
  then have ld: "length ?d = length (b_data b)" by (rule c_memcpy_length)
  have "take (nat (b_length b + n)) ?d = take (nat (b_length b)) (b_data b) @ ?s"
    using assms ls by (simp add: nat_add_distrib buf_ok_def nat_le_iff del: length_take)
  then show ?thesis
    using assms c ld by (auto simp: io_buf_append_def buf_ok_def bytes_def room_def)
qed

lemma io_buf_append_overflow:
  "buf_ok b \<Longrightarrow> n > room b \<Longrightarrow> io_buf_append b src n = Inl Out_of_bounds"
  by (auto simp: io_buf_append_def c_memcpy_def room_def buf_ok_def)

lemma io_buf_copy_spec:
  assumes "buf_ok b" and "buf_ok other" and "b_head other = 0" and "b_length other \<le> b_capacity b"
  shows "\<exists>b'. io_buf_copy b other = Inr b' \<and> buf_ok b' \<and> b_head b' = 0 \<and> bytes b' = bytes other \<and>
    b_length b' = b_length other \<and> b_capacity b' = b_capacity b \<and> b_next b' = b_next b"
proof -
  let ?d = "blit 0 (take (nat (b_length other)) (b_data other)) (b_data b)"
  have c: "c_memcpy (b_data b) 0 (b_data other) (b_length other) = Inr ?d"
    using assms by (simp add: c_memcpy_Inr_iff buf_ok_def)
  then have "length ?d = length (b_data b)" by (rule c_memcpy_length)
  then show ?thesis
    using assms c by (auto simp: io_buf_copy_def buf_ok_def bytes_def)
qed

lemma io_buf_copy_overflow:
  "buf_ok b \<Longrightarrow> b_length other > b_capacity b \<Longrightarrow> io_buf_copy b other = Inl Out_of_bounds"
  by (auto simp: io_buf_copy_def c_memcpy_def buf_ok_def)

section \<open>The buffer as a byte queue\<close>

text \<open>
  The sender side of a connection uses a buffer through two operations only: append a chunk,
  and drop the prefix that the socket accepted (\<open>pop\<close> followed by \<open>adjust\<close>). The contract is
  stated as a locale; what it gives is conservation: what was taken out, followed by what is
  still inside, is what was put in, in order.
\<close>

datatype queue_op = Put "byte list" | Take nat

fun op_input :: "queue_op \<Rightarrow> byte list" where
  "op_input (Put xs) = xs"
| "op_input (Take n) = []"

fun queue_step ::
  "('b \<Rightarrow> byte list \<Rightarrow> 'b res) \<Rightarrow> ('b \<Rightarrow> nat \<Rightarrow> 'b res) \<Rightarrow> ('b \<Rightarrow> byte list) \<Rightarrow>
   'b \<times> byte list \<Rightarrow> queue_op \<Rightarrow> ('b \<times> byte list) res" where
  "queue_step put drain content (b, out) (Put xs) = res_bind (put b xs) (\<lambda>b'. Inr (b', out))"
| "queue_step put drain content (b, out) (Take n) =
     res_bind (drain b n)
       (\<lambda>b'. Inr (b', if n \<le> length (content b) then out @ take n (content b) else out))"

locale byte_queue =
  fixes ok :: "'b \<Rightarrow> bool"
    and content :: "'b \<Rightarrow> byte list"
    and put :: "'b \<Rightarrow> byte list \<Rightarrow> 'b res"
    and drain :: "'b \<Rightarrow> nat \<Rightarrow> 'b res"
  assumes put_law: "ok b \<Longrightarrow> put b xs = Inr b' \<Longrightarrow> ok b' \<and> content b' = content b @ xs"
    and drain_law: "ok b \<Longrightarrow> drain b n = Inr b' \<Longrightarrow> ok b' \<and>
      content b' = (if n \<le> length (content b) then drop n (content b) else content b)"
begin

lemma step_conserves:
  assumes "ok b" and "queue_step put drain content (b, out) e = Inr (b', out')"
  shows "ok b' \<and> out' @ content b' = out @ content b @ op_input e"
proof (cases e)
  case (Put xs)
  with assms put_law[of b xs b'] show ?thesis by (auto elim: res_bindE)
next
  case (Take n)
  with assms drain_law[of b n b'] show ?thesis by (auto elim!: res_bindE)
qed

lemma run_conserves:
  assumes "ok b" and "run (queue_step put drain content) (b, out) es = Inr (b', out')"
  shows "ok b' \<and> out' @ content b' = out @ content b @ concat (map op_input es)"
  using assms
proof (induction es arbitrary: b out)
  case Nil
  then show ?case by simp
next
  case (Cons e es)
  then obtain b1 out1 where s: "queue_step put drain content (b, out) e = Inr (b1, out1)"
    and r: "run (queue_step put drain content) (b1, out1) es = Inr (b', out')"
    by (auto elim!: res_bindE)
  from step_conserves[OF Cons.prems(1) s]
  have "ok b1" and e: "out1 @ content b1 = out @ content b @ op_input e" by auto
  from Cons.IH[OF \<open>ok b1\<close> r] e show ?case
    by (metis append_assoc concat.simps(2) list.simps(9))
qed

end

definition out_ok :: "io_buf \<Rightarrow> bool" where
  "out_ok b \<longleftrightarrow> buf_ok b \<and> b_head b = 0"

definition out_put :: "io_buf \<Rightarrow> byte list \<Rightarrow> io_buf res" where
  "out_put b xs = io_buf_append b xs (int (length xs))"

definition out_drain :: "io_buf \<Rightarrow> nat \<Rightarrow> io_buf res" where
  "out_drain b n = res_bind (io_buf_pop b (int n)) io_buf_adjust"

lemma out_put_law:
  assumes "out_ok b" and "out_put b xs = Inr b'"
  shows "out_ok b' \<and> bytes b' = bytes b @ xs"
proof -
  have "int (length xs) \<le> room b"
    using assms io_buf_append_overflow[of b "int (length xs)" xs]
    by (cases "int (length xs) \<le> room b") (auto simp: out_ok_def out_put_def)
  with assms io_buf_append_spec[of b "int (length xs)" xs] show ?thesis
    by (auto simp: out_ok_def out_put_def)
qed

lemma out_drain_law:
  assumes "out_ok b" and "out_drain b n = Inr b'"
  shows "out_ok b' \<and> bytes b' = (if n \<le> length (bytes b) then drop n (bytes b) else bytes b)"
proof -
  from assms have ok: "buf_ok b" by (simp add: out_ok_def)
  obtain b1 where p: "io_buf_pop b (int n) = Inr b1" and ok1: "buf_ok b1"
    and c1: "bytes b1 = (if n \<le> length (bytes b) then drop n (bytes b) else bytes b)"
  proof (cases "n \<le> length (bytes b)")
    case True
    with ok have "int n \<le> b_length b" using length_bytes[OF ok] by linarith
    with io_buf_pop_spec[OF ok, of "int n"] True that show ?thesis by auto
  next
    case False
    with ok have "int n > b_length b" using length_bytes[OF ok] by linarith
    with ok False that show ?thesis by (simp add: io_buf_pop_too_long)
  qed
  with io_buf_adjust_spec[OF ok1] assms(2) show ?thesis
    by (auto simp: out_drain_def out_ok_def)
qed

interpretation outq: byte_queue out_ok bytes out_put out_drain
  using out_put_law out_drain_law by unfold_locales blast+

end
