(* ===== verification/Buf_Pool.thy ===== *)
theory Buf_Pool
  imports Io_Buf
begin

text \<open>
  \<open>class buf_pool\<close> (reactor/include/buf_pool.h, reactor/src/buf_pool.cc): the process-wide pool
  of \<open>io_buf\<close> objects, one singly linked free list per size class, threaded through the \<open>next\<close>
  members of the buffers themselves. Buffers live in a heap of addresses, so that a buffer that
  is in a free list and in use at the same time, or twice in a free list, can be expressed.

  \<open>pool_rel\<close> relates a concrete pool to its abstract state: the contents of the free lists and
  the set of buffers handed out. \<open>alloc_buf\<close> and \<open>revert\<close> are shown to implement the abstract
  operations, and every sequence of calls by a client that returns only what it holds keeps the
  relation.
\<close>

section \<open>Size classes\<close>

datatype mem_cap = m4K | m16K | m64K | m256K | m1M | m4M | m8M

fun cap_of :: "mem_cap \<Rightarrow> int" where
  "cap_of m4K = 4096"
| "cap_of m16K = 16384"
| "cap_of m64K = 65536"
| "cap_of m256K = 262144"
| "cap_of m1M = 1048576"
| "cap_of m4M = 4194304"
| "cap_of m8M = 8388608"

lemma cap_of_inject [simp]: "cap_of a = cap_of b \<longleftrightarrow> a = b"
  by (cases a; cases b) auto

instantiation mem_cap :: linorder
begin

definition less_eq_mem_cap :: "mem_cap \<Rightarrow> mem_cap \<Rightarrow> bool" where
  "less_eq_mem_cap a b \<longleftrightarrow> cap_of a \<le> cap_of b"

definition less_mem_cap :: "mem_cap \<Rightarrow> mem_cap \<Rightarrow> bool" where
  "less_mem_cap a b \<longleftrightarrow> cap_of a < cap_of b"

instance
  by standard (auto simp: less_eq_mem_cap_def less_mem_cap_def)

end

definition EXTRA_MEM_LIMIT :: nat where
  "EXTRA_MEM_LIMIT = 5 * 1024 * 1024"

lemma cap_of_bounds: "4096 \<le> cap_of c" "cap_of c \<le> 8388608"
  by (cases c; simp)+

lemma cap_of_pos [simp]: "0 \<le> cap_of c" "0 < cap_of c" "cap_of c \<le> INT_MAX"
  by (cases c; simp)+

section \<open>State and operations\<close>

text \<open>
  \<open>free\<close> is the member \<open>_pool\<close>, an \<open>unordered_map<int, io_buf *>\<close>: a key may be absent, or
  present with a null pointer. \<open>fresh\<close> is the address the allocator hands out next and \<open>junk\<close>
  the bytes it finds there; neither is a member of the class.
\<close>

record pool =
  heap :: "nat \<rightharpoonup> io_buf"
  free :: "int \<rightharpoonup> nat option"
  total_mem :: nat
  fresh :: nat
  junk :: "nat \<Rightarrow> nat \<Rightarrow> byte"

definition new_io_buf :: "pool \<Rightarrow> int \<Rightarrow> nat \<times> pool" where
  "new_io_buf P cap =
     (fresh P, P\<lparr>heap := (heap P)(fresh P \<mapsto> io_buf_new (junk P (fresh P)) cap),
                 fresh := Suc (fresh P)\<rparr>)"

definition set_next :: "nat \<Rightarrow> nat option \<Rightarrow> pool \<Rightarrow> pool" where
  "set_next p q P = P\<lparr>heap := (heap P)(p := map_option (\<lambda>b. b\<lparr>b_next := q\<rparr>) (heap P p))\<rparr>"

primrec init_chain :: "nat \<Rightarrow> int \<Rightarrow> nat \<Rightarrow> pool \<Rightarrow> pool" where
  "init_chain 0 cap prev P = P"
| "init_chain (Suc k) cap prev P =
     (let (q, P') = new_io_buf P cap in init_chain k cap q (set_next prev (Some q) P'))"

definition init_memmory :: "int \<Rightarrow> nat \<Rightarrow> pool \<Rightarrow> pool" where
  "init_memmory cap num P =
     (let (p, P1) = new_io_buf P cap;
          P2 = P1\<lparr>free := (free P1)(cap \<mapsto> Some p)\<rparr>;
          P3 = init_chain (num - 1) cap p P2
      in P3\<lparr>total_mem := total_mem P3 + nat (cap div 1024) * num\<rparr>)"

definition buf_pool_new :: "(nat \<Rightarrow> nat \<Rightarrow> byte) \<Rightarrow> pool" where
  "buf_pool_new j =
     init_memmory (cap_of m8M) 10 (
     init_memmory (cap_of m4M) 20 (
     init_memmory (cap_of m1M) 50 (
     init_memmory (cap_of m256K) 200 (
     init_memmory (cap_of m64K) 500 (
     init_memmory (cap_of m16K) 1000 (
     init_memmory (cap_of m4K) 5000
       \<lparr>heap = Map.empty, free = Map.empty, total_mem = 0, fresh = 0, junk = j\<rparr>))))))"

definition buf_pool_instance :: "pool option \<Rightarrow> (nat \<Rightarrow> nat \<Rightarrow> byte) \<Rightarrow> (pool \<times> pool option) res" where
  "buf_pool_instance inst j = pthread_once inst (Inr (buf_pool_new j))"

definition pick_cap :: "int \<Rightarrow> mem_cap option" where
  "pick_cap n =
     (if n \<le> cap_of m4K then Some m4K
      else if n \<le> cap_of m16K then Some m16K
      else if n \<le> cap_of m64K then Some m64K
      else if n \<le> cap_of m256K then Some m256K
      else if n \<le> cap_of m1M then Some m1M
      else if n \<le> cap_of m4M then Some m4M
      else if n \<le> cap_of m8M then Some m8M
      else None)"

definition alloc_buf :: "pool \<Rightarrow> int \<Rightarrow> (nat option \<times> pool) res" where
  "alloc_buf P n =
     (case pick_cap n of
        None \<Rightarrow> Inr (None, P)
      | Some c \<Rightarrow>
          (let index = cap_of c;
               q = (case free P index of None \<Rightarrow> None | Some q \<Rightarrow> q);
               P0 = P\<lparr>free := (free P)(index \<mapsto> q)\<rparr>
           in case q of
                None \<Rightarrow>
                  (if total_mem P + nat (index div 1024) \<ge> EXTRA_MEM_LIMIT then Inl Exit_failure
                   else let (p, P1) = new_io_buf P0 index
                        in Inr (Some p, P1\<lparr>total_mem := total_mem P1 + nat (index div 1024)\<rparr>))
              | Some target \<Rightarrow>
                  res_bind (deref (heap P0) target) (\<lambda>b.
                    Inr (Some target, set_next target None
                      (P0\<lparr>free := (free P0)(index \<mapsto> b_next b)\<rparr>)))))"

definition alloc_buf_default :: "pool \<Rightarrow> (nat option \<times> pool) res" where
  "alloc_buf_default P = alloc_buf P (cap_of m4K)"

definition revert :: "pool \<Rightarrow> nat \<Rightarrow> pool res" where
  "revert P p =
     res_bind (deref (heap P) p) (\<lambda>b.
       let index = b_capacity b;
           b' = b\<lparr>b_length := 0, b_head := 0\<rparr>
       in case free P index of
            None \<Rightarrow> Inl Assert_failed
          | Some q \<Rightarrow> Inr (P\<lparr>heap := (heap P)(p \<mapsto> b'\<lparr>b_next := q\<rparr>),
                             free := (free P)(index \<mapsto> Some p)\<rparr>))"

section \<open>Abstraction: free lists and ownership\<close>

fun chain :: "(nat \<rightharpoonup> io_buf) \<Rightarrow> nat option \<Rightarrow> nat list \<Rightarrow> bool" where
  "chain h q [] \<longleftrightarrow> q = None"
| "chain h q (p # ps) \<longleftrightarrow> q = Some p \<and> (\<exists>b. h p = Some b \<and> chain h (b_next b) ps)"

definition idle :: "int \<Rightarrow> io_buf \<Rightarrow> bool" where
  "idle c b \<longleftrightarrow> b_capacity b = c \<and> b_length b = 0 \<and> b_head b = 0"

definition kbytes :: "(nat \<rightharpoonup> io_buf) \<Rightarrow> nat \<Rightarrow> nat" where
  "kbytes h p = (case h p of None \<Rightarrow> 0 | Some b \<Rightarrow> nat (b_capacity b div 1024))"

definition pool_rel :: "pool \<Rightarrow> (int \<Rightarrow> nat list) \<Rightarrow> nat set \<Rightarrow> bool" where
  "pool_rel P fl owned \<longleftrightarrow>
     dom (free P) \<subseteq> range cap_of \<and>
     (\<forall>c. c \<notin> dom (free P) \<longrightarrow> fl c = []) \<and>
     (\<forall>c q. free P c = Some q \<longrightarrow> chain (heap P) q (fl c) \<and> distinct (fl c)) \<and>
     (\<forall>c. \<forall>p \<in> set (fl c). \<exists>b. heap P p = Some b \<and> idle c b) \<and>
     (\<forall>c. set (fl c) \<inter> owned = {}) \<and>
     dom (heap P) = owned \<union> (\<Union>c. set (fl c)) \<and>
     (\<forall>p b. heap P p = Some b \<longrightarrow> buf_ok b \<and> b_capacity b \<in> dom (free P) \<and> p < fresh P) \<and>
     total_mem P = (\<Sum>p \<in> {..<fresh P}. kbytes (heap P) p)"

definition pool_inv :: "pool \<Rightarrow> nat set \<Rightarrow> bool" where
  "pool_inv P owned \<longleftrightarrow> (\<exists>fl. pool_rel P fl owned) \<and> dom (free P) = range cap_of \<and>
     total_mem P < EXTRA_MEM_LIMIT"

lemma chain_cong: "(\<And>p. p \<in> set ps \<Longrightarrow> h p = h' p) \<Longrightarrow> chain h q ps = chain h' q ps"
  by (induction ps arbitrary: q) auto

lemma chain_upd [simp]: "p \<notin> set ps \<Longrightarrow> chain (h(p := x)) q ps = chain h q ps"
  by (rule chain_cong) auto

lemma kbytes_upd_same:
  "h p = Some b \<Longrightarrow> b_capacity b' = b_capacity b \<Longrightarrow> kbytes (h(p \<mapsto> b')) = kbytes h"
  by (auto simp: kbytes_def fun_eq_iff)

lemma sum_kbytes_fresh:
  assumes "h n = None"
  shows "(\<Sum>p<Suc n. kbytes (h(n \<mapsto> b)) p) = (\<Sum>p<n. kbytes h p) + nat (b_capacity b div 1024)"
proof -
  have "(\<Sum>p<n. kbytes (h(n \<mapsto> b)) p) = (\<Sum>p<n. kbytes h p)"
    by (rule sum.cong) (auto simp: kbytes_def)
  then show ?thesis by (simp add: kbytes_def)
qed

lemma pick_cap_Some:
  assumes "pick_cap n = Some c"
  shows "n \<le> cap_of c" and "n \<le> cap_of c' \<Longrightarrow> c \<le> c'"
  using assms by (cases c'; auto simp: pick_cap_def less_eq_mem_cap_def split: if_splits)+

lemma pick_cap_None: "pick_cap n = None \<longleftrightarrow> cap_of m8M < n"
  by (auto simp: pick_cap_def)

lemma pick_cap_cap_of [simp]: "pick_cap (cap_of c) = Some c"
  by (cases c) (auto simp: pick_cap_def)

section \<open>The operations keep the relation\<close>

lemma pool_relD:
  assumes "pool_rel P fl owned"
  shows pool_rel_dom: "dom (free P) \<subseteq> range cap_of"
    and pool_rel_absent: "c \<notin> dom (free P) \<Longrightarrow> fl c = []"
    and pool_rel_chain: "free P c = Some q \<Longrightarrow> chain (heap P) q (fl c) \<and> distinct (fl c)"
    and pool_rel_idle: "p \<in> set (fl c) \<Longrightarrow> \<exists>b. heap P p = Some b \<and> idle c b"
    and pool_rel_disj: "set (fl c) \<inter> owned = {}"
    and pool_rel_heap: "dom (heap P) = owned \<union> (\<Union>c. set (fl c))"
    and pool_rel_buf: "heap P p = Some b \<Longrightarrow> buf_ok b \<and> b_capacity b \<in> dom (free P) \<and> p < fresh P"
    and pool_rel_mem: "total_mem P = (\<Sum>p \<in> {..<fresh P}. kbytes (heap P) p)"
  using assms by (auto simp: pool_rel_def)

lemma pool_rel_fresh: "pool_rel P fl owned \<Longrightarrow> heap P (fresh P) = None"
  using pool_rel_buf by (cases "heap P (fresh P)") fastforce+

lemma pool_rel_other_class:
  "pool_rel P fl owned \<Longrightarrow> p \<in> set (fl c) \<Longrightarrow> p \<in> set (fl c') \<Longrightarrow> c = c'"
  by (metis idle_def option.inject pool_rel_idle)

lemma pool_rel_notin_fl:
  "pool_rel P fl owned \<Longrightarrow> p \<in> owned \<or> heap P p = None \<Longrightarrow> p \<notin> set (fl c)"
  using pool_rel_disj[of P fl owned c] pool_rel_idle[of P fl owned p c] by auto

lemma pool_relI:
  assumes "dom (free P) \<subseteq> range cap_of"
    and "\<And>c. c \<notin> dom (free P) \<Longrightarrow> fl c = []"
    and "\<And>c q. free P c = Some q \<Longrightarrow> chain (heap P) q (fl c) \<and> distinct (fl c)"
    and "\<And>c p. p \<in> set (fl c) \<Longrightarrow> \<exists>b. heap P p = Some b \<and> idle c b"
    and "\<And>c. set (fl c) \<inter> owned = {}"
    and "dom (heap P) = owned \<union> (\<Union>c. set (fl c))"
    and "\<And>p b. heap P p = Some b \<Longrightarrow> buf_ok b \<and> b_capacity b \<in> dom (free P) \<and> p < fresh P"
    and "total_mem P = (\<Sum>p \<in> {..<fresh P}. kbytes (heap P) p)"
  shows "pool_rel P fl owned"
  using assms unfolding pool_rel_def by auto

lemma pool_rel_eqI:
  assumes "pool_rel P fl owned" and "heap Q = heap P" and "free Q = free P" and "fresh Q = fresh P"
    and "total_mem Q = total_mem P"
  shows "pool_rel Q fl owned"
  using assms by (simp add: pool_rel_def)

text \<open>Writing to a buffer in use, without changing its capacity, leaves the free lists alone.\<close>

lemma pool_rel_write:
  assumes R: "pool_rel P fl owned" and p: "p \<in> owned" "heap P p = Some b"
    and b': "buf_ok b'" "b_capacity b' = b_capacity b"
  shows "pool_rel (P\<lparr>heap := (heap P)(p \<mapsto> b')\<rparr>) fl owned"
proof (rule pool_relI, goal_cases)
  case 1 show ?case using pool_rel_dom[OF R] by simp
next
  case (2 c) then show ?case using pool_rel_absent[OF R] by simp
next
  case (3 c q) then show ?case
    using pool_rel_chain[OF R] pool_rel_notin_fl[OF R, of p c] p by simp
next
  case (4 c r) then show ?case
    using pool_rel_idle[OF R, of r c] pool_rel_notin_fl[OF R, of p c] p by auto
next
  case (5 c) show ?case using R by (rule pool_rel_disj)
next
  case 6 show ?case using pool_rel_heap[OF R] p by auto
next
  case (7 r x) then show ?case
    using pool_rel_buf[OF R, of r x] pool_rel_buf[OF R p(2)] b' by (simp split: if_splits)
next
  case 8 show ?case using pool_rel_mem[OF R] p b' by (simp add: kbytes_upd_same)
qed

text \<open>A buffer made by \<open>new\<close> is not known to anyone else, and is accounted for.\<close>

lemma pool_rel_new:
  assumes R: "pool_rel P fl owned" and c: "c \<in> dom (free P)"
  shows "pool_rel (P\<lparr>heap := (heap P)(fresh P \<mapsto> io_buf_new (junk P (fresh P)) c),
                     fresh := Suc (fresh P), total_mem := total_mem P + nat (c div 1024)\<rparr>)
           fl (insert (fresh P) owned)"
proof (rule pool_relI, goal_cases)
  case 1 show ?case using pool_rel_dom[OF R] by simp
next
  case (2 c) then show ?case using pool_rel_absent[OF R] by simp
next
  case (3 c q) then show ?case
    using pool_rel_chain[OF R] pool_rel_notin_fl[OF R, of "fresh P" c] pool_rel_fresh[OF R] by simp
next
  case (4 c r) then show ?case
    using pool_rel_idle[OF R, of r c] pool_rel_notin_fl[OF R, of "fresh P" c] pool_rel_fresh[OF R]
    by auto
next
  case (5 c) show ?case
    using pool_rel_disj[OF R, of c] pool_rel_notin_fl[OF R, of "fresh P" c] pool_rel_fresh[OF R]
    by auto
next
  case 6 show ?case using pool_rel_heap[OF R] by auto
next
  case (7 r x)
  have "c \<in> range cap_of" using c pool_rel_dom[OF R] by blast
  then have "buf_ok (io_buf_new (junk P (fresh P)) c)" by auto
  with 7 show ?case
    using pool_rel_buf[OF R] c by (auto simp: less_Suc_eq split: if_splits)
next
  case 8 show ?case
    using pool_rel_mem[OF R] sum_kbytes_fresh[of "heap P" "fresh P"] pool_rel_fresh[OF R] by simp
qed

text \<open>Unlinking the first element of a free list hands it out.\<close>

lemma pool_rel_unlink:
  assumes R: "pool_rel P fl owned" and f: "free P c = Some (Some p)"
    and b: "heap P p = Some b"
  shows "\<exists>ps. fl c = p # ps \<and> idle c b \<and> p \<notin> owned \<and>
    pool_rel (P\<lparr>free := (free P)(c \<mapsto> b_next b), heap := (heap P)(p \<mapsto> b\<lparr>b_next := None\<rparr>)\<rparr>)
      (fl(c := ps)) (insert p owned)"
proof -
  from pool_rel_chain[OF R f] b obtain ps where
    fl: "fl c = p # ps" and ch: "chain (heap P) (b_next b) ps" and d: "p \<notin> set ps" "distinct ps"
    by (cases "fl c") auto
  have i: "idle c b" and o: "p \<notin> owned"
    using pool_rel_idle[OF R, of p c] pool_rel_disj[OF R, of c] fl b by auto
  have n: "p \<notin> set (fl c')" if "c' \<noteq> c" for c'
    using pool_rel_other_class[OF R, of p c c'] fl that by auto
  let ?P = "P\<lparr>free := (free P)(c \<mapsto> b_next b), heap := (heap P)(p \<mapsto> b\<lparr>b_next := None\<rparr>)\<rparr>"
  have "pool_rel ?P (fl(c := ps)) (insert p owned)"
  proof (rule pool_relI, goal_cases)
    case 1 show ?case using pool_rel_dom[OF R] f by auto
  next
    case (2 c') then show ?case using pool_rel_absent[OF R] f by (auto split: if_splits)
  next
    case (3 c' q) then show ?case
      using pool_rel_chain[OF R] ch d n by (auto split: if_splits)
  next
    case (4 c' r) then show ?case
      using pool_rel_idle[OF R, of r c'] fl d n by (auto split: if_splits)
  next
    case (5 c') show ?case
      using pool_rel_disj[OF R, of c'] pool_rel_disj[OF R, of c] fl d n by auto
  next
    case 6
    have "(\<Union>c. set (fl c)) = insert p (\<Union>c'. set ((fl(c := ps)) c'))"
      using fl by (auto split: if_splits) (metis (mono_tags) list.set_intros(1) set_ConsD list.set_intros(2))+
    then show ?case using pool_rel_heap[OF R] b by auto
  next
    case (7 r x) then show ?case
      using pool_rel_buf[OF R, of r x] pool_rel_buf[OF R b] f by (auto split: if_splits)
  next
    case 8 show ?case using pool_rel_mem[OF R] b by (simp add: kbytes_upd_same)
  qed
  with fl i o show ?thesis by blast
qed

text \<open>Linking a buffer in use in front of its free list takes it back.\<close>

lemma pool_rel_link:
  assumes R: "pool_rel P fl owned" and p: "p \<in> owned" "heap P p = Some b"
    and f: "free P (b_capacity b) = Some q"
  shows "pool_rel (P\<lparr>heap := (heap P)(p \<mapsto> b\<lparr>b_length := 0, b_head := 0, b_next := q\<rparr>),
                     free := (free P)(b_capacity b \<mapsto> Some p)\<rparr>)
           (fl(b_capacity b := p # fl (b_capacity b))) (owned - {p})"
    (is "pool_rel ?P _ _")
proof -
  let ?c = "b_capacity b"
  have n: "p \<notin> set (fl c)" for c using R p by (simp add: pool_rel_notin_fl)
  show ?thesis
  proof (rule pool_relI, goal_cases)
    case 1 show ?case using pool_rel_dom[OF R] f by auto
  next
    case (2 c) then show ?case using pool_rel_absent[OF R] by (auto split: if_splits)
  next
    case (3 c r) then show ?case
      using pool_rel_chain[OF R] n f by (auto split: if_splits)
  next
    case (4 c r) then show ?case
      using pool_rel_idle[OF R, of r c] n by (auto simp: idle_def split: if_splits)
  next
    case (5 c) show ?case using pool_rel_disj[OF R, of c] by auto
  next
    case 6
    have "(\<Union>c. set ((fl(?c := p # fl ?c)) c)) = insert p (\<Union>c. set (fl c))"
      by (auto split: if_splits)
    then show ?case using pool_rel_heap[OF R] p by auto
  next
    case (7 r x)
    have "buf_ok (b\<lparr>b_length := 0, b_head := 0, b_next := q\<rparr>)"
      using pool_rel_buf[OF R p(2)] by (simp add: buf_ok_def)
    with 7 show ?case
      using pool_rel_buf[OF R, of r x] pool_rel_buf[OF R p(2)] by (auto split: if_splits)
  next
    case 8 show ?case using pool_rel_mem[OF R] p by (simp add: kbytes_upd_same)
  qed
qed

lemma pool_rel_link_eq:
  assumes "pool_rel P fl owned" and "p \<in> owned" and "heap P p = Some b"
    and "free P (b_capacity b) = Some q"
    and "heap Q = (heap P)(p \<mapsto> b\<lparr>b_length := 0, b_head := 0, b_next := q\<rparr>)"
    and "free Q = (free P)(b_capacity b \<mapsto> Some p)" and "fresh Q = fresh P"
    and "total_mem Q = total_mem P" and "fl' = fl(b_capacity b := p # fl (b_capacity b))"
    and "owned' = owned - {p}"
  shows "pool_rel Q fl' owned'"
  unfolding assms(9,10)
  by (rule pool_rel_eqI[OF pool_rel_link[OF assms(1-4)]]) (simp_all add: assms(5-8))

section \<open>The constructor establishes the relation\<close>

lemma chain_snoc:
  assumes "chain h r (xs @ [p])" and "h p = Some b" and "distinct (xs @ [p])"
    and "q \<notin> set (xs @ [p])" and "b_next c = None"
  shows "chain (h(p \<mapsto> b\<lparr>b_next := Some q\<rparr>, q \<mapsto> c)) r (xs @ [p, q])"
  using assms
proof (induction xs arbitrary: r)
  case Nil
  then show ?case by auto
next
  case (Cons x xs)
  then obtain bx where bx: "r = Some x" "h x = Some bx" "chain h (b_next bx) (xs @ [p])"
    by auto
  define h' where "h' = h(p \<mapsto> b\<lparr>b_next := Some q\<rparr>, q \<mapsto> c)"
  have "chain h' (b_next bx) (xs @ [p, q])" unfolding h'_def
    by (rule Cons.IH) (use bx Cons.prems in auto)
  moreover have "h' x = Some bx" using bx Cons.prems by (auto simp: h'_def)
  ultimately show ?case using bx unfolding h'_def[symmetric] by simp
qed

text \<open>One more buffer at the end of a free list: the body of the constructor's loop.\<close>

lemma pool_rel_snoc:
  assumes R: "pool_rel P fl owned" and fl: "fl c = xs @ [p]"
  defines "q \<equiv> fresh P" and "nb \<equiv> io_buf_new (junk P (fresh P)) c"
  shows "pool_rel (set_next p (Some q) (P\<lparr>heap := (heap P)(q \<mapsto> nb), fresh := Suc q,
                     total_mem := total_mem P + nat (c div 1024)\<rparr>))
           (fl(c := xs @ [p, q])) owned"
proof -
  obtain b where b: "heap P p = Some b" "idle c b"
    using pool_rel_idle[OF R, of p c] fl by auto
  obtain r where r: "free P c = Some r"
    using pool_rel_absent[OF R, of c] fl by force
  have qn: "heap P q = None" using pool_rel_fresh[OF R] by (simp add: q_def)
  have pq: "p \<noteq> q" using b qn by auto
  have qfl: "q \<notin> set (fl d)" for d using pool_rel_notin_fl[OF R] qn by blast
  have qo: "q \<notin> owned" using pool_rel_heap[OF R] qn by auto
  have pd: "p \<notin> set (fl d)" if "d \<noteq> c" for d
    using pool_rel_other_class[OF R, of p c d] fl that by auto
  let ?h = "(heap P)(p \<mapsto> b\<lparr>b_next := Some q\<rparr>, q \<mapsto> nb)"
  have ch: "chain ?h r (xs @ [p, q]) \<and> distinct (xs @ [p, q])"
    using pool_rel_chain[OF R r] fl b qfl[of c] chain_snoc[of "heap P" r xs p b q nb]
    by (auto simp: nb_def)
  have nb: "buf_ok nb" "idle c nb" "b_capacity nb = c" "c \<in> dom (free P)"
    using r pool_rel_dom[OF R] by (auto simp: nb_def idle_def)
  have pb: "buf_ok b" "b_capacity b \<in> dom (free P)" "p < fresh P"
    using pool_rel_buf[OF R b(1)] by auto
  have eq: "set_next p (Some q) (P\<lparr>heap := (heap P)(q \<mapsto> nb), fresh := Suc q,
       total_mem := total_mem P + nat (c div 1024)\<rparr>) =
     P\<lparr>heap := ?h, fresh := Suc q, total_mem := total_mem P + nat (c div 1024)\<rparr>"
    using b pq by (simp add: set_next_def fun_upd_twist)
  show ?thesis unfolding eq
  proof (rule pool_relI, goal_cases)
    case 1 show ?case using pool_rel_dom[OF R] by simp
  next
    case (2 d) then show ?case using pool_rel_absent[OF R] nb(4) by (auto split: if_splits)
  next
    case (3 d s) then show ?case
      using pool_rel_chain[OF R] r ch qfl pd by (auto split: if_splits)
  next
    case (4 d x) then show ?case
      using pool_rel_idle[OF R, of x d] fl b nb pd qfl by (auto simp: idle_def split: if_splits)
  next
    case (5 d) show ?case using pool_rel_disj[OF R, of d] pool_rel_disj[OF R, of c] fl qo by auto
  next
    case 6
    have "(\<Union>d. set ((fl(c := xs @ [p, q])) d)) = insert q (\<Union>d. set (fl d))"
      using fl by (force split: if_splits)
    then show ?case using pool_rel_heap[OF R] b by auto
  next
    case (7 x y) then show ?case
      using pool_rel_buf[OF R, of x y] pb nb by (auto simp: q_def split: if_splits)
  next
    case 8
    have "kbytes ?h = kbytes ((heap P)(q \<mapsto> nb))"
      using kbytes_upd_same[of "(heap P)(q \<mapsto> nb)" p b "b\<lparr>b_next := Some q\<rparr>"] b pq
      by (simp add: fun_upd_twist)
    then show ?case
      using pool_rel_mem[OF R] sum_kbytes_fresh[of "heap P" "fresh P" nb] qn nb(3) by (simp add: q_def)
  qed
qed

lemma init_chain_rel:
  assumes "pool_rel (P\<lparr>total_mem := t\<rparr>) fl owned" and "fl c = xs @ [p]"
  shows "\<exists>ys. length ys = k \<and>
    pool_rel ((init_chain k c p P)\<lparr>total_mem := t + k * nat (c div 1024)\<rparr>)
      (fl(c := xs @ [p] @ ys)) owned \<and>
    free (init_chain k c p P) = free P \<and> total_mem (init_chain k c p P) = total_mem P"
  using assms
proof (induction k arbitrary: P t fl xs p)
  case 0
  then show ?case by (intro exI[of _ "[]"]) (simp add: fun_upd_idem)
next
  case (Suc k)
  let ?q = "fresh P"
  let ?P = "set_next p (Some ?q) (snd (new_io_buf P c))"
  have "pool_rel (?P\<lparr>total_mem := t + nat (c div 1024)\<rparr>) (fl(c := xs @ [p, ?q])) owned"
  proof -
    from pool_rel_snoc[OF Suc.prems]
    have "pool_rel (set_next p (Some ?q) (P\<lparr>heap := (heap P)(?q \<mapsto> io_buf_new (junk P ?q) c),
        fresh := Suc ?q, total_mem := t + nat (c div 1024)\<rparr>)) (fl(c := xs @ [p, ?q])) owned"
      by (auto elim: pool_rel_eqI simp: set_next_def)
    then show ?thesis by (rule pool_rel_eqI) (simp_all add: set_next_def new_io_buf_def)
  qed
  from Suc.IH[OF this, of "xs @ [p]" ?q] obtain ys where ys: "length ys = k"
    "pool_rel ((init_chain k c ?q ?P)\<lparr>total_mem := t + nat (c div 1024) + k * nat (c div 1024)\<rparr>)
       ((fl(c := xs @ [p, ?q]))(c := (xs @ [p]) @ [?q] @ ys)) owned"
    "free (init_chain k c ?q ?P) = free ?P" "total_mem (init_chain k c ?q ?P) = total_mem ?P"
    by (metis append.assoc append_Cons append_Nil fun_upd_same)
  moreover have "init_chain (Suc k) c p P = init_chain k c ?q ?P"
    by (simp add: new_io_buf_def)
  moreover have "free ?P = free P" "total_mem ?P = total_mem P"
    by (simp_all add: set_next_def new_io_buf_def)
  ultimately have "length (?q # ys) = Suc k \<and>
    pool_rel ((init_chain (Suc k) c p P)\<lparr>total_mem := t + Suc k * nat (c div 1024)\<rparr>)
      (fl(c := xs @ [p] @ ?q # ys)) owned \<and>
    free (init_chain (Suc k) c p P) = free P \<and> total_mem (init_chain (Suc k) c p P) = total_mem P"
    by (simp add: add.assoc del: init_chain.simps)
  then show ?case by (rule exI)
qed

lemma init_memmory_rel:
  assumes R: "pool_rel P fl owned" and c: "c \<in> range cap_of" "c \<notin> dom (free P)" and n: "0 < num"
  shows "\<exists>ps. length ps = num \<and> pool_rel (init_memmory c num P) (fl(c := ps)) owned \<and>
    dom (free (init_memmory c num P)) = insert c (dom (free P)) \<and>
    total_mem (init_memmory c num P) = total_mem P + nat (c div 1024) * num"
proof -
  let ?p = "fresh P"
  let ?P1 = "(snd (new_io_buf P c))\<lparr>free := (free P)(c \<mapsto> Some ?p)\<rparr>"
  obtain k where k: "num = Suc k" using n by (cases num) auto
  have flc: "fl c = []" using pool_rel_absent[OF R c(2)] .
  have "pool_rel (P\<lparr>free := (free P)(c \<mapsto> None)\<rparr>) fl owned"
    using R c flc unfolding pool_rel_def by auto
  then have R1: "pool_rel (P\<lparr>free := (free P)(c \<mapsto> None), heap := (heap P)(?p \<mapsto> io_buf_new (junk P ?p) c),
      fresh := Suc ?p, total_mem := total_mem P + nat (c div 1024)\<rparr>) fl (insert ?p owned)"
    using pool_rel_new[of "P\<lparr>free := (free P)(c \<mapsto> None)\<rparr>" fl owned c] by simp
  have "?p \<notin> owned" using pool_rel_fresh[OF R] pool_rel_heap[OF R] by auto
  then have "pool_rel (?P1\<lparr>total_mem := total_mem P + nat (c div 1024)\<rparr>) (fl(c := [?p])) owned"
    using flc
    by (intro pool_rel_link_eq[OF R1, of ?p "io_buf_new (junk P ?p) c" None])
      (auto simp: new_io_buf_def io_buf_new_def)
  from init_chain_rel[OF this, of c "[]" ?p k] obtain ys where ys: "length ys = k"
    "pool_rel ((init_chain k c ?p ?P1)\<lparr>total_mem := total_mem P + nat (c div 1024) + k * nat (c div 1024)\<rparr>)
       ((fl(c := [?p]))(c := [] @ [?p] @ ys)) owned"
    "free (init_chain k c ?p ?P1) = free ?P1" "total_mem (init_chain k c ?p ?P1) = total_mem ?P1"
    by (metis append_Nil fun_upd_same)
  define C where "C = init_chain k c ?p ?P1"
  have m: "total_mem C = total_mem P" and f: "free C = (free P)(c \<mapsto> Some ?p)"
    using ys(3,4) by (simp_all add: C_def new_io_buf_def)
  have i: "init_memmory c num P = C\<lparr>total_mem := total_mem C + nat (c div 1024) * num\<rparr>"
    by (simp add: init_memmory_def k new_io_buf_def C_def Let_def)
  have t: "total_mem P + nat (c div 1024) + k * nat (c div 1024) = total_mem C + nat (c div 1024) * num"
    by (simp add: m k)
  from ys(2) have "pool_rel (init_memmory c num P) (fl(c := ?p # ys)) owned"
    unfolding i C_def[symmetric] t by simp
  moreover have "length (?p # ys) = num" by (simp add: k ys(1))
  moreover have "dom (free (init_memmory c num P)) = insert c (dom (free P))"
    "total_mem (init_memmory c num P) = total_mem P + nat (c div 1024) * num"
    by (simp_all add: i m f)
  ultimately show ?thesis by blast
qed

lemma pool_rel_empty:
  "pool_rel \<lparr>heap = Map.empty, free = Map.empty, total_mem = 0, fresh = 0, junk = j\<rparr> (\<lambda>_. []) {}"
  by (rule pool_relI) auto

lemma range_cap_of:
  "range cap_of = {cap_of m4K, cap_of m16K, cap_of m64K, cap_of m256K, cap_of m1M, cap_of m4M, cap_of m8M}"
  by (auto simp del: cap_of.simps) (metis mem_cap.exhaust)

definition pool_stage :: "pool \<Rightarrow> int set \<Rightarrow> nat \<Rightarrow> bool" where
  "pool_stage P C t \<longleftrightarrow> (\<exists>fl. pool_rel P fl {}) \<and> dom (free P) = C \<and> total_mem P = t"

lemma pool_stage_init:
  assumes "pool_stage P C t" and "cap_of c \<notin> C" and "0 < num"
  shows "pool_stage (init_memmory (cap_of c) num P) (insert (cap_of c) C)
    (t + nat (cap_of c div 1024) * num)"
proof -
  from assms(1) obtain fl where "pool_rel P fl {}" and C: "dom (free P) = C" "total_mem P = t"
    by (auto simp: pool_stage_def)
  with init_memmory_rel[of P fl "{}" "cap_of c" num] assms(2,3) show ?thesis
    unfolding pool_stage_def by blast
qed

lemma buf_pool_new_stage: "pool_stage (buf_pool_new j) (range cap_of) 334240"
proof -
  let ?P = "\<lparr>heap = Map.empty, free = Map.empty, total_mem = 0, fresh = 0, junk = j\<rparr>"
  have "pool_stage ?P {} 0"
    unfolding pool_stage_def using pool_rel_empty by (auto intro: exI)
  from pool_stage_init[OF this, of m4K 5000]
  have "pool_stage (init_memmory (cap_of m4K) 5000 ?P) {cap_of m4K} 20000" by simp
  from pool_stage_init[OF this, of m16K 1000, THEN pool_stage_init, of m64K 500,
      THEN pool_stage_init, of m256K 200, THEN pool_stage_init, of m1M 50,
      THEN pool_stage_init, of m4M 20, THEN pool_stage_init, of m8M 10]
  show ?thesis
    by (simp add: buf_pool_new_def range_cap_of insert_commute)
qed

lemma buf_pool_new_inv: "pool_inv (buf_pool_new j) {}"
  using buf_pool_new_stage[of j] by (auto simp: pool_inv_def pool_stage_def EXTRA_MEM_LIMIT_def)

text \<open>The first caller finds a pool in order, and all callers find the same.\<close>

lemma buf_pool_instance_once:
  "\<exists>P. buf_pool_instance None j = Inr (P, Some P) \<and> pool_inv P {} \<and> buf_pool_instance (Some P) j' = Inr (P, Some P)"
  by (simp add: buf_pool_instance_def pthread_once_def buf_pool_new_inv)

lemma total_mem_new [simp]: "total_mem (buf_pool_new j) = 334240"
  using buf_pool_new_stage[of j] by (simp add: pool_stage_def)

section \<open>Contracts of the operations\<close>

lemma pool_inv_buf:
  assumes "pool_inv P owned" and "p \<in> owned"
  shows "\<exists>b. heap P p = Some b \<and> buf_ok b"
proof -
  from assms obtain fl where R: "pool_rel P fl owned" by (auto simp: pool_inv_def)
  from pool_rel_heap[OF R] assms(2) obtain b where "heap P p = Some b" by auto
  with pool_rel_buf[OF R] show ?thesis by blast
qed

lemma pool_inv_write:
  assumes "pool_inv P owned" and "p \<in> owned" and "heap P p = Some b"
    and "buf_ok b'" and "b_capacity b' = b_capacity b"
  shows "pool_inv (P\<lparr>heap := (heap P)(p \<mapsto> b')\<rparr>) owned"
  using assms pool_rel_write[OF _ assms(2-5)] by (fastforce simp: pool_inv_def)

lemma classD: "dom (free P) = range cap_of \<Longrightarrow> \<exists>q. free P (cap_of c) = Some q"
  by (metis domD rangeI)

lemma pool_inv_class:
  assumes "pool_inv P owned" and "heap P p = Some b"
  shows "\<exists>c. b_capacity b = cap_of c"
proof -
  from assms(1) obtain fl where R: "pool_rel P fl owned" and d: "dom (free P) = range cap_of"
    by (auto simp: pool_inv_def)
  from pool_rel_buf[OF R assms(2)] have "b_capacity b \<in> dom (free P)" by simp
  then show ?thesis unfolding d by auto
qed

lemma cap_of_le_max: "cap_of c \<le> cap_of m8M"
  by (cases c) simp_all

text \<open>
  \<open>alloc_buf\<close> on the abstract state: the first buffer of the free list of the chosen class if
  there is one, else a new buffer while the memory budget lasts.
\<close>

lemma alloc_buf_linked:
  assumes R: "pool_rel P fl owned" and d: "dom (free P) = range cap_of"
    and c: "pick_cap n = Some c" and f: "fl (cap_of c) = p # ps"
  shows "\<exists>P' b. alloc_buf P n = Inr (Some p, P') \<and> p \<notin> owned \<and> heap P p = Some b \<and>
    heap P' = (heap P)(p \<mapsto> b\<lparr>b_next := None\<rparr>) \<and> idle (cap_of c) b \<and>
    dom (free P') = range cap_of \<and> total_mem P' = total_mem P \<and>
    pool_rel P' (fl(cap_of c := ps)) (insert p owned)"
proof -
  obtain q where q: "free P (cap_of c) = Some q" using classD[OF d] by blast
  with pool_rel_chain[OF R q] f obtain b where b: "q = Some p" "heap P p = Some b" by auto
  let ?Q = "P\<lparr>free := (free P)(cap_of c \<mapsto> b_next b), heap := (heap P)(p \<mapsto> b\<lparr>b_next := None\<rparr>)\<rparr>"
  let ?P' = "set_next p None (P\<lparr>free := (free P)(cap_of c \<mapsto> b_next b)\<rparr>)"
  from pool_rel_unlink[OF R q[unfolded b(1)] b(2)] f
  have i: "idle (cap_of c) b" "p \<notin> owned" and Q: "pool_rel ?Q (fl(cap_of c := ps)) (insert p owned)"
    by auto
  have "alloc_buf P n = Inr (Some p, ?P')"
    using c q b by (simp add: alloc_buf_def)
  moreover have "heap ?P' = (heap P)(p \<mapsto> b\<lparr>b_next := None\<rparr>)"
    using b by (simp add: set_next_def)
  moreover have "pool_rel ?P' (fl(cap_of c := ps)) (insert p owned)"
    by (rule pool_rel_eqI[OF Q]) (use b in \<open>simp_all add: set_next_def\<close>)
  moreover have "dom (free ?P') = range cap_of" "total_mem ?P' = total_mem P"
    using d by (auto simp: set_next_def)
  ultimately show ?thesis using i b by blast
qed

lemma alloc_buf_fresh:
  assumes R: "pool_rel P fl owned" and d: "dom (free P) = range cap_of"
    and c: "pick_cap n = Some c" and f: "fl (cap_of c) = []"
    and m: "total_mem P + nat (cap_of c div 1024) < EXTRA_MEM_LIMIT"
  shows "\<exists>P'. alloc_buf P n = Inr (Some (fresh P), P') \<and> fresh P \<notin> owned \<and>
    heap P' = (heap P)(fresh P \<mapsto> io_buf_new (junk P (fresh P)) (cap_of c)) \<and>
    dom (free P') = range cap_of \<and> total_mem P' = total_mem P + nat (cap_of c div 1024) \<and>
    pool_rel P' fl (insert (fresh P) owned)"
proof -
  obtain q where q: "free P (cap_of c) = Some q" using classD[OF d] by blast
  with pool_rel_chain[OF R q] f have qn: "q = None" by auto
  have e: "(free P)(cap_of c \<mapsto> None) = free P" using q qn by (simp add: fun_upd_idem)
  have cd: "cap_of c \<in> dom (free P)" using d by auto
  let ?P' = "P\<lparr>free := free P, heap := (heap P)(fresh P \<mapsto> io_buf_new (junk P (fresh P)) (cap_of c)),
    fresh := Suc (fresh P), total_mem := total_mem P + nat (cap_of c div 1024)\<rparr>"
  have "alloc_buf P n = Inr (Some (fresh P), ?P')"
    using c q qn m e by (simp add: alloc_buf_def new_io_buf_def Let_def)
  moreover have "pool_rel ?P' fl (insert (fresh P) owned)"
    by (rule pool_rel_eqI[OF pool_rel_new[OF R cd]]) simp_all
  moreover have "fresh P \<notin> owned" using pool_rel_fresh[OF R] pool_rel_heap[OF R] by auto
  ultimately show ?thesis using d by auto
qed

lemma alloc_buf_exhausted:
  assumes R: "pool_rel P fl owned" and d: "dom (free P) = range cap_of"
    and c: "pick_cap n = Some c" and f: "fl (cap_of c) = []"
    and m: "total_mem P + nat (cap_of c div 1024) \<ge> EXTRA_MEM_LIMIT"
  shows "alloc_buf P n = Inl Exit_failure"
proof -
  obtain q where q: "free P (cap_of c) = Some q" using classD[OF d] by blast
  with pool_rel_chain[OF R q] f have "q = None" by auto
  with c q m show ?thesis by (simp add: alloc_buf_def Let_def)
qed

lemma alloc_buf_too_big: "alloc_buf P n = Inr (None, P')  \<longleftrightarrow> cap_of m8M < n \<and> P' = P"
  using pick_cap_None[of n]
  by (auto simp: alloc_buf_def Let_def new_io_buf_def res_bind_Inr_iff
      split: option.splits if_splits)

lemma alloc_buf_spec:
  assumes I: "pool_inv P owned" and a: "alloc_buf P n = Inr (Some p, P')"
  shows "p \<notin> owned \<and> pool_inv P' (insert p owned) \<and> (\<forall>q \<in> owned. heap P' q = heap P q) \<and>
    (\<exists>c b. pick_cap n = Some c \<and> heap P' p = Some b \<and> idle (cap_of c) b \<and> b_next b = None \<and> buf_ok b)"
proof -
  from I obtain fl where R: "pool_rel P fl owned" and d: "dom (free P) = range cap_of"
    and m: "total_mem P < EXTRA_MEM_LIMIT" by (auto simp: pool_inv_def)
  obtain c where c: "pick_cap n = Some c"
    using a by (auto simp: alloc_buf_def split: option.splits)
  have ok: "\<exists>b. heap P' p = Some b \<and> buf_ok b" if "pool_inv P' (insert p owned)"
    using pool_inv_buf[OF that] by simp
  show ?thesis
  proof (cases "fl (cap_of c)")
    case (Cons r ps)
    from alloc_buf_linked[OF R d c Cons] a obtain b where
      b: "p = r" "p \<notin> owned" "heap P' = (heap P)(p \<mapsto> b\<lparr>b_next := None\<rparr>)" "idle (cap_of c) b"
      and I': "dom (free P') = range cap_of" "total_mem P' = total_mem P"
        "pool_rel P' (fl(cap_of c := ps)) (insert p owned)"
      by auto
    from I' m have "pool_inv P' (insert p owned)" by (auto simp: pool_inv_def)
    with b c ok show ?thesis by (auto simp: idle_def)
  next
    case Nil
    have m': "total_mem P + nat (cap_of c div 1024) < EXTRA_MEM_LIMIT"
      using alloc_buf_exhausted[OF R d c Nil] a by (cases "EXTRA_MEM_LIMIT \<le> total_mem P + nat (cap_of c div 1024)") auto
    from alloc_buf_fresh[OF R d c Nil m'] a m' have
      "p \<notin> owned" "heap P' = (heap P)(p \<mapsto> io_buf_new (junk P p) (cap_of c))"
      "pool_inv P' (insert p owned)"
      by (auto simp: pool_inv_def)
    with c ok show ?thesis by (auto simp: idle_def)
  qed
qed

lemma alloc_buf_fault: "pool_inv P owned \<Longrightarrow> alloc_buf P n = Inl e \<Longrightarrow> e = Exit_failure"
proof -
  assume I: "pool_inv P owned" and a: "alloc_buf P n = Inl e"
  from I obtain fl where R: "pool_rel P fl owned" and d: "dom (free P) = range cap_of"
    by (auto simp: pool_inv_def)
  obtain c where c: "pick_cap n = Some c"
    using a by (auto simp: alloc_buf_def split: option.splits)
  show "e = Exit_failure"
    using a alloc_buf_linked[OF R d c] alloc_buf_fresh[OF R d c] alloc_buf_exhausted[OF R d c]
    by (cases "fl (cap_of c)"; cases "total_mem P + nat (cap_of c div 1024) < EXTRA_MEM_LIMIT") auto
qed

lemma alloc_buf_total:
  assumes I: "pool_inv P owned" and n: "n \<le> cap_of m8M"
    and m: "total_mem P + 8192 < EXTRA_MEM_LIMIT"
  shows "\<exists>p P'. alloc_buf P n = Inr (Some p, P')"
proof -
  from I obtain fl where R: "pool_rel P fl owned" and d: "dom (free P) = range cap_of"
    by (auto simp: pool_inv_def)
  obtain c where c: "pick_cap n = Some c" using n pick_cap_None[of n] by (cases "pick_cap n") auto
  have "total_mem P + nat (cap_of c div 1024) < EXTRA_MEM_LIMIT"
    using m by (cases c) auto
  then show ?thesis
    using alloc_buf_linked[OF R d c] alloc_buf_fresh[OF R d c] by (cases "fl (cap_of c)") blast+
qed

lemma alloc_buf_first:
  assumes "n \<le> cap_of m8M"
  shows "\<exists>p P'. alloc_buf (buf_pool_new j) n = Inr (Some p, P')"
  by (rule alloc_buf_total[OF buf_pool_new_inv assms]) (simp add: EXTRA_MEM_LIMIT_def)

lemma revert_spec:
  assumes I: "pool_inv P owned" and p: "p \<in> owned"
  shows "\<exists>P'. revert P p = Inr P' \<and> pool_inv P' (owned - {p}) \<and>
    (\<forall>q \<in> owned - {p}. heap P' q = heap P q)"
proof -
  from I obtain fl where R: "pool_rel P fl owned" and d: "dom (free P) = range cap_of"
    and m: "total_mem P < EXTRA_MEM_LIMIT" by (auto simp: pool_inv_def)
  from pool_inv_buf[OF I p] obtain b where b: "heap P p = Some b" by blast
  with pool_rel_buf[OF R] obtain q where q: "free P (b_capacity b) = Some q" by blast
  let ?P' = "P\<lparr>heap := (heap P)(p \<mapsto> b\<lparr>b_length := 0, b_head := 0, b_next := q\<rparr>),
    free := (free P)(b_capacity b \<mapsto> Some p)\<rparr>"
  have "revert P p = Inr ?P'" using b q by (simp add: revert_def Let_def)
  moreover have "pool_inv ?P' (owned - {p})"
    using pool_rel_link[OF R p b q] d m q by (auto simp: pool_inv_def)
  ultimately show ?thesis by auto
qed

section \<open>The interface the connection buffers rely on\<close>

text \<open>
  A store hands out buffers that nobody else holds and takes them back; the holder may write
  to what it holds. The lemma proved once from these laws is the exchange both
  \<open>input_buf::read_data\<close> and \<open>output_buf::send_data\<close> perform when a buffer is too small:
  allocate, copy, return the old one.
\<close>

locale buffer_store =
  fixes inv :: "'p \<Rightarrow> nat set \<Rightarrow> bool"
    and look :: "'p \<Rightarrow> nat \<rightharpoonup> io_buf"
    and alloc :: "'p \<Rightarrow> int \<Rightarrow> (nat option \<times> 'p) res"
    and release :: "'p \<Rightarrow> nat \<Rightarrow> 'p res"
    and store :: "'p \<Rightarrow> nat \<Rightarrow> io_buf \<Rightarrow> 'p"
  assumes look_law: "inv P own \<Longrightarrow> p \<in> own \<Longrightarrow> \<exists>b. look P p = Some b \<and> buf_ok b"
    and alloc_law: "inv P own \<Longrightarrow> alloc P n = Inr (Some p, P') \<Longrightarrow>
      p \<notin> own \<and> inv P' (insert p own) \<and> (\<forall>q \<in> own. look P' q = look P q) \<and>
      (\<exists>b. look P' p = Some b \<and> buf_ok b \<and> n \<le> b_capacity b \<and> b_length b = 0 \<and> b_head b = 0)"
    and release_law: "inv P own \<Longrightarrow> p \<in> own \<Longrightarrow> \<exists>P'. release P p = Inr P' \<and>
      inv P' (own - {p}) \<and> (\<forall>q \<in> own - {p}. look P' q = look P q)"
    and store_law: "inv P own \<Longrightarrow> p \<in> own \<Longrightarrow> look P p = Some b \<Longrightarrow> buf_ok b' \<Longrightarrow>
      b_capacity b' = b_capacity b \<Longrightarrow>
      inv (store P p b') own \<and> look (store P p b') = (look P)(p \<mapsto> b')"
begin

lemma exchange:
  assumes I: "inv P own" and p: "p \<in> own" and b: "look P p = Some b" "b_head b = 0"
    and a: "alloc P n = Inr (Some q, P1)" and n: "b_length b \<le> n"
  shows "\<exists>nb nb' P2. look P1 q = Some nb \<and> look P1 p = Some b \<and> io_buf_copy nb b = Inr nb' \<and>
    release (store P1 q nb') p = Inr P2 \<and> inv P2 (insert q (own - {p})) \<and> q \<notin> own \<and>
    look P2 q = Some nb' \<and> buf_ok nb' \<and> b_head nb' = 0 \<and> bytes nb' = bytes b \<and>
    b_length nb' = b_length b \<and> n \<le> b_capacity nb' \<and> b_capacity nb' = b_capacity nb \<and>
    (\<forall>r \<in> own - {p}. look P2 r = look P r)"
proof -
  from alloc_law[OF I a] obtain nb where
    q: "q \<notin> own" and I1: "inv P1 (insert q own)" and f: "\<forall>r \<in> own. look P1 r = look P r"
    and nb: "look P1 q = Some nb" "buf_ok nb" "n \<le> b_capacity nb" by blast
  have okb: "buf_ok b" using look_law[OF I p] b by simp
  from io_buf_copy_spec[OF nb(2) okb b(2)] n nb(3) obtain nb' where
    c: "io_buf_copy nb b = Inr nb'" "buf_ok nb'" "b_head nb' = 0" "bytes nb' = bytes b"
      "b_length nb' = b_length b" "b_capacity nb' = b_capacity nb" by auto
  let ?P1 = "store P1 q nb'"
  from store_law[OF I1 _ nb(1) c(2,6)]
  have I2: "inv ?P1 (insert q own)" and l2: "look ?P1 = (look P1)(q \<mapsto> nb')" by simp_all
  from release_law[OF I2, of p] p obtain P2 where
    P2: "release ?P1 p = Inr P2" "inv P2 (insert q own - {p})"
      "\<forall>r \<in> insert q own - {p}. look P2 r = look ?P1 r" by auto
  have "insert q own - {p} = insert q (own - {p})" using p q by auto
  then have "inv P2 (insert q (own - {p}))" using P2(2) by simp
  moreover have "look P2 q = Some nb'"
    using P2(3)[rule_format, of q] l2 p q by auto
  moreover have "\<forall>r \<in> own - {p}. look P2 r = look P r"
    using P2(3) l2 f q by auto
  moreover have "look P1 p = Some b" using f p b by simp
  ultimately show ?thesis using nb c P2(1) q by auto
qed

end

definition write_buf :: "pool \<Rightarrow> nat \<Rightarrow> io_buf \<Rightarrow> pool" where
  "write_buf P p b = P\<lparr>heap := (heap P)(p \<mapsto> b)\<rparr>"

lemma heap_write_buf [simp]: "heap (write_buf P p b) = (heap P)(p \<mapsto> b)"
  by (simp add: write_buf_def)

interpretation pool: buffer_store pool_inv heap alloc_buf revert write_buf
proof (unfold_locales, goal_cases)
  case (1 P own p) then show ?case by (rule pool_inv_buf)
next
  case (2 P own n p P') then show ?case
    using alloc_buf_spec[OF 2] pick_cap_Some(1)[of n] by (fastforce simp: idle_def)
next
  case (3 P own p) then show ?case by (rule revert_spec)
next
  case (4 P own p b b') then show ?case
    using pool_inv_write[OF 4] by (simp add: write_buf_def)
qed

section \<open>Sequences of calls\<close>

text \<open>
  Clients of the pool, seen from outside: they ask for buffers, write to buffers they hold and
  return buffers they hold.
\<close>

datatype pool_op = Alloc int | Return nat | Write nat io_buf

fun client_step :: "pool \<times> nat set \<Rightarrow> pool_op \<Rightarrow> (pool \<times> nat set) res" where
  "client_step (P, own) (Alloc n) =
     res_bind (alloc_buf P n) (\<lambda>(r, P'). Inr (P', case r of None \<Rightarrow> own | Some p \<Rightarrow> insert p own))"
| "client_step (P, own) (Return p) =
     (if p \<in> own then res_bind (revert P p) (\<lambda>P'. Inr (P', own - {p})) else Inr (P, own))"
| "client_step (P, own) (Write p b') =
     (case heap P p of
        Some b \<Rightarrow> if p \<in> own \<and> buf_ok b' \<and> b_capacity b' = b_capacity b
                  then Inr (write_buf P p b', own) else Inr (P, own)
      | None \<Rightarrow> Inr (P, own))"

fun client_inv :: "pool \<times> nat set \<Rightarrow> bool" where
  "client_inv (P, own) \<longleftrightarrow> pool_inv P own"

lemma client_step_inv: "client_inv s \<Longrightarrow> client_step s e = Inr s' \<Longrightarrow> client_inv s'"
proof (cases s; cases e)
  fix P own n
  assume "client_inv s" "client_step s e = Inr s'" and s: "s = (P, own)" and e: "e = Alloc n"
  then obtain r P' where a: "alloc_buf P n = Inr (r, P')"
    and s': "s' = (P', case r of None \<Rightarrow> own | Some p \<Rightarrow> insert p own)" and I: "pool_inv P own"
    by (auto simp: res_bind_Inr_iff)
  show "client_inv s'"
    using a s' I alloc_buf_spec[OF I] alloc_buf_too_big[of P n P'] by (cases r) auto
next
  fix P own p
  assume "client_inv s" "client_step s e = Inr s'" and "s = (P, own)" and "e = Return p"
  then show "client_inv s'" using revert_spec[of P own p]
    by (auto simp: res_bind_Inr_iff split: if_splits)
next
  fix P own p b'
  assume "client_inv s" "client_step s e = Inr s'" and "s = (P, own)" and "e = Write p b'"
  then show "client_inv s'" using pool.store_law[of P own p _ b']
    by (auto split: option.splits if_splits)
qed

interpretation client: invariant_steps client_step client_inv
  by unfold_locales (rule client_step_inv)

text \<open>
  C2: in every state that clients can reach from the constructed pool by asking for, writing to
  and returning buffers they hold, a buffer handed out by \<open>alloc_buf\<close> is held by nobody, is
  empty, has the smallest class that fits the request, is unlinked from the free lists, and the
  contents of every buffer in use are untouched.
\<close>

theorem alloc_buf_exclusive:
  assumes "run client_step (buf_pool_new j, {}) ops = Inr (P, own)"
    and "alloc_buf P n = Inr (Some p, P')"
  shows "p \<notin> own \<and> (\<forall>q \<in> own. heap P' q = heap P q) \<and>
    (\<exists>c b. heap P' p = Some b \<and> b_capacity b = cap_of c \<and> n \<le> cap_of c \<and>
       (\<forall>c'. n \<le> cap_of c' \<longrightarrow> c \<le> c') \<and> bytes b = [] \<and> b_next b = None)"
proof -
  have "client_inv (P, own)"
    by (rule client.inv_run[OF _ assms(1)]) (simp add: buf_pool_new_inv)
  then have I: "pool_inv P own" by simp
  from alloc_buf_spec[OF I assms(2)] obtain c b where
    "p \<notin> own" "\<forall>q \<in> own. heap P' q = heap P q" "pick_cap n = Some c" "heap P' p = Some b"
    "idle (cap_of c) b" "b_next b = None" "buf_ok b" by blast
  with pick_cap_Some[of n c] show ?thesis
    by (auto simp: idle_def bytes_Nil_iff)
qed

theorem alloc_buf_exclusive_witness:
  "\<exists>p P' c b. alloc_buf (buf_pool_new (\<lambda>_ _. 0)) 5000 = Inr (Some p, P') \<and>
     heap P' p = Some b \<and> b_capacity b = cap_of c \<and> c \<le> m16K \<and> bytes b = []"
proof -
  let ?P = "buf_pool_new (\<lambda>_ _. 0)"
  obtain p P' where a: "alloc_buf ?P 5000 = Inr (Some p, P')"
    using alloc_buf_first[of 5000 "\<lambda>_ _. 0"] by auto
  have "run client_step (?P, {}) [] = Inr (?P, {})" by simp
  from alloc_buf_exclusive[OF this a] obtain c b where
    "heap P' p = Some b" "b_capacity b = cap_of c" "\<forall>c'. 5000 \<le> cap_of c' \<longrightarrow> c \<le> c'" "bytes b = []"
    by blast
  moreover from this(3) have "c \<le> m16K" by simp
  ultimately show ?thesis using a by blast
qed

text \<open>
  C15: in every state reachable by clients, the memory counter equals the sizes of all buffers
  ever created, in KiB, and stays below the limit; \<open>revert\<close> of a buffer in use succeeds, makes
  it the next one of its class to be handed out, and leaves the other buffers in use untouched.
\<close>

theorem revert_then_alloc:
  assumes "run client_step (buf_pool_new j, {}) ops = Inr (P, own)" and "p \<in> own"
    and "heap P p = Some b" and "pick_cap n = Some c" and "b_capacity b = cap_of c"
  shows "total_mem P = (\<Sum>q < fresh P. kbytes (heap P) q) \<and> total_mem P < EXTRA_MEM_LIMIT \<and>
    (\<exists>P' P''. revert P p = Inr P' \<and> alloc_buf P' n = Inr (Some p, P'') \<and>
       (\<forall>q \<in> own - {p}. heap P'' q = heap P q))"
proof -
  have "client_inv (P, own)"
    by (rule client.inv_run[OF _ assms(1)]) (simp add: buf_pool_new_inv)
  then have I: "pool_inv P own" by simp
  then obtain fl where R: "pool_rel P fl own" and m: "total_mem P < EXTRA_MEM_LIMIT"
    and d: "dom (free P) = range cap_of" by (auto simp: pool_inv_def)
  obtain q where q: "free P (b_capacity b) = Some q" using classD[OF d] assms(5) by metis
  let ?P' = "P\<lparr>heap := (heap P)(p \<mapsto> b\<lparr>b_length := 0, b_head := 0, b_next := q\<rparr>),
    free := (free P)(b_capacity b \<mapsto> Some p)\<rparr>"
  have r: "revert P p = Inr ?P'" using assms(3) q by (simp add: revert_def Let_def)
  from alloc_buf_linked[OF pool_rel_link[OF R assms(2,3) q] _ assms(4)] assms(5) d
  obtain P'' b2 where a: "alloc_buf ?P' n = Inr (Some p, P'')"
    "heap P'' = (heap ?P')(p \<mapsto> b2\<lparr>b_next := None\<rparr>)" by force
  have "\<forall>q \<in> own - {p}. heap P'' q = heap P q" using a(2) by simp
  with r a(1) m pool_rel_mem[OF R] show ?thesis by blast
qed

theorem revert_then_alloc_witness:
  "\<exists>p P b P' P''. alloc_buf (buf_pool_new (\<lambda>_ _. 0)) 100 = Inr (Some p, P) \<and> heap P p = Some b \<and>
     revert P p = Inr P' \<and> alloc_buf P' 4096 = Inr (Some p, P'')"
proof -
  let ?P = "buf_pool_new (\<lambda>_ _. 0)"
  obtain p P where a: "alloc_buf ?P 100 = Inr (Some p, P)"
    using alloc_buf_first[of 100 "\<lambda>_ _. 0"] by auto
  have r: "run client_step (?P, {}) [Alloc 100] = Inr (P, {p})" using a by simp
  have c: "pick_cap 100 = Some m4K" "pick_cap 4096 = Some m4K" by (simp_all add: pick_cap_def)
  from alloc_buf_spec[OF buf_pool_new_inv a] c(1) obtain b where
    b: "heap P p = Some b" "b_capacity b = cap_of m4K" by (auto simp: idle_def)
  from revert_then_alloc[OF r _ b(1) c(2) b(2)] a b show ?thesis by auto
qed

end
