(* ===== verification/Reactor_Buf.thy ===== *)
theory Reactor_Buf
  imports Buf_Pool
begin

text \<open>
  \<open>reactor_buf\<close>, \<open>input_buf\<close> and \<open>output_buf\<close> (reactor/include/reactor_buf.h,
  reactor/src/reactor_buf.cc): the two ends of a connection, each a pointer to a pool buffer or
  null. The object is the pointer \<open>_buf\<close>; the pool is passed explicitly because
  \<open>buf_pool::instance()\<close> is shared by all of them. The answers of \<open>ioctl\<close>, \<open>read\<close> and \<open>write\<close>
  are arguments: a list of outcomes that the retry loops consume.

  \<open>rb_inv P X q\<close> says that \<open>q\<close> is null or holds a buffer nobody in \<open>X\<close> holds; every operation
  keeps it and leaves the buffers of \<open>X\<close> untouched.
\<close>

section \<open>System calls\<close>

datatype errno = EINTR | EAGAIN | EOTHER

datatype rd = Rd "byte list" | Rd_err errno

datatype wr = Wr nat | Wr_err errno

text \<open>
  \<open>do { r = read(fd, p, n) } while (r == -1 && errno == EINTR)\<close>. \<open>read\<close> delivers at most \<open>n\<close> of
  the bytes that are there.
\<close>

fun read_retry :: "nat \<Rightarrow> rd list \<Rightarrow> rd res" where
  "read_retry n [] = Inl No_return"
| "read_retry n (Rd bs # rs) = Inr (Rd (take n bs))"
| "read_retry n (Rd_err e # rs) = (if e = EINTR then read_retry n rs else Inr (Rd_err e))"

text \<open>\<open>do { r = write(fd, p, n) } while (r == -1 && errno == EINTR)\<close>: at most \<open>n\<close> bytes are accepted.\<close>

fun write_retry :: "nat \<Rightarrow> wr list \<Rightarrow> (wr \<times> wr list) res" where
  "write_retry n [] = Inl No_return"
| "write_retry n (Wr k # ws) = Inr (Wr (min k n), ws)"
| "write_retry n (Wr_err e # ws) =
     (if e = EINTR then write_retry n ws else Inr (Wr_err e, ws))"

section \<open>reactor_buf\<close>

type_synonym rbuf = "nat option"

definition rb_length :: "pool \<Rightarrow> rbuf \<Rightarrow> int res" where
  "rb_length P q =
     (case q of None \<Rightarrow> Inr 0
      | Some p \<Rightarrow> res_bind (deref (heap P) p) (\<lambda>b. Inr (b_length b)))"

definition rb_pop :: "pool \<Rightarrow> rbuf \<Rightarrow> int \<Rightarrow> (rbuf \<times> pool) res" where
  "rb_pop P q n =
     (case q of None \<Rightarrow> Inl Assert_failed
      | Some p \<Rightarrow>
          res_bind (deref (heap P) p) (\<lambda>b.
          res_bind (check Assert_failed (n \<le> b_length b)) (\<lambda>_.
          res_bind (io_buf_pop b n) (\<lambda>b'.
            let P1 = write_buf P p b' in
            if b_length b' = 0 then res_bind (revert P1 p) (\<lambda>P2. Inr (None, P2))
            else Inr (Some p, P1)))))"

definition rb_clear :: "pool \<Rightarrow> rbuf \<Rightarrow> (rbuf \<times> pool) res" where
  "rb_clear P q =
     (case q of None \<Rightarrow> Inr (None, P)
      | Some p \<Rightarrow> res_bind (revert P p) (\<lambda>P'. Inr (None, P')))"

section \<open>input_buf\<close>

text \<open>Copy into the larger buffer \<open>q\<close> and give \<open>p\<close> back.\<close>

definition move_buf :: "pool \<Rightarrow> nat \<Rightarrow> nat \<Rightarrow> pool res" where
  "move_buf P q p =
     res_bind (deref (heap P) q) (\<lambda>nb.
     res_bind (deref (heap P) p) (\<lambda>b.
     res_bind (io_buf_copy nb b) (\<lambda>nb'. revert (write_buf P q nb') p)))"

text \<open>
  The first half of \<open>read_data\<close>: make room for the \<open>need\<close> bytes that \<open>FIONREAD\<close> announced. The
  flag is false where the function returns \<open>-1\<close>.
\<close>

definition read_reserve :: "pool \<Rightarrow> rbuf \<Rightarrow> nat \<Rightarrow> (bool \<times> rbuf \<times> pool) res" where
  "read_reserve P q need =
     (case q of
        None \<Rightarrow> res_bind (alloc_buf P (int need)) (\<lambda>(r, P'). Inr (r \<noteq> None, r, P'))
      | Some p \<Rightarrow>
          res_bind (deref (heap P) p) (\<lambda>b.
          res_bind (check Assert_failed (b_head b = 0)) (\<lambda>_.
            if b_capacity b - b_length b < int need then
              res_bind (check Int_overflow (in_int (int need + b_length b))) (\<lambda>_.
              res_bind (alloc_buf P (int need + b_length b)) (\<lambda>(r, P1).
                case r of
                  None \<Rightarrow> Inr (False, Some p, P1)
                | Some nq \<Rightarrow> res_bind (move_buf P1 nq p) (\<lambda>P2. Inr (True, Some nq, P2))))
            else Inr (True, Some p, P))))"

definition read_data :: "pool \<Rightarrow> rbuf \<Rightarrow> nat option \<Rightarrow> rd list \<Rightarrow> (int \<times> rbuf \<times> pool) res" where
  "read_data P q fionread rs =
     (case fionread of
        None \<Rightarrow> Inr (-1, q, P)
      | Some need \<Rightarrow>
          res_bind (read_reserve P q need) (\<lambda>(ok, q', P').
            if \<not> ok then Inr (-1, q', P') else
            case q' of None \<Rightarrow> Inl Null_deref | Some p \<Rightarrow>
              res_bind (read_retry (if need = 0 then 4096 else need) rs) (\<lambda>r.
                case r of
                  Rd_err e \<Rightarrow> Inr (-1, q', P')
                | Rd bs \<Rightarrow>
                    res_bind (deref (heap P') p) (\<lambda>b.
                    res_bind (io_buf_append b bs (int (length bs))) (\<lambda>b'.
                    res_bind (check Assert_failed (bs = [] \<or> need = 0 \<or> length bs = need)) (\<lambda>_.
                      Inr (int (length bs), q', write_buf P' p b')))))))"

text \<open>\<open>data()\<close>: null, or what is in memory from the head of the window on.\<close>

definition rb_data :: "pool \<Rightarrow> rbuf \<Rightarrow> byte list option res" where
  "rb_data P q =
     (case q of None \<Rightarrow> Inr None
      | Some p \<Rightarrow> res_bind (deref (heap P) p) (\<lambda>b. Inr (Some (drop (nat (b_head b)) (b_data b)))))"

definition rb_adjust :: "pool \<Rightarrow> rbuf \<Rightarrow> pool res" where
  "rb_adjust P q =
     (case q of None \<Rightarrow> Inr P
      | Some p \<Rightarrow> res_bind (deref (heap P) p) (\<lambda>b.
                  res_bind (io_buf_adjust b) (\<lambda>b'. Inr (write_buf P p b'))))"

section \<open>output_buf\<close>

definition send_reserve :: "pool \<Rightarrow> rbuf \<Rightarrow> int \<Rightarrow> (bool \<times> rbuf \<times> pool) res" where
  "send_reserve P q datalen =
     (case q of
        None \<Rightarrow> res_bind (alloc_buf P datalen) (\<lambda>(r, P'). Inr (r \<noteq> None, r, P'))
      | Some p \<Rightarrow>
          res_bind (deref (heap P) p) (\<lambda>b.
          res_bind (check Assert_failed (b_head b = 0)) (\<lambda>_.
            if b_capacity b - b_length b < datalen then
              res_bind (alloc_buf P datalen) (\<lambda>(r, P1).
                case r of
                  None \<Rightarrow> Inr (False, Some p, P1)
                | Some nq \<Rightarrow> res_bind (move_buf P1 nq p) (\<lambda>P2. Inr (True, Some nq, P2)))
            else Inr (True, Some p, P))))"

definition send_data :: "pool \<Rightarrow> rbuf \<Rightarrow> byte list \<Rightarrow> int \<Rightarrow> (int \<times> rbuf \<times> pool) res" where
  "send_data P q src datalen =
     res_bind (send_reserve P q datalen) (\<lambda>(ok, q', P').
       if \<not> ok then Inr (-1, q', P') else
       case q' of None \<Rightarrow> Inl Null_deref | Some p \<Rightarrow>
         res_bind (deref (heap P') p) (\<lambda>b.
         res_bind (io_buf_append b src datalen) (\<lambda>b'.
           Inr (0, q', write_buf P' p b'))))"

text \<open>The second component of the result is what was handed to the socket.\<close>

definition write2fd :: "pool \<Rightarrow> rbuf \<Rightarrow> wr list \<Rightarrow> (int \<times> byte list \<times> wr list \<times> pool) res" where
  "write2fd P q ws =
     (case q of None \<Rightarrow> Inl Assert_failed
      | Some p \<Rightarrow>
          res_bind (deref (heap P) p) (\<lambda>b.
          res_bind (check Assert_failed (b_head b = 0)) (\<lambda>_.
          res_bind (write_retry (nat (b_length b)) ws) (\<lambda>(r, ws').
            case r of
              Wr k \<Rightarrow>
                if 0 < k then
                  res_bind (io_buf_pop b (int k)) (\<lambda>b1.
                  res_bind (io_buf_adjust b1) (\<lambda>b2.
                    Inr (int k, take k (b_data b), ws', write_buf P p b2)))
                else Inr (0, [], ws', P)
            | Wr_err e \<Rightarrow> Inr (if e = EAGAIN then 0 else -1, [], ws', P)))))"

section \<open>Ownership and contents\<close>

definition rb_inv :: "pool \<Rightarrow> nat set \<Rightarrow> rbuf \<Rightarrow> bool" where
  "rb_inv P X q \<longleftrightarrow> pool_inv P (X \<union> set_option q) \<and> X \<inter> set_option q = {}"

definition rb_bytes :: "pool \<Rightarrow> rbuf \<Rightarrow> byte list" where
  "rb_bytes P q = (case q of None \<Rightarrow> [] | Some p \<Rightarrow> (case heap P p of None \<Rightarrow> [] | Some b \<Rightarrow> bytes b))"

definition rb_front :: "pool \<Rightarrow> rbuf \<Rightarrow> bool" where
  "rb_front P q \<longleftrightarrow> (\<forall>p b. q = Some p \<longrightarrow> heap P p = Some b \<longrightarrow> b_head b = 0)"

definition same_on :: "nat set \<Rightarrow> pool \<Rightarrow> pool \<Rightarrow> bool" where
  "same_on X P P' \<longleftrightarrow> (\<forall>r \<in> X. heap P' r = heap P r)"

lemma same_on_refl [simp]: "same_on X P P"
  by (simp add: same_on_def)

lemma same_on_trans: "same_on X P P' \<Longrightarrow> same_on X P' P'' \<Longrightarrow> same_on X P P''"
  by (simp add: same_on_def)

lemma same_on_subset: "same_on X P P' \<Longrightarrow> Y \<subseteq> X \<Longrightarrow> same_on Y P P'"
  by (auto simp: same_on_def)

lemma same_on_write [simp]: "p \<notin> X \<Longrightarrow> same_on X P (write_buf P p b)"
  by (auto simp: same_on_def)

lemma rb_bytes_same: "set_option q \<subseteq> X \<Longrightarrow> same_on X P P' \<Longrightarrow> rb_bytes P' q = rb_bytes P q"
  by (cases q) (auto simp: rb_bytes_def same_on_def)

lemma rb_front_same: "set_option q \<subseteq> X \<Longrightarrow> same_on X P P' \<Longrightarrow> rb_front P' q = rb_front P q"
  by (cases q) (auto simp: rb_front_def same_on_def)

lemma rb_invI: "pool_inv P (X \<union> set_option q) \<Longrightarrow> X \<inter> set_option q = {} \<Longrightarrow> rb_inv P X q"
  by (simp add: rb_inv_def)

lemma rb_inv_buf:
  assumes "rb_inv P X (Some p)"
  obtains b where "heap P p = Some b" and "buf_ok b"
  using assms pool_inv_buf[of P "X \<union> {p}" p] by (auto simp: rb_inv_def)

lemma rb_bytes_None [simp]: "rb_bytes P None = []"
  by (simp add: rb_bytes_def)

lemma rb_front_None [simp]: "rb_front P None"
  by (simp add: rb_front_def)

lemma rb_bytes_Some [simp]: "heap P p = Some b \<Longrightarrow> rb_bytes P (Some p) = bytes b"
  by (simp add: rb_bytes_def)

lemma rb_front_Some [simp]: "heap P p = Some b \<Longrightarrow> rb_front P (Some p) \<longleftrightarrow> b_head b = 0"
  by (simp add: rb_front_def)

lemma rb_bytes_write [simp]: "rb_bytes (write_buf P p b) (Some p) = bytes b"
  by (simp add: rb_bytes_def)

lemma rb_front_write [simp]: "rb_front (write_buf P p b) (Some p) \<longleftrightarrow> b_head b = 0"
  by (simp add: rb_front_def)

lemma rb_inv_write:
  assumes "rb_inv P X (Some p)" and "heap P p = Some b" and "buf_ok b'"
    and "b_capacity b' = b_capacity b"
  shows "rb_inv (write_buf P p b') X (Some p)"
  using assms pool.store_law[of P "X \<union> {p}" p b b'] by (auto simp: rb_inv_def)

lemma rb_inv_length: "rb_inv P X q \<Longrightarrow> rb_length P q = Inr (int (length (rb_bytes P q)))"
  by (cases q) (auto simp: rb_length_def elim!: rb_inv_buf)

lemma rb_inv_None: "rb_inv P X None \<longleftrightarrow> pool_inv P X"
  by (simp add: rb_inv_def)

lemma rb_release:
  assumes "rb_inv P X (Some p)"
  shows "\<exists>P'. revert P p = Inr P' \<and> rb_inv P' X None \<and> same_on X P P'"
proof -
  have X: "X \<union> {p} - {p} = X" using assms by (auto simp: rb_inv_def)
  show ?thesis
    using assms revert_spec[of P "X \<union> {p}" p] unfolding X
    by (auto simp: rb_inv_def same_on_def)
qed

lemma rb_alloc:
  assumes "pool_inv P X" and "alloc_buf P n = Inr (Some p, P')"
  obtains b where "rb_inv P' X (Some p)" and "same_on X P P'" and "heap P' p = Some b"
    and "buf_ok b" and "n \<le> b_capacity b" and "b_head b = 0" and "bytes b = []"
    and "p \<notin> X"
    and "\<exists>c. pick_cap n = Some c \<and> b_capacity b = cap_of c"
proof -
  from alloc_buf_spec[OF assms] obtain c b where
    "p \<notin> X" "pool_inv P' (insert p X)" "\<forall>q \<in> X. heap P' q = heap P q" "pick_cap n = Some c"
    "heap P' p = Some b" "idle (cap_of c) b" "buf_ok b" by blast
  moreover from this have "n \<le> b_capacity b" using pick_cap_Some(1)[of n c] by (simp add: idle_def)
  ultimately show ?thesis
    using that[of b] by (auto simp: rb_inv_def same_on_def idle_def bytes_Nil_iff)
qed

section \<open>Contracts\<close>

lemma rb_clear_spec:
  assumes "rb_inv P X q"
  shows "\<exists>P'. rb_clear P q = Inr (None, P') \<and> rb_inv P' X None \<and> same_on X P P'"
  using assms by (cases q) (auto simp: rb_clear_def dest: rb_release)

lemma rb_pop_spec:
  assumes I: "rb_inv P X (Some p)" and n: "0 \<le> n" "n \<le> int (length (rb_bytes P (Some p)))"
  shows "\<exists>q' P'. rb_pop P (Some p) n = Inr (q', P') \<and> rb_inv P' X q' \<and> same_on X P P' \<and>
    rb_bytes P' q' = drop (nat n) (rb_bytes P (Some p)) \<and>
    (if n = int (length (rb_bytes P (Some p))) then q' = None else q' = Some p)"
proof -
  from I obtain b where b: "heap P p = Some b" "buf_ok b" by (rule rb_inv_buf)
  have l: "int (length (rb_bytes P (Some p))) = b_length b" using b by simp
  from io_buf_pop_spec[OF b(2) n(1)] n(2) l obtain b' where
    b': "io_buf_pop b n = Inr b'" "buf_ok b'" "bytes b' = drop (nat n) (bytes b)"
      "b_length b' = b_length b - n" "b_capacity b' = b_capacity b" by auto
  have I1: "rb_inv (write_buf P p b') X (Some p)" by (rule rb_inv_write[OF I b(1) b'(2,5)])
  have pX: "p \<notin> X" using I by (auto simp: rb_inv_def)
  show ?thesis
  proof (cases "n = b_length b")
    case True
    from rb_release[OF I1] obtain P' where
      "revert (write_buf P p b') p = Inr P'" "rb_inv P' X None" "same_on X (write_buf P p b') P'"
      by blast
    then show ?thesis
      using True b b' l pX same_on_trans[OF same_on_write[OF pX]]
      by (auto simp: rb_pop_def length_bytes_nat)
  next
    case False
    then show ?thesis
      using b b' l n pX I1 by (auto simp: rb_pop_def)
  qed
qed

lemma rb_adjust_spec:
  assumes "rb_inv P X q"
  shows "\<exists>P'. rb_adjust P q = Inr P' \<and> rb_inv P' X q \<and> same_on X P P' \<and>
    rb_bytes P' q = rb_bytes P q \<and> rb_front P' q"
proof (cases q)
  case None
  then show ?thesis using assms by (simp add: rb_adjust_def)
next
  case (Some p)
  with assms obtain b where b: "heap P p = Some b" "buf_ok b" by (auto elim: rb_inv_buf)
  from io_buf_adjust_spec[OF b(2)] obtain b' where b': "io_buf_adjust b = Inr b'" "buf_ok b'"
    "bytes b' = bytes b" "b_head b' = 0" "b_capacity b' = b_capacity b" by auto
  have "p \<notin> X" using assms Some by (auto simp: rb_inv_def)
  then show ?thesis
    using Some b b' rb_inv_write[OF _ b(1) b'(2,5)] assms by (auto simp: rb_adjust_def)
qed

text \<open>The exchange of a buffer for a larger one, as \<open>read_data\<close> and \<open>send_data\<close> do it.\<close>

lemma move_buf_spec:
  assumes I: "rb_inv P X (Some p)" and b: "heap P p = Some b" "b_head b = 0"
    and a: "alloc_buf P n = Inr (Some q, P1)" and n: "b_length b \<le> n"
  shows "\<exists>P2 nb. move_buf P1 q p = Inr P2 \<and> rb_inv P2 X (Some q) \<and> same_on X P P2 \<and>
    heap P2 q = Some nb \<and> buf_ok nb \<and> b_head nb = 0 \<and> bytes nb = bytes b \<and> n \<le> b_capacity nb \<and>
    b_length nb = b_length b \<and> (\<forall>c. pick_cap n = Some c \<longrightarrow> b_capacity nb = cap_of c)"
proof -
  have X: "pool_inv P (X \<union> {p})" and pX: "p \<notin> X" using I by (auto simp: rb_inv_def)
  from pool.exchange[OF X _ b a n] obtain nb nb' P2 where
    e: "heap P1 q = Some nb" "heap P1 p = Some b" "io_buf_copy nb b = Inr nb'"
      "revert (write_buf P1 q nb') p = Inr P2" "pool_inv P2 (insert q (X \<union> {p} - {p}))"
      "q \<notin> X \<union> {p}" "heap P2 q = Some nb'" "buf_ok nb'" "b_head nb' = 0" "bytes nb' = bytes b"
      "n \<le> b_capacity nb'" "\<forall>r \<in> X \<union> {p} - {p}. heap P2 r = heap P r"
      "b_length nb' = b_length b" "b_capacity nb' = b_capacity nb" by auto
  moreover have "b_capacity nb = cap_of c" if "pick_cap n = Some c" for c
    using a e(1) that by (auto elim!: rb_alloc[OF X])
  moreover have "X \<union> {p} - {p} = X" using pX by auto
  ultimately show ?thesis
    using pX by (auto simp: move_buf_def rb_inv_def same_on_def)
qed

text \<open>
  The destination of the exchange may be too small: the copy then runs past its end.
\<close>

lemma move_buf_overflow:
  assumes I: "rb_inv P X (Some p)" and b: "heap P p = Some b"
    and a: "alloc_buf P n = Inr (Some q, P1)"
    and c: "pick_cap n = Some c" "cap_of c < b_length b"
  shows "move_buf P1 q p = Inl Out_of_bounds"
proof -
  have X: "pool_inv P (X \<union> {p})" using I by (simp add: rb_inv_def)
  from a obtain nb where "same_on (X \<union> {p}) P P1" "heap P1 q = Some nb" "buf_ok nb"
    "b_capacity nb = cap_of c"
    by (rule rb_alloc[OF X]) (use c in auto)
  then show ?thesis
    using b c io_buf_copy_overflow[of nb b] by (simp add: move_buf_def same_on_def)
qed

subsection \<open>Reading\<close>

definition rb_room :: "pool \<Rightarrow> rbuf \<Rightarrow> int \<Rightarrow> bool" where
  "rb_room P q n \<longleftrightarrow> (\<exists>p b. q = Some p \<and> heap P p = Some b \<and> n \<le> room b)"

lemma room_empty: "buf_ok b \<Longrightarrow> bytes b = [] \<Longrightarrow> room b = b_capacity b"
  by (simp add: room_def bytes_Nil_iff)

lemma read_reserve_spec:
  assumes I: "rb_inv P X q" and F: "rb_front P q" and r: "read_reserve P q need = Inr (ok, q', P')"
  shows "rb_inv P' X q' \<and> same_on X P P' \<and> rb_bytes P' q' = rb_bytes P q \<and> rb_front P' q' \<and>
    (if ok then rb_room P' q' (int need)
     else cap_of m8M < int need + int (length (rb_bytes P q)))"
proof (cases q)
  case None
  with r obtain a where a: "alloc_buf P (int need) = Inr (a, P')" "ok \<longleftrightarrow> a \<noteq> None" "q' = a"
    by (auto simp: read_reserve_def res_bind_Inr_iff)
  show ?thesis
  proof (cases a)
    case None
    with a \<open>q = None\<close> I show ?thesis by (auto simp: alloc_buf_too_big)
  next
    case (Some p)
    with I \<open>q = None\<close> a show ?thesis
      by (auto simp: rb_inv_None rb_room_def room_empty elim!: rb_alloc)
  qed
next
  case (Some p)
  with I obtain b where b: "heap P p = Some b" "buf_ok b" by (auto elim: rb_inv_buf)
  have h: "b_head b = 0" using F Some b by simp
  show ?thesis
  proof (cases "b_capacity b - b_length b < int need")
    case False
    then show ?thesis using r I F Some b h by (auto simp: read_reserve_def rb_room_def room_def)
  next
    case True
    with r Some b h obtain a P1 where a: "alloc_buf P (int need + b_length b) = Inr (a, P1)"
      and c: "(case a of None \<Rightarrow> Inr (False, Some p, P1)
        | Some nq \<Rightarrow> res_bind (move_buf P1 nq p) (\<lambda>P2. Inr (True, Some nq, P2))) = Inr (ok, q', P')"
      by (auto simp: read_reserve_def res_bind_Inr_iff)
    show ?thesis
    proof (cases a)
      case None
      with a c I F Some b show ?thesis by (auto simp: alloc_buf_too_big)
    next
      case (Some nq)
      with a have a': "alloc_buf P (int need + b_length b) = Inr (Some nq, P1)" by simp
      from move_buf_spec[OF I[unfolded \<open>q = Some p\<close>] b(1) h a'] obtain P2 nb where
        m: "move_buf P1 nq p = Inr P2" "rb_inv P2 X (Some nq)" "same_on X P P2" "heap P2 nq = Some nb"
        "buf_ok nb" "b_head nb = 0" "bytes nb = bytes b" "int need + b_length b \<le> b_capacity nb"
        by auto
      have "b_length nb = b_length b" using m(5,7) b(2) by (metis length_bytes)
      with m show ?thesis using c Some \<open>q = Some p\<close> b by (auto simp: rb_room_def room_def)
    qed
  qed
qed

lemma read_retry_Rd: "read_retry n rs = Inr (Rd bs) \<Longrightarrow> length bs \<le> n"
  by (induction n rs rule: read_retry.induct) (auto split: if_splits)

lemma read_retry_eintr [simp]:
  "read_retry n (replicate k (Rd_err EINTR) @ rs) = read_retry n rs"
  by (induction k) auto

lemma rb_append:
  assumes I: "rb_inv P X (Some p)" and b: "heap P p = Some b" "b_head b = 0"
    and a: "io_buf_append b src n = Inr b'"
  shows "rb_inv (write_buf P p b') X (Some p) \<and> bytes b' = bytes b @ take (nat n) src \<and>
    b_head b' = 0 \<and> 0 \<le> n \<and> n \<le> int (length src) \<and> n \<le> room b"
proof -
  have ok: "buf_ok b" using I b(1) by (auto elim: rb_inv_buf)
  have n: "0 \<le> n" "n \<le> int (length src)" "n \<le> room b"
    using a ok by (auto simp: io_buf_append_def res_bind_Inr_iff c_memcpy_Inr_iff room_def buf_ok_def)
  from io_buf_append_spec[OF ok b(2) n(1,3,2)] a have
    "buf_ok b'" "bytes b' = bytes b @ take (nat n) src" "b_head b' = 0" "b_capacity b' = b_capacity b"
    by auto
  with n rb_inv_write[OF I b(1)] show ?thesis by simp
qed

lemma read_data_spec:
  assumes I: "rb_inv P X q" and F: "rb_front P q" and r: "read_data P q f rs = Inr (ret, q', P')"
  shows "rb_inv P' X q' \<and> same_on X P P' \<and> rb_front P' q' \<and>
    (if 0 < ret then \<exists>bs. int (length bs) = ret \<and> rb_bytes P' q' = rb_bytes P q @ bs
     else (ret = 0 \<or> ret = -1) \<and> rb_bytes P' q' = rb_bytes P q)"
proof (cases f)
  case None
  with r I F show ?thesis by (auto simp: read_data_def)
next
  case (Some need)
  with r obtain ok q1 P1 where v: "read_reserve P q need = Inr (ok, q1, P1)"
    by (auto simp: read_data_def res_bind_Inr_iff)
  note S = read_reserve_spec[OF I F v]
  show ?thesis
  proof (cases ok)
    case False
    with v r Some S show ?thesis by (auto simp: read_data_def)
  next
    case True
    with S obtain p b where p: "q1 = Some p" "heap P1 p = Some b" "b_head b = 0"
      by (auto simp: rb_room_def)
    with v r Some True obtain rr where rr: "read_retry (if need = 0 then 4096 else need) rs = Inr rr"
      by (auto simp: read_data_def res_bind_Inr_iff)
    show ?thesis
    proof (cases rr)
      case (Rd_err e)
      with v r Some True p rr S show ?thesis by (auto simp: read_data_def)
    next
      case (Rd bs)
      with v r Some True p rr obtain b' where
        b': "io_buf_append b bs (int (length bs)) = Inr b'" "ret = int (length bs)"
          "q' = Some p" "P' = write_buf P1 p b'"
        by (auto simp: read_data_def res_bind_Inr_iff)
      have I1: "rb_inv P1 X (Some p)" using S p by simp
      then have "p \<notin> X" by (auto simp: rb_inv_def)
      then show ?thesis
        using rb_append[OF I1 p(2,3) b'(1)] b' S p same_on_trans[OF _ same_on_write]
        by auto
    qed
  qed
qed

lemma read_reserve_total:
  assumes I: "rb_inv P X q" and F: "rb_front P q"
    and n: "int need + int (length (rb_bytes P q)) \<le> cap_of m8M"
    and m: "total_mem P + 8192 < EXTRA_MEM_LIMIT"
  shows "\<exists>q' P'. read_reserve P q need = Inr (True, q', P')"
proof (cases q)
  case None
  with I n m alloc_buf_total[of P X "int need"] show ?thesis
    by (auto simp: read_reserve_def rb_inv_None)
next
  case (Some p)
  with I obtain b where b: "heap P p = Some b" "buf_ok b" by (auto elim: rb_inv_buf)
  have h: "b_head b = 0" using F Some b by simp
  have n': "int need + b_length b \<le> cap_of m8M" using n Some b by simp
  then have i: "in_int (int need + b_length b)" using b(2) by (simp add: in_int_def buf_ok_def)
  show ?thesis
  proof (cases "b_capacity b - b_length b < int need")
    case False
    then show ?thesis using Some b h by (simp add: read_reserve_def)
  next
    case True
    have "pool_inv P (X \<union> {p})" using I Some by (simp add: rb_inv_def)
    then obtain nq P1 where a: "alloc_buf P (int need + b_length b) = Inr (Some nq, P1)"
      using alloc_buf_total[OF _ n' m] by blast
    from move_buf_spec[OF I[unfolded Some] b(1) h a] obtain P2 where "move_buf P1 nq p = Inr P2"
      by auto
    with True Some b h i a show ?thesis by (simp add: read_reserve_def)
  qed
qed

lemma read_data_appended:
  assumes "rb_inv P X q" and "rb_front P q" and "0 < need"
    and "int need + int (length (rb_bytes P q)) \<le> cap_of m8M"
    and "total_mem P + 8192 < EXTRA_MEM_LIMIT"
    and "need \<le> length bs"
  shows "\<exists>q' P'. read_data P q (Some need) (replicate k (Rd_err EINTR) @ Rd bs # rest) =
      Inr (int need, q', P') \<and>
    rb_bytes P' q' = rb_bytes P q @ take need bs \<and> rb_inv P' X q' \<and> rb_front P' q' \<and> same_on X P P'"
proof -
  from read_reserve_total[OF assms(1,2,4,5)] obtain q1 P1 where
    v: "read_reserve P q need = Inr (True, q1, P1)" by blast
  note S = read_reserve_spec[OF assms(1,2) v]
  from S obtain p b where p: "q1 = Some p" "heap P1 p = Some b" "b_head b = 0" "int need \<le> room b"
    by (auto simp: rb_room_def)
  have I1: "rb_inv P1 X (Some p)" using S p by simp
  then have ok: "buf_ok b" using p(2) by (auto elim: rb_inv_buf)
  have pX: "p \<notin> X" using I1 by (auto simp: rb_inv_def)
  from io_buf_append_spec[OF ok p(3), of "int need" "take need bs"] p(4) assms(6) obtain b' where
    b': "io_buf_append b (take need bs) (int need) = Inr b'" by auto
  have "read_data P q (Some need) (replicate k (Rd_err EINTR) @ Rd bs # rest) =
      Inr (int need, Some p, write_buf P1 p b')"
    using v p b' assms(3,6) by (simp add: read_data_def)
  moreover note rb_append[OF I1 p(2,3) b']
  ultimately show ?thesis using S p pX same_on_trans[OF _ same_on_write[OF pX]] by auto
qed

text \<open>
  When the socket announces \<open>need\<close> bytes and delivers them, after any number of interrupted
  calls, \<open>read_data\<close> returns \<open>need\<close> and has appended exactly these bytes to what was unprocessed,
  whether it had to allocate a buffer, to move to a larger one, or neither; no other buffer of
  the process changes. It holds for everything the largest class can hold, while the memory
  budget lasts.
\<close>

theorem read_data_appends:
  assumes "rb_inv P X q" and "rb_front P q" and "0 < need"
    and "int need + int (length (rb_bytes P q)) \<le> cap_of m8M"
    and "total_mem P + 8192 < EXTRA_MEM_LIMIT"
    and "need \<le> length bs"
  shows "\<exists>q' P'. read_data P q (Some need) (replicate k (Rd_err EINTR) @ Rd bs # rest) =
      Inr (int need, q', P') \<and>
    rb_bytes P' q' = rb_bytes P q @ take need bs \<and> rb_inv P' X q' \<and> rb_front P' q' \<and> same_on X P P'"
  using assms by (rule read_data_appended)

theorem read_data_appends_witness:
  "\<exists>q' P'. read_data (buf_pool_new (\<lambda>_ _. 0)) None (Some 3) [Rd_err EINTR, Rd [1, 2, 3, 4]] = Inr (3, q', P') \<and>
     rb_bytes P' q' = [1, 2, 3]"
proof -
  let ?P = "buf_pool_new (\<lambda>_ _. 0)"
  have "rb_inv ?P {} None" by (simp add: rb_inv_None buf_pool_new_inv)
  from read_data_appends[OF this, of 3 "[1, 2, 3, 4]" 1 "[]"] show ?thesis
    by (auto simp: EXTRA_MEM_LIMIT_def)
qed

subsection \<open>Writing\<close>

lemma send_reserve_spec:
  assumes I: "rb_inv P X q" and F: "rb_front P q" and v: "send_reserve P q n = Inr (ok, q1, P1)"
  shows "rb_inv P1 X q1 \<and> same_on X P P1 \<and> rb_bytes P1 q1 = rb_bytes P q \<and> rb_front P1 q1 \<and>
    (if ok then q1 \<noteq> None else cap_of m8M < n \<and> q1 = q)"
proof (cases q)
  case None
  with v obtain a where a: "alloc_buf P n = Inr (a, P1)" "ok \<longleftrightarrow> a \<noteq> None" "q1 = a"
    by (auto simp: send_reserve_def res_bind_Inr_iff)
  with I None show ?thesis
    by (cases a) (auto simp: alloc_buf_too_big rb_inv_None elim!: rb_alloc)
next
  case (Some p)
  with I obtain b where b: "heap P p = Some b" "buf_ok b" by (auto elim: rb_inv_buf)
  have h: "b_head b = 0" using F Some b by simp
  show ?thesis
  proof (cases "b_capacity b - b_length b < n")
    case False
    then show ?thesis using v I F Some b h by (auto simp: send_reserve_def)
  next
    case True
    with v Some b h obtain a P2 where a: "alloc_buf P n = Inr (a, P2)"
      and c: "(case a of None \<Rightarrow> Inr (False, Some p, P2)
        | Some nq \<Rightarrow> res_bind (move_buf P2 nq p) (\<lambda>P3. Inr (True, Some nq, P3))) = Inr (ok, q1, P1)"
      by (auto simp: send_reserve_def res_bind_Inr_iff)
    show ?thesis
    proof (cases a)
      case None
      with a c I F Some b show ?thesis by (auto simp: alloc_buf_too_big)
    next
      case (Some nq)
      with a have a': "alloc_buf P n = Inr (Some nq, P2)" by simp
      have X: "pool_inv P (X \<union> {p})" using I \<open>q = Some p\<close> by (simp add: rb_inv_def)
      from c Some obtain P3 where m: "move_buf P2 nq p = Inr P3" "ok" "q1 = Some nq" "P1 = P3"
        by (auto simp: res_bind_Inr_iff)
      from a' obtain cc where cc: "pick_cap n = Some cc"
        by (rule rb_alloc[OF X]) blast
      have "\<not> cap_of cc < b_length b"
        using move_buf_overflow[OF I[unfolded \<open>q = Some p\<close>] b(1) a' cc] m(1) by auto
      with a' cc have le: "b_length b \<le> max n (cap_of cc)" by simp
      have "alloc_buf P (cap_of cc) = Inr (Some nq, P2)"
        using a' cc by (simp add: alloc_buf_def)
      from move_buf_spec[OF I[unfolded \<open>q = Some p\<close>] b(1) h this] \<open>\<not> cap_of cc < b_length b\<close> m b
      show ?thesis using \<open>q = Some p\<close> by auto
    qed
  qed
qed

lemma send_data_spec:
  assumes I: "rb_inv P X q" and F: "rb_front P q" and s: "send_data P q src n = Inr (ret, q', P')"
  shows "rb_inv P' X q' \<and> same_on X P P' \<and> rb_front P' q' \<and>
    (ret = 0 \<and> rb_bytes P' q' = rb_bytes P q @ take (nat n) src \<and> 0 \<le> n \<and> n \<le> int (length src)
     \<or> ret = -1 \<and> rb_bytes P' q' = rb_bytes P q \<and> cap_of m8M < n \<and> q' = q)"
proof -
  from s obtain ok q1 P1 where v: "send_reserve P q n = Inr (ok, q1, P1)"
    by (auto simp: send_data_def res_bind_Inr_iff)
  have S: "rb_inv P1 X q1 \<and> same_on X P P1 \<and> rb_bytes P1 q1 = rb_bytes P q \<and> rb_front P1 q1 \<and>
    (if ok then q1 \<noteq> None else cap_of m8M < n \<and> q1 = q)"
    by (rule send_reserve_spec[OF I F v])
  show ?thesis
  proof (cases ok)
    case False
    with v s S show ?thesis by (auto simp: send_data_def)
  next
    case True
    with S obtain p where p: "q1 = Some p" by auto
    with S obtain b where b: "heap P1 p = Some b" "b_head b = 0" "rb_inv P1 X (Some p)"
      by (auto elim: rb_inv_buf)
    with v s True p obtain b' where b': "io_buf_append b src n = Inr b'" "ret = 0" "q' = Some p"
      "P' = write_buf P1 p b'"
      by (auto simp: send_data_def res_bind_Inr_iff)
    have pX: "p \<notin> X" using b(3) by (auto simp: rb_inv_def)
    show ?thesis
      using rb_append[OF b(3,1,2) b'(1)] b' S p b same_on_trans[OF _ same_on_write[OF pX]] by auto
  qed
qed

lemma write_retry_Wr: "write_retry n ws = Inr (Wr k, ws') \<Longrightarrow> k \<le> n \<and> length ws' < length ws"
  by (induction n ws rule: write_retry.induct) (auto split: if_splits)

lemma write_retry_shrinks: "write_retry n ws = Inr (r, ws') \<Longrightarrow> length ws' < length ws"
  by (induction n ws rule: write_retry.induct) (auto split: if_splits)

lemma write_retry_eintr [simp]:
  "write_retry n (replicate k (Wr_err EINTR) @ ws) = write_retry n ws"
  by (induction k) auto

lemma write2fd_spec:
  assumes I: "rb_inv P X (Some p)" and F: "rb_front P (Some p)"
    and w: "write2fd P (Some p) ws = Inr (ret, sent, ws', P')"
  shows "rb_inv P' X (Some p) \<and> same_on X P P' \<and> rb_front P' (Some p) \<and>
    rb_bytes P (Some p) = sent @ rb_bytes P' (Some p) \<and> length ws' < length ws \<and>
    (if 0 < ret then int (length sent) = ret else sent = [] \<and> (ret = 0 \<or> ret = -1))"
proof -
  from I obtain b where b: "heap P p = Some b" "buf_ok b" by (rule rb_inv_buf)
  have h: "b_head b = 0" using F b by simp
  from w b h obtain r ws1 where r1: "write_retry (nat (b_length b)) ws = Inr (r, ws1)"
    by (auto simp: write2fd_def res_bind_Inr_iff)
  moreover have "ws1 = ws'"
    using w b h r1 by (cases r) (auto simp: write2fd_def res_bind_Inr_iff split: if_splits)
  ultimately have r: "write_retry (nat (b_length b)) ws = Inr (r, ws')" by simp
  note sh = write_retry_shrinks[OF r]
  show ?thesis
  proof (cases r)
    case (Wr_err e)
    with w b h r sh I F show ?thesis by (auto simp: write2fd_def split: if_splits)
  next
    case (Wr k)
    with r have k: "k \<le> nat (b_length b)" using write_retry_Wr by blast
    have kl: "int k \<le> b_length b" using k b(2) by (auto simp: buf_ok_def)
    show ?thesis
    proof (cases "0 < k")
      case False
      with Wr w b h r sh I F show ?thesis by (auto simp: write2fd_def)
    next
      case True
      from io_buf_pop_spec[OF b(2), of "int k"] kl obtain b1 where
        b1: "io_buf_pop b (int k) = Inr b1" "buf_ok b1" "bytes b1 = drop k (bytes b)"
          "b_capacity b1 = b_capacity b" by auto
      from io_buf_adjust_spec[OF b1(2)] obtain b2 where
        b2: "io_buf_adjust b1 = Inr b2" "buf_ok b2" "bytes b2 = bytes b1" "b_head b2 = 0"
          "b_capacity b2 = b_capacity b1" by auto
      have res: "ret = int k" "sent = take k (b_data b)" "P' = write_buf P p b2"
        using w b h r Wr True b1 b2 by (auto simp: write2fd_def)
      have s: "take k (b_data b) = take k (bytes b)" using h k by (simp add: bytes_def min_def)
      have "length (take k (b_data b)) = k" using kl b(2) by (simp add: buf_ok_def)
      moreover have "p \<notin> X" using I by (auto simp: rb_inv_def)
      ultimately show ?thesis
        using res b b1 b2 sh True rb_inv_write[OF I b(1) b2(2)] s by auto
    qed
  qed
qed

lemma send_data_result:
  assumes I: "rb_inv P X (Some p)" and b: "heap P p = Some b" "b_head b = 0"
    and n: "0 \<le> n" "n \<le> int (length src)" and c: "pick_cap n = Some c"
    and m: "total_mem P + 8192 < EXTRA_MEM_LIMIT"
  shows "if n \<le> room b \<or> b_length b + n \<le> cap_of c
    then \<exists>q' P'. send_data P (Some p) src n = Inr (0, Some q', P') \<and>
      rb_bytes P' (Some q') = bytes b @ take (nat n) src \<and> rb_inv P' X (Some q') \<and> same_on X P P'
    else send_data P (Some p) src n = Inl Out_of_bounds"
proof -
  have ok: "buf_ok b" using I b(1) by (auto elim: rb_inv_buf)
  have F: "rb_front P (Some p)" using b by simp
  have X: "pool_inv P (X \<union> {p})" using I by (simp add: rb_inv_def)
  have n8: "n \<le> cap_of m8M" using c pick_cap_None[of n] by auto
  obtain nq P1 where a: "alloc_buf P n = Inr (Some nq, P1)" using alloc_buf_total[OF X n8 m] by blast
  then have a': "alloc_buf P (cap_of c) = Inr (Some nq, P1)" using c by (simp add: alloc_buf_def)
  have fin: ?thesis if "send_data P (Some p) src n = Inr (0, Some q', P')"
    and "n \<le> room b \<or> b_length b + n \<le> cap_of c" for q' P'
    using send_data_spec[OF I F that(1)] that b(1) by auto
  consider (fits) "n \<le> room b" | (moves) "room b < n" "b_length b \<le> cap_of c"
    | (small) "room b < n" "cap_of c < b_length b" by linarith
  then show ?thesis
  proof cases
    case fits
    with io_buf_append_spec[OF ok b(2) n(1) _ n(2)] obtain b' where
      "io_buf_append b src n = Inr b'" by auto
    with fits b have "send_data P (Some p) src n = Inr (0, Some p, write_buf P p b')"
      by (simp add: send_data_def send_reserve_def room_def)
    then show ?thesis using fits fin by blast
  next
    case moves
    from move_buf_spec[OF I b a'] moves(2) obtain P2 nb where
      mv: "move_buf P1 nq p = Inr P2" "heap P2 nq = Some nb" "buf_ok nb" "b_head nb = 0"
        and ln: "b_length nb = b_length b" and cn: "b_capacity nb = cap_of c" by auto
    have sd: "send_data P (Some p) src n =
        res_bind (io_buf_append nb src n) (\<lambda>b'. Inr (0, Some nq, write_buf P2 nq b'))"
      using moves(1) b a mv by (simp add: send_data_def send_reserve_def room_def)
    show ?thesis
    proof (cases "b_length b + n \<le> cap_of c")
      case True
      with ln cn io_buf_append_spec[OF mv(3,4) n(1) _ n(2)] obtain b' where
        "io_buf_append nb src n = Inr b'" by (auto simp: room_def)
      with sd True fin show ?thesis by simp
    next
      case False
      with ln cn io_buf_append_overflow[OF mv(3)] sd moves show ?thesis by (auto simp: room_def)
    qed
  next
    case small
    with move_buf_overflow[OF I b(1) a c] a b have "send_data P (Some p) src n = Inl Out_of_bounds"
      by (simp add: send_data_def send_reserve_def room_def)
    then show ?thesis using small n by auto
  qed
qed

text \<open>
  C16: the outcome of \<open>output_buf::send_data\<close> on a buffer that already holds unsent bytes, for a
  chunk that fits some size class and while the memory budget lasts. If the chunk fits into the
  room left, or the class chosen for the chunk alone happens to hold both, the chunk is appended
  behind the unsent bytes and no other buffer changes. Otherwise the function writes past the
  end of the newly allocated buffer: it asks the pool for \<open>datalen\<close> bytes where
  \<open>datalen + length\<close> are needed.
\<close>

theorem send_data_outcome:
  assumes I: "rb_inv P X (Some p)" and b: "heap P p = Some b" "b_head b = 0"
    and n: "0 \<le> n" "n \<le> int (length src)" and c: "pick_cap n = Some c"
    and m: "total_mem P + 8192 < EXTRA_MEM_LIMIT"
  shows "if n \<le> room b \<or> b_length b + n \<le> cap_of c
    then \<exists>q' P'. send_data P (Some p) src n = Inr (0, Some q', P') \<and>
      rb_bytes P' (Some q') = bytes b @ take (nat n) src \<and> rb_inv P' X (Some q') \<and> same_on X P P'
    else send_data P (Some p) src n = Inl Out_of_bounds"
  using assms by (rule send_data_result)

lemma alloc_buf_mem: "alloc_buf P n = Inr (r, P') \<Longrightarrow> total_mem P' \<le> total_mem P + 8192"
proof -
  assume a: "alloc_buf P n = Inr (r, P')"
  have "nat (cap_of c div 1024) \<le> 8192" for c by (cases c) auto
  with a show ?thesis
    by (auto simp: alloc_buf_def Let_def new_io_buf_def set_next_def res_bind_Inr_iff
        split: option.splits if_splits)
qed

text \<open>A concrete pool with one 4 KiB buffer in use that holds \<open>k\<close> bytes.\<close>

lemma buffer_in_use:
  assumes "k \<le> 4096"
  shows "\<exists>P p b. rb_inv P {} (Some p) \<and> heap P p = Some b \<and> b_head b = 0 \<and> b_length b = int k \<and>
    b_capacity b = 4096 \<and> total_mem P \<le> 342432"
proof -
  let ?P = "buf_pool_new (\<lambda>_ _. 0)"
  obtain p P where a: "alloc_buf ?P 100 = Inr (Some p, P)"
    using alloc_buf_first[of 100 "\<lambda>_ _. 0"] by auto
  then obtain b where I: "rb_inv P {} (Some p)" and b: "heap P p = Some b" "buf_ok b" "b_head b = 0"
    "b_capacity b = 4096"
    by (rule rb_alloc[OF buf_pool_new_inv]) (auto simp: pick_cap_def)
  let ?b = "b\<lparr>b_length := int k\<rparr>"
  have "buf_ok ?b" using b assms by (simp add: buf_ok_def)
  then have "rb_inv (write_buf P p ?b) {} (Some p)" using rb_inv_write[OF I b(1)] by simp
  moreover have "total_mem (write_buf P p ?b) \<le> 342432"
    using alloc_buf_mem[OF a] by (simp add: write_buf_def)
  ultimately show ?thesis using b
    by (intro exI[of _ "write_buf P p ?b"] exI[of _ p] exI[of _ ?b]) simp
qed

theorem send_data_outcome_witness:
  "\<exists>P p. rb_inv P {} (Some p) \<and> length (rb_bytes P (Some p)) = 4000 \<and>
     send_data P (Some p) (replicate 200 0) 200 = Inl Out_of_bounds"
proof -
  obtain P p b where I: "rb_inv P {} (Some p)" and b: "heap P p = Some b" "b_head b = 0"
    and l: "b_length b = 4000" "b_capacity b = 4096" and m: "total_mem P \<le> 342432"
    using buffer_in_use[of 4000] by auto
  have "pick_cap 200 = Some m4K" by (simp add: pick_cap_def)
  from send_data_outcome[OF I b _ _ this, of "replicate 200 0"] l m
  have "send_data P (Some p) (replicate 200 0) 200 = Inl Out_of_bounds"
    by (simp add: room_def EXTRA_MEM_LIMIT_def)
  moreover have "length (rb_bytes P (Some p)) = 4000"
    using I b l by (auto simp: length_bytes_nat elim: rb_inv_buf)
  ultimately show ?thesis using I by (intro exI[of _ P] exI[of _ p]) simp
qed

end
