(* ===== verification/Message.thy ===== *)
theory Message
  imports Prelude
begin

text \<open>
  reactor/include/message.h: the eight-byte message head, the limits, and the router that maps
  message ids to callbacks. Messages on a byte stream are a head followed by \<open>length\<close> bytes of
  body; \<open>next_frame\<close> is the decision the server's read loop takes on the bytes it has, and the
  locale \<open>framing\<close> holds what follows for any such decision: decoding inverts encoding, and the
  messages found do not depend on how the stream is cut into pieces.
\<close>

unbundle bit_operations_syntax

section \<open>The message head\<close>

definition MESSAGE_HEAD_LEN :: nat where
  "MESSAGE_HEAD_LEN = 8"

definition MESSAGE_LENGTH_LIMIT :: int where
  "MESSAGE_LENGTH_LIMIT = 65535 - int MESSAGE_HEAD_LEN"

record msg_head =
  h_id :: int
  h_length :: int

text \<open>An \<open>int\<close> in memory: four bytes, least significant first.\<close>

definition le32 :: "u32 \<Rightarrow> byte list" where
  "le32 w = [ucast w, ucast (drop_bit 8 w), ucast (drop_bit 16 w), ucast (drop_bit 24 w)]"

fun of_le32 :: "byte list \<Rightarrow> u32" where
  "of_le32 (a # b # c # d # _) =
     ucast a OR push_bit 8 (ucast b) OR push_bit 16 (ucast c) OR push_bit 24 (ucast d)"
| "of_le32 _ = 0"

definition head_bytes :: "msg_head \<Rightarrow> byte list" where
  "head_bytes h = le32 (word_of_int (h_id h)) @ le32 (word_of_int (h_length h))"

definition read_head :: "byte list \<Rightarrow> msg_head" where
  "read_head bs = \<lparr>h_id = sint (of_le32 bs), h_length = sint (of_le32 (drop 4 bs))\<rparr>"

lemma of_le32_le32 [simp]: "of_le32 (le32 w @ rest) = w"
proof -
  have "of_le32 (le32 w @ rest) =
      (ucast (ucast w :: byte) OR push_bit 8 (ucast (ucast (drop_bit 8 w) :: byte)) OR
       push_bit 16 (ucast (ucast (drop_bit 16 w) :: byte)) OR
       push_bit 24 (ucast (ucast (drop_bit 24 w) :: byte)) :: u32)"
    by (simp add: le32_def)
  also have "\<dots> = w"
  proof (rule bit_word_eqI)
    fix n assume "n < LENGTH(32)"
    then consider "n < 8" | "8 \<le> n" "n < 16" | "16 \<le> n" "n < 24" | "24 \<le> n" "n < 32"
      by fastforce
    then show "bit (ucast (ucast w :: byte) OR push_bit 8 (ucast (ucast (drop_bit 8 w) :: byte)) OR
       push_bit 16 (ucast (ucast (drop_bit 16 w) :: byte)) OR
       push_bit 24 (ucast (ucast (drop_bit 24 w) :: byte)) :: u32) n = bit w n"
      by cases (auto simp: bit_simps)
  qed
  finally show ?thesis .
qed

lemma length_le32 [simp]: "length (le32 w) = 4"
  by (simp add: le32_def)

lemma length_head_bytes [simp]: "length (head_bytes h) = 8"
  by (simp add: head_bytes_def)

lemma head_bytes_not_Nil [simp]: "head_bytes h \<noteq> []"
  using length_head_bytes[of h] by force

lemma sint_word_of_int_32 [simp]: "in_int x \<Longrightarrow> sint (word_of_int x :: 32 word) = x"
  by (simp add: in_int_def int_word_sint)

lemma read_head_head_bytes [simp]:
  "in_int (h_id h) \<Longrightarrow> in_int (h_length h) \<Longrightarrow> read_head (head_bytes h @ rest) = h"
  by (simp add: read_head_def head_bytes_def)

lemma in_int_sint [simp]: "in_int (sint (w :: 32 word))"
  using sint_range_size[of w] by (simp add: in_int_def word_size)

lemma in_int_read_head [simp]: "in_int (h_id (read_head bs))" "in_int (h_length (read_head bs))"
  by (simp_all add: read_head_def)

lemma of_le32_append: "4 \<le> length bs \<Longrightarrow> of_le32 (bs @ ys) = of_le32 bs"
proof -
  assume "4 \<le> length bs"
  then obtain a b c d r where "bs = a # b # c # d # r"
    by (auto simp: Suc_le_length_iff numeral_eq_Suc)
  then show ?thesis by simp
qed

lemma read_head_append: "8 \<le> length bs \<Longrightarrow> read_head (bs @ ys) = read_head bs"
  by (simp add: read_head_def of_le32_append)

section \<open>Frames on a byte stream\<close>

type_synonym frame = "int \<times> byte list"

datatype 'm decision = Need | Bad | Msg 'm "byte list"

text \<open>All messages at the front of \<open>xs\<close>, what is left, and whether what is left is malformed.\<close>

function unframe :: "(byte list \<Rightarrow> 'm decision) \<Rightarrow> byte list \<Rightarrow> 'm list \<times> byte list \<times> bool" where
  "unframe nxt xs =
     (case nxt xs of
        Need \<Rightarrow> ([], xs, False)
      | Bad \<Rightarrow> ([], xs, True)
      | Msg m rest \<Rightarrow>
          if length rest < length xs
          then (case unframe nxt rest of (ms, r, bad) \<Rightarrow> (m # ms, r, bad))
          else ([], xs, True))"
  by pat_completeness auto
termination
  by (relation "measure (\<lambda>(nxt, xs). length xs)") auto

declare unframe.simps [simp del]

locale framing =
  fixes enc :: "'m \<Rightarrow> byte list"
    and nxt :: "byte list \<Rightarrow> 'm decision"
    and valid :: "'m \<Rightarrow> bool"
  assumes nxt_enc: "valid m \<Longrightarrow> nxt (enc m @ rest) = Msg m rest"
    and nxt_nil: "nxt [] = Need"
    and nxt_Msg: "nxt xs = Msg m rest \<Longrightarrow> nxt (xs @ ys) = Msg m (rest @ ys) \<and> length rest < length xs"
    and nxt_Bad: "nxt xs = Bad \<Longrightarrow> nxt (xs @ ys) = Bad"
begin

lemma unframe_Need [simp]: "nxt xs = Need \<Longrightarrow> unframe nxt xs = ([], xs, False)"
  by (simp add: unframe.simps[of nxt xs])

lemma unframe_Bad [simp]: "nxt xs = Bad \<Longrightarrow> unframe nxt xs = ([], xs, True)"
  by (simp add: unframe.simps[of nxt xs])

lemma unframe_Msg:
  "nxt xs = Msg m rest \<Longrightarrow>
   unframe nxt xs = (case unframe nxt rest of (ms, r, bad) \<Rightarrow> (m # ms, r, bad))"
  using nxt_Msg[of xs m rest] by (simp add: unframe.simps[of nxt xs])

lemma unframe_encode:
  assumes "\<forall>m \<in> set ms. valid m"
  shows "unframe nxt (concat (map enc ms) @ rest) =
    (case unframe nxt rest of (ns, r, bad) \<Rightarrow> (ms @ ns, r, bad))"
  using assms
proof (induction ms)
  case Nil
  then show ?case by (auto split: prod.splits)
next
  case (Cons m ms)
  then have "nxt (enc m @ concat (map enc ms) @ rest) = Msg m (concat (map enc ms) @ rest)"
    by (intro nxt_enc) simp
  then show ?case using Cons by (simp add: unframe_Msg split: prod.splits)
qed

text \<open>A stream may be decoded in pieces, the bytes left over carried along.\<close>

lemma unframe_append:
  "unframe nxt (xs @ ys) =
     (case unframe nxt xs of (ms, r, bad) \<Rightarrow>
        if bad then (ms, r @ ys, True)
        else (case unframe nxt (r @ ys) of (ns, r', bad') \<Rightarrow> (ms @ ns, r', bad')))"
proof (induction xs rule: measure_induct_rule[of length])
  case (less xs)
  show ?case
  proof (cases "nxt xs")
    case Need
    then show ?thesis by (simp split: prod.splits)
  next
    case Bad
    then show ?thesis using nxt_Bad[of xs ys] by simp
  next
    case (Msg m rest)
    from nxt_Msg[OF this, of ys] have a: "nxt (xs @ ys) = Msg m (rest @ ys)" and l: "length rest < length xs"
      by auto
    show ?thesis
      using less.IH[OF l] by (simp add: unframe_Msg[OF a] unframe_Msg[OF Msg] split: prod.splits)
  qed
qed

lemma unframe_leftover:
  "unframe nxt xs = (ms, r, bad) \<Longrightarrow> nxt r = (if bad then Bad else Need)"
proof (induction xs arbitrary: ms rule: measure_induct_rule[of length])
  case (less xs)
  show ?case
  proof (cases "nxt xs")
    case (Msg m rest)
    with less.prems obtain ms' where "unframe nxt rest = (ms', r, bad)"
      by (auto simp: unframe_Msg split: prod.splits)
    with less.IH nxt_Msg[OF Msg] show ?thesis by blast
  qed (use less.prems in auto)
qed

lemma unframe_rest: "unframe nxt xs = (ms, r, bad) \<Longrightarrow> unframe nxt r = ([], r, bad)"
  by (cases bad) (auto dest: unframe_leftover)

lemma unframe_length: "unframe nxt xs = (ms, r, bad) \<Longrightarrow> length r \<le> length xs"
proof (induction xs arbitrary: ms rule: measure_induct_rule[of length])
  case (less xs)
  show ?case
  proof (cases "nxt xs")
    case (Msg m rest)
    with less.prems obtain ms' where "unframe nxt rest = (ms', r, bad)"
      by (auto simp: unframe_Msg split: prod.splits)
    with less.IH nxt_Msg[OF Msg] show ?thesis by (meson less_imp_le order_trans)
  qed (use less.prems in auto)
qed

end

text \<open>
  The decision of \<open>tcp_conn::do_read\<close> on the unprocessed bytes: fewer than a head, or than the
  head and the body it announces, means wait; a length outside the limits means the stream is
  broken.
\<close>

definition next_frame :: "byte list \<Rightarrow> frame decision" where
  "next_frame xs =
     (if length xs < MESSAGE_HEAD_LEN then Need
      else let h = read_head xs in
        if h_length h > MESSAGE_LENGTH_LIMIT \<or> h_length h < 0 then Bad
        else if int (length xs) < int MESSAGE_HEAD_LEN + h_length h then Need
        else Msg (h_id h, take (nat (h_length h)) (drop MESSAGE_HEAD_LEN xs))
               (drop (MESSAGE_HEAD_LEN + nat (h_length h)) xs))"

definition frame_bytes :: "frame \<Rightarrow> byte list" where
  "frame_bytes m = head_bytes \<lparr>h_id = fst m, h_length = int (length (snd m))\<rparr> @ snd m"

definition frame_ok :: "frame \<Rightarrow> bool" where
  "frame_ok m \<longleftrightarrow> in_int (fst m) \<and> int (length (snd m)) \<le> MESSAGE_LENGTH_LIMIT"

lemmas message_limits = MESSAGE_HEAD_LEN_def MESSAGE_LENGTH_LIMIT_def

lemma next_frame_bytes: "frame_ok m \<Longrightarrow> next_frame (frame_bytes m @ rest) = Msg m rest"
  by (cases m) (simp add: next_frame_def frame_bytes_def frame_ok_def message_limits in_int_def Let_def)

lemma next_frame_Msg:
  assumes "next_frame xs = Msg m rest"
  shows "next_frame (xs @ ys) = Msg m (rest @ ys) \<and> length rest < length xs"
proof -
  have l: "8 \<le> length xs" using assms by (auto simp: next_frame_def message_limits split: if_splits)
  show ?thesis
    using assms l by (auto simp: next_frame_def message_limits Let_def read_head_append split: if_splits)
qed

lemma next_frame_ok: "next_frame xs = Msg m rest \<Longrightarrow> frame_ok m"
  by (auto simp: next_frame_def frame_ok_def message_limits Let_def split: if_splits)

lemma next_frame_Bad: "next_frame xs = Bad \<Longrightarrow> next_frame (xs @ ys) = Bad"
  by (auto simp: next_frame_def message_limits Let_def read_head_append split: if_splits)

interpretation fr: framing frame_bytes next_frame frame_ok
  using next_frame_bytes next_frame_Msg next_frame_Bad
  by unfold_locales (blast | simp add: next_frame_def message_limits)+

section \<open>The message router\<close>

text \<open>\<open>'cb\<close> stands for the function pointers registered, \<open>'u\<close> for the user data.\<close>

record ('cb, 'u) msg_router =
  r_cbs :: "int \<rightharpoonup> 'cb"
  r_args :: "int \<rightharpoonup> 'u"

definition router_new :: "('cb, 'u) msg_router" where
  "router_new = \<lparr>r_cbs = Map.empty, r_args = Map.empty\<rparr>"

definition register_msg_router ::
  "('cb, 'u) msg_router \<Rightarrow> int \<Rightarrow> 'cb \<Rightarrow> 'u \<Rightarrow> int \<times> ('cb, 'u) msg_router" where
  "register_msg_router r msgid cb user_data =
     (if msgid \<in> dom (r_cbs r) then (-1, r)
      else (0, r\<lparr>r_cbs := (r_cbs r)(msgid \<mapsto> cb), r_args := (r_args r)(msgid \<mapsto> user_data)\<rparr>))"

text \<open>What \<open>call\<close> invokes: nothing for an unknown id, else the callback and its user data.\<close>

definition router_call :: "('cb, 'u) msg_router \<Rightarrow> int \<Rightarrow> ('cb \<times> 'u option) option" where
  "router_call r msgid =
     (case r_cbs r msgid of None \<Rightarrow> None | Some cb \<Rightarrow> Some (cb, r_args r msgid))"

definition register_all :: "('cb, 'u) msg_router \<Rightarrow> (int \<times> 'cb \<times> 'u) list \<Rightarrow> ('cb, 'u) msg_router" where
  "register_all r regs = fold (\<lambda>(i, cb, u) r. snd (register_msg_router r i cb u)) regs r"

lemma router_call_register:
  "router_call (snd (register_msg_router r i cb u)) j =
     (if j = i \<and> router_call r i = None then Some (cb, Some u) else router_call r j)"
  by (auto simp: register_msg_router_def router_call_def split: option.splits)

lemma router_call_new [simp]: "router_call router_new i = None"
  by (simp add: router_call_def router_new_def)

lemma router_call_register_all:
  "router_call (register_all r regs) i =
     (case router_call r i of Some x \<Rightarrow> Some x
      | None \<Rightarrow> map_option (\<lambda>(cb, u). (cb, Some u)) (map_of regs i))"
proof (induction regs arbitrary: r)
  case Nil
  then show ?case by (simp add: register_all_def split: option.splits)
next
  case (Cons x regs)
  obtain k cb u where x: "x = (k, cb, u)" by (cases x)
  have "register_all r (x # regs) = register_all (snd (register_msg_router r k cb u)) regs"
    by (simp add: register_all_def x)
  then show ?case
    by (auto simp: Cons.IH x router_call_register split: option.splits)
qed

end
