(* ===== verification/Event_Loop.thy ===== *)
theory Event_Loop
  imports Prelude
begin

text \<open>
  \<open>class event_loop\<close> (reactor/include/event_base.h, event_loop.h, reactor/src/event_loop.cc): the
  table of registered descriptors with their callbacks, the set of descriptors listened to, the
  queue of tasks, and one round of \<open>event_process\<close>. Function pointers are the names of the
  functions the program registers; an \<open>args\<close> pointer is a number or null.

  The kernel side of epoll is part of the state: its interest list, and a stream of answers that
  says which \<open>epoll_ctl\<close> calls fail for reasons of their own. \<open>loop_inv\<close> says that table and
  interest list agree; under it \<open>event_process\<close> never meets an unknown descriptor or calls a null
  callback.
\<close>

unbundle bit_operations_syntax

section \<open>Events and callbacks\<close>

type_synonym fd = int
type_synonym mask = "32 word"

definition EPOLLIN :: mask where "EPOLLIN = 1"
definition EPOLLOUT :: mask where "EPOLLOUT = 4"
definition EPOLLERR :: mask where "EPOLLERR = 8"
definition EPOLLHUP :: mask where "EPOLLHUP = 16"

datatype io_callback =
    conn_rd_callback | conn_wt_callback | accept_callback
  | client_write_callback | client_read_callback | connection_delay
  | udp_server_read_callback | udp_client_read_callback
  | deal_task_message | new_dns_request | new_report_request | thread_report

datatype task_func = push_change_task

record io_event =
  ev_mask :: mask
  read_callback :: "io_callback option"
  write_callback :: "io_callback option"
  rcb_args :: "nat option"
  wcb_args :: "nat option"

text \<open>The constructor of \<open>io_event\<close> leaves \<open>mask\<close> indeterminate; it is always assigned before it is read.\<close>

definition io_event_new :: "mask \<Rightarrow> io_event" where
  "io_event_new m =
     \<lparr>ev_mask = m, read_callback = None, write_callback = None, rcb_args = None, wcb_args = None\<rparr>"

datatype ep_op = EPOLL_CTL_ADD | EPOLL_CTL_MOD | EPOLL_CTL_DEL

record event_loop =
  io_evs :: "fd \<rightharpoonup> io_event"
  listen_fds :: "fd set"
  ready_tasks :: "(task_func \<times> nat) list"
  ep_set :: "fd \<rightharpoonup> mask"
  ctl_ans :: "nat \<Rightarrow> bool"
  ctl_no :: nat

definition event_loop_new :: "(nat \<Rightarrow> bool) \<Rightarrow> event_loop" where
  "event_loop_new ans =
     \<lparr>io_evs = Map.empty, listen_fds = {}, ready_tasks = [], ep_set = Map.empty,
      ctl_ans = ans, ctl_no = 0\<rparr>"

text \<open>
  \<open>epoll_ctl\<close>: adding a descriptor that is in the interest list fails, modifying or removing one
  that is not fails, and any call may fail besides.
\<close>

definition epoll_ctl :: "event_loop \<Rightarrow> ep_op \<Rightarrow> fd \<Rightarrow> mask \<Rightarrow> bool \<times> event_loop" where
  "epoll_ctl l ctlop f m =
     (let ok = ctl_ans l (ctl_no l) \<and> (ctlop = EPOLL_CTL_ADD \<longleftrightarrow> ep_set l f = None)
      in (ok, l\<lparr>ctl_no := Suc (ctl_no l),
                ep_set := (if ok then (ep_set l)(f := (if ctlop = EPOLL_CTL_DEL then None else Some m))
                           else ep_set l)\<rparr>))"

section \<open>Operations\<close>

definition add_io_event :: "event_loop \<Rightarrow> fd \<Rightarrow> io_callback \<Rightarrow> mask \<Rightarrow> nat option \<Rightarrow> event_loop" where
  "add_io_event l f proc m args =
     (let (final_mask, ctlop) =
            (case io_evs l f of
               None \<Rightarrow> (m, EPOLL_CTL_ADD)
             | Some ev \<Rightarrow> (ev_mask ev OR m, EPOLL_CTL_MOD));
          ev = (case io_evs l f of None \<Rightarrow> io_event_new 0 | Some ev \<Rightarrow> ev);
          ev1 = (if m AND EPOLLIN \<noteq> 0 then ev\<lparr>read_callback := Some proc, rcb_args := args\<rparr>
                 else if m AND EPOLLOUT \<noteq> 0 then ev\<lparr>write_callback := Some proc, wcb_args := args\<rparr>
                 else ev);
          l1 = l\<lparr>io_evs := (io_evs l)(f \<mapsto> ev1\<lparr>ev_mask := final_mask\<rparr>)\<rparr>;
          (ok, l2) = epoll_ctl l1 ctlop f final_mask
      in if \<not> ok then l2 else l2\<lparr>listen_fds := insert f (listen_fds l2)\<rparr>)"

definition del_io_event :: "event_loop \<Rightarrow> fd \<Rightarrow> event_loop" where
  "del_io_event l f =
     (let l1 = l\<lparr>io_evs := (io_evs l)(f := None), listen_fds := listen_fds l - {f}\<rparr>
      in snd (epoll_ctl l1 EPOLL_CTL_DEL f 0))"

definition del_io_event_mask :: "event_loop \<Rightarrow> fd \<Rightarrow> mask \<Rightarrow> event_loop" where
  "del_io_event_mask l f m =
     (case io_evs l f of
        None \<Rightarrow> l
      | Some ev \<Rightarrow>
          (let o_mask = ev_mask ev AND NOT m;
               l1 = l\<lparr>io_evs := (io_evs l)(f \<mapsto> ev\<lparr>ev_mask := o_mask\<rparr>)\<rparr>
           in if o_mask = 0 then del_io_event l1 f
              else snd (epoll_ctl l1 EPOLL_CTL_MOD f o_mask)))"

definition get_listen_fds :: "event_loop \<Rightarrow> fd set" where
  "get_listen_fds l = listen_fds l"

definition add_task :: "event_loop \<Rightarrow> task_func \<Rightarrow> nat \<Rightarrow> event_loop" where
  "add_task l func args = l\<lparr>ready_tasks := ready_tasks l @ [(func, args)]\<rparr>"

text \<open>
  The loop over \<open>_read_tasks\<close> holds an iterator across the calls: a task that pushes another
  task onto the vector invalidates it. \<open>task\<close> runs one task on the loop and the rest of the world.
\<close>

fun execute_tasks ::
  "(task_func \<Rightarrow> nat \<Rightarrow> event_loop \<times> 'w \<Rightarrow> (event_loop \<times> 'w) res) \<Rightarrow>
   (task_func \<times> nat) list \<Rightarrow> event_loop \<times> 'w \<Rightarrow> (event_loop \<times> 'w) res" where
  "execute_tasks task [] s = Inr s"
| "execute_tasks task ((func, args) # ts) s =
     res_bind (task func args s) (\<lambda>s'.
     res_bind (check Invalid_iterator (ready_tasks (fst s') = ready_tasks (fst s))) (\<lambda>_.
       execute_tasks task ts s'))"

definition execute_ready_task ::
  "(task_func \<Rightarrow> nat \<Rightarrow> event_loop \<times> 'w \<Rightarrow> (event_loop \<times> 'w) res) \<Rightarrow>
   event_loop \<times> 'w \<Rightarrow> (event_loop \<times> 'w) res" where
  "execute_ready_task task s =
     res_bind (execute_tasks task (ready_tasks (fst s)) s) (\<lambda>(l, w).
       Inr (l\<lparr>ready_tasks := []\<rparr>, w))"

type_synonym 'w invoker =
  "io_callback \<Rightarrow> fd \<Rightarrow> nat option \<Rightarrow> event_loop \<times> 'w \<Rightarrow> (event_loop \<times> 'w) res"

definition call_ptr ::
  "'w invoker \<Rightarrow> io_callback option \<Rightarrow> fd \<Rightarrow> nat option \<Rightarrow> event_loop \<times> 'w \<Rightarrow> (event_loop \<times> 'w) res" where
  "call_ptr invoke cb f args s = (case cb of None \<Rightarrow> Inl Null_deref | Some c \<Rightarrow> invoke c f args s)"

definition dispatch_one ::
  "'w invoker \<Rightarrow> event_loop \<times> 'w \<Rightarrow> fd \<times> mask \<Rightarrow> (event_loop \<times> 'w) res" where
  "dispatch_one invoke s fe =
     (let (f, events) = fe in
      case io_evs (fst s) f of
        None \<Rightarrow> Inl Assert_failed
      | Some ev \<Rightarrow>
          if events AND EPOLLIN \<noteq> 0 then call_ptr invoke (read_callback ev) f (rcb_args ev) s
          else if events AND EPOLLOUT \<noteq> 0 then call_ptr invoke (write_callback ev) f (wcb_args ev) s
          else if events AND (EPOLLHUP OR EPOLLERR) \<noteq> 0 then
            (case read_callback ev of
               Some cb \<Rightarrow> invoke cb f (rcb_args ev) s
             | None \<Rightarrow>
                (case write_callback ev of
                   Some cb \<Rightarrow> invoke cb f (wcb_args ev) s
                 | None \<Rightarrow> Inr (del_io_event (fst s) f, snd s)))
          else Inr s)"

text \<open>One round of \<open>event_process\<close>: the events \<open>epoll_wait\<close> reported, at most \<open>MAXEVENTS\<close>, then the tasks.\<close>

definition MAXEVENTS :: nat where "MAXEVENTS = 10"

definition event_round ::
  "'w invoker \<Rightarrow> (task_func \<Rightarrow> nat \<Rightarrow> event_loop \<times> 'w \<Rightarrow> (event_loop \<times> 'w) res) \<Rightarrow>
   event_loop \<times> 'w \<Rightarrow> (fd \<times> mask) list \<Rightarrow> (event_loop \<times> 'w) res" where
  "event_round invoke task s fired =
     res_bind (run (dispatch_one invoke) s (take MAXEVENTS fired)) (execute_ready_task task)"

definition event_process ::
  "'w invoker \<Rightarrow> (task_func \<Rightarrow> nat \<Rightarrow> event_loop \<times> 'w \<Rightarrow> (event_loop \<times> 'w) res) \<Rightarrow>
   event_loop \<times> 'w \<Rightarrow> (fd \<times> mask) list list \<Rightarrow> (event_loop \<times> 'w) res" where
  "event_process invoke task = run (event_round invoke task)"

section \<open>Agreement of the table and the kernel\<close>

definition ev_ok :: "io_event \<Rightarrow> bool" where
  "ev_ok ev \<longleftrightarrow> ev_mask ev \<noteq> 0 \<and> ev_mask ev AND NOT (EPOLLIN OR EPOLLOUT) = 0 \<and>
     (ev_mask ev AND EPOLLIN \<noteq> 0 \<longrightarrow> read_callback ev \<noteq> None) \<and>
     (ev_mask ev AND EPOLLOUT \<noteq> 0 \<longrightarrow> write_callback ev \<noteq> None)"

definition loop_inv :: "event_loop \<Rightarrow> bool" where
  "loop_inv l \<longleftrightarrow> (\<forall>n. ctl_ans l n) \<and> listen_fds l = dom (io_evs l) \<and>
     ep_set l = (\<lambda>f. map_option ev_mask (io_evs l f)) \<and>
     (\<forall>f ev. io_evs l f = Some ev \<longrightarrow> ev_ok ev)"

text \<open>What epoll may report: events of the interest mask, and errors.\<close>

definition reported :: "event_loop \<Rightarrow> fd \<times> mask \<Rightarrow> bool" where
  "reported l fe \<longleftrightarrow> (\<exists>m. ep_set l (fst fe) = Some m \<and>
     snd fe AND NOT (m OR EPOLLERR OR EPOLLHUP) = 0)"

lemmas epoll_bits = EPOLLIN_def EPOLLOUT_def EPOLLERR_def EPOLLHUP_def

lemma in_mask: "(m AND EPOLLIN = 0) \<longleftrightarrow> \<not> bit m 0"
  using and_exp_eq_0_iff_not_bit[of m 0] by (simp add: EPOLLIN_def)

lemma out_mask: "(m AND EPOLLOUT = 0) \<longleftrightarrow> \<not> bit m 2"
  using and_exp_eq_0_iff_not_bit[of m 2] by (simp add: EPOLLOUT_def)

lemma bit_epoll:
  "bit EPOLLIN n \<longleftrightarrow> n = 0" "bit EPOLLOUT n \<longleftrightarrow> n = 2" "bit EPOLLERR n \<longleftrightarrow> n = 3"
  "bit EPOLLHUP n \<longleftrightarrow> n = 4"
  using bit_exp_iff[where 'a = "32 word", of 0 n] bit_exp_iff[where 'a = "32 word", of 2 n]
    bit_exp_iff[where 'a = "32 word", of 3 n] bit_exp_iff[where 'a = "32 word", of 4 n]
  by (auto simp: epoll_bits)

lemma word_zero_bits: "(w :: mask) = 0 \<longleftrightarrow> (\<forall>n. \<not> bit w n)"
  by (auto intro: bit_word_eqI)

lemma and_not_zero: "(a :: mask) AND NOT b = 0 \<longleftrightarrow> (\<forall>n. bit a n \<longrightarrow> bit b n)"
  unfolding word_zero_bits bit_and_iff bit_not_iff using bit_imp_possible_bit[of a] by blast

lemma in_out_distinct [simp]: "EPOLLIN \<noteq> EPOLLOUT" "EPOLLOUT \<noteq> EPOLLIN"
  by (simp_all add: epoll_bits)

lemmas mask_bits = in_mask out_mask bit_epoll and_not_zero bit_or_iff

lemma ev_ok_bits:
  "ev_ok ev \<longleftrightarrow> (bit (ev_mask ev) 0 \<or> bit (ev_mask ev) 2) \<and>
     (\<forall>n. bit (ev_mask ev) n \<longrightarrow> n = 0 \<or> n = 2) \<and>
     (bit (ev_mask ev) 0 \<longrightarrow> read_callback ev \<noteq> None) \<and>
     (bit (ev_mask ev) 2 \<longrightarrow> write_callback ev \<noteq> None)"
proof -
  have nz: "ev_mask ev \<noteq> 0 \<longleftrightarrow> (\<exists>n. bit (ev_mask ev) n)" by (simp add: word_zero_bits)
  show ?thesis unfolding ev_ok_def in_mask out_mask and_not_zero nz bit_or_iff bit_epoll by blast
qed

lemma loop_inv_new: "(\<And>n. ans n) \<Longrightarrow> loop_inv (event_loop_new ans)"
  by (auto simp: loop_inv_def event_loop_new_def)

text \<open>Effect of the operations on the table, when no \<open>epoll_ctl\<close> call fails.\<close>

definition rw_mask :: "mask \<Rightarrow> bool" where
  "rw_mask m \<longleftrightarrow> m = EPOLLIN \<or> m = EPOLLOUT"

definition registered :: "io_event option \<Rightarrow> io_callback \<Rightarrow> mask \<Rightarrow> nat option \<Rightarrow> io_event" where
  "registered old proc m args =
     (let ev = (case old of None \<Rightarrow> io_event_new 0 | Some ev \<Rightarrow> ev)
      in (if m = EPOLLIN then ev\<lparr>read_callback := Some proc, rcb_args := args\<rparr>
          else ev\<lparr>write_callback := Some proc, wcb_args := args\<rparr>)\<lparr>ev_mask := ev_mask ev OR m\<rparr>)"

lemma registered_ok:
  assumes "rw_mask m" and "\<And>ev. old = Some ev \<Longrightarrow> ev_ok ev"
  shows "ev_ok (registered old proc m args)"
proof (cases old)
  case None
  then show ?thesis
    using assms(1) by (auto simp: registered_def ev_ok_bits rw_mask_def io_event_new_def mask_bits Let_def)
next
  case (Some ev)
  with assms(2) have "ev_ok ev" by simp
  then show ?thesis
    using assms(1) Some by (auto simp: registered_def ev_ok_bits rw_mask_def mask_bits Let_def)
qed

lemma add_io_event_spec:
  assumes I: "loop_inv l" and m: "rw_mask m"
  shows "loop_inv (add_io_event l f proc m args)"
    and "io_evs (add_io_event l f proc m args) =
      (io_evs l)(f \<mapsto> registered (io_evs l f) proc m args)"
    and "ready_tasks (add_io_event l f proc m args) = ready_tasks l"
proof -
  let ?ev = "registered (io_evs l f) proc m args"
  let ?l' = "add_io_event l f proc m args"
  have ct: "ctl_ans l n" for n using I by (simp add: loop_inv_def)
  have ep: "ep_set l f = map_option ev_mask (io_evs l f)" using I by (simp add: loop_inv_def)
  have mm: "m AND EPOLLIN \<noteq> 0 \<longleftrightarrow> m = EPOLLIN" "m AND EPOLLOUT \<noteq> 0 \<longleftrightarrow> m = EPOLLOUT"
    using m by (auto simp: rw_mask_def epoll_bits)
  have eq: "io_evs ?l' = (io_evs l)(f \<mapsto> ?ev)" "ep_set ?l' = (ep_set l)(f \<mapsto> ev_mask ?ev)"
    "listen_fds ?l' = insert f (listen_fds l)" "ctl_ans ?l' = ctl_ans l"
    "ready_tasks ?l' = ready_tasks l"
    using ct ep mm m
    by (auto simp: add_io_event_def epoll_ctl_def Let_def registered_def io_event_new_def rw_mask_def
        split: option.splits)
  show "io_evs ?l' = (io_evs l)(f \<mapsto> ?ev)" "ready_tasks ?l' = ready_tasks l" using eq by simp_all
  have "ev_ok ?ev" using m I by (intro registered_ok) (auto simp: loop_inv_def)
  then show "loop_inv ?l'"
    using I unfolding loop_inv_def eq by (auto simp: fun_eq_iff)
qed

lemma del_io_event_spec:
  assumes I: "loop_inv l" and f: "f \<in> dom (io_evs l)"
  shows "loop_inv (del_io_event l f)"
    and "io_evs (del_io_event l f) = (io_evs l)(f := None)"
    and "ready_tasks (del_io_event l f) = ready_tasks l"
proof -
  let ?l' = "del_io_event l f"
  have ct: "ctl_ans l n" for n using I by (simp add: loop_inv_def)
  have ep: "\<exists>m. ep_set l f = Some m" using I f by (auto simp: loop_inv_def)
  then have eq: "io_evs ?l' = (io_evs l)(f := None)" "ep_set ?l' = (ep_set l)(f := None)"
    "listen_fds ?l' = listen_fds l - {f}" "ctl_ans ?l' = ctl_ans l" "ready_tasks ?l' = ready_tasks l"
    using ct by (auto simp: del_io_event_def epoll_ctl_def Let_def)
  show "io_evs ?l' = (io_evs l)(f := None)" "ready_tasks ?l' = ready_tasks l" using eq by simp_all
  show "loop_inv ?l'"
    using I unfolding loop_inv_def eq by (auto simp: fun_eq_iff split: if_splits)
qed

lemma del_io_event_mask_spec:
  assumes I: "loop_inv l" and m: "rw_mask m"
  shows "loop_inv (del_io_event_mask l f m) \<and>
    io_evs (del_io_event_mask l f m) = (io_evs l)(f :=
      (case io_evs l f of None \<Rightarrow> None
       | Some ev \<Rightarrow> if ev_mask ev AND NOT m = 0 then None else Some (ev\<lparr>ev_mask := ev_mask ev AND NOT m\<rparr>))) \<and>
    ready_tasks (del_io_event_mask l f m) = ready_tasks l"
proof (cases "io_evs l f")
  case None
  then show ?thesis using I by (simp add: del_io_event_mask_def fun_upd_idem)
next
  case (Some ev)
  let ?o = "ev_mask ev AND NOT m"
  let ?l1 = "l\<lparr>io_evs := (io_evs l)(f \<mapsto> ev\<lparr>ev_mask := ?o\<rparr>)\<rparr>"
  have ct: "ctl_ans l n" for n using I by (simp add: loop_inv_def)
  have ep: "ep_set l f = Some (ev_mask ev)" using I Some by (simp add: loop_inv_def)
  have evo: "ev_ok ev" using I Some by (auto simp: loop_inv_def)
  show ?thesis
  proof (cases "?o = 0")
    case True
    let ?l' = "del_io_event_mask l f m"
    have eq: "io_evs ?l' = (io_evs l)(f := None)" "ep_set ?l' = (ep_set l)(f := None)"
      "listen_fds ?l' = listen_fds l - {f}" "ctl_ans ?l' = ctl_ans l" "ready_tasks ?l' = ready_tasks l"
      using ct ep Some True by (auto simp: del_io_event_mask_def del_io_event_def epoll_ctl_def Let_def)
    have "loop_inv ?l'" using I unfolding loop_inv_def eq by (auto simp: fun_eq_iff split: if_splits)
    with eq Some True show ?thesis by simp
  next
    case False
    let ?l' = "del_io_event_mask l f m"
    have eq: "io_evs ?l' = (io_evs l)(f \<mapsto> ev\<lparr>ev_mask := ?o\<rparr>)" "ep_set ?l' = (ep_set l)(f \<mapsto> ?o)"
      "listen_fds ?l' = listen_fds l" "ctl_ans ?l' = ctl_ans l" "ready_tasks ?l' = ready_tasks l"
      using ct ep Some False by (auto simp: del_io_event_mask_def epoll_ctl_def Let_def)
    have "ev_ok (ev\<lparr>ev_mask := ?o\<rparr>)"
      using evo False m by (auto simp: ev_ok_bits word_zero_bits bit_and_iff)
    then have "loop_inv ?l'"
      using I Some unfolding loop_inv_def eq by (auto simp: fun_eq_iff)
    with eq Some False show ?thesis by simp
  qed
qed

section \<open>Dispatch\<close>

text \<open>The callback and argument that the table holds for a descriptor, and that a dispatch may call.\<close>

definition entry :: "event_loop \<Rightarrow> io_callback \<Rightarrow> fd \<Rightarrow> nat option \<Rightarrow> bool" where
  "entry l cb f a \<longleftrightarrow> (\<exists>ev. io_evs l f = Some ev \<and>
     (read_callback ev = Some cb \<and> rcb_args ev = a \<or>
      write_callback ev = Some cb \<and> wcb_args ev = a \<and> (bit (ev_mask ev) 2 \<or> read_callback ev = None)))"

text \<open>Everything that was listened for at a descriptor still is.\<close>

definition keeps_interest :: "event_loop \<Rightarrow> event_loop \<Rightarrow> fd \<Rightarrow> bool" where
  "keeps_interest l l' g \<longleftrightarrow> (\<forall>ev. io_evs l g = Some ev \<longrightarrow>
     (\<exists>ev'. io_evs l' g = Some ev' \<and> (\<forall>n. bit (ev_mask ev) n \<longrightarrow> bit (ev_mask ev') n)))"

lemma reported_iff:
  assumes "loop_inv l"
  shows "reported l fe \<longleftrightarrow> (\<exists>e. io_evs l (fst fe) = Some e \<and> (\<forall>n. bit (snd fe) n \<longrightarrow> bit (ev_mask e) n \<or> n = 3 \<or> n = 4))"
proof -
  have "ep_set l (fst fe) = map_option ev_mask (io_evs l (fst fe))" using assms by (simp add: loop_inv_def)
  then show ?thesis unfolding reported_def and_not_zero bit_or_iff bit_epoll by auto
qed

lemma keeps_interest_refl: "keeps_interest l l g"
  by (simp add: keeps_interest_def)

text \<open>
  What the loop relies on when it calls back: a registered callback keeps the loop and the world
  in order, and of the other entries in the table it takes nothing away. What it gets from that: a
  whole batch of reported events is dispatched without a failed assertion and without a call
  through a null pointer; a batch can only fail because a callback itself fails.
\<close>

locale loop_dispatch =
  fixes invoke :: "'w invoker"
    and good :: "event_loop \<times> 'w \<Rightarrow> bool"
  assumes good_loop: "good s \<Longrightarrow> loop_inv (fst s)"
    and invoke_interest: "good s \<Longrightarrow> entry (fst s) cb f a \<Longrightarrow> invoke cb f a s = Inr s' \<Longrightarrow> good s' \<and>
      (\<forall>g. g \<noteq> f \<longrightarrow> keeps_interest (fst s) (fst s') g)"
begin

lemma dispatch_one_safe:
  assumes g: "good s" and r: "reported (fst s) (f, ev)"
  shows "(\<exists>cb a. entry (fst s) cb f a \<and> dispatch_one invoke s (f, ev) = invoke cb f a s) \<or>
    dispatch_one invoke s (f, ev) = Inr s"
proof -
  have I: "loop_inv (fst s)" using g by (rule good_loop)
  from r[unfolded reported_iff[OF I]] I obtain e where e: "io_evs (fst s) f = Some e" "ev_ok e"
    and sub: "\<forall>n. bit ev n \<longrightarrow> bit (ev_mask e) n \<or> n = 3 \<or> n = 4" by (auto simp: loop_inv_def)
  from e(2) have "(\<exists>cb. read_callback e = Some cb) \<or> (\<exists>cb. write_callback e = Some cb)"
    and "bit ev 0 \<Longrightarrow> \<exists>cb. read_callback e = Some cb"
    and "bit ev 2 \<Longrightarrow> \<exists>cb. write_callback e = Some cb \<and> bit (ev_mask e) 2"
    using sub by (auto simp: ev_ok_bits)
  then show ?thesis
    using e(1) unfolding dispatch_one_def call_ptr_def in_mask out_mask entry_def
    by (auto split: option.splits)
qed

lemma reported_stable:
  assumes "good s" and "good s'" and "reported (fst s) fe" and "keeps_interest (fst s) (fst s') (fst fe)"
  shows "reported (fst s') fe"
  using assms(3,4) unfolding reported_iff[OF good_loop[OF assms(1)]] reported_iff[OF good_loop[OF assms(2)]] keeps_interest_def
  by blast

lemma reported_dom: "good s \<Longrightarrow> reported (fst s) fe \<Longrightarrow> fst fe \<in> dom (io_evs (fst s))"
  using good_loop[of s] by (auto simp: reported_def loop_inv_def)

lemma batch_safe:
  assumes "good s" and "distinct (map fst evs)" and "\<forall>fe \<in> set evs. reported (fst s) fe"
  shows "(\<exists>s'. run (dispatch_one invoke) s evs = Inr s' \<and> good s') \<or>
    (\<exists>cb f a t e. good t \<and> entry (fst t) cb f a \<and> invoke cb f a t = Inl e \<and>
       run (dispatch_one invoke) s evs = Inl e)"
  using assms
proof (induction evs arbitrary: s)
  case Nil
  then show ?case by simp
next
  case (Cons fe evs)
  obtain f ev where fe: "fe = (f, ev)" by (cases fe)
  from dispatch_one_safe[OF Cons.prems(1), of f ev] Cons.prems(3) fe
  have "dispatch_one invoke s fe = Inr s \<or>
    (\<exists>cb a. entry (fst s) cb f a \<and> dispatch_one invoke s fe = invoke cb f a s)" by auto
  then consider (ok) s1 where "dispatch_one invoke s fe = Inr s1" "good s1"
      "\<forall>g. g \<noteq> f \<longrightarrow> keeps_interest (fst s) (fst s1) g"
    | (bad) cb a e where "dispatch_one invoke s fe = Inl e" "invoke cb f a s = Inl e" "entry (fst s) cb f a"
    using invoke_interest[OF Cons.prems(1)] Cons.prems(1) keeps_interest_refl
    by (cases "dispatch_one invoke s fe") (metis sum.simps(1,2) sum.simps(4))+
  then show ?case
  proof cases
    case ok
    have "\<forall>x \<in> set evs. reported (fst s1) x"
    proof
      fix x assume x: "x \<in> set evs"
      then have "fst x \<noteq> f" using Cons.prems(2) fe by force
      moreover have "fst x \<in> dom (io_evs (fst s))" using reported_dom[OF Cons.prems(1)] Cons.prems(3) x by simp
      ultimately show "reported (fst s1) x"
        using reported_stable[OF Cons.prems(1) ok(2)] Cons.prems(3) x ok(3) by simp
    qed
    with Cons.IH[OF ok(2)] Cons.prems(2) ok(1) show ?thesis by simp
  next
    case bad
    have "run (dispatch_one invoke) s (fe # evs) = Inl e" using bad(1) by simp
    with bad(2,3) Cons.prems(1) show ?thesis by blast
  qed
qed

end

text \<open>Most callbacks leave the other entries as they are.\<close>

locale loop_callbacks =
  fixes invoke :: "'w invoker"
    and good :: "event_loop \<times> 'w \<Rightarrow> bool"
  assumes callback_loop: "good s \<Longrightarrow> loop_inv (fst s)"
    and invoke_law: "good s \<Longrightarrow> entry (fst s) cb f a \<Longrightarrow> invoke cb f a s = Inr s' \<Longrightarrow> good s' \<and>
      (\<forall>g. g \<noteq> f \<longrightarrow> g \<in> dom (io_evs (fst s)) \<longrightarrow> io_evs (fst s') g = io_evs (fst s) g)"

sublocale loop_callbacks \<subseteq> loop_dispatch invoke good
proof
  show "loop_inv (fst s)" if "good s" for s using that by (rule callback_loop)
  show "good s' \<and> (\<forall>g. g \<noteq> f \<longrightarrow> keeps_interest (fst s) (fst s') g)"
    if "good s" "entry (fst s) cb f a" "invoke cb f a s = Inr s'" for s s' cb f a
    using invoke_law[OF that] by (auto simp: keeps_interest_def)
qed

section \<open>Descriptors that are closed\<close>

text \<open>
  Closing a descriptor takes it out of the kernel's interest list, which the table does not notice.
  Until \<open>del_io_event\<close> is called for it, nothing can be registered for a new descriptor with the same
  number: the loop modifies an entry that the kernel does not have.
\<close>

definition close_fd :: "event_loop \<Rightarrow> fd \<Rightarrow> event_loop" where
  "close_fd l f = l\<lparr>ep_set := (ep_set l)(f := None)\<rparr>"

lemma closed_not_registered:
  assumes "f \<in> dom (io_evs l)"
  shows "ep_set (add_io_event (close_fd l f) f cb m args) f = None"
  using assms by (auto simp: add_io_event_def close_fd_def epoll_ctl_def Let_def)

section \<open>The table as a map from interests to handlers\<close>

text \<open>
  The specification of the three operations on the table: a handler and its argument for each
  descriptor and direction (\<open>EPOLLIN\<close> or \<open>EPOLLOUT\<close>), and nothing else.
\<close>

datatype table_op = Op_add fd io_callback mask "nat option" | Op_del fd | Op_del_mask fd mask

type_synonym handlers = "fd \<Rightarrow> mask \<rightharpoonup> io_callback \<times> nat option"

fun loop_op :: "table_op \<Rightarrow> event_loop \<Rightarrow> event_loop" where
  "loop_op (Op_add f cb m args) l = add_io_event l f cb m args"
| "loop_op (Op_del f) l = del_io_event l f"
| "loop_op (Op_del_mask f m) l = del_io_event_mask l f m"

fun spec_op :: "table_op \<Rightarrow> handlers \<Rightarrow> handlers" where
  "spec_op (Op_add f cb m args) H = H(f := (H f)(m \<mapsto> (cb, args)))"
| "spec_op (Op_del f) H = H(f := Map.empty)"
| "spec_op (Op_del_mask f m) H = H(f := (H f)(m := None))"

fun rw_op :: "table_op \<Rightarrow> bool" where
  "rw_op (Op_add f cb m args) \<longleftrightarrow> rw_mask m"
| "rw_op (Op_del f) \<longleftrightarrow> True"
| "rw_op (Op_del_mask f m) \<longleftrightarrow> rw_mask m"

definition ev_handlers :: "io_event option \<Rightarrow> mask \<rightharpoonup> io_callback \<times> nat option" where
  "ev_handlers e m = (case e of None \<Rightarrow> None | Some ev \<Rightarrow>
     if m = EPOLLIN \<and> bit (ev_mask ev) 0 then map_option (\<lambda>cb. (cb, rcb_args ev)) (read_callback ev)
     else if m = EPOLLOUT \<and> bit (ev_mask ev) 2 then map_option (\<lambda>cb. (cb, wcb_args ev)) (write_callback ev)
     else None)"

definition loop_handlers :: "event_loop \<Rightarrow> handlers" where
  "loop_handlers l f = ev_handlers (io_evs l f)"

lemma ev_handlers_None [simp]: "ev_handlers None = Map.empty"
  by (simp add: ev_handlers_def fun_eq_iff)

lemma ev_handlers_registered:
  assumes "rw_mask m"
  shows "ev_handlers (Some (registered old cb m args)) = (ev_handlers old)(m \<mapsto> (cb, args))"
  using assms
  by (cases old) (auto simp: fun_eq_iff ev_handlers_def registered_def io_event_new_def rw_mask_def mask_bits Let_def)

lemma ev_handlers_mask:
  assumes "bit o' 0 \<longleftrightarrow> bit (ev_mask ev) 0 \<and> m \<noteq> EPOLLIN" and "bit o' 2 \<longleftrightarrow> bit (ev_mask ev) 2 \<and> m \<noteq> EPOLLOUT"
  shows "ev_handlers (Some (ev\<lparr>ev_mask := o'\<rparr>)) = (ev_handlers (Some ev))(m := None)"
proof
  fix k show "ev_handlers (Some (ev\<lparr>ev_mask := o'\<rparr>)) k = ((ev_handlers (Some ev))(m := None)) k"
    using assms by (cases "k = EPOLLIN"; cases "k = EPOLLOUT") (auto simp: ev_handlers_def)
qed

lemma ev_handlers_masked:
  assumes m: "rw_mask m"
  shows "ev_handlers (if ev_mask ev AND NOT m = 0 then None else Some (ev\<lparr>ev_mask := ev_mask ev AND NOT m\<rparr>)) =
    (ev_handlers (Some ev))(m := None)"
proof (cases "ev_mask ev AND NOT m = 0")
  case True
  then have "bit (ev_mask ev) 0 \<longrightarrow> bit m 0" "bit (ev_mask ev) 2 \<longrightarrow> bit m 2" by (simp_all add: and_not_zero)
  then show ?thesis using m True by (auto simp: fun_eq_iff ev_handlers_def rw_mask_def bit_epoll)
next
  case False
  let ?o = "ev_mask ev AND NOT m"
  have "bit ?o 0 \<longleftrightarrow> bit (ev_mask ev) 0 \<and> m \<noteq> EPOLLIN" "bit ?o 2 \<longleftrightarrow> bit (ev_mask ev) 2 \<and> m \<noteq> EPOLLOUT"
    using m by (auto simp: rw_mask_def bit_and_iff bit_not_iff bit_epoll)
  then show ?thesis using False ev_handlers_mask by (simp only: if_False)
qed

lemma del_io_event_absent:
  assumes "loop_inv l" and "io_evs l f = None"
  shows "loop_inv (del_io_event l f)" and "io_evs (del_io_event l f) = (io_evs l)(f := None)"
  using assms by (auto simp: del_io_event_def epoll_ctl_def loop_inv_def Let_def fun_eq_iff)

lemma loop_handlers_upd: "io_evs l' = (io_evs l)(f := e) \<Longrightarrow> loop_handlers l' = (loop_handlers l)(f := ev_handlers e)"
  by (simp add: loop_handlers_def fun_eq_iff)

lemma loop_op_refines:
  assumes I: "loop_inv l" and m: "rw_op x"
  shows "loop_inv (loop_op x l) \<and> loop_handlers (loop_op x l) = spec_op x (loop_handlers l)"
proof (cases x)
  case (Op_add f cb m' args)
  then have "rw_mask m'" using m by simp
  with add_io_event_spec(1)[OF I this] loop_handlers_upd[OF add_io_event_spec(2)[OF I this]] show ?thesis
    by (simp add: Op_add ev_handlers_registered loop_handlers_def[of l])
next
  case (Op_del f)
  have "loop_inv (del_io_event l f)" "io_evs (del_io_event l f) = (io_evs l)(f := None)"
    using del_io_event_spec(1,2)[OF I, of f] del_io_event_absent[OF I, of f] by (cases "io_evs l f"; simp add: domI)+
  with loop_handlers_upd[OF this(2)] show ?thesis by (simp add: Op_del)
next
  case (Op_del_mask f m')
  then have w: "rw_mask m'" using m by simp
  note d = del_io_event_mask_spec[OF I w, of f]
  have "ev_handlers (case io_evs l f of None \<Rightarrow> None | Some ev \<Rightarrow> if ev_mask ev AND NOT m' = 0 then None
      else Some (ev\<lparr>ev_mask := ev_mask ev AND NOT m'\<rparr>)) = (loop_handlers l f)(m' := None)"
    using ev_handlers_masked[OF w] by (cases "io_evs l f") (simp_all add: loop_handlers_def)
  with loop_handlers_upd[OF conjunct1[OF conjunct2[OF d]]] show ?thesis using conjunct1[OF d] by (simp add: Op_del_mask)
qed

lemma loop_ops_refine:
  assumes "loop_inv l" and "\<forall>x \<in> set ops. rw_op x"
  shows "loop_inv (fold loop_op ops l) \<and> loop_handlers (fold loop_op ops l) = fold spec_op ops (loop_handlers l)"
  using assms by (induction ops arbitrary: l) (use loop_op_refines in \<open>fastforce+\<close>)

lemma ev_handlers_bits:
  assumes "ev_ok ev"
  shows "ev_handlers (Some ev) EPOLLIN \<noteq> None \<longleftrightarrow> bit (ev_mask ev) 0"
    and "ev_handlers (Some ev) EPOLLOUT \<noteq> None \<longleftrightarrow> bit (ev_mask ev) 2"
    and "bit (ev_mask ev) n \<longleftrightarrow> n = 0 \<and> ev_handlers (Some ev) EPOLLIN \<noteq> None \<or> n = 2 \<and> ev_handlers (Some ev) EPOLLOUT \<noteq> None"
  using assms by (auto simp: ev_handlers_def ev_ok_bits)

text \<open>
  C12: the table of an event loop is well formed after any sequence of registrations and removals,
  of descriptors that are registered and of ones that are not, when no \<open>epoll_ctl\<close> call fails. It
  holds exactly the handlers of the specification; the descriptors that \<open>get_listen_fds\<close> gives are
  those with a handler; the kernel is interested in exactly the directions that have one; and a
  readable descriptor calls its handler for input, one that is writable only its handler for
  output, never a null pointer and never the handler of a direction that was removed.
\<close>

theorem event_table_well_formed:
  assumes "\<forall>x \<in> set ops. rw_op x" and "l = fold loop_op ops (event_loop_new (\<lambda>_. True))"
    and "H = fold spec_op ops (\<lambda>_. Map.empty)"
  shows "get_listen_fds l = {f. H f \<noteq> Map.empty} \<and>
    (\<forall>f. ep_set l f = None \<longleftrightarrow> H f = Map.empty) \<and>
    (\<forall>f m n. ep_set l f = Some m \<longrightarrow> (bit m n \<longleftrightarrow> n = 0 \<and> H f EPOLLIN \<noteq> None \<or> n = 2 \<and> H f EPOLLOUT \<noteq> None)) \<and>
    (\<forall>invoke w f events. reported l (f, events) \<longrightarrow>
       (bit events 0 \<longrightarrow> (\<exists>cb args. H f EPOLLIN = Some (cb, args) \<and> dispatch_one invoke (l, w) (f, events) = invoke cb f args (l, w))) \<and>
       (\<not> bit events 0 \<and> bit events 2 \<longrightarrow>
         (\<exists>cb args. H f EPOLLOUT = Some (cb, args) \<and> dispatch_one invoke (l, w) (f, events) = invoke cb f args (l, w))))"
proof -
  have "loop_handlers (event_loop_new (\<lambda>_. True)) = (\<lambda>_. Map.empty)"
    by (simp add: loop_handlers_def event_loop_new_def fun_eq_iff)
  then have I: "loop_inv l" and H: "H f = ev_handlers (io_evs l f)" for f
    using loop_ops_refine[OF loop_inv_new assms(1)] assms(2,3) by (simp_all add: loop_handlers_def[symmetric])
  have ok: "ev_ok ev" if "io_evs l f = Some ev" for f ev using I that by (auto simp: loop_inv_def)
  have emp: "H f = Map.empty \<longleftrightarrow> io_evs l f = None" for f
  proof (cases "io_evs l f")
    case (Some ev)
    then show ?thesis using ev_handlers_bits(1,2)[OF ok[OF Some]] ok[OF Some] unfolding H ev_ok_bits by fastforce
  qed (simp add: H)
  have ep: "ep_set l f = map_option ev_mask (io_evs l f)" for f using I by (simp add: loop_inv_def)
  have rep: "\<exists>ev. io_evs l f = Some ev \<and> ev_ok ev \<and> (bit events 0 \<longrightarrow> bit (ev_mask ev) 0) \<and> (bit events 2 \<longrightarrow> bit (ev_mask ev) 2)"
    if "reported l (f, events)" for f events
  proof -
    from that obtain ev where e: "io_evs l f = Some ev" "events AND NOT (ev_mask ev OR EPOLLERR OR EPOLLHUP) = 0"
      by (auto simp: reported_def ep)
    from e(2) have "bit events n \<Longrightarrow> n = 0 \<or> n = 2 \<Longrightarrow> bit (ev_mask ev) n" for n unfolding and_not_zero bit_or_iff bit_epoll by auto
    then show ?thesis using ok e(1) by blast
  qed
  have c1: "get_listen_fds l = {f. H f \<noteq> Map.empty}" using I unfolding emp by (auto simp: get_listen_fds_def loop_inv_def)
  have c2: "ep_set l f = None \<longleftrightarrow> H f = Map.empty" for f by (simp add: emp ep)
  have c3: "bit m n \<longleftrightarrow> n = 0 \<and> H f EPOLLIN \<noteq> None \<or> n = 2 \<and> H f EPOLLOUT \<noteq> None" if "ep_set l f = Some m" for f m n
    using that ev_handlers_bits(3)[OF ok, of f _ n] by (auto simp: H ep)
  have c4: "\<exists>cb args. H f EPOLLIN = Some (cb, args) \<and> dispatch_one invoke (l, w) (f, events) = invoke cb f args (l, w)"
    if "reported l (f, events)" "bit events 0" for invoke and w :: 'a and f events
    using rep[OF that(1)] that(2) by (auto simp: H ev_handlers_def dispatch_one_def call_ptr_def mask_bits ev_ok_bits)
  have c5: "\<exists>cb args. H f EPOLLOUT = Some (cb, args) \<and> dispatch_one invoke (l, w) (f, events) = invoke cb f args (l, w)"
    if "reported l (f, events)" "\<not> bit events 0 \<and> bit events 2" for invoke and w :: 'a and f events
    using rep[OF that(1)] that(2) by (auto simp: H ev_handlers_def dispatch_one_def call_ptr_def mask_bits ev_ok_bits)
  show ?thesis by (intro conjI allI impI c1 c2 c3 c4 c5) simp_all
qed

theorem event_table_well_formed_witness:
  "\<exists>l. l = fold loop_op [Op_add 5 conn_rd_callback EPOLLIN (Some 3), Op_add 5 conn_wt_callback EPOLLOUT (Some 3),
       Op_add 6 accept_callback EPOLLIN (Some 1), Op_del_mask 5 EPOLLOUT, Op_del 6] (event_loop_new (\<lambda>_. True)) \<and>
     get_listen_fds l = {5} \<and> \<not> reported l (5, EPOLLOUT)"
proof -
  let ?ops = "[Op_add 5 conn_rd_callback EPOLLIN (Some 3), Op_add 5 conn_wt_callback EPOLLOUT (Some 3),
       Op_add 6 accept_callback EPOLLIN (Some 1), Op_del_mask 5 EPOLLOUT, Op_del 6]"
  obtain l where l: "l = fold loop_op ?ops (event_loop_new (\<lambda>_. True))" by blast
  let ?H = "fold spec_op ?ops (\<lambda>_. Map.empty)"
  have H: "?H = (\<lambda>_. Map.empty)(5 := [EPOLLIN \<mapsto> (conn_rd_callback, Some 3)])" by (simp add: fun_eq_iff)
  have "\<forall>x \<in> set ?ops. rw_op x" by (simp add: rw_mask_def)
  note W = event_table_well_formed[OF this l H[symmetric], where ?'a = unit]
  have "get_listen_fds l = {5}" unfolding conjunct1[OF W] by (auto simp: fun_eq_iff)
  moreover have "\<not> reported l (5, EPOLLOUT)"
  proof
    assume "reported l (5, EPOLLOUT)"
    moreover have "\<not> bit EPOLLOUT 0 \<and> bit EPOLLOUT 2" by (simp add: bit_epoll)
    ultimately obtain cb args where "((\<lambda>_. Map.empty)(5 := [EPOLLIN \<mapsto> (conn_rd_callback, Some (3 :: nat))])) (5 :: fd) EPOLLOUT = Some (cb, args)"
      using conjunct2[OF conjunct2[OF conjunct2[OF W]]] by blast
    then show False by simp
  qed
  ultimately show ?thesis using l by blast
qed

end
