(* ===== verification/Conn_Registry.thy ===== *)
theory Conn_Registry
  imports Prelude
begin

text \<open>
  The static members of \<open>tcp_server\<close> (reactor/include/tcp_server.h, reactor/src/tcp_server.cc) that
  every connection updates: the array \<open>conns\<close> indexed by descriptor, and the counter of open
  connections. \<open>reg_inv R S\<close> relates them to the set \<open>S\<close> of open descriptors.
\<close>

record registry =
  conns :: "nat option list"
  max_conns :: int
  cur_conns :: int

text \<open>\<open>new tcp_conn *[_max_conns + 3]\<close> does not initialise its elements: they are \<open>garbage\<close>.\<close>

definition registry_new :: "(nat \<Rightarrow> nat option) \<Rightarrow> int \<Rightarrow> registry" where
  "registry_new garbage mx =
     \<lparr>conns = map garbage [0..<nat (mx + 3)], max_conns = mx, cur_conns = 0\<rparr>"

definition set_conn :: "registry \<Rightarrow> int \<Rightarrow> nat option \<Rightarrow> int \<Rightarrow> registry res" where
  "set_conn R connfd c delta =
     res_bind (check Out_of_bounds (0 \<le> connfd \<and> connfd < int (length (conns R)))) (\<lambda>_.
     res_bind (check Int_overflow (in_int (cur_conns R + delta))) (\<lambda>_.
       Inr (R\<lparr>conns := (conns R)[nat connfd := c], cur_conns := cur_conns R + delta\<rparr>)))"

definition increase_conn :: "registry \<Rightarrow> int \<Rightarrow> nat \<Rightarrow> registry res" where
  "increase_conn R connfd conn = set_conn R connfd (Some conn) 1"

definition decrease_conn :: "registry \<Rightarrow> int \<Rightarrow> registry res" where
  "decrease_conn R connfd = set_conn R connfd None (-1)"

definition get_conn_num :: "registry \<Rightarrow> int" where
  "get_conn_num R = cur_conns R"

definition in_range :: "registry \<Rightarrow> int \<Rightarrow> bool" where
  "in_range R connfd \<longleftrightarrow> 0 \<le> connfd \<and> connfd < int (length (conns R))"

text \<open>\<open>S\<close> maps each open descriptor to its connection object.\<close>

definition reg_inv :: "registry \<Rightarrow> (int \<rightharpoonup> nat) \<Rightarrow> bool" where
  "reg_inv R S \<longleftrightarrow> finite (dom S) \<and> cur_conns R = int (card (dom S)) \<and>
     length (conns R) = nat (max_conns R + 3) \<and> max_conns R < INT_MAX - 3 \<and>
     (\<forall>connfd c. S connfd = Some c \<longrightarrow> in_range R connfd \<and> conns R ! nat connfd = Some c)"

lemma reg_inv_new: "mx < INT_MAX - 3 \<Longrightarrow> reg_inv (registry_new garbage mx) Map.empty"
  by (simp add: reg_inv_def registry_new_def)

lemma set_conn_spec:
  assumes "in_range R connfd" and "in_int (cur_conns R + delta)"
  shows "set_conn R connfd c delta =
    Inr (R\<lparr>conns := (conns R)[nat connfd := c], cur_conns := cur_conns R + delta\<rparr>)"
  using assms by (simp add: set_conn_def in_range_def)

text \<open>Descriptors are array indices, so there are never more open connections than slots.\<close>

lemma reg_inv_card:
  assumes "reg_inv R S"
  shows "card (dom S) \<le> length (conns R)"
proof -
  have "dom S \<subseteq> int ` {..<length (conns R)}"
  proof
    fix x assume "x \<in> dom S"
    with assms have "0 \<le> x" "x < int (length (conns R))" by (auto simp: reg_inv_def in_range_def)
    then show "x \<in> int ` {..<length (conns R)}" by (intro image_eqI[of _ _ "nat x"]) auto
  qed
  then have "card (dom S) \<le> card (int ` {..<length (conns R)})" by (intro card_mono) auto
  also have "\<dots> = length (conns R)" by (simp add: card_image)
  finally show ?thesis .
qed

lemma reg_slot_frame:
  assumes "reg_inv R S" and "in_range R connfd" and "S f = Some d" and "f \<noteq> connfd"
  shows "(conns R)[nat connfd := x] ! nat f = Some d"
proof -
  have "nat f \<noteq> nat connfd" using assms by (auto simp: reg_inv_def in_range_def nat_eq_iff)
  then show ?thesis using assms by (simp add: reg_inv_def)
qed

lemma increase_conn_spec:
  assumes I: "reg_inv R S" and r: "in_range R connfd" and n: "S connfd = None"
  shows "\<exists>R'. increase_conn R connfd c = Inr R' \<and> reg_inv R' (S(connfd \<mapsto> c)) \<and>
    max_conns R' = max_conns R \<and> get_conn_num R' = get_conn_num R + 1"
proof -
  let ?S = "S(connfd \<mapsto> c)"
  have "in_int (cur_conns R + 1)"
    using I reg_inv_card[OF I] by (auto simp: reg_inv_def in_int_def)
  note eq = set_conn_spec[OF r this, of "Some c"]
  have "card (dom ?S) = Suc (card (dom S))" using I n by (simp add: reg_inv_def domIff)
  moreover have "conns R ! nat f = Some d" "in_range R f" if "S f = Some d" for f d
    using I that by (auto simp: reg_inv_def)
  moreover note reg_slot_frame[OF I r]
  ultimately show ?thesis
    using I r eq by (auto simp: increase_conn_def get_conn_num_def reg_inv_def in_range_def)
qed

lemma decrease_conn_spec:
  assumes I: "reg_inv R S" and c: "S connfd = Some c"
  shows "\<exists>R'. decrease_conn R connfd = Inr R' \<and> reg_inv R' (S(connfd := None)) \<and>
    max_conns R' = max_conns R \<and> get_conn_num R' = get_conn_num R - 1"
proof -
  let ?S = "S(connfd := None)"
  have r: "in_range R connfd" using I c by (auto simp: reg_inv_def)
  have p: "0 < card (dom S)" using I c by (auto simp: reg_inv_def card_gt_0_iff)
  have "in_int (cur_conns R + -1)"
    using I p reg_inv_card[OF I] by (auto simp: reg_inv_def in_int_def)
  note eq = set_conn_spec[OF r this, of None]
  have "dom ?S = dom S - {connfd}" by auto
  then have "int (card (dom ?S)) = int (card (dom S)) - 1"
    using I c p by (simp add: reg_inv_def domI of_nat_diff)
  moreover note reg_slot_frame[OF I r]
  ultimately show ?thesis
    using I eq by (auto simp: decrease_conn_def get_conn_num_def reg_inv_def in_range_def)
qed

lemma increase_conn_out_of_range:
  "\<not> in_range R connfd \<Longrightarrow> increase_conn R connfd c = Inl Out_of_bounds"
  by (simp add: increase_conn_def set_conn_def in_range_def check_def)

end
