(* ===== verification/Tcp_Conn.thy ===== *)
theory Tcp_Conn
  imports Reactor_Buf Message Event_Loop Conn_Registry
begin

text \<open>
  \<open>class tcp_conn\<close> (reactor/include/tcp_conn.h, reactor/src/tcp_conn.cc): one accepted connection.
  The object is its descriptor and its two buffers; the buffer pool, the loop it is registered
  with, the static registry of \<open>tcp_server\<close> and the application's data are the environment.

  A message handler is a function from the application data, the connection's descriptor, the
  body (what is in memory from \<open>data()\<close> on, or null), its length and the message id to the new
  application data and the replies it sends on this connection, in order. The handlers of the
  repository use the connection only for \<open>send_message\<close>, \<open>get_fd\<close> and the per-connection
  pointer \<open>param\<close>, which is application data here, and ignore the result of \<open>send_message\<close>.

  Shown: \<open>do_read\<close> hands exactly the messages of the byte stream to the router, in order and
  independently of how the stream is cut into reads; replies are appended to the output in
  order; write interest is registered exactly while unsent bytes exist; \<open>clean_conn\<close> gives every
  buffer back.
\<close>

section \<open>State\<close>

record tcp_conn =
  c_fd :: int
  c_obuf :: rbuf
  c_ibuf :: rbuf

record 'a env =
  e_pool :: pool
  e_loop :: event_loop
  e_reg :: registry
  e_app :: 'a

type_synonym send_req = "byte list \<times> int \<times> int"

type_synonym ('a, 'u) handler =
  "'a \<Rightarrow> int \<Rightarrow> byte list option \<Rightarrow> u32 \<Rightarrow> int \<Rightarrow> 'u option \<Rightarrow> 'a \<times> send_req list"

type_synonym 'a conn_callback = "'a \<Rightarrow> int \<Rightarrow> 'a \<times> send_req list"

text \<open>The static configuration of \<open>tcp_server\<close>: its router and the two connection callbacks.\<close>

record ('a, 'u) server_cfg =
  s_router :: "(('a, 'u) handler, 'u) msg_router"
  conn_start_cb :: "'a conn_callback option"
  conn_close_cb :: "'a conn_callback option"

section \<open>Operations\<close>

definition send_message ::
  "nat \<Rightarrow> tcp_conn \<times> 'a env \<Rightarrow> send_req \<Rightarrow> (int \<times> tcp_conn \<times> 'a env) res" where
  "send_message this s req =
     (let (c, E) = s; (data, msglen, msgid) = req in
      res_bind (rb_length (e_pool E) (c_obuf c)) (\<lambda>ol.
      let active_epollout = (ol = 0);
          head = \<lparr>h_id = msgid, h_length = msglen\<rparr> in
      res_bind (send_data (e_pool E) (c_obuf c) (head_bytes head) (int MESSAGE_HEAD_LEN)) (\<lambda>(ret, q1, P1).
        if ret \<noteq> 0 then Inr (-1, c\<lparr>c_obuf := q1\<rparr>, E\<lparr>e_pool := P1\<rparr>) else
        res_bind (send_data P1 q1 data msglen) (\<lambda>(ret', q2, P2).
          if ret' \<noteq> 0 then
            res_bind (rb_pop P2 q2 (int MESSAGE_HEAD_LEN)) (\<lambda>(q3, P3).
              Inr (-1, c\<lparr>c_obuf := q3\<rparr>, E\<lparr>e_pool := P3\<rparr>))
          else
            Inr (0, c\<lparr>c_obuf := q2\<rparr>,
                 E\<lparr>e_pool := P2,
                   e_loop := (if active_epollout
                     then add_io_event (e_loop E) (c_fd c) conn_wt_callback EPOLLOUT (Some this)
                     else e_loop E)\<rparr>)))))"

text \<open>A callback that sends several replies.\<close>

definition send_all :: "nat \<Rightarrow> tcp_conn \<times> 'a env \<Rightarrow> send_req list \<Rightarrow> (tcp_conn \<times> 'a env) res" where
  "send_all this = run (\<lambda>s req. res_bind (send_message this s req) (\<lambda>(_, s'). Inr s'))"

text \<open>\<open>router.call\<close> with the handler it finds.\<close>

definition router_dispatch ::
  "('a, 'u) server_cfg \<Rightarrow> nat \<Rightarrow> tcp_conn \<times> 'a env \<Rightarrow> int \<Rightarrow> u32 \<Rightarrow> byte list option \<Rightarrow>
   (tcp_conn \<times> 'a env) res" where
  "router_dispatch cfg this s msgid msglen data =
     (case router_call (s_router cfg) msgid of
        None \<Rightarrow> Inr s
      | Some (cb, user_data) \<Rightarrow>
          (case cb (e_app (snd s)) (c_fd (fst s)) data msglen msgid user_data of
             (a', reqs) \<Rightarrow> send_all this (fst s, (snd s)\<lparr>e_app := a'\<rparr>) reqs))"

definition call_conn_cb ::
  "'a conn_callback option \<Rightarrow> nat \<Rightarrow> tcp_conn \<times> 'a env \<Rightarrow> (tcp_conn \<times> 'a env) res" where
  "call_conn_cb cb this s =
     (case cb of
        None \<Rightarrow> Inr s
      | Some f \<Rightarrow> (case f (e_app (snd s)) (c_fd (fst s)) of
                    (a', reqs) \<Rightarrow> send_all this (fst s, (snd s)\<lparr>e_app := a'\<rparr>) reqs))"

definition clean_conn ::
  "('a, 'u) server_cfg \<Rightarrow> nat \<Rightarrow> tcp_conn \<times> 'a env \<Rightarrow> (tcp_conn \<times> 'a env) res" where
  "clean_conn cfg this s =
     res_bind (call_conn_cb (conn_close_cb cfg) this s) (\<lambda>(c, E).
     res_bind (decrease_conn (e_reg E) (c_fd c)) (\<lambda>R.
     let l = del_io_event (e_loop E) (c_fd c) in
     res_bind (rb_clear (e_pool E) (c_ibuf c)) (\<lambda>(qi, P1).
     res_bind (rb_clear P1 (c_obuf c)) (\<lambda>(qo, P2).
       Inr (\<lparr>c_fd = -1, c_obuf = qo, c_ibuf = qi\<rparr>,
            E\<lparr>e_pool := P2, e_loop := l, e_reg := R\<rparr>)))))"

text \<open>The constructor; the socket options have no effect on the model.\<close>

definition tcp_conn_new ::
  "('a, 'u) server_cfg \<Rightarrow> nat \<Rightarrow> int \<Rightarrow> 'a env \<Rightarrow> (tcp_conn \<times> 'a env) res" where
  "tcp_conn_new cfg this connfd E =
     (let c = \<lparr>c_fd = connfd, c_obuf = None, c_ibuf = None\<rparr>;
          E1 = E\<lparr>e_loop := add_io_event (e_loop E) connfd conn_rd_callback EPOLLIN (Some this)\<rparr>
      in res_bind (call_conn_cb (conn_start_cb cfg) this (c, E1)) (\<lambda>(c2, E2).
         res_bind (increase_conn (e_reg E2) connfd this) (\<lambda>R.
           Inr (c2, E2\<lparr>e_reg := R\<rparr>))))"

text \<open>
  The message loop of \<open>do_read\<close>. Every round that does not leave the loop removes at least a
  message head from the input, so as many rounds as there are bytes are enough.
\<close>

primrec read_loop ::
  "nat \<Rightarrow> ('a, 'u) server_cfg \<Rightarrow> nat \<Rightarrow> tcp_conn \<times> 'a env \<Rightarrow> (tcp_conn \<times> 'a env) res" where
  "read_loop 0 cfg this s = Inl No_return"
| "read_loop (Suc n) cfg this s =
     (let (c, E) = s in
      res_bind (rb_length (e_pool E) (c_ibuf c)) (\<lambda>len.
      if len < int MESSAGE_HEAD_LEN then Inr s else
      res_bind (rb_data (e_pool E) (c_ibuf c)) (\<lambda>d.
      case d of None \<Rightarrow> Inl Null_deref | Some mem \<Rightarrow>
      let head = read_head mem in
      if MESSAGE_LENGTH_LIMIT < h_length head \<or> h_length head < 0 then clean_conn cfg this s
      else if len < int MESSAGE_HEAD_LEN + h_length head then Inr s
      else
        res_bind (rb_pop (e_pool E) (c_ibuf c) (int MESSAGE_HEAD_LEN)) (\<lambda>(q1, P1).
        res_bind (rb_data P1 q1) (\<lambda>body.
        res_bind (router_dispatch cfg this (c\<lparr>c_ibuf := q1\<rparr>, E\<lparr>e_pool := P1\<rparr>)
                   (h_id head) (word_of_int (h_length head)) body) (\<lambda>(c2, E2).
        res_bind (rb_pop (e_pool E2) (c_ibuf c2) (h_length head)) (\<lambda>(q3, P3).
          read_loop n cfg this (c2\<lparr>c_ibuf := q3\<rparr>, E2\<lparr>e_pool := P3\<rparr>))))))))"

definition do_read ::
  "('a, 'u) server_cfg \<Rightarrow> nat \<Rightarrow> tcp_conn \<times> 'a env \<Rightarrow> nat option \<times> rd list \<Rightarrow> (tcp_conn \<times> 'a env) res" where
  "do_read cfg this s io =
     (let (c, E) = s in
      res_bind (read_data (e_pool E) (c_ibuf c) (fst io) (snd io)) (\<lambda>(ret, q, P).
      let s1 = (c\<lparr>c_ibuf := q\<rparr>, E\<lparr>e_pool := P\<rparr>) in
      if ret = -1 \<or> ret = 0 then clean_conn cfg this s1
      else
        res_bind (rb_length P q) (\<lambda>len.
        res_bind (read_loop (Suc (nat len)) cfg this s1) (\<lambda>(c2, E2).
        res_bind (rb_adjust (e_pool E2) (c_ibuf c2)) (\<lambda>P2.
          Inr (c2, E2\<lparr>e_pool := P2\<rparr>))))))"

text \<open>
  The loop of \<open>do_write\<close>. The flag says that the connection was closed; the byte list is what the
  socket accepted. A round that continues has removed at least one byte.
\<close>

primrec write_loop ::
  "nat \<Rightarrow> ('a, 'u) server_cfg \<Rightarrow> nat \<Rightarrow> tcp_conn \<times> 'a env \<Rightarrow> wr list \<Rightarrow>
   (bool \<times> byte list \<times> tcp_conn \<times> 'a env) res" where
  "write_loop 0 cfg this s ws = Inl No_return"
| "write_loop (Suc n) cfg this s ws =
     (let (c, E) = s in
      res_bind (rb_length (e_pool E) (c_obuf c)) (\<lambda>len.
      if len = 0 then Inr (False, [], s) else
      res_bind (write2fd (e_pool E) (c_obuf c) ws) (\<lambda>(ret, sent, ws', P).
      let s1 = (c, E\<lparr>e_pool := P\<rparr>) in
      if ret = -1 then res_bind (clean_conn cfg this s1) (\<lambda>s2. Inr (True, sent, s2))
      else if ret = 0 then Inr (False, sent, s1)
      else res_bind (write_loop n cfg this s1 ws') (\<lambda>(closed, more, s2).
             Inr (closed, sent @ more, s2)))))"

definition do_write ::
  "('a, 'u) server_cfg \<Rightarrow> nat \<Rightarrow> tcp_conn \<times> 'a env \<Rightarrow> wr list \<Rightarrow> (byte list \<times> tcp_conn \<times> 'a env) res" where
  "do_write cfg this s ws =
     res_bind (rb_length (e_pool (snd s)) (c_obuf (fst s))) (\<lambda>l0.
     res_bind (write_loop (Suc (nat l0)) cfg this s ws) (\<lambda>(closed, sent, c, E).
       if closed then Inr (sent, c, E) else
       res_bind (rb_length (e_pool E) (c_obuf c)) (\<lambda>len.
         Inr (sent, c, if len = 0 then E\<lparr>e_loop := del_io_event_mask (e_loop E) (c_fd c) EPOLLOUT\<rparr> else E))))"

text \<open>The echo handler; \<open>send_message\<close> copies \<open>len\<close> bytes from \<open>data\<close>.\<close>

definition callback_busi :: "('a, 'u) handler" where
  "callback_busi a connfd data len msgid args =
     (a, [(case data of None \<Rightarrow> [] | Some d \<Rightarrow> take (unat len) d, sint len, msgid)])"

section \<open>Invariant of a connection\<close>

definition bufs_ok :: "pool \<Rightarrow> nat set \<Rightarrow> tcp_conn \<Rightarrow> bool" where
  "bufs_ok P X c \<longleftrightarrow> rb_inv P (X \<union> set_option (c_obuf c)) (c_ibuf c) \<and>
     rb_inv P (X \<union> set_option (c_ibuf c)) (c_obuf c)"

text \<open>The loop entry of a connection: always readable, writable exactly when \<open>unsent\<close>.\<close>

definition armed :: "event_loop \<Rightarrow> nat \<Rightarrow> int \<Rightarrow> bool \<Rightarrow> bool" where
  "armed l this connfd unsent \<longleftrightarrow> loop_inv l \<and> (\<exists>ev. io_evs l connfd = Some ev \<and>
     bit (ev_mask ev) 0 \<and> read_callback ev = Some conn_rd_callback \<and> rcb_args ev = Some this \<and>
     (bit (ev_mask ev) 2 \<longleftrightarrow> unsent) \<and>
     (unsent \<longrightarrow> write_callback ev = Some conn_wt_callback \<and> wcb_args ev = Some this))"

definition out_bytes :: "tcp_conn \<times> 'a env \<Rightarrow> byte list" where
  "out_bytes s = rb_bytes (e_pool (snd s)) (c_obuf (fst s))"

definition in_bytes :: "tcp_conn \<times> 'a env \<Rightarrow> byte list" where
  "in_bytes s = rb_bytes (e_pool (snd s)) (c_ibuf (fst s))"

text \<open>The invariant inside the message loop, where the input window need not start at 0, and between events.\<close>

definition mid_inv :: "nat \<Rightarrow> nat set \<Rightarrow> tcp_conn \<times> 'a env \<Rightarrow> bool" where
  "mid_inv this X s \<longleftrightarrow> bufs_ok (e_pool (snd s)) X (fst s) \<and>
     rb_front (e_pool (snd s)) (c_obuf (fst s)) \<and>
     armed (e_loop (snd s)) this (c_fd (fst s)) (out_bytes s \<noteq> [])"

definition conn_inv :: "nat \<Rightarrow> nat set \<Rightarrow> tcp_conn \<times> 'a env \<Rightarrow> bool" where
  "conn_inv this X s \<longleftrightarrow> mid_inv this X s \<and> rb_front (e_pool (snd s)) (c_ibuf (fst s))"

text \<open>What an operation on one connection leaves alone: other buffers, other loop entries, tasks.\<close>

definition frame_rel :: "nat set \<Rightarrow> int \<Rightarrow> 'a env \<Rightarrow> 'a env \<Rightarrow> bool" where
  "frame_rel X connfd E E' \<longleftrightarrow> same_on X (e_pool E) (e_pool E') \<and>
     (\<forall>g. g \<noteq> connfd \<longrightarrow> io_evs (e_loop E') g = io_evs (e_loop E) g) \<and>
     ready_tasks (e_loop E') = ready_tasks (e_loop E)"

lemma frame_rel_refl [simp]: "frame_rel X f E E"
  by (simp add: frame_rel_def)

lemma frame_rel_trans: "frame_rel X f E E' \<Longrightarrow> frame_rel X f E' E'' \<Longrightarrow> frame_rel X f E E''"
  by (auto simp: frame_rel_def elim: same_on_trans)

lemma frame_rel_subset: "frame_rel X f E E' \<Longrightarrow> Y \<subseteq> X \<Longrightarrow> frame_rel Y f E E'"
  by (auto simp: frame_rel_def elim: same_on_subset)

lemma frame_rel_pool: "same_on X (e_pool E) P \<Longrightarrow> frame_rel X f E (E\<lparr>e_pool := P\<rparr>)"
  by (simp add: frame_rel_def)

lemma frame_rel_app [simp]: "frame_rel X f E (E\<lparr>e_app := a\<rparr>)"
  by (simp add: frame_rel_def)

lemma bufs_okI:
  assumes "pool_inv P (X \<union> set_option qi \<union> set_option qo)" and "X \<inter> set_option qi = {}"
    and "X \<inter> set_option qo = {}" and "set_option qi \<inter> set_option qo = {}"
    and "c_ibuf c = qi" and "c_obuf c = qo"
  shows "bufs_ok P X c"
proof -
  have "X \<union> set_option qo \<union> set_option qi = X \<union> set_option qi \<union> set_option qo" by auto
  then show ?thesis using assms by (auto simp: bufs_ok_def rb_inv_def)
qed

text \<open>One buffer of a connection may be exchanged while the other stays as it is.\<close>

lemma bufs_ok_out:
  assumes "bufs_ok P X c" and "rb_inv P' (X \<union> set_option (c_ibuf c)) q"
    and "c_ibuf c' = c_ibuf c" and "c_obuf c' = q"
  shows "bufs_ok P' X c'"
  using assms by (intro bufs_okI[of _ _ "c_ibuf c" q]) (auto simp: bufs_ok_def rb_inv_def)

lemma bufs_ok_in:
  assumes "bufs_ok P X c" and "rb_inv P' (X \<union> set_option (c_obuf c)) q"
    and "c_ibuf c' = q" and "c_obuf c' = c_obuf c"
  shows "bufs_ok P' X c'"
proof -
  have "X \<union> set_option (c_obuf c) \<union> set_option q = X \<union> set_option q \<union> set_option (c_obuf c)" by auto
  then show ?thesis
    using assms by (intro bufs_okI[of _ _ q "c_obuf c"]) (auto simp: bufs_ok_def rb_inv_def)
qed

lemma bufs_ok_D:
  assumes "bufs_ok P X c"
  shows "rb_inv P (X \<union> set_option (c_obuf c)) (c_ibuf c)" and "rb_inv P (X \<union> set_option (c_ibuf c)) (c_obuf c)"
  using assms by (simp_all add: bufs_ok_def)

lemma armed_out:
  assumes "armed l this f u"
  shows "armed (add_io_event l f conn_wt_callback EPOLLOUT (Some this)) this f True"
proof -
  have I: "loop_inv l" using assms by (simp add: armed_def)
  from assms obtain ev where "io_evs l f = Some ev" "bit (ev_mask ev) 0"
    "read_callback ev = Some conn_rd_callback" "rcb_args ev = Some this" by (auto simp: armed_def)
  then show ?thesis
    using add_io_event_spec[OF I, of EPOLLOUT f conn_wt_callback "Some this"]
    by (auto simp: armed_def rw_mask_def registered_def Let_def bit_or_iff bit_epoll)
qed

lemma armed_quiet:
  assumes "armed l this f u"
  shows "armed (del_io_event_mask l f EPOLLOUT) this f False"
proof -
  have I: "loop_inv l" using assms by (simp add: armed_def)
  from assms obtain ev where ev: "io_evs l f = Some ev" "bit (ev_mask ev) 0"
    "read_callback ev = Some conn_rd_callback" "rcb_args ev = Some this" by (auto simp: armed_def)
  have b: "bit (ev_mask ev AND NOT EPOLLOUT) n \<longleftrightarrow> bit (ev_mask ev) n \<and> n \<noteq> 2" for n
    using bit_imp_possible_bit[of "ev_mask ev" n] by (auto simp: bit_and_iff bit_not_iff bit_epoll)
  then have "ev_mask ev AND NOT EPOLLOUT \<noteq> 0" using ev(2) by (metis bit_0_eq bot_apply zero_neq_numeral)
  then show ?thesis
    using del_io_event_mask_spec[OF I, of EPOLLOUT f] ev b by (auto simp: armed_def rw_mask_def)
qed

section \<open>Sending\<close>

definition reply_bytes :: "send_req \<Rightarrow> byte list" where
  "reply_bytes req = (case req of (data, msglen, msgid) \<Rightarrow>
     head_bytes \<lparr>h_id = msgid, h_length = msglen\<rparr> @ take (nat msglen) data)"

definition req_ok :: "send_req \<Rightarrow> bool" where
  "req_ok req = (case req of (data, msglen, msgid) \<Rightarrow>
     in_int msgid \<and> 0 \<le> msglen \<and> msglen \<le> cap_of m8M \<and> msglen \<le> int (length data))"

lemma length_reply_bytes: "req_ok req \<Longrightarrow> length (reply_bytes req) = 8 + nat (fst (snd req))"
  by (auto simp: req_ok_def reply_bytes_def split: prod.splits)

text \<open>
  The effect every sending operation has on a connection: its output grows by \<open>out\<close>, its input,
  descriptor and registry entry stay as they are, and so does everything of other connections.
\<close>

definition sent_rel ::
  "nat \<Rightarrow> nat set \<Rightarrow> byte list \<Rightarrow> tcp_conn \<times> 'a env \<Rightarrow> tcp_conn \<times> 'a env \<Rightarrow> bool" where
  "sent_rel this X out s s' \<longleftrightarrow> mid_inv this X s' \<and> out_bytes s' = out_bytes s @ out \<and>
     c_fd (fst s') = c_fd (fst s) \<and> c_ibuf (fst s') = c_ibuf (fst s) \<and>
     e_reg (snd s') = e_reg (snd s) \<and> e_app (snd s') = e_app (snd s) \<and>
     frame_rel (X \<union> set_option (c_ibuf (fst s))) (c_fd (fst s)) (snd s) (snd s')"

lemma sent_rel_refl: "mid_inv this X s \<Longrightarrow> sent_rel this X [] s s"
  by (simp add: sent_rel_def)

lemma sent_rel_trans:
  "sent_rel this X o1 s s' \<Longrightarrow> sent_rel this X o2 s' s'' \<Longrightarrow> sent_rel this X (o1 @ o2) s s''"
  by (auto simp: sent_rel_def elim: frame_rel_trans)

text \<open>The common part of the two ways to describe a successful \<open>send_message\<close>.\<close>

lemma send_message_parts:
  assumes M: "mid_inv this X (c, E)" and ok: "req_ok (data, n, i)"
    and s1: "send_data (e_pool E) (c_obuf c) (head_bytes \<lparr>h_id = i, h_length = n\<rparr>) 8 = Inr (r1, q1, P1)"
    and s2: "send_data P1 q1 data n = Inr (r2, q2, P2)"
  shows "\<exists>s'. send_message this (c, E) (data, n, i) = Inr (0, s') \<and>
    sent_rel this X (reply_bytes (data, n, i)) (c, E) s' \<and> e_pool (snd s') = P2"
proof -
  let ?X = "X \<union> set_option (c_ibuf c)"
  have B: "bufs_ok (e_pool E) X c" and F: "rb_front (e_pool E) (c_obuf c)"
    and A: "armed (e_loop E) this (c_fd c) (out_bytes (c, E) \<noteq> [])" using M by (auto simp: mid_inv_def)
  have I: "rb_inv (e_pool E) ?X (c_obuf c)" using B by (rule bufs_ok_D)
  have S1: "rb_inv P1 ?X q1" "same_on ?X (e_pool E) P1" "rb_front P1 q1" "r1 = 0"
      "rb_bytes P1 q1 = rb_bytes (e_pool E) (c_obuf c) @ head_bytes \<lparr>h_id = i, h_length = n\<rparr>"
    using send_data_spec[OF I F s1] by auto
  have S2: "rb_inv P2 ?X q2" "same_on ?X P1 P2" "rb_front P2 q2" "r2 = 0"
      "rb_bytes P2 q2 = rb_bytes P1 q1 @ take (nat n) data"
    using send_data_spec[OF S1(1,3) s2] ok by (auto simp: req_ok_def)
  let ?act = "out_bytes (c, E) = []"
  let ?l = "if ?act then add_io_event (e_loop E) (c_fd c) conn_wt_callback EPOLLOUT (Some this) else e_loop E"
  let ?s' = "(c\<lparr>c_obuf := q2\<rparr>, E\<lparr>e_pool := P2, e_loop := ?l\<rparr>)"
  have sm: "send_message this (c, E) (data, n, i) = Inr (0, ?s')"
    using s1 s2 S1(4) S2(4) rb_inv_length[OF I]
    by (simp add: send_message_def Let_def MESSAGE_HEAD_LEN_def out_bytes_def)
  have out: "out_bytes ?s' = out_bytes (c, E) @ reply_bytes (data, n, i)"
    using S1(5) S2(5) by (simp add: out_bytes_def reply_bytes_def)
  then have ne: "out_bytes ?s' \<noteq> []" by (simp add: reply_bytes_def)
  have "armed ?l this (c_fd c) True" using A armed_out[OF A] by (cases ?act) auto
  moreover have "bufs_ok P2 X (c\<lparr>c_obuf := q2\<rparr>)" by (rule bufs_ok_out[OF B S2(1)]) simp_all
  ultimately have "mid_inv this X ?s'" using S2(3) ne by (simp add: mid_inv_def)
  moreover have "frame_rel ?X (c_fd c) E (snd ?s')"
    using same_on_trans[OF S1(2) S2(2)] A add_io_event_spec[of "e_loop E" EPOLLOUT]
    by (auto simp: frame_rel_def armed_def rw_mask_def)
  ultimately show ?thesis using sm out by (auto simp: sent_rel_def)
qed

lemma send_message_spec:
  assumes M: "mid_inv this X s" and ok: "req_ok req" and r: "send_message this s req = Inr (ret, s')"
  shows "ret = 0 \<and> sent_rel this X (reply_bytes req) s s'"
proof -
  obtain c E where s: "s = (c, E)" by (cases s)
  obtain data n i where q: "req = (data, n, i)" by (cases req)
  let ?h = "head_bytes \<lparr>h_id = i, h_length = n\<rparr>"
  have I: "rb_inv (e_pool E) (X \<union> set_option (c_ibuf c)) (c_obuf c)" and F: "rb_front (e_pool E) (c_obuf c)"
    using M s by (auto simp: mid_inv_def bufs_ok_def)
  from r s q obtain r1 q1 P1 where
    s1: "send_data (e_pool E) (c_obuf c) ?h 8 = Inr (r1, q1, P1)"
    by (auto simp: send_message_def Let_def res_bind_Inr_iff MESSAGE_HEAD_LEN_def)
  have "r1 = 0" using send_data_spec[OF I F s1] by auto
  with r s q s1 obtain r2 q2 P2 where s2: "send_data P1 q1 data n = Inr (r2, q2, P2)"
    by (auto simp: send_message_def Let_def res_bind_Inr_iff MESSAGE_HEAD_LEN_def)
  show ?thesis using send_message_parts[OF M[unfolded s] ok[unfolded q] s1 s2] r s q by auto
qed

lemma send_all_spec:
  assumes "mid_inv this X s" and "\<forall>req \<in> set reqs. req_ok req" and "send_all this s reqs = Inr s'"
  shows "sent_rel this X (concat (map reply_bytes reqs)) s s'"
  using assms
proof (induction reqs arbitrary: s)
  case Nil
  then show ?case by (simp add: send_all_def sent_rel_refl)
next
  case (Cons req reqs)
  from Cons.prems(3) obtain ret s1 where s1: "send_message this s req = Inr (ret, s1)"
    and rest: "send_all this s1 reqs = Inr s'"
    by (auto simp: send_all_def res_bind_Inr_iff)
  have a: "sent_rel this X (reply_bytes req) s s1"
    using send_message_spec[OF Cons.prems(1) _ s1] Cons.prems(2) by simp
  moreover have "sent_rel this X (concat (map reply_bytes reqs)) s1 s'"
    using Cons.IH[OF _ _ rest] Cons.prems(2) a by (simp add: sent_rel_def)
  ultimately show ?case by (auto intro: sent_rel_trans)
qed

text \<open>
  When sending cannot fail: \<open>k\<close> bytes fit into the output buffer in use or, if there is none, into
  a buffer of the smallest class. \<open>Bd\<close>, in KiB, bounds the memory taken from the system then.
\<close>

definition fits :: "nat \<Rightarrow> pool \<Rightarrow> rbuf \<Rightarrow> nat \<Rightarrow> bool" where
  "fits Bd P q k \<longleftrightarrow> Bd < EXTRA_MEM_LIMIT \<and> (case q of
       None \<Rightarrow> int k \<le> 4096 \<and> total_mem P + 8192 \<le> Bd
     | Some p \<Rightarrow> total_mem P \<le> Bd \<and> (\<exists>b. heap P p = Some b \<and> int k \<le> room b))"

lemma pick_cap_small: "n \<le> 4096 \<Longrightarrow> pick_cap n = Some m4K"
  by (simp add: pick_cap_def)

lemma send_data_fits:
  assumes I: "rb_inv P X q" and F: "rb_front P q" and f: "fits Bd P q (length src + k)"
  shows "\<exists>q' P'. send_data P q src (int (length src)) = Inr (0, q', P') \<and> fits Bd P' q' k"
proof -
  let ?n = "int (length src)"
  obtain p P1 b where v: "send_reserve P q ?n = Inr (True, Some p, P1)" and b: "heap P1 p = Some b"
    "buf_ok b" "b_head b = 0" "?n + int k \<le> room b" and t: "total_mem P1 \<le> Bd"
  proof (cases q)
    case None
    have n: "?n \<le> 4096" and m: "total_mem P + 8192 < EXTRA_MEM_LIMIT" and n8: "?n \<le> cap_of m8M"
      using f None by (auto simp: fits_def)
    have X: "pool_inv P X" using I None by (simp add: rb_inv_None)
    from alloc_buf_total[OF X n8 m] obtain p P1 where a: "alloc_buf P ?n = Inr (Some p, P1)" by blast
    from a obtain b where "heap P1 p = Some b" "buf_ok b" "b_head b = 0" "bytes b = []" "b_capacity b = 4096"
      by (rule rb_alloc[OF X]) (auto simp: pick_cap_small[OF n])
    moreover have "total_mem P1 \<le> Bd" using alloc_buf_mem[OF a] f None by (simp add: fits_def)
    ultimately show thesis using a None f that[of p P1 b] by (auto simp: send_reserve_def fits_def room_empty)
  next
    case (Some p)
    then obtain b where "heap P p = Some b" "?n + int k \<le> room b" using f by (auto simp: fits_def)
    moreover from this have "buf_ok b" using I Some by (auto elim: rb_inv_buf)
    moreover have "b_head b = 0" using F Some calculation(1) by simp
    ultimately show thesis using Some f that[of p P b] by (auto simp: send_reserve_def room_def fits_def)
  qed
  from io_buf_append_spec[OF b(2,3), of ?n src] b(4) obtain b' where
    b': "io_buf_append b src ?n = Inr b'" "buf_ok b'" "bytes b' = bytes b @ src" "b_capacity b' = b_capacity b"
    by auto
  then have "b_length b' = b_length b + ?n" using b(2) by (metis length_append length_bytes of_nat_add)
  then have "int k \<le> room b'" using b(4) b'(4) by (simp add: room_def)
  then show ?thesis using v t b(1) b' f by (auto simp: send_data_def fits_def write_buf_def)
qed

lemma send_head_class:
  assumes I: "rb_inv P X None" and n: "n \<le> 4096"
    and s: "send_data P None src n = Inr (0, Some p, P')"
  shows "\<exists>b. heap P' p = Some b \<and> b_capacity b = 4096"
proof -
  from s obtain r P1 where a: "alloc_buf P n = Inr (r, P1)"
    by (auto simp: send_data_def send_reserve_def res_bind_Inr_iff)
  then obtain b b' where r: "r = Some p" and b': "heap P1 p = Some b" "io_buf_append b src n = Inr b'"
      "P' = write_buf P1 p b'"
    using s by (cases r) (auto simp: send_data_def send_reserve_def res_bind_Inr_iff deref_Inr_iff)
  have "b_capacity b = 4096"
    using a[unfolded r] b'(1) by (auto simp: pick_cap_small[OF n] elim!: rb_alloc[OF I[unfolded rb_inv_None]])
  moreover have "b_capacity b' = b_capacity b" using b'(2) by (auto simp: io_buf_append_def res_bind_Inr_iff)
  ultimately show ?thesis using b' by auto
qed

lemma send_data_take:
  assumes "0 \<le> n" and "n \<le> int (length src)"
  shows "send_data P q src n = send_data P q (take (nat n) src) (int (length (take (nat n) src)))"
proof -
  have l: "int (length (take (nat n) src)) = n" using assms by simp
  have a: "io_buf_append b (take (nat n) src) n = io_buf_append b src n" for b
    using assms by (simp add: io_buf_append_def c_memcpy_def)
  show ?thesis unfolding l send_data_def a ..
qed

lemma send_message_fits:
  assumes M: "mid_inv this X s" and ok: "req_ok req"
    and f: "fits Bd (e_pool (snd s)) (c_obuf (fst s)) (length (reply_bytes req) + k)"
  shows "\<exists>s'. send_message this s req = Inr (0, s') \<and> fits Bd (e_pool (snd s')) (c_obuf (fst s')) k"
proof -
  obtain c E where s: "s = (c, E)" by (cases s)
  obtain data n i where q: "req = (data, n, i)" by (cases req)
  let ?h = "head_bytes \<lparr>h_id = i, h_length = n\<rparr>"
  let ?d = "take (nat n) data"
  have I: "rb_inv (e_pool E) (X \<union> set_option (c_ibuf c)) (c_obuf c)" and F: "rb_front (e_pool E) (c_obuf c)"
    using M s by (auto simp: mid_inv_def bufs_ok_def)
  have f': "fits Bd (e_pool E) (c_obuf c) (length ?h + (length ?d + k))"
    using f s q by (simp add: reply_bytes_def add.assoc)
  from send_data_fits[OF I F f'] obtain q1 P1 where
    s1: "send_data (e_pool E) (c_obuf c) ?h 8 = Inr (0, q1, P1)" and f1: "fits Bd P1 q1 (length ?d + k)" by auto
  note S1 = send_data_spec[OF I F s1]
  have n: "0 \<le> n" "n \<le> int (length data)" using ok q by (auto simp: req_ok_def)
  from send_data_fits[OF _ _ f1] S1 obtain q2 P2 where
    s2: "send_data P1 q1 data n = Inr (0, q2, P2)" and f2: "fits Bd P2 q2 k"
    unfolding send_data_take[OF n] by blast
  let ?l = "if out_bytes (c, E) = [] then add_io_event (e_loop E) (c_fd c) conn_wt_callback EPOLLOUT (Some this) else e_loop E"
  have "send_message this (c, E) (data, n, i) = Inr (0, c\<lparr>c_obuf := q2\<rparr>, E\<lparr>e_pool := P2, e_loop := ?l\<rparr>)"
    using s1 s2 rb_inv_length[OF I]
    by (simp add: send_message_def Let_def MESSAGE_HEAD_LEN_def out_bytes_def)
  then show ?thesis using f2 s q by simp
qed

lemma send_all_fits:
  assumes "mid_inv this X s" and "\<forall>req \<in> set reqs. req_ok req"
    and "fits Bd (e_pool (snd s)) (c_obuf (fst s)) (length (concat (map reply_bytes reqs)) + k)"
  shows "\<exists>s'. send_all this s reqs = Inr s' \<and> fits Bd (e_pool (snd s')) (c_obuf (fst s')) k"
  using assms
proof (induction reqs arbitrary: s)
  case Nil
  then show ?case by (simp add: send_all_def)
next
  case (Cons req reqs)
  have ok: "req_ok req" using Cons.prems(2) by simp
  from send_message_fits[OF Cons.prems(1) ok, of Bd "length (concat (map reply_bytes reqs)) + k"] Cons.prems(3)
  obtain s1 where s1: "send_message this s req = Inr (0, s1)"
    and f1: "fits Bd (e_pool (snd s1)) (c_obuf (fst s1)) (length (concat (map reply_bytes reqs)) + k)"
    by (auto simp: add.assoc)
  have "mid_inv this X s1" using send_message_spec[OF Cons.prems(1) ok s1] by (simp add: sent_rel_def)
  from Cons.IH[OF this _ f1] Cons.prems(2) s1 show ?case by (simp add: send_all_def)
qed

section \<open>Reading messages\<close>

text \<open>
  What the message handlers of a server must respect: they look only at the \<open>len\<close> bytes of the
  body, and their replies are well formed. Connection callbacks send well-formed messages too.
\<close>

definition cb_ok :: "'a conn_callback option \<Rightarrow> bool" where
  "cb_ok cb \<longleftrightarrow> (\<forall>f a connfd req. cb = Some f \<longrightarrow> req \<in> set (snd (f a connfd)) \<longrightarrow> req_ok req)"

definition body_ok :: "byte list option \<Rightarrow> u32 \<Rightarrow> int \<Rightarrow> bool" where
  "body_ok data len i \<longleftrightarrow> in_int i \<and> int (unat len) \<le> MESSAGE_LENGTH_LIMIT \<and>
     (case data of None \<Rightarrow> len = 0 | Some d \<Rightarrow> unat len \<le> length d)"

definition cfg_ok :: "('a, 'u) server_cfg \<Rightarrow> bool" where
  "cfg_ok cfg \<longleftrightarrow> cb_ok (conn_start_cb cfg) \<and> cb_ok (conn_close_cb cfg) \<and>
     (\<forall>i h u. router_call (s_router cfg) i = Some (h, u) \<longrightarrow>
       (\<forall>a connfd data len. h a connfd (Some data) len i u = h a connfd (Some (take (unat len) data)) len i u) \<and>
       (\<forall>a connfd data len req. body_ok data len i \<longrightarrow>
          req \<in> set (snd (h a connfd data len i u)) \<longrightarrow> req_ok req))"

text \<open>The specification: hand each message of the stream to its handler, collect the replies.\<close>

definition serve_one :: "('a, 'u) server_cfg \<Rightarrow> int \<Rightarrow> 'a \<Rightarrow> frame \<Rightarrow> 'a \<times> send_req list" where
  "serve_one cfg connfd a m =
     (case router_call (s_router cfg) (fst m) of
        None \<Rightarrow> (a, [])
      | Some (h, u) \<Rightarrow> h a connfd (Some (snd m)) (word_of_int (int (length (snd m)))) (fst m) u)"

fun serve :: "('a, 'u) server_cfg \<Rightarrow> int \<Rightarrow> 'a \<Rightarrow> frame list \<Rightarrow> 'a \<times> send_req list" where
  "serve cfg connfd a [] = (a, [])"
| "serve cfg connfd a (m # ms) =
     (case serve_one cfg connfd a m of (a1, rs) \<Rightarrow>
        (case serve cfg connfd a1 ms of (a2, rs') \<Rightarrow> (a2, rs @ rs')))"

definition replies :: "('a, 'u) server_cfg \<Rightarrow> int \<Rightarrow> 'a \<Rightarrow> frame list \<Rightarrow> byte list" where
  "replies cfg connfd a ms = concat (map reply_bytes (snd (serve cfg connfd a ms)))"

lemma serve_append:
  "serve cfg connfd a (ms @ ns) =
     (case serve cfg connfd a ms of (a1, rs) \<Rightarrow>
        (case serve cfg connfd a1 ns of (a2, rs') \<Rightarrow> (a2, rs @ rs')))"
  by (induction ms arbitrary: a) (auto split: prod.splits)

lemma serve_one_ok:
  assumes "cfg_ok cfg" and "frame_ok m"
  shows "\<forall>req \<in> set (snd (serve_one cfg connfd a m)). req_ok req"
proof (cases "router_call (s_router cfg) (fst m)")
  case None
  then show ?thesis by (simp add: serve_one_def)
next
  case (Some hu)
  obtain h u where hu: "hu = (h, u)" by (cases hu)
  have "body_ok (Some (snd m)) (word_of_int (int (length (snd m)))) (fst m)"
    using assms(2) by (simp add: body_ok_def frame_ok_def message_limits unat_of_nat)
  then show ?thesis using assms(1) Some hu unfolding serve_one_def cfg_ok_def by fastforce
qed

text \<open>
  Input and output of a connection after some messages were handled: like \<open>sent_rel\<close>, but the
  application data may change and so may the input.
\<close>

definition served_rel ::
  "nat \<Rightarrow> nat set \<Rightarrow> 'a \<Rightarrow> byte list \<Rightarrow> byte list \<Rightarrow> tcp_conn \<times> 'a env \<Rightarrow> tcp_conn \<times> 'a env \<Rightarrow> bool" where
  "served_rel this X a left out s s' \<longleftrightarrow> mid_inv this X s' \<and> in_bytes s' = left \<and>
     out_bytes s' = out_bytes s @ out \<and> c_fd (fst s') = c_fd (fst s) \<and>
     e_reg (snd s') = e_reg (snd s) \<and> e_app (snd s') = a \<and>
     frame_rel X (c_fd (fst s)) (snd s) (snd s')"

lemma served_rel_refl: "mid_inv this X s \<Longrightarrow> served_rel this X (e_app (snd s)) (in_bytes s) [] s s"
  by (simp add: served_rel_def)

lemma served_rel_trans:
  "served_rel this X a l o1 s s' \<Longrightarrow> served_rel this X a' l' o2 s' s'' \<Longrightarrow>
   served_rel this X a' l' (o1 @ o2) s s''"
  by (auto simp: served_rel_def elim: frame_rel_trans)

lemma rb_data_spec:
  assumes "rb_inv P X (Some p)"
  shows "\<exists>rest. rb_data P (Some p) = Inr (Some (rb_bytes P (Some p) @ rest))"
proof -
  from assms obtain b where b: "heap P p = Some b" by (rule rb_inv_buf)
  have "drop (nat (b_head b)) (b_data b) = bytes b @ drop (nat (b_length b)) (drop (nat (b_head b)) (b_data b))"
    unfolding bytes_def by (rule append_take_drop_id[symmetric])
  then show ?thesis using b by (auto simp: rb_data_def)
qed

text \<open>Removing bytes from the input.\<close>

lemma pop_in_spec:
  assumes M: "mid_inv this X (c, E)" and ne: "c_ibuf c \<noteq> None" and n: "0 \<le> n" "n \<le> int (length (in_bytes (c, E)))"
  shows "\<exists>q P. rb_pop (e_pool E) (c_ibuf c) n = Inr (q, P) \<and>
    served_rel this X (e_app E) (drop (nat n) (in_bytes (c, E))) [] (c, E) (c\<lparr>c_ibuf := q\<rparr>, E\<lparr>e_pool := P\<rparr>) \<and>
    (n < int (length (in_bytes (c, E))) \<longrightarrow> q \<noteq> None) \<and> (n = int (length (in_bytes (c, E))) \<longrightarrow> q = None)"
proof -
  obtain p where p: "c_ibuf c = Some p" using ne by auto
  let ?X = "X \<union> set_option (c_obuf c)"
  have B: "bufs_ok (e_pool E) X c" using M by (simp add: mid_inv_def)
  then have I: "rb_inv (e_pool E) ?X (Some p)" using p by (simp add: bufs_ok_def)
  from rb_pop_spec[OF I n(1)] n(2) p obtain q P where
    r: "rb_pop (e_pool E) (Some p) n = Inr (q, P)" "rb_inv P ?X q" "same_on ?X (e_pool E) P"
    "rb_bytes P q = drop (nat n) (rb_bytes (e_pool E) (Some p))"
    "if n = int (length (rb_bytes (e_pool E) (Some p))) then q = None else q = Some p"
    by (auto simp: in_bytes_def)
  have ob: "rb_bytes P (c_obuf c) = rb_bytes (e_pool E) (c_obuf c)"
    "rb_front P (c_obuf c) = rb_front (e_pool E) (c_obuf c)"
    using rb_bytes_same[OF _ r(3)] rb_front_same[OF _ r(3)] by auto
  have "bufs_ok P X (c\<lparr>c_ibuf := q\<rparr>)" by (rule bufs_ok_in[OF B r(2)]) simp_all
  then have "mid_inv this X (c\<lparr>c_ibuf := q\<rparr>, E\<lparr>e_pool := P\<rparr>)"
    using M ob by (simp add: mid_inv_def out_bytes_def)
  then show ?thesis
    using r p ob frame_rel_pool[OF same_on_subset[OF r(3)]]
    by (auto simp: served_rel_def in_bytes_def out_bytes_def split: if_splits)
qed

lemma app_irrelevant [simp]:
  "mid_inv this X (c, E\<lparr>e_app := a\<rparr>) = mid_inv this X (c, E)"
  "out_bytes (c, E\<lparr>e_app := a\<rparr>) = out_bytes (c, E)"
  "in_bytes (c, E\<lparr>e_app := a\<rparr>) = in_bytes (c, E)"
  by (simp_all add: mid_inv_def out_bytes_def in_bytes_def)

lemma fits_same:
  "same_on (set_option q) P P' \<Longrightarrow> total_mem P' = total_mem P \<Longrightarrow> fits Bd P' q k = fits Bd P q k"
  by (cases q) (simp_all add: fits_def same_on_def)

lemma revert_mem: "revert P p = Inr P' \<Longrightarrow> total_mem P' = total_mem P"
  by (auto simp: revert_def Let_def res_bind_Inr_iff split: option.splits)

lemma rb_pop_mem: "rb_pop P q n = Inr (q', P') \<Longrightarrow> total_mem P' = total_mem P"
  by (auto simp: rb_pop_def Let_def res_bind_Inr_iff write_buf_def dest!: revert_mem
      split: option.splits if_splits)

lemma sent_served:
  assumes "sent_rel this X out (c, E\<lparr>e_app := a\<rparr>) s'"
  shows "served_rel this X a (in_bytes (c, E)) out (c, E) s'" and "c_ibuf (fst s') = c_ibuf c"
proof -
  let ?X = "X \<union> set_option (c_ibuf c)"
  from assms have f: "frame_rel ?X (c_fd c) (E\<lparr>e_app := a\<rparr>) (snd s')" and i: "c_ibuf (fst s') = c_ibuf c"
    by (simp_all add: sent_rel_def)
  from f have f': "frame_rel ?X (c_fd c) E (snd s')" by (simp add: frame_rel_def)
  then have "in_bytes s' = in_bytes (c, E)"
    using i rb_bytes_same[of "c_ibuf c" ?X] by (simp add: in_bytes_def frame_rel_def)
  moreover have "frame_rel X (c_fd c) E (snd s')" using f' by (rule frame_rel_subset) simp
  ultimately show "served_rel this X a (in_bytes (c, E)) out (c, E) s'"
    using assms by (simp add: served_rel_def sent_rel_def)
  show "c_ibuf (fst s') = c_ibuf c" by (rule i)
qed

lemma router_dispatch_eq:
  assumes "cfg_ok cfg" and "take (length body) d = body" and "length body < 2 ^ 32"
  shows "router_dispatch cfg this (c, E) i (word_of_int (int (length body))) (Some d) =
    (case serve_one cfg (c_fd c) (e_app E) (i, body) of (a', rs) \<Rightarrow> send_all this (c, E\<lparr>e_app := a'\<rparr>) rs)"
proof (cases "router_call (s_router cfg) i")
  case None
  then show ?thesis by (simp add: router_dispatch_def serve_one_def send_all_def)
next
  case (Some hu)
  obtain h u where hu: "hu = (h, u)" by (cases hu)
  let ?len = "word_of_int (int (length body)) :: u32"
  have "unat ?len = length body" using assms(3) by (simp add: unat_of_nat)
  then have "h a f (Some d) ?len i u = h a f (Some body) ?len i u" for a f
    using assms(1,2) Some hu unfolding cfg_ok_def by metis
  then show ?thesis by (simp add: router_dispatch_def serve_one_def Some hu)
qed

text \<open>The first half of a round that finds a message: the head is removed, the handler is about to reply.\<close>

lemma read_step_start:
  assumes cfg: "cfg_ok cfg" and M: "mid_inv this X (c, E)"
    and nf: "next_frame (in_bytes (c, E)) = Msg (i, body) rest" and ne: "body \<noteq> [] \<or> rest \<noteq> []"
    and so: "serve_one cfg (c_fd c) (e_app E) (i, body) = (a, rs)"
  shows "\<exists>q P. let s1 = (c\<lparr>c_ibuf := q\<rparr>, E\<lparr>e_pool := P\<rparr>) in
    served_rel this X (e_app E) (body @ rest) [] (c, E) s1 \<and> q \<noteq> None \<and> total_mem P = total_mem (e_pool E) \<and>
    same_on (set_option (c_obuf c)) (e_pool E) P \<and>
    read_loop (Suc n) cfg this (c, E) =
      res_bind (send_all this (fst s1, (snd s1)\<lparr>e_app := a\<rparr>) rs) (\<lambda>(c2, E2).
      res_bind (rb_pop (e_pool E2) (c_ibuf c2) (int (length body))) (\<lambda>(q3, P3).
        read_loop n cfg this (c2\<lparr>c_ibuf := q3\<rparr>, E2\<lparr>e_pool := P3\<rparr>)))"
proof -
  let ?xs = "in_bytes (c, E)"
  have l8: "8 \<le> length ?xs" using nf by (auto simp: next_frame_def message_limits split: if_splits)
  then obtain p where p: "c_ibuf c = Some p" by (cases "c_ibuf c") (auto simp: in_bytes_def)
  from nf l8 have h: "h_id (read_head ?xs) = i" "h_length (read_head ?xs) = int (length body)"
    "int (length body) \<le> 65527" "body @ rest = drop 8 ?xs" "8 + length body \<le> length ?xs"
    by (auto simp: next_frame_def message_limits Let_def take_drop_split split: if_splits)
  have I: "rb_inv (e_pool E) (X \<union> set_option (c_obuf c)) (Some p)"
    using M p by (simp add: mid_inv_def bufs_ok_def)
  have xs: "rb_bytes (e_pool E) (Some p) = ?xs" using p by (simp add: in_bytes_def)
  from rb_data_spec[OF I] xs obtain r where d: "rb_data (e_pool E) (Some p) = Inr (Some (?xs @ r))" by auto
  have hd: "read_head (?xs @ r) = read_head ?xs" using l8 by (rule read_head_append)
  from pop_in_spec[OF M, of 8] p l8 obtain q P where
    q: "rb_pop (e_pool E) (Some p) 8 = Inr (q, P)"
      "served_rel this X (e_app E) (drop 8 ?xs) [] (c, E) (c\<lparr>c_ibuf := q\<rparr>, E\<lparr>e_pool := P\<rparr>)"
      "8 < int (length ?xs) \<longrightarrow> q \<noteq> None" by auto
  have "length (body @ rest) = length ?xs - 8" by (simp only: h(4) length_drop)
  then have qn: "q \<noteq> None" using q(3) ne by (cases body; cases rest) auto
  then obtain p' where p': "q = Some p'" by auto
  have "rb_inv P (X \<union> set_option (c_obuf c)) (Some p')"
    using q(2) p' by (simp add: served_rel_def mid_inv_def bufs_ok_def)
  note dd = rb_data_spec[OF this]
  have "rb_bytes P (Some p') = body @ rest" using q(2) p' h(4) by (simp add: served_rel_def in_bytes_def)
  with dd obtain r' where d': "rb_data P (Some p') = Inr (Some (body @ rest @ r'))" by auto
  have rd: "router_dispatch cfg this (c\<lparr>c_ibuf := q\<rparr>, E\<lparr>e_pool := P\<rparr>) i (word_of_int (int (length body))) (Some (body @ rest @ r')) =
    send_all this (c\<lparr>c_ibuf := q\<rparr>, E\<lparr>e_pool := P, e_app := a\<rparr>) rs"
    using router_dispatch_eq[OF cfg, of body "body @ rest @ r'" this "c\<lparr>c_ibuf := q\<rparr>" "E\<lparr>e_pool := P\<rparr>" i] h(3) so
    by simp
  have "read_loop (Suc n) cfg this (c, E) =
      res_bind (send_all this (c\<lparr>c_ibuf := q\<rparr>, E\<lparr>e_pool := P, e_app := a\<rparr>) rs) (\<lambda>(c2, E2).
      res_bind (rb_pop (e_pool E2) (c_ibuf c2) (int (length body))) (\<lambda>(q3, P3).
        read_loop n cfg this (c2\<lparr>c_ibuf := q3\<rparr>, E2\<lparr>e_pool := P3\<rparr>)))"
    using l8 p d hd h q(1) p' d' rd rb_inv_length[OF I]
    by (simp add: message_limits Let_def xs)
  moreover have "same_on (set_option (c_obuf c)) (e_pool E) P"
    using rb_pop_spec[OF I, of 8] q(1) l8 xs by (auto elim: same_on_subset)
  ultimately show ?thesis
    using q(2) h(4) qn rb_pop_mem[OF q(1)] by (intro exI[of _ q] exI[of _ P]) (simp add: Let_def)
qed

text \<open>The second half: the replies are out, the body is removed.\<close>

lemma read_step_end:
  assumes cfg: "cfg_ok cfg" and fo: "frame_ok (i, body)"
    and so: "serve_one cfg (c_fd c) (e_app E) (i, body) = (a, rs)"
    and s1: "served_rel this X (e_app E) (body @ rest) [] (c, E) (c1, E1)" and ne: "c_ibuf c1 \<noteq> None"
    and sa: "send_all this (c1, E1\<lparr>e_app := a\<rparr>) rs = Inr (c2, E2)"
  shows "\<exists>q P. rb_pop (e_pool E2) (c_ibuf c2) (int (length body)) = Inr (q, P) \<and>
    served_rel this X a rest (concat (map reply_bytes rs)) (c, E) (c2\<lparr>c_ibuf := q\<rparr>, E2\<lparr>e_pool := P\<rparr>) \<and>
    total_mem P = total_mem (e_pool E2) \<and> same_on (set_option (c_obuf c2)) (e_pool E2) P"
proof -
  have rs: "\<forall>req \<in> set rs. req_ok req"
    using serve_one_ok[OF cfg fo, of "c_fd c" "e_app E"] so by simp
  have M1: "mid_inv this X (c1, E1)" and b1: "in_bytes (c1, E1) = body @ rest"
    using s1 by (simp_all add: served_rel_def)
  have "sent_rel this X (concat (map reply_bytes rs)) (c1, E1\<lparr>e_app := a\<rparr>) (c2, E2)"
    using send_all_spec[OF _ rs sa] M1 by simp
  note s2 = sent_served[OF this]
  have M2: "mid_inv this X (c2, E2)" and b2: "in_bytes (c2, E2) = body @ rest" and a2: "e_app E2 = a"
    and n2: "c_ibuf c2 \<noteq> None"
    using s2 b1 ne by (simp_all add: served_rel_def)
  from pop_in_spec[OF M2 n2, of "int (length body)"] b2 a2 obtain q P where
    q: "rb_pop (e_pool E2) (c_ibuf c2) (int (length body)) = Inr (q, P)"
      "served_rel this X a rest [] (c2, E2) (c2\<lparr>c_ibuf := q\<rparr>, E2\<lparr>e_pool := P\<rparr>)" by auto
  obtain p where p: "c_ibuf c2 = Some p" using n2 by auto
  have "rb_inv (e_pool E2) (X \<union> set_option (c_obuf c2)) (Some p)"
    using M2 p by (simp add: mid_inv_def bufs_ok_def)
  from rb_pop_spec[OF this, of "int (length body)"] q(1) p b2
  have "same_on (set_option (c_obuf c2)) (e_pool E2) P" by (auto simp: in_bytes_def elim: same_on_subset)
  moreover have "served_rel this X a rest (concat (map reply_bytes rs)) (c, E) (c2\<lparr>c_ibuf := q\<rparr>, E2\<lparr>e_pool := P\<rparr>)"
    using served_rel_trans[OF served_rel_trans[OF s1 s2(1)] q(2)] by simp
  ultimately show ?thesis using q(1) rb_pop_mem[OF q(1)] by blast
qed

text \<open>A whole round: either a reply cannot be sent, or the message is handled and the loop goes on behind it.\<close>

lemma read_step:
  assumes cfg: "cfg_ok cfg" and M: "mid_inv this X s"
    and nf: "next_frame (in_bytes s) = Msg m rest" and ne: "snd m \<noteq> [] \<or> rest \<noteq> []"
    and so: "serve_one cfg (c_fd (fst s)) (e_app (snd s)) m = (a, rs)"
  shows "(\<exists>e. read_loop (Suc n) cfg this s = Inl e) \<or>
    (\<exists>s'. served_rel this X a rest (concat (map reply_bytes rs)) s s' \<and>
       read_loop (Suc n) cfg this s = read_loop n cfg this s')"
    and "fits Bd (e_pool (snd s)) (c_obuf (fst s)) (length (concat (map reply_bytes rs)) + k) \<Longrightarrow>
     \<exists>s'. served_rel this X a rest (concat (map reply_bytes rs)) s s' \<and>
       read_loop (Suc n) cfg this s = read_loop n cfg this s' \<and>
       fits Bd (e_pool (snd s')) (c_obuf (fst s')) k"
proof -
  obtain c E where s: "s = (c, E)" by (cases s)
  obtain i body where m: "m = (i, body)" by (cases m)
  let ?out = "concat (map reply_bytes rs)"
  from read_step_start[OF cfg M[unfolded s] nf[unfolded s m], of a rs n] ne so s m obtain q P where
    s1: "served_rel this X (e_app E) (body @ rest) [] (c, E) (c\<lparr>c_ibuf := q\<rparr>, E\<lparr>e_pool := P\<rparr>)"
    and qn: "q \<noteq> None" and tm: "total_mem P = total_mem (e_pool E)"
    and so1: "same_on (set_option (c_obuf c)) (e_pool E) P"
    and eq: "read_loop (Suc n) cfg this (c, E) =
      res_bind (send_all this (c\<lparr>c_ibuf := q\<rparr>, E\<lparr>e_pool := P, e_app := a\<rparr>) rs) (\<lambda>(c2, E2).
      res_bind (rb_pop (e_pool E2) (c_ibuf c2) (int (length body))) (\<lambda>(q3, P3).
        read_loop n cfg this (c2\<lparr>c_ibuf := q3\<rparr>, E2\<lparr>e_pool := P3\<rparr>)))"
    by (auto simp: Let_def)
  let ?sa = "send_all this (c\<lparr>c_ibuf := q\<rparr>, E\<lparr>e_pool := P, e_app := a\<rparr>) rs"
  have fin: "\<exists>q3 P3. read_loop (Suc n) cfg this (c, E) = read_loop n cfg this (c2\<lparr>c_ibuf := q3\<rparr>, E2\<lparr>e_pool := P3\<rparr>) \<and>
      served_rel this X a rest ?out (c, E) (c2\<lparr>c_ibuf := q3\<rparr>, E2\<lparr>e_pool := P3\<rparr>) \<and>
      (fits Bd (e_pool E2) (c_obuf c2) k \<longrightarrow> fits Bd P3 (c_obuf c2) k)" if "?sa = Inr (c2, E2)" for c2 E2
  proof -
    from read_step_end[OF cfg next_frame_ok[OF nf, unfolded m] _ s1, of a rs c2 E2] so s m qn that obtain q3 P3 where
      "rb_pop (e_pool E2) (c_ibuf c2) (int (length body)) = Inr (q3, P3)"
      "served_rel this X a rest ?out (c, E) (c2\<lparr>c_ibuf := q3\<rparr>, E2\<lparr>e_pool := P3\<rparr>)"
      "total_mem P3 = total_mem (e_pool E2)" "same_on (set_option (c_obuf c2)) (e_pool E2) P3" by auto
    then show ?thesis using eq that fits_same[of "c_obuf c2" "e_pool E2" P3 Bd k] by auto
  qed
  show "(\<exists>e. read_loop (Suc n) cfg this s = Inl e) \<or>
    (\<exists>s'. served_rel this X a rest ?out s s' \<and> read_loop (Suc n) cfg this s = read_loop n cfg this s')"
  proof (cases ?sa)
    case (Inl e)
    then show ?thesis using eq s by simp
  next
    case (Inr t)
    then show ?thesis using fin[of "fst t" "snd t"] s by (metis prod.collapse)
  qed
  assume "fits Bd (e_pool (snd s)) (c_obuf (fst s)) (length ?out + k)"
  then have f: "fits Bd P (c_obuf c) (length ?out + k)" using fits_same[OF so1 tm] s by simp
  have "\<forall>req \<in> set rs. req_ok req"
    using serve_one_ok[OF cfg next_frame_ok[OF nf], of "c_fd c" "e_app E"] so s by simp
  with send_all_fits[of this X "(c\<lparr>c_ibuf := q\<rparr>, E\<lparr>e_pool := P, e_app := a\<rparr>)" rs Bd k] f s1 obtain c2 E2 where
    sa: "?sa = Inr (c2, E2)" "fits Bd (e_pool E2) (c_obuf c2) k"
    by (auto simp: served_rel_def mid_inv_def out_bytes_def)
  from fin[OF sa(1)] sa(2) s show "\<exists>s'. served_rel this X a rest ?out s s' \<and>
      read_loop (Suc n) cfg this s = read_loop n cfg this s' \<and> fits Bd (e_pool (snd s')) (c_obuf (fst s')) k"
    by fastforce
qed

lemma read_stop:
  assumes M: "mid_inv this X s"
  shows "next_frame (in_bytes s) = Need \<Longrightarrow> read_loop (Suc n) cfg this s = Inr s"
    and "next_frame (in_bytes s) = Bad \<Longrightarrow> read_loop (Suc n) cfg this s = clean_conn cfg this s"
proof -
  obtain c E where s: "s = (c, E)" by (cases s)
  let ?xs = "in_bytes (c, E)"
  have I: "rb_inv (e_pool E) (X \<union> set_option (c_obuf c)) (c_ibuf c)"
    using M s by (simp add: mid_inv_def bufs_ok_def)
  have l: "rb_length (e_pool E) (c_ibuf c) = Inr (int (length ?xs))"
    using rb_inv_length[OF I] by (simp add: in_bytes_def)
  have d: "\<exists>r. rb_data (e_pool E) (c_ibuf c) = Inr (Some (?xs @ r)) \<and> read_head (?xs @ r) = read_head ?xs"
    if "8 \<le> length ?xs"
  proof -
    from that obtain p where p: "c_ibuf c = Some p" by (cases "c_ibuf c") (auto simp: in_bytes_def)
    with rb_data_spec I obtain r where "rb_data (e_pool E) (Some p) = Inr (Some (?xs @ r))"
      by (fastforce simp: in_bytes_def)
    with p read_head_append[OF that] show ?thesis by auto
  qed
  show "next_frame (in_bytes s) = Need \<Longrightarrow> read_loop (Suc n) cfg this s = Inr s"
    using l d s by (cases "8 \<le> length ?xs") (auto simp: next_frame_def message_limits Let_def split: if_splits)
  show "next_frame (in_bytes s) = Bad \<Longrightarrow> read_loop (Suc n) cfg this s = clean_conn cfg this s"
    using l d s by (cases "8 \<le> length ?xs") (auto simp: next_frame_def message_limits Let_def split: if_splits)
qed

text \<open>
  An empty message is handled only if something follows it in the buffer: removing its head
  empties the buffer, which is given back, and the second \<open>pop\<close> finds no buffer.
\<close>

definition empty_replies :: "('a, 'u) server_cfg \<Rightarrow> int \<Rightarrow> tcp_conn \<times> 'a env \<Rightarrow> send_req list" where
  "empty_replies cfg i s =
     (case router_call (s_router cfg) i of
        None \<Rightarrow> []
      | Some (h, u) \<Rightarrow> snd (h (e_app (snd s)) (c_fd (fst s)) None 0 i u))"

lemma dispatch_empty:
  obtains a where "router_dispatch cfg this (c\<lparr>c_ibuf := q\<rparr>, E\<lparr>e_pool := P\<rparr>) i 0 None =
    send_all this (c\<lparr>c_ibuf := q\<rparr>, E\<lparr>e_pool := P, e_app := a\<rparr>) (empty_replies cfg i (c, E))"
proof (cases "router_call (s_router cfg) i")
  case None
  have "E\<lparr>e_pool := P, e_app := e_app E\<rparr> = E\<lparr>e_pool := P\<rparr>" by (cases E) simp
  with None show thesis using that[of "e_app E"] by (simp add: router_dispatch_def empty_replies_def send_all_def)
next
  case (Some hu)
  obtain hh u where hu: "hu = (hh, u)" by (cases hu)
  obtain a rs where "hh (e_app E) (c_fd c) None 0 i u = (a, rs)" by fastforce
  with Some hu show thesis using that[of a] by (simp add: router_dispatch_def empty_replies_def)
qed

lemma empty_replies_ok:
  assumes "cfg_ok cfg" and "i = h_id (read_head xs)"
  shows "\<forall>req \<in> set (empty_replies cfg i s). req_ok req"
proof -
  have "body_ok None 0 i" using assms(2) by (auto simp: body_ok_def message_limits)
  then show ?thesis
    using assms(1) unfolding empty_replies_def cfg_ok_def by (cases "router_call (s_router cfg) i") fastforce+
qed

lemma read_crash:
  assumes cfg: "cfg_ok cfg" and M: "mid_inv this X s" and nf: "next_frame (in_bytes s) = Msg (i, []) []"
  shows "\<exists>e. read_loop (Suc n) cfg this s = Inl e"
    and "fits Bd (e_pool (snd s)) (c_obuf (fst s)) (length (concat (map reply_bytes (empty_replies cfg i s)))) \<Longrightarrow>
      read_loop (Suc n) cfg this s = Inl Assert_failed"
proof -
  obtain c E where s: "s = (c, E)" by (cases s)
  let ?xs = "in_bytes (c, E)"
  have l8: "length ?xs = 8" and h: "h_id (read_head ?xs) = i" "h_length (read_head ?xs) = 0"
    using nf s by (auto simp: next_frame_def message_limits Let_def split: if_splits)
  from l8 obtain p where p: "c_ibuf c = Some p" by (cases "c_ibuf c") (auto simp: in_bytes_def)
  have I: "rb_inv (e_pool E) (X \<union> set_option (c_obuf c)) (Some p)"
    using M s p by (simp add: mid_inv_def bufs_ok_def)
  have xs: "rb_bytes (e_pool E) (Some p) = ?xs" using p by (simp add: in_bytes_def)
  from rb_data_spec[OF I] xs obtain r where d: "rb_data (e_pool E) (Some p) = Inr (Some (?xs @ r))" by auto
  have hd: "read_head (?xs @ r) = read_head ?xs" using l8 by (intro read_head_append) simp
  from pop_in_spec[OF M[unfolded s], of 8] p l8 obtain P where
    q: "rb_pop (e_pool E) (Some p) 8 = Inr (None, P)" "mid_inv this X (c\<lparr>c_ibuf := None\<rparr>, E\<lparr>e_pool := P\<rparr>)"
    by (auto simp: served_rel_def)
  let ?s1 = "(c\<lparr>c_ibuf := None\<rparr>, E\<lparr>e_pool := P\<rparr>)"
  have eq: "read_loop (Suc n) cfg this s =
      res_bind (router_dispatch cfg this ?s1 i 0 None) (\<lambda>(c2, E2).
      res_bind (rb_pop (e_pool E2) (c_ibuf c2) 0) (\<lambda>(q3, P3).
        read_loop n cfg this (c2\<lparr>c_ibuf := q3\<rparr>, E2\<lparr>e_pool := P3\<rparr>)))"
    using l8 p d hd h q(1) s rb_inv_length[OF I]
    by (simp add: message_limits Let_def xs rb_data_def[of _ None])
  obtain a where rd: "router_dispatch cfg this ?s1 i 0 None =
      send_all this (c\<lparr>c_ibuf := None\<rparr>, E\<lparr>e_pool := P, e_app := a\<rparr>) (empty_replies cfg i s)"
    unfolding s by (rule dispatch_empty)
  have ok: "\<forall>req \<in> set (empty_replies cfg i s). req_ok req" by (rule empty_replies_ok[OF cfg h(1)[symmetric]])
  have M1: "mid_inv this X (c\<lparr>c_ibuf := None\<rparr>, E\<lparr>e_pool := P, e_app := a\<rparr>)"
    using q(2) by (simp add: mid_inv_def out_bytes_def)
  have nb: "c_ibuf c2 = None" if "router_dispatch cfg this ?s1 i 0 None = Inr (c2, E2)" for c2 E2
    using send_all_spec[OF M1 ok] that rd by (auto simp: sent_rel_def)
  show "\<exists>e. read_loop (Suc n) cfg this s = Inl e"
    using eq nb by (cases "router_dispatch cfg this ?s1 i 0 None") (auto simp: rb_pop_def)
  assume f: "fits Bd (e_pool (snd s)) (c_obuf (fst s)) (length (concat (map reply_bytes (empty_replies cfg i s))))"
  have "same_on (set_option (c_obuf c)) (e_pool E) P"
    using rb_pop_spec[OF I, of 8] q(1) l8 xs by (auto elim: same_on_subset)
  from fits_same[OF this rb_pop_mem[OF q(1)]] f s
  obtain t where "router_dispatch cfg this ?s1 i 0 None = Inr t"
    using send_all_fits[OF M1 ok, of Bd 0] rd by auto
  with nb eq show "read_loop (Suc n) cfg this s = Inl Assert_failed"
    by (cases t) (simp add: rb_pop_def)
qed

text \<open>Messages that end exactly where the input ends and have no body are not among \<open>proper\<close> inputs.\<close>

definition proper :: "frame list \<Rightarrow> byte list \<Rightarrow> bool" where
  "proper ms r \<longleftrightarrow> r \<noteq> [] \<or> ms = [] \<or> snd (last ms) \<noteq> []"

lemma proper_Cons: "proper (m # ms) r \<Longrightarrow> proper ms r"
  by (auto simp: proper_def split: if_splits)

lemma unframe_nonempty:
  assumes "unframe next_frame rest = (ms, r, bad)" and "proper (m # ms) r"
  shows "snd m \<noteq> [] \<or> rest \<noteq> []"
proof (rule ccontr)
  assume "\<not> ?thesis"
  moreover from this have "ms = [] \<and> r = []" using assms(1) fr.unframe_Need[OF fr.nxt_nil] by auto
  ultimately show False using assms(2) by (simp add: proper_def)
qed

lemma replies_Cons:
  "serve_one cfg connfd a m = (a1, rs) \<Longrightarrow>
   replies cfg connfd a (m # ms) = concat (map reply_bytes rs) @ replies cfg connfd a1 ms \<and>
   fst (serve cfg connfd a (m # ms)) = fst (serve cfg connfd a1 ms)"
  by (simp add: replies_def split: prod.splits)

lemma read_loop_total:
  assumes "cfg_ok cfg" and "mid_inv this X s"
    and "unframe next_frame (in_bytes s) = (ms, r, bad)" and "proper ms r"
    and "fits Bd (e_pool (snd s)) (c_obuf (fst s)) (length (replies cfg (c_fd (fst s)) (e_app (snd s)) ms) + k)"
    and "length (in_bytes s) < n"
  shows "\<exists>s1. served_rel this X (fst (serve cfg (c_fd (fst s)) (e_app (snd s)) ms)) r
      (replies cfg (c_fd (fst s)) (e_app (snd s)) ms) s s1 \<and>
    read_loop n cfg this s = (if bad then clean_conn cfg this s1 else Inr s1) \<and>
    fits Bd (e_pool (snd s1)) (c_obuf (fst s1)) k"
  using assms
proof (induction n arbitrary: s ms)
  case 0
  then show ?case by simp
next
  case (Suc n)
  note M = Suc.prems(2)
  show ?case
  proof (cases "next_frame (in_bytes s)")
    case Need
    then have "ms = []" "r = in_bytes s" "bad = False" using Suc.prems(3) by auto
    then show ?thesis
      using read_stop(1)[OF M Need] served_rel_refl[OF M] Suc.prems(5)
      by (intro exI[of _ s]) (simp add: replies_def del: read_loop.simps)
  next
    case Bad
    then have "ms = []" "r = in_bytes s" "bad = True" using Suc.prems(3) by auto
    then show ?thesis
      using read_stop(2)[OF M Bad] served_rel_refl[OF M] Suc.prems(5)
      by (intro exI[of _ s]) (simp add: replies_def del: read_loop.simps)
  next
    case (Msg m rest)
    then obtain ms' where ms: "ms = m # ms'" and u: "unframe next_frame rest = (ms', r, bad)"
      using Suc.prems(3) by (auto simp: fr.unframe_Msg split: prod.splits)
    obtain a rs where so: "serve_one cfg (c_fd (fst s)) (e_app (snd s)) m = (a, rs)" by fastforce
    note rc = replies_Cons[OF so, of ms']
    have ne: "snd m \<noteq> [] \<or> rest \<noteq> []" using unframe_nonempty[OF u] Suc.prems(4) ms by simp
    from read_step(2)[OF Suc.prems(1) M Msg ne so, of Bd "length (replies cfg (c_fd (fst s)) a ms') + k" n]
      Suc.prems(5) rc ms obtain s' where
      s': "served_rel this X a rest (concat (map reply_bytes rs)) s s'"
        "read_loop (Suc n) cfg this s = read_loop n cfg this s'"
        "fits Bd (e_pool (snd s')) (c_obuf (fst s')) (length (replies cfg (c_fd (fst s)) a ms') + k)"
      by (auto simp: add.assoc simp del: read_loop.simps)
    have e: "mid_inv this X s'" "in_bytes s' = rest" "c_fd (fst s') = c_fd (fst s)" "e_app (snd s') = a"
      using s'(1) by (simp_all add: served_rel_def)
    have "length rest < n" using fr.nxt_Msg[OF Msg, of "[]"] Suc.prems(6) by linarith
    with Suc.IH[OF Suc.prems(1) e(1), of ms'] u e s'(3) proper_Cons Suc.prems(4) ms obtain s1 where
      "served_rel this X (fst (serve cfg (c_fd (fst s)) a ms')) r (replies cfg (c_fd (fst s)) a ms') s' s1"
      "read_loop n cfg this s' = (if bad then clean_conn cfg this s1 else Inr s1)"
      "fits Bd (e_pool (snd s1)) (c_obuf (fst s1)) k" by auto
    then show ?thesis
      using served_rel_trans[OF s'(1)] s'(2) rc ms by (metis (no_types, lifting))
  qed
qed

lemma read_loop_spec:
  assumes "cfg_ok cfg" and "mid_inv this X s" and "read_loop n cfg this s = Inr s'"
    and "unframe next_frame (in_bytes s) = (ms, r, bad)"
  shows "\<exists>s1. served_rel this X (fst (serve cfg (c_fd (fst s)) (e_app (snd s)) ms)) r
      (replies cfg (c_fd (fst s)) (e_app (snd s)) ms) s s1 \<and>
    (if bad then clean_conn cfg this s1 = Inr s' else s' = s1)"
  using assms
proof (induction n arbitrary: s ms)
  case 0
  then show ?case by simp
next
  case (Suc n)
  note M = Suc.prems(2)
  show ?case
  proof (cases "next_frame (in_bytes s)")
    case Need
    then have "ms = []" "r = in_bytes s" "bad = False" using Suc.prems(4) by auto
    then show ?thesis
      using read_stop(1)[OF M Need, of n cfg] served_rel_refl[OF M] Suc.prems(3)
      by (intro exI[of _ s]) (simp add: replies_def del: read_loop.simps)
  next
    case Bad
    then have "ms = []" "r = in_bytes s" "bad = True" using Suc.prems(4) by auto
    then show ?thesis
      using read_stop(2)[OF M Bad, of n cfg] served_rel_refl[OF M] Suc.prems(3)
      by (intro exI[of _ s]) (simp add: replies_def del: read_loop.simps)
  next
    case (Msg m rest)
    then obtain ms' where ms: "ms = m # ms'" and u: "unframe next_frame rest = (ms', r, bad)"
      using Suc.prems(4) by (auto simp: fr.unframe_Msg split: prod.splits)
    obtain a rs where so: "serve_one cfg (c_fd (fst s)) (e_app (snd s)) m = (a, rs)" by fastforce
    note rc = replies_Cons[OF so, of ms']
    have ne: "snd m \<noteq> [] \<or> rest \<noteq> []"
    proof (rule ccontr)
      assume "\<not> ?thesis"
      then have "next_frame (in_bytes s) = Msg (fst m, []) []" using Msg by (cases m) simp
      from read_crash(1)[OF Suc.prems(1) M this, of n] Suc.prems(3) show False by auto
    qed
    from read_step(1)[OF Suc.prems(1) M Msg ne so, of n] Suc.prems(3) obtain s2 where
      s2: "served_rel this X a rest (concat (map reply_bytes rs)) s s2" "read_loop n cfg this s2 = Inr s'"
      by (auto simp del: read_loop.simps)
    have e: "mid_inv this X s2" "in_bytes s2 = rest" "c_fd (fst s2) = c_fd (fst s)" "e_app (snd s2) = a"
      using s2(1) by (simp_all add: served_rel_def)
    from Suc.IH[OF Suc.prems(1) e(1) s2(2), of ms'] u e obtain s1 where
      "served_rel this X (fst (serve cfg (c_fd (fst s)) a ms')) r (replies cfg (c_fd (fst s)) a ms') s2 s1"
      "if bad then clean_conn cfg this s1 = Inr s' else s' = s1" by auto
    then show ?thesis using served_rel_trans[OF s2(1)] rc ms by (metis (no_types, lifting))
  qed
qed

section \<open>Closing\<close>

text \<open>What \<open>clean_conn\<close> leaves: no buffers, no loop entry, one connection less.\<close>

definition closed_rel :: "nat set \<Rightarrow> (int \<rightharpoonup> nat) \<Rightarrow> tcp_conn \<times> 'a env \<Rightarrow> tcp_conn \<times> 'a env \<Rightarrow> bool" where
  "closed_rel X S s s' \<longleftrightarrow> fst s' = \<lparr>c_fd = -1, c_obuf = None, c_ibuf = None\<rparr> \<and>
     pool_inv (e_pool (snd s')) X \<and> loop_inv (e_loop (snd s')) \<and>
     io_evs (e_loop (snd s')) (c_fd (fst s)) = None \<and>
     reg_inv (e_reg (snd s')) (S(c_fd (fst s) := None)) \<and>
     max_conns (e_reg (snd s')) = max_conns (e_reg (snd s)) \<and>
     frame_rel X (c_fd (fst s)) (snd s) (snd s')"

definition close_replies :: "('a, 'u) server_cfg \<Rightarrow> tcp_conn \<times> 'a env \<Rightarrow> send_req list" where
  "close_replies cfg s =
     (case conn_close_cb cfg of None \<Rightarrow> [] | Some f \<Rightarrow> snd (f (e_app (snd s)) (c_fd (fst s))))"

definition close_app :: "('a, 'u) server_cfg \<Rightarrow> tcp_conn \<times> 'a env \<Rightarrow> 'a" where
  "close_app cfg s =
     (case conn_close_cb cfg of None \<Rightarrow> e_app (snd s) | Some f \<Rightarrow> fst (f (e_app (snd s)) (c_fd (fst s))))"

lemma call_close:
  "call_conn_cb (conn_close_cb cfg) this s =
     send_all this (fst s, (snd s)\<lparr>e_app := close_app cfg s\<rparr>) (close_replies cfg s)"
  by (auto simp: call_conn_cb_def close_app_def close_replies_def send_all_def
      split: option.splits prod.splits)

lemma clean_after:
  assumes M: "mid_inv this X (c, E)" and R: "reg_inv (e_reg E) S" and r: "S (c_fd c) = Some this"
  shows "\<exists>R' P1 P2. decrease_conn (e_reg E) (c_fd c) = Inr R' \<and> rb_clear (e_pool E) (c_ibuf c) = Inr (None, P1) \<and>
    rb_clear P1 (c_obuf c) = Inr (None, P2) \<and>
    closed_rel X S (c, E) (\<lparr>c_fd = -1, c_obuf = None, c_ibuf = None\<rparr>,
      E\<lparr>e_pool := P2, e_loop := del_io_event (e_loop E) (c_fd c), e_reg := R'\<rparr>)"
proof -
  from decrease_conn_spec[OF R r] obtain R' where
    R': "decrease_conn (e_reg E) (c_fd c) = Inr R'" "reg_inv R' (S(c_fd c := None))" "max_conns R' = max_conns (e_reg E)"
    by auto
  let ?Xo = "X \<union> set_option (c_obuf c)"
  have B: "bufs_ok (e_pool E) X c" using M by (simp add: mid_inv_def)
  from rb_clear_spec[OF bufs_ok_D(1)[OF B]] obtain P1 where
    P1: "rb_clear (e_pool E) (c_ibuf c) = Inr (None, P1)" "rb_inv P1 ?Xo None" "same_on ?Xo (e_pool E) P1" by auto
  have "bufs_ok P1 X (c\<lparr>c_ibuf := None\<rparr>)" by (rule bufs_ok_in[OF B P1(2)]) simp_all
  then have "rb_inv P1 X (c_obuf c)" by (simp add: bufs_ok_def)
  from rb_clear_spec[OF this] obtain P2 where
    P2: "rb_clear P1 (c_obuf c) = Inr (None, P2)" "rb_inv P2 X None" "same_on X P1 P2" by auto
  have l: "loop_inv (e_loop E)" "c_fd c \<in> dom (io_evs (e_loop E))" using M by (auto simp: mid_inv_def armed_def)
  show ?thesis
    using R' P1(1) P2 del_io_event_spec[OF l] same_on_trans[OF same_on_subset[OF P1(3)] P2(3)]
    by (auto simp: closed_rel_def frame_rel_def rb_inv_None)
qed

lemma clean_conn_spec:
  assumes cfg: "cfg_ok cfg" and M: "mid_inv this X s" and R: "reg_inv (e_reg (snd s)) S"
    and r: "S (c_fd (fst s)) = Some this"
  shows "clean_conn cfg this s = Inr s' \<Longrightarrow> closed_rel X S s s' \<and> e_app (snd s') = close_app cfg s"
    and "fits Bd (e_pool (snd s)) (c_obuf (fst s)) (length (concat (map reply_bytes (close_replies cfg s)))) \<Longrightarrow>
      \<exists>s'. clean_conn cfg this s = Inr s'"
proof -
  obtain c E where s: "s = (c, E)" by (cases s)
  let ?s1 = "(c, E\<lparr>e_app := close_app cfg s\<rparr>)"
  let ?sa = "send_all this ?s1 (close_replies cfg s)"
  have M1: "mid_inv this X ?s1" using M s by simp
  have ok: "\<forall>req \<in> set (close_replies cfg s). req_ok req"
    using cfg unfolding close_replies_def cfg_ok_def cb_ok_def by (cases "conn_close_cb cfg") auto
  have eq: "clean_conn cfg this s = res_bind ?sa (\<lambda>(c, E).
     res_bind (decrease_conn (e_reg E) (c_fd c)) (\<lambda>R.
     res_bind (rb_clear (e_pool E) (c_ibuf c)) (\<lambda>(qi, P1).
     res_bind (rb_clear P1 (c_obuf c)) (\<lambda>(qo, P2).
       Inr (\<lparr>c_fd = -1, c_obuf = qo, c_ibuf = qi\<rparr>,
            E\<lparr>e_pool := P2, e_loop := del_io_event (e_loop E) (c_fd c), e_reg := R\<rparr>)))))"
    using s by (simp add: clean_conn_def call_close Let_def)
  have fin: "\<exists>s'. clean_conn cfg this s = Inr s' \<and> closed_rel X S s s' \<and> e_app (snd s') = close_app cfg s"
    if "?sa = Inr (c2, E2)" for c2 E2
  proof -
    from send_all_spec[OF M1 ok that] have sr: "sent_rel this X (concat (map reply_bytes (close_replies cfg s))) ?s1 (c2, E2)" .
    have e: "mid_inv this X (c2, E2)" "e_reg E2 = e_reg E" "c_fd c2 = c_fd c" "e_app E2 = close_app cfg s"
      "frame_rel X (c_fd c) E E2"
      using sent_served(1)[OF sr] sr by (simp_all add: sent_rel_def served_rel_def)
    from clean_after[OF e(1), of S] R r s e obtain R' P1 P2 where
      "decrease_conn (e_reg E2) (c_fd c2) = Inr R'" "rb_clear (e_pool E2) (c_ibuf c2) = Inr (None, P1)"
      "rb_clear P1 (c_obuf c2) = Inr (None, P2)"
      "closed_rel X S (c2, E2) (\<lparr>c_fd = -1, c_obuf = None, c_ibuf = None\<rparr>,
        E2\<lparr>e_pool := P2, e_loop := del_io_event (e_loop E2) (c_fd c2), e_reg := R'\<rparr>)" by auto
    then show ?thesis
      using eq that e s frame_rel_trans[OF e(5)] by (auto simp: closed_rel_def)
  qed
  show "clean_conn cfg this s = Inr s' \<Longrightarrow> closed_rel X S s s' \<and> e_app (snd s') = close_app cfg s"
  proof -
    assume a: "clean_conn cfg this s = Inr s'"
    then obtain c2 E2 where "?sa = Inr (c2, E2)" using eq by (cases ?sa) auto
    from fin[OF this] a show ?thesis by auto
  qed
  assume "fits Bd (e_pool (snd s)) (c_obuf (fst s)) (length (concat (map reply_bytes (close_replies cfg s))))"
  then obtain t where "?sa = Inr t" using send_all_fits[OF M1 ok, of Bd 0] s by auto
  then show "\<exists>s'. clean_conn cfg this s = Inr s'" using fin by (cases t) blast
qed

section \<open>The event handlers\<close>

text \<open>\<open>do_read\<close> keeps the connection in order or closes it, whatever the socket delivers.\<close>

lemma read_in_spec:
  assumes M: "conn_inv this X (c, E)" and r: "read_data (e_pool E) (c_ibuf c) f rs = Inr (ret, q, P)"
  shows "\<exists>bs. served_rel this X (e_app E) (in_bytes (c, E) @ bs) [] (c, E) (c\<lparr>c_ibuf := q\<rparr>, E\<lparr>e_pool := P\<rparr>) \<and>
    int (length bs) = max ret 0 \<and> rb_front P q \<and> same_on (set_option (c_obuf c)) (e_pool E) P"
proof -
  let ?X = "X \<union> set_option (c_obuf c)"
  have B: "bufs_ok (e_pool E) X c" and F: "rb_front (e_pool E) (c_ibuf c)"
    using M by (auto simp: conn_inv_def mid_inv_def)
  note S = read_data_spec[OF bufs_ok_D(1)[OF B] F r]
  then have so: "same_on ?X (e_pool E) P" and I: "rb_inv P ?X q" and F': "rb_front P q" by blast+
  from S obtain bs where bs: "rb_bytes P q = rb_bytes (e_pool E) (c_ibuf c) @ bs" "int (length bs) = max ret 0"
    by (cases "0 < ret") (auto simp: max_def)
  have ob: "rb_bytes P (c_obuf c) = rb_bytes (e_pool E) (c_obuf c)"
    "rb_front P (c_obuf c) = rb_front (e_pool E) (c_obuf c)"
    using rb_bytes_same[OF _ so] rb_front_same[OF _ so] by auto
  have "bufs_ok P X (c\<lparr>c_ibuf := q\<rparr>)" by (rule bufs_ok_in[OF B I]) simp_all
  then have "mid_inv this X (c\<lparr>c_ibuf := q\<rparr>, E\<lparr>e_pool := P\<rparr>)"
    using M ob by (simp add: conn_inv_def mid_inv_def out_bytes_def)
  then show ?thesis
    using bs F' ob frame_rel_pool[OF same_on_subset[OF so]] same_on_subset[OF so]
    by (intro exI[of _ bs]) (auto simp: served_rel_def in_bytes_def out_bytes_def)
qed

lemma adjust_in_spec:
  assumes M: "mid_inv this X (c, E)"
  shows "\<exists>P. rb_adjust (e_pool E) (c_ibuf c) = Inr P \<and> conn_inv this X (c, E\<lparr>e_pool := P\<rparr>) \<and>
    served_rel this X (e_app E) (in_bytes (c, E)) [] (c, E) (c, E\<lparr>e_pool := P\<rparr>)"
proof -
  let ?X = "X \<union> set_option (c_obuf c)"
  have B: "bufs_ok (e_pool E) X c" using M by (simp add: mid_inv_def)
  from rb_adjust_spec[OF bufs_ok_D(1)[OF B]] obtain P where
    P: "rb_adjust (e_pool E) (c_ibuf c) = Inr P" "rb_inv P ?X (c_ibuf c)" "same_on ?X (e_pool E) P"
      "rb_bytes P (c_ibuf c) = rb_bytes (e_pool E) (c_ibuf c)" "rb_front P (c_ibuf c)" by auto
  have ob: "rb_bytes P (c_obuf c) = rb_bytes (e_pool E) (c_obuf c)"
    "rb_front P (c_obuf c) = rb_front (e_pool E) (c_obuf c)"
    using rb_bytes_same[OF _ P(3)] rb_front_same[OF _ P(3)] by auto
  have "bufs_ok P X c" by (rule bufs_ok_in[OF B P(2)]) simp_all
  then have "mid_inv this X (c, E\<lparr>e_pool := P\<rparr>)" using M ob by (simp add: mid_inv_def out_bytes_def)
  then show ?thesis
    using P ob frame_rel_pool[OF same_on_subset[OF P(3)]]
    by (intro exI[of _ P]) (auto simp: conn_inv_def served_rel_def in_bytes_def out_bytes_def)
qed

text \<open>Either the connection is open and in order, or it is closed.\<close>

definition handled :: "nat \<Rightarrow> nat set \<Rightarrow> (int \<rightharpoonup> nat) \<Rightarrow> tcp_conn \<times> 'a env \<Rightarrow> tcp_conn \<times> 'a env \<Rightarrow> bool" where
  "handled this X S s s' \<longleftrightarrow>
     conn_inv this X s' \<and> c_fd (fst s') = c_fd (fst s) \<and> e_reg (snd s') = e_reg (snd s) \<and>
       frame_rel X (c_fd (fst s)) (snd s) (snd s') \<or>
     closed_rel X S s s'"

lemma closed_after_served:
  assumes "served_rel this X a l out s s1" and "closed_rel X S s1 s'"
  shows "closed_rel X S s s'"
  using assms by (auto simp: served_rel_def closed_rel_def elim: frame_rel_trans)

lemma do_read_handled:
  assumes cfg: "cfg_ok cfg" and C: "conn_inv this X s" and R: "reg_inv (e_reg (snd s)) S"
    and r: "S (c_fd (fst s)) = Some this" and d: "do_read cfg this s io = Inr s'"
  shows "handled this X S s s'"
proof -
  obtain c E where s: "s = (c, E)" by (cases s)
  from d s obtain ret q P where rd: "read_data (e_pool E) (c_ibuf c) (fst io) (snd io) = Inr (ret, q, P)"
    by (auto simp: do_read_def Let_def res_bind_Inr_iff)
  let ?s1 = "(c\<lparr>c_ibuf := q\<rparr>, E\<lparr>e_pool := P\<rparr>)"
  from read_in_spec[OF C[unfolded s] rd] obtain bs where
    s1: "served_rel this X (e_app E) (in_bytes (c, E) @ bs) [] (c, E) ?s1" by auto
  have M1: "mid_inv this X ?s1" using s1 by (simp add: served_rel_def)
  have close: "closed_rel X S t s'" if "mid_inv this X t" "clean_conn cfg this t = Inr s'"
    "e_reg (snd t) = e_reg E" "c_fd (fst t) = c_fd c" for t
    using clean_conn_spec(1)[OF cfg that(1) _ _ that(2)] R r s that(3,4) by simp
  show ?thesis
  proof (cases "ret = -1 \<or> ret = 0")
    case True
    then have "clean_conn cfg this ?s1 = Inr s'" using d s rd by (auto simp: do_read_def Let_def)
    then show ?thesis using close[OF M1] closed_after_served[OF s1] s by (simp add: handled_def)
  next
    case False
    with d s rd obtain n c2 E2 P2 where "read_loop n cfg this ?s1 = Inr (c2, E2)"
      and "rb_adjust (e_pool E2) (c_ibuf c2) = Inr P2" "s' = (c2, E2\<lparr>e_pool := P2\<rparr>)"
      by (auto simp: do_read_def Let_def res_bind_Inr_iff simp del: read_loop.simps)
    then obtain s2 where rl: "read_loop n cfg this ?s1 = Inr s2"
      and ad: "res_bind (rb_adjust (e_pool (snd s2)) (c_ibuf (fst s2))) (\<lambda>P2. Inr (fst s2, (snd s2)\<lparr>e_pool := P2\<rparr>)) = Inr s'"
      using that by (metis fst_conv res_bind_simps(2) snd_conv)
    obtain ms rr bad where u: "unframe next_frame (in_bytes ?s1) = (ms, rr, bad)" by (metis prod_cases3)
    from read_loop_spec[OF cfg M1 rl u] obtain s3 where
      s3: "served_rel this X (fst (serve cfg (c_fd (fst ?s1)) (e_app (snd ?s1)) ms)) rr
        (replies cfg (c_fd (fst ?s1)) (e_app (snd ?s1)) ms) ?s1 s3"
      and e: "if bad then clean_conn cfg this s3 = Inr s2 else s2 = s3" by blast
    note s13 = served_rel_trans[OF s1 s3]
    show ?thesis
    proof (cases bad)
      case True
      then have cl: "closed_rel X S s3 s2"
        using e clean_conn_spec(1)[OF cfg, of this X s3 S s2] s13 R r s by (simp add: served_rel_def)
      then have "s' = s2" using ad by (cases s2) (auto simp: closed_rel_def rb_adjust_def)
      then show ?thesis using closed_after_served[OF s13 cl] s by (simp add: handled_def)
    next
      case False
      then have "s2 = s3" using e by simp
      then have "mid_inv this X (fst s2, snd s2)" using s13 by (simp add: served_rel_def)
      from adjust_in_spec[OF this] ad obtain P2 where
        "s' = (fst s2, (snd s2)\<lparr>e_pool := P2\<rparr>)" "conn_inv this X s'"
        and s3': "served_rel this X (e_app (snd s2)) (in_bytes s2) [] s3 s'"
        using \<open>s2 = s3\<close> by auto
      then show ?thesis
        using served_rel_trans[OF s13 s3'] s by (simp add: handled_def served_rel_def)
    qed
  qed
qed

lemma move_buf_mem: "move_buf P1 nq p = Inr P2 \<Longrightarrow> total_mem P2 = total_mem P1"
  by (auto simp: move_buf_def res_bind_Inr_iff write_buf_def dest: revert_mem)

lemma read_reserve_mem:
  assumes r: "read_reserve P q n = Inr (ok, q', P')"
  shows "total_mem P' \<le> total_mem P + 8192"
proof (cases q)
  case None
  then obtain a where "alloc_buf P (int n) = Inr (a, P')"
    using r by (auto simp: read_reserve_def res_bind_Inr_iff)
  then show ?thesis by (rule alloc_buf_mem)
next
  case (Some p)
  then obtain b where b: "heap P p = Some b" using r by (auto simp: read_reserve_def res_bind_Inr_iff deref_Inr_iff)
  show ?thesis
  proof (cases "b_capacity b - b_length b < int n")
    case False
    then show ?thesis using r Some b by (auto simp: read_reserve_def res_bind_Inr_iff)
  next
    case True
    then obtain a P1 where a: "alloc_buf P (int n + b_length b) = Inr (a, P1)"
      and c: "(case a of None \<Rightarrow> Inr (False, Some p, P1)
        | Some nq \<Rightarrow> res_bind (move_buf P1 nq p) (\<lambda>P2. Inr (True, Some nq, P2))) = Inr (ok, q', P')"
      using r Some b by (auto simp: read_reserve_def res_bind_Inr_iff)
    have "total_mem P' = total_mem P1" using c by (cases a) (auto simp: res_bind_Inr_iff dest: move_buf_mem)
    then show ?thesis using alloc_buf_mem[OF a] by simp
  qed
qed

lemma read_data_mem:
  assumes r: "read_data P q f rs = Inr (ret, q', P')"
  shows "total_mem P' \<le> total_mem P + 8192"
proof (cases f)
  case None
  then show ?thesis using r by (simp add: read_data_def)
next
  case (Some need)
  with r obtain ok q1 P1 where v: "read_reserve P q need = Inr (ok, q1, P1)"
    by (auto simp: read_data_def res_bind_Inr_iff)
  have "total_mem P' = total_mem P1"
  proof (cases "ok \<and> q1 \<noteq> None")
    case False
    then show ?thesis using r v Some by (cases ok) (auto simp: read_data_def)
  next
    case True
    then obtain p rr where "q1 = Some p" "read_retry (if need = 0 then 4096 else need) rs = Inr rr"
      using r v Some by (auto simp: read_data_def res_bind_Inr_iff)
    then show ?thesis
      using r v Some True by (cases rr) (auto simp: read_data_def res_bind_Inr_iff write_buf_def)
  qed
  then show ?thesis using read_reserve_mem[OF v] by simp
qed

lemma fits_after_read:
  assumes "fits Bd P q k" and "Bd + 8192 < EXTRA_MEM_LIMIT" and "same_on (set_option q) P P'"
    and "total_mem P' \<le> total_mem P + 8192"
  shows "fits (Bd + 8192) P' q k"
  using assms by (cases q) (auto simp: fits_def same_on_def)

lemma rb_adjust_fits:
  assumes "mid_inv this X (c, E)" and "rb_adjust (e_pool E) (c_ibuf c) = Inr P"
  shows "fits Bd P (c_obuf c) k = fits Bd (e_pool E) (c_obuf c) k"
proof (rule fits_same)
  have "rb_inv (e_pool E) (X \<union> set_option (c_obuf c)) (c_ibuf c)"
    using assms(1) by (simp add: mid_inv_def bufs_ok_def)
  from rb_adjust_spec[OF this] assms(2) show "same_on (set_option (c_obuf c)) (e_pool E) P"
    by (auto elim: same_on_subset)
  show "total_mem P = total_mem (e_pool E)"
    using assms(2) by (auto simp: rb_adjust_def res_bind_Inr_iff write_buf_def split: option.splits)
qed

text \<open>The successful read, with its effect on the memory budget.\<close>

lemma do_read_total:
  assumes cfg: "cfg_ok cfg" and C: "conn_inv this X s" and need: "0 < need" "need \<le> length bs"
    and cap: "int need + int (length (in_bytes s)) \<le> cap_of m8M"
    and u: "unframe next_frame (in_bytes s @ take need bs) = (ms, r, False)" and pr: "proper ms r"
    and f: "fits Bd (e_pool (snd s)) (c_obuf (fst s)) (length (replies cfg (c_fd (fst s)) (e_app (snd s)) ms) + k)"
    and Bd: "Bd + 8192 < EXTRA_MEM_LIMIT"
  shows "\<exists>s'. do_read cfg this s (Some need, replicate j (Rd_err EINTR) @ Rd bs # rest) = Inr s' \<and>
    conn_inv this X s' \<and>
    served_rel this X (fst (serve cfg (c_fd (fst s)) (e_app (snd s)) ms)) r
      (replies cfg (c_fd (fst s)) (e_app (snd s)) ms) s s' \<and>
    fits (Bd + 8192) (e_pool (snd s')) (c_obuf (fst s')) k"
proof -
  obtain c E where s: "s = (c, E)" by (cases s)
  let ?io = "replicate j (Rd_err EINTR) @ Rd bs # rest"
  have I: "rb_inv (e_pool E) (X \<union> set_option (c_obuf c)) (c_ibuf c)" and F: "rb_front (e_pool E) (c_ibuf c)"
    using C s by (auto simp: conn_inv_def mid_inv_def bufs_ok_def)
  have "total_mem (e_pool E) \<le> Bd" using f s by (cases "c_obuf c") (auto simp: fits_def)
  then have tm: "total_mem (e_pool E) + 8192 < EXTRA_MEM_LIMIT" using Bd by simp
  from read_data_appended[OF I F need(1) _ tm need(2), of j rest] cap s obtain q P where
    rd: "read_data (e_pool E) (c_ibuf c) (Some need) ?io = Inr (int need, q, P)"
    and qb: "rb_bytes P q = in_bytes s @ take need bs" by (auto simp: in_bytes_def)
  let ?s1 = "(c\<lparr>c_ibuf := q\<rparr>, E\<lparr>e_pool := P\<rparr>)"
  from read_in_spec[OF C[unfolded s] rd] have
    s1: "served_rel this X (e_app E) (in_bytes ?s1) [] (c, E) ?s1"
    and so: "same_on (set_option (c_obuf c)) (e_pool E) P"
    by (auto simp: served_rel_def)
  have M1: "mid_inv this X ?s1" and ib: "in_bytes ?s1 = in_bytes s @ take need bs"
    using s1 qb by (simp_all add: served_rel_def in_bytes_def)
  have f1: "fits (Bd + 8192) P (c_obuf c) (length (replies cfg (c_fd c) (e_app E) ms) + k)"
    using fits_after_read[OF _ Bd so read_data_mem[OF rd]] f s by simp
  have l: "rb_length P q = Inr (int (length (in_bytes ?s1)))"
    using M1 rb_inv_length[of P "X \<union> set_option (c_obuf c)" q] by (simp add: mid_inv_def bufs_ok_def in_bytes_def)
  from read_loop_total[OF cfg M1 _ pr, of False "Bd + 8192" k "Suc (length (in_bytes ?s1))"] u ib f1 obtain s2 where
    s2: "served_rel this X (fst (serve cfg (c_fd c) (e_app E) ms)) r (replies cfg (c_fd c) (e_app E) ms) ?s1 s2"
    and rl: "read_loop (Suc (length (in_bytes ?s1))) cfg this ?s1 = Inr s2"
    and f2: "fits (Bd + 8192) (e_pool (snd s2)) (c_obuf (fst s2)) k"
    by (auto simp del: read_loop.simps)
  obtain c2 E2 where s2e: "s2 = (c2, E2)" by (cases s2)
  have M2: "mid_inv this X (c2, E2)" using s2 s2e by (simp add: served_rel_def)
  from adjust_in_spec[OF M2] obtain P2 where
    ad: "rb_adjust (e_pool E2) (c_ibuf c2) = Inr P2" "conn_inv this X (c2, E2\<lparr>e_pool := P2\<rparr>)"
      "served_rel this X (e_app E2) (in_bytes (c2, E2)) [] (c2, E2) (c2, E2\<lparr>e_pool := P2\<rparr>)" by auto
  have eq: "do_read cfg this s (Some need, ?io) = Inr (c2, E2\<lparr>e_pool := P2\<rparr>)"
    using s rd need(1) l rl s2e ad(1) by (simp add: do_read_def Let_def del: read_loop.simps)
  have "served_rel this X (fst (serve cfg (c_fd c) (e_app E) ms)) r (replies cfg (c_fd c) (e_app E) ms) (c, E) (c2, E2\<lparr>e_pool := P2\<rparr>)"
    using served_rel_trans[OF s1 served_rel_trans[OF s2[unfolded s2e] ad(3)]] s2 s2e by (simp add: served_rel_def)
  moreover have "fits (Bd + 8192) P2 (c_obuf c2) k"
    using f2 s2e rb_adjust_fits[OF M2 ad(1)] by simp
  ultimately show ?thesis using eq ad(2) s by auto
qed

text \<open>One read event per chunk of the stream, the way the kernel delivers it.\<close>

definition read_chunks ::
  "('a, 'u) server_cfg \<Rightarrow> nat \<Rightarrow> tcp_conn \<times> 'a env \<Rightarrow> byte list list \<Rightarrow> (tcp_conn \<times> 'a env) res" where
  "read_chunks cfg this = run (\<lambda>s chunk. do_read cfg this s (Some (length chunk), [Rd chunk]))"

lemma read_chunks_total:
  assumes "cfg_ok cfg" and "conn_inv this X s" and "\<forall>ch \<in> set chunks. ch \<noteq> []"
    and "int (length (in_bytes s @ concat chunks)) \<le> cap_of m8M"
    and "unframe next_frame (in_bytes s @ concat chunks) = (ms, r, False)" and "\<forall>m \<in> set ms. snd m \<noteq> []"
    and "fits Bd (e_pool (snd s)) (c_obuf (fst s)) (length (replies cfg (c_fd (fst s)) (e_app (snd s)) ms))"
    and "Bd + 8192 * length chunks < EXTRA_MEM_LIMIT" and "unframe next_frame (in_bytes s) = ([], in_bytes s, False)"
  shows "\<exists>s'. read_chunks cfg this s chunks = Inr s' \<and> conn_inv this X s' \<and>
    served_rel this X (fst (serve cfg (c_fd (fst s)) (e_app (snd s)) ms)) r
      (replies cfg (c_fd (fst s)) (e_app (snd s)) ms) s s'"
  using assms
proof (induction chunks arbitrary: s ms Bd)
  case Nil
  then have "ms = []" "r = in_bytes s" by auto
  then show ?case
    using Nil served_rel_refl[of this X s] by (auto simp: read_chunks_def replies_def conn_inv_def)
next
  case (Cons ch chunks)
  let ?fd = "c_fd (fst s)" and ?a = "e_app (snd s)"
  obtain ms1 r1 bad1 where u1: "unframe next_frame (in_bytes s @ ch) = (ms1, r1, bad1)" by (metis prod_cases3)
  obtain ms2 r2 bad2 where u2: "unframe next_frame (r1 @ concat chunks) = (ms2, r2, bad2)" by (metis prod_cases3)
  have all: "unframe next_frame ((in_bytes s @ ch) @ concat chunks) = (ms, r, False)" using Cons.prems(5) by simp
  then have b1: "bad1 = False" and ms: "ms = ms1 @ ms2" "r2 = r" "bad2 = False"
    using u2 all unfolding fr.unframe_append[of "in_bytes s @ ch" "concat chunks"] u1
    by (auto split: if_splits)
  have rp: "replies cfg ?fd ?a ms = replies cfg ?fd ?a ms1 @ replies cfg ?fd (fst (serve cfg ?fd ?a ms1)) ms2"
    and sv: "fst (serve cfg ?fd ?a ms) = fst (serve cfg ?fd (fst (serve cfg ?fd ?a ms1)) ms2)"
    by (auto simp: ms(1) replies_def serve_append split: prod.splits)
  have pr: "proper ms1 r1" using Cons.prems(6) ms(1) by (auto simp: proper_def)
  have len: "int (length ch) + int (length (in_bytes s)) \<le> cap_of m8M" using Cons.prems(4) by simp
  from do_read_total[OF Cons.prems(1,2) _ order_refl len _ pr, of Bd "length (replies cfg ?fd (fst (serve cfg ?fd ?a ms1)) ms2)" 0 "[]"]
    u1 b1 Cons.prems(3,7,8) rp obtain s1 where
    s1: "do_read cfg this s (Some (length ch), [Rd ch]) = Inr s1" "conn_inv this X s1"
      "served_rel this X (fst (serve cfg ?fd ?a ms1)) r1 (replies cfg ?fd ?a ms1) s s1"
      "fits (Bd + 8192) (e_pool (snd s1)) (c_obuf (fst s1)) (length (replies cfg ?fd (fst (serve cfg ?fd ?a ms1)) ms2))"
    by auto
  have e: "in_bytes s1 = r1" "c_fd (fst s1) = ?fd" "e_app (snd s1) = fst (serve cfg ?fd ?a ms1)"
    using s1(3) by (simp_all add: served_rel_def)
  have lr: "length r1 \<le> length (in_bytes s @ ch)"
    using fr.unframe_length[OF u1] .
  from Cons.IH[OF Cons.prems(1) s1(2), of ms2 "Bd + 8192"] e u2 ms Cons.prems(3,4,6,8) s1(4) lr
    fr.unframe_rest[OF u1] b1
  obtain s' where "read_chunks cfg this s1 chunks = Inr s'" "conn_inv this X s'"
    "served_rel this X (fst (serve cfg ?fd (fst (serve cfg ?fd ?a ms1)) ms2)) r
      (replies cfg ?fd (fst (serve cfg ?fd ?a ms1)) ms2) s1 s'" by auto
  then show ?case
    using s1(1) served_rel_trans[OF s1(3)] rp sv by (auto simp: read_chunks_def)
qed

section \<open>Writing\<close>

text \<open>
  While the output drains the loop entry stays as it was: write interest may outlive the last
  byte until \<open>do_write\<close> ends.
\<close>

definition drained_rel ::
  "nat set \<Rightarrow> byte list \<Rightarrow> tcp_conn \<times> 'a env \<Rightarrow> tcp_conn \<times> 'a env \<Rightarrow> bool" where
  "drained_rel X sent s s' \<longleftrightarrow> fst s' = fst s \<and> (\<exists>P. snd s' = (snd s)\<lparr>e_pool := P\<rparr>) \<and>
     bufs_ok (e_pool (snd s')) X (fst s) \<and> rb_front (e_pool (snd s')) (c_obuf (fst s)) \<and>
     out_bytes s = sent @ out_bytes s' \<and>
     same_on (X \<union> set_option (c_ibuf (fst s))) (e_pool (snd s)) (e_pool (snd s'))"

lemma drained_rel_refl:
  "bufs_ok (e_pool (snd s)) X (fst s) \<Longrightarrow> rb_front (e_pool (snd s)) (c_obuf (fst s)) \<Longrightarrow> drained_rel X [] s s"
  by (cases s) (auto simp: drained_rel_def intro: exI[of _ "e_pool (snd s)"])

lemma drained_rel_trans:
  "drained_rel X o1 s s' \<Longrightarrow> drained_rel X o2 s' s'' \<Longrightarrow> drained_rel X (o1 @ o2) s s''"
  by (auto simp: drained_rel_def elim: same_on_trans)

lemma write_step:
  assumes B: "bufs_ok (e_pool E) X c" and F: "rb_front (e_pool E) (c_obuf c)" and ne: "out_bytes (c, E) \<noteq> []"
    and w: "write2fd (e_pool E) (c_obuf c) ws = Inr (ret, sent, ws', P)"
  shows "drained_rel X sent (c, E) (c, E\<lparr>e_pool := P\<rparr>) \<and>
    (if 0 < ret then sent \<noteq> [] else sent = [] \<and> (ret = 0 \<or> ret = -1))"
proof -
  obtain p where p: "c_obuf c = Some p" using ne by (cases "c_obuf c") (auto simp: out_bytes_def)
  let ?X = "X \<union> set_option (c_ibuf c)"
  have I: "rb_inv (e_pool E) ?X (Some p)" using B p by (simp add: bufs_ok_def)
  note S = write2fd_spec[OF I _ w[unfolded p]]
  then have S': "rb_inv P ?X (Some p)" "same_on ?X (e_pool E) P" "rb_front P (Some p)"
      "rb_bytes (e_pool E) (Some p) = sent @ rb_bytes P (Some p)"
      "if 0 < ret then int (length sent) = ret else sent = [] \<and> (ret = 0 \<or> ret = -1)"
    using F p by auto
  have "bufs_ok P X c" by (rule bufs_ok_out[OF B S'(1)]) (simp_all add: p)
  with S' p show ?thesis by (auto simp: drained_rel_def out_bytes_def)
qed

lemma write_loop_spec:
  assumes "bufs_ok (e_pool (snd s)) X (fst s)" and "rb_front (e_pool (snd s)) (c_obuf (fst s))"
    and "write_loop n cfg this s ws = Inr (closed, sent, s')"
  shows "\<exists>s1. drained_rel X sent s s1 \<and>
    (if closed then out_bytes s1 \<noteq> [] \<and> clean_conn cfg this s1 = Inr s' else s' = s1)"
  using assms
proof (induction n arbitrary: s ws sent)
  case 0
  then show ?case by simp
next
  case (Suc n)
  obtain c E where s: "s = (c, E)" by (cases s)
  have I: "rb_inv (e_pool E) (X \<union> set_option (c_ibuf c)) (c_obuf c)" using Suc.prems(1) s by (simp add: bufs_ok_def)
  have l: "rb_length (e_pool E) (c_obuf c) = Inr (int (length (out_bytes s)))"
    using rb_inv_length[OF I] s by (simp add: out_bytes_def)
  show ?case
  proof (cases "out_bytes s = []")
    case True
    then have "closed = False" "sent = []" "s' = s" using Suc.prems(3) l s by auto
    then show ?thesis using drained_rel_refl[OF Suc.prems(1,2)] by (intro exI[of _ s]) simp
  next
    case False
    with Suc.prems(3) l s obtain ret o1 ws' P where
      w: "write2fd (e_pool E) (c_obuf c) ws = Inr (ret, o1, ws', P)" by (auto simp: res_bind_Inr_iff)
    let ?s1 = "(c, E\<lparr>e_pool := P\<rparr>)"
    have d: "drained_rel X o1 s ?s1" and z: "if 0 < ret then o1 \<noteq> [] else o1 = [] \<and> (ret = 0 \<or> ret = -1)"
      using write_step[OF _ _ _ w, of X] Suc.prems(1,2) False s by auto
    consider (err) "ret = -1" | (stop) "ret = 0" | (more) "0 < ret" using z by (auto split: if_splits)
    then show ?thesis
    proof cases
      case err
      then have "closed" "sent = o1" "clean_conn cfg this ?s1 = Inr s'"
        using Suc.prems(3) l s w False by (auto simp: res_bind_Inr_iff Let_def)
      moreover have "out_bytes ?s1 \<noteq> []" using d z err False by (auto simp: drained_rel_def)
      ultimately show ?thesis using d by (intro exI[of _ ?s1]) simp
    next
      case stop
      then have "\<not> closed" "sent = o1" "s' = ?s1" using Suc.prems(3) l s w False by (auto simp: Let_def)
      then show ?thesis using d by (intro exI[of _ ?s1]) simp
    next
      case more
      then obtain o2 where wl: "write_loop n cfg this ?s1 ws' = Inr (closed, o2, s')" and so: "sent = o1 @ o2"
        using Suc.prems(3) l s w False by (auto simp: res_bind_Inr_iff Let_def)
      have "bufs_ok (e_pool (snd ?s1)) X (fst ?s1)" "rb_front (e_pool (snd ?s1)) (c_obuf (fst ?s1))"
        using d s by (auto simp: drained_rel_def)
      from Suc.IH[OF this wl] obtain s2 where "drained_rel X o2 ?s1 s2"
        "if closed then out_bytes s2 \<noteq> [] \<and> clean_conn cfg this s2 = Inr s' else s' = s2" by blast
      then show ?thesis using drained_rel_trans[OF d] so by blast
    qed
  qed
qed

text \<open>After \<open>do_write\<close>: what was sent is a prefix of what was queued, and the connection is in order or closed.\<close>

lemma drained_conn:
  assumes C: "conn_inv this X s" and d: "drained_rel X sent s s1"
  shows "out_bytes s1 \<noteq> [] \<Longrightarrow> conn_inv this X s1"
    and "out_bytes s1 = [] \<Longrightarrow>
      conn_inv this X (fst s1, (snd s1)\<lparr>e_loop := del_io_event_mask (e_loop (snd s1)) (c_fd (fst s1)) EPOLLOUT\<rparr>)"
    and "frame_rel X (c_fd (fst s)) (snd s) (snd s1)"
proof -
  obtain c E where s: "s = (c, E)" by (cases s)
  from d s obtain P where s1: "s1 = (c, E\<lparr>e_pool := P\<rparr>)" by (cases s1) (auto simp: drained_rel_def)
  have A: "armed (e_loop E) this (c_fd c) (out_bytes s \<noteq> [])" using C s by (simp add: conn_inv_def mid_inv_def)
  have so: "same_on (X \<union> set_option (c_ibuf c)) (e_pool E) P" and B: "bufs_ok P X c" "rb_front P (c_obuf c)"
    using d s s1 by (auto simp: drained_rel_def)
  have F: "rb_front P (c_ibuf c)" using C s rb_front_same[OF _ so] by (auto simp: conn_inv_def)
  show "frame_rel X (c_fd (fst s)) (snd s) (snd s1)"
    using s s1 frame_rel_pool[OF same_on_subset[OF so]] by simp
  show "conn_inv this X s1" if "out_bytes s1 \<noteq> []"
  proof -
    have "out_bytes s \<noteq> []" using that d by (auto simp: drained_rel_def)
    then show ?thesis using that A B F s1 by (simp add: conn_inv_def mid_inv_def)
  qed
  show "conn_inv this X (fst s1, (snd s1)\<lparr>e_loop := del_io_event_mask (e_loop (snd s1)) (c_fd (fst s1)) EPOLLOUT\<rparr>)"
    if "out_bytes s1 = []"
    using that armed_quiet[OF A] B F s1 by (simp add: conn_inv_def mid_inv_def out_bytes_def)
qed

lemma do_write_handled:
  assumes cfg: "cfg_ok cfg" and C: "conn_inv this X s" and R: "reg_inv (e_reg (snd s)) S"
    and r: "S (c_fd (fst s)) = Some this" and d: "do_write cfg this s ws = Inr (sent, s')"
  shows "handled this X S s s' \<and> (\<exists>rest. out_bytes s = sent @ rest \<and>
    (closed_rel X S s s' \<or> out_bytes s' = rest))"
proof -
  have B: "bufs_ok (e_pool (snd s)) X (fst s)" "rb_front (e_pool (snd s)) (c_obuf (fst s))"
    using C by (simp_all add: conn_inv_def mid_inv_def)
  from d obtain n closed c2 E2 where wl: "write_loop n cfg this s ws = Inr (closed, sent, c2, E2)"
    and fin: "if closed then s' = (c2, E2) else res_bind (rb_length (e_pool E2) (c_obuf c2)) (\<lambda>len.
         Inr (sent, c2, if len = 0 then E2\<lparr>e_loop := del_io_event_mask (e_loop E2) (c_fd c2) EPOLLOUT\<rparr> else E2)) = Inr (sent, s')"
    by (auto simp: do_write_def res_bind_Inr_iff simp del: write_loop.simps split: if_splits)
  from write_loop_spec[OF B wl] obtain s1 where dr: "drained_rel X sent s s1"
    and e: "if closed then out_bytes s1 \<noteq> [] \<and> clean_conn cfg this s1 = Inr (c2, E2) else (c2, E2) = s1" by blast
  note D = drained_conn[OF C dr]
  have eq: "e_reg (snd s1) = e_reg (snd s)" "fst s1 = fst s" "out_bytes s = sent @ out_bytes s1"
    using dr by (auto simp: drained_rel_def)
  show ?thesis
  proof (cases closed)
    case True
    then have "closed_rel X S s1 s'"
      using e fin clean_conn_spec(1)[OF cfg, of this X s1 S s'] D(1) R r eq by (simp add: conn_inv_def)
    then have "closed_rel X S s s'" using D(3) eq by (auto simp: closed_rel_def elim: frame_rel_trans)
    then show ?thesis using eq by (auto simp: handled_def)
  next
    case False
    have I: "rb_inv (e_pool (snd s1)) (X \<union> set_option (c_ibuf (fst s1))) (c_obuf (fst s1))"
      using dr by (simp add: drained_rel_def bufs_ok_def)
    have s': "s' = (if out_bytes s1 = [] then (fst s1, (snd s1)\<lparr>e_loop := del_io_event_mask (e_loop (snd s1)) (c_fd (fst s1)) EPOLLOUT\<rparr>) else s1)"
      using fin e False rb_inv_length[OF I] by (cases s1) (auto simp: out_bytes_def)
    have fr: "frame_rel X (c_fd (fst s)) (snd s) (snd s')"
      using D(3) s' eq del_io_event_mask_spec[of "e_loop (snd s1)" EPOLLOUT "c_fd (fst s1)"] C dr
      by (auto simp: frame_rel_def rw_mask_def conn_inv_def mid_inv_def armed_def drained_rel_def)
    show ?thesis
    proof (cases "out_bytes s1 = []")
      case True
      then show ?thesis using s' D(2) eq fr by (auto simp: handled_def out_bytes_def)
    next
      case False
      then show ?thesis using s' D(1) eq fr by (auto simp: handled_def)
    qed
  qed
qed

section \<open>Opening\<close>

lemma armed_new:
  assumes "loop_inv l" and "io_evs l connfd = None"
  shows "armed (add_io_event l connfd conn_rd_callback EPOLLIN (Some this)) this connfd False"
  using add_io_event_spec[OF assms(1), of EPOLLIN connfd conn_rd_callback "Some this"] assms(2)
  by (auto simp: armed_def rw_mask_def registered_def io_event_new_def Let_def bit_epoll)

lemma conn_start:
  assumes "pool_inv (e_pool E) X" and "loop_inv (e_loop E)" and "io_evs (e_loop E) connfd = None"
  shows "mid_inv this X (\<lparr>c_fd = connfd, c_obuf = None, c_ibuf = None\<rparr>,
    E\<lparr>e_loop := add_io_event (e_loop E) connfd conn_rd_callback EPOLLIN (Some this), e_app := a\<rparr>)"
  using assms armed_new[OF assms(2,3)]
  by (simp add: mid_inv_def bufs_ok_def rb_inv_None out_bytes_def)

lemma tcp_conn_new_spec:
  assumes cfg: "cfg_ok cfg" and P: "pool_inv (e_pool E) X" and L: "loop_inv (e_loop E)"
    and n: "io_evs (e_loop E) connfd = None" and R: "reg_inv (e_reg E) S"
    and r: "S connfd = None" and t: "tcp_conn_new cfg this connfd E = Inr s'"
  shows "conn_inv this X s' \<and> c_fd (fst s') = connfd \<and> in_bytes s' = [] \<and>
    reg_inv (e_reg (snd s')) (S(connfd \<mapsto> this)) \<and> max_conns (e_reg (snd s')) = max_conns (e_reg E) \<and>
    frame_rel X connfd E (snd s')"
proof -
  let ?l = "add_io_event (e_loop E) connfd conn_rd_callback EPOLLIN (Some this)"
  let ?c = "\<lparr>c_fd = connfd, c_obuf = None, c_ibuf = None\<rparr>"
  obtain a reqs where ar: "\<forall>req \<in> set reqs. req_ok req"
    "call_conn_cb (conn_start_cb cfg) this (?c, E\<lparr>e_loop := ?l\<rparr>) = send_all this (?c, E\<lparr>e_loop := ?l, e_app := a\<rparr>) reqs"
  proof (cases "conn_start_cb cfg")
    case None
    then show thesis using that[of "[]" "e_app E"] by (simp add: call_conn_cb_def send_all_def)
  next
    case (Some f)
    obtain a reqs where fa: "f (e_app E) connfd = (a, reqs)" by fastforce
    have "\<forall>req \<in> set reqs. req_ok req"
      using cfg Some fa unfolding cfg_ok_def cb_ok_def by (metis snd_conv)
    then show thesis using that[of reqs a] Some fa by (simp add: call_conn_cb_def)
  qed
  note M = conn_start[OF P L n, of this a]
  from t ar(2) obtain c2 E2 R' where sa: "send_all this (?c, E\<lparr>e_loop := ?l, e_app := a\<rparr>) reqs = Inr (c2, E2)"
    and R': "increase_conn (e_reg E2) connfd this = Inr R'" "s' = (c2, E2\<lparr>e_reg := R'\<rparr>)"
    by (auto simp: tcp_conn_new_def Let_def res_bind_Inr_iff)
  have s: "sent_rel this X (concat (map reply_bytes reqs)) (?c, E\<lparr>e_loop := ?l, e_app := a\<rparr>) (c2, E2)"
    by (rule send_all_spec[OF M ar(1) sa])
  then have e: "mid_inv this X (c2, E2)" "c_fd c2 = connfd" "c_ibuf c2 = None" "e_reg E2 = e_reg E"
    and f: "frame_rel X connfd (E\<lparr>e_loop := ?l, e_app := a\<rparr>) E2"
    by (auto simp: sent_rel_def)
  have "frame_rel X connfd E (E\<lparr>e_loop := ?l, e_app := a\<rparr>)"
    using add_io_event_spec[OF L, of EPOLLIN] by (simp add: frame_rel_def rw_mask_def)
  from frame_rel_trans[OF this f] have "frame_rel X connfd E E2" .
  moreover have "in_range (e_reg E) connfd" using R'(1) e(4) increase_conn_out_of_range by fastforce
  moreover from increase_conn_spec[OF R calculation(2) r, of this] R' e(4) have
    "reg_inv R' (S(connfd \<mapsto> this))" "max_conns R' = max_conns (e_reg E)" by auto
  ultimately show ?thesis
    using e R'(2) by (auto simp: conn_inv_def mid_inv_def out_bytes_def in_bytes_def frame_rel_def)
qed

text \<open>An echo server, to instantiate the theorems with.\<close>

definition echo_cfg :: "(unit, unit) server_cfg" where
  "echo_cfg = \<lparr>s_router = snd (register_msg_router router_new 1 callback_busi ()),
     conn_start_cb = None, conn_close_cb = None\<rparr>"

definition env_new :: "int \<Rightarrow> 'a \<Rightarrow> 'a env" where
  "env_new mx a = \<lparr>e_pool = buf_pool_new (\<lambda>_ _. 0), e_loop = event_loop_new (\<lambda>_. True),
     e_reg = registry_new (\<lambda>_. None) mx, e_app = a\<rparr>"

lemma sint_small:
  assumes "uint (w :: u32) \<le> 65527"
  shows "sint w = uint w"
proof -
  have "in_int (uint w)" using assms by (simp add: in_int_def order_trans[OF _ uint_ge_0[of w]])
  then have "sint (word_of_int (uint w) :: u32) = uint w" by (rule sint_word_of_int_32)
  then show ?thesis by simp
qed

lemma router_call_echo: "router_call (s_router echo_cfg) i = (if i = 1 then Some (callback_busi, Some ()) else None)"
  by (simp add: echo_cfg_def router_call_register)

lemma cfg_ok_echo: "cfg_ok echo_cfg"
proof -
  have "req_ok req" if "body_ok data len 1" "req \<in> set (snd (callback_busi () connfd data len 1 u))"
    for connfd :: int and data len req and u :: "unit option"
    using that sint_small[of len]
    by (auto simp: callback_busi_def body_ok_def req_ok_def message_limits split: option.splits)
  then show ?thesis
    by (auto simp: cfg_ok_def cb_ok_def router_call_echo callback_busi_def split: if_splits)
      (simp_all add: echo_cfg_def)
qed

text \<open>A fresh connection on descriptor 5 whose start callback sends nothing.\<close>

lemma fresh_conn:
  assumes "cfg_ok cfg" and "case conn_start_cb cfg of None \<Rightarrow> a' = a | Some f \<Rightarrow> f a 5 = (a', [])"
  shows "\<exists>s. tcp_conn_new cfg 7 5 (env_new 10 a) = Inr s \<and> conn_inv 7 {} s \<and> in_bytes s = [] \<and>
     out_bytes s = [] \<and> c_fd (fst s) = 5 \<and> c_obuf (fst s) = None \<and> e_app (snd s) = a' \<and>
     fits 400000 (e_pool (snd s)) None 4096 \<and> reg_inv (e_reg (snd s)) [5 \<mapsto> 7]"
proof -
  let ?E = "env_new 10 a"
  have R: "reg_inv (e_reg ?E) Map.empty" unfolding env_new_def by (simp add: reg_inv_new)
  have r: "in_range (e_reg ?E) 5" by (simp add: env_new_def in_range_def registry_new_def)
  from increase_conn_spec[OF R r, of 7] obtain R' where R': "increase_conn (e_reg ?E) 5 7 = Inr R'" by auto
  let ?s = "(\<lparr>c_fd = 5, c_obuf = None, c_ibuf = None\<rparr>,
    ?E\<lparr>e_loop := add_io_event (e_loop ?E) 5 conn_rd_callback EPOLLIN (Some 7), e_reg := R', e_app := a'\<rparr>)"
  have e: "e_app ?E = a" by (simp add: env_new_def)
  have t: "tcp_conn_new cfg 7 5 ?E = Inr ?s"
    using R' assms(2) e by (cases "conn_start_cb cfg") (auto simp: tcp_conn_new_def Let_def call_conn_cb_def send_all_def)
  have P: "pool_inv (e_pool ?E) {}" by (simp add: env_new_def buf_pool_new_inv)
  have L: "loop_inv (e_loop ?E)" "io_evs (e_loop ?E) 5 = None"
    by (simp_all add: env_new_def loop_inv_new) (simp add: event_loop_new_def)
  have "fits 400000 (e_pool (snd ?s)) None 4096"
    by (simp add: fits_def env_new_def EXTRA_MEM_LIMIT_def)
  with tcp_conn_new_spec[OF assms(1) P L R _ t] t show ?thesis
    by (intro exI[of _ ?s]) (simp add: out_bytes_def)
qed

lemma echo_conn:
  "\<exists>s. tcp_conn_new echo_cfg 7 5 (env_new 10 ()) = Inr s \<and> conn_inv 7 {} s \<and> in_bytes s = [] \<and>
     out_bytes s = [] \<and> c_fd (fst s) = 5 \<and> c_obuf (fst s) = None \<and>
     fits 400000 (e_pool (snd s)) None 4096 \<and> reg_inv (e_reg (snd s)) [5 \<mapsto> 7]"
  using fresh_conn[OF cfg_ok_echo, of "()" "()"] by (auto simp: echo_cfg_def)

end
