(* ===== verification/Tcp_Conn_Props.thy ===== *)
theory Tcp_Conn_Props
  imports Tcp_Conn
begin

text \<open>
  The properties of a connection, over the contracts of the theory \<open>Tcp_Conn\<close>: messages are served
  in order under every chunking, output leaves in order, malformed input closes exactly one
  connection; and the three inputs on which the code does something else than it means to.
\<close>

section \<open>Properties of a connection\<close>

lemma chunks_served:
  assumes "cfg_ok cfg" and "conn_inv this X s" and "in_bytes s = []"
    and "\<forall>m \<in> set ms. frame_ok m \<and> snd m \<noteq> []"
    and "concat chunks = concat (map frame_bytes ms)" and "\<forall>ch \<in> set chunks. ch \<noteq> []"
    and "int (length (concat chunks)) \<le> cap_of m8M"
    and "fits Bd (e_pool (snd s)) (c_obuf (fst s)) (length (replies cfg (c_fd (fst s)) (e_app (snd s)) ms))"
    and "Bd + 8192 * length chunks < EXTRA_MEM_LIMIT"
  shows "\<exists>s'. read_chunks cfg this s chunks = Inr s' \<and> conn_inv this X s' \<and>
    e_app (snd s') = fst (serve cfg (c_fd (fst s)) (e_app (snd s)) ms) \<and>
    out_bytes s' = out_bytes s @ replies cfg (c_fd (fst s)) (e_app (snd s)) ms \<and>
    in_bytes s' = [] \<and> c_fd (fst s') = c_fd (fst s) \<and>
    frame_rel X (c_fd (fst s)) (snd s) (snd s')"
proof -
  have n: "unframe next_frame [] = ([], [], False)" by (rule fr.unframe_Need[OF fr.nxt_nil])
  have "unframe next_frame (concat (map frame_bytes ms) @ []) = (ms, [], False)"
    using fr.unframe_encode[of ms "[]"] assms(4) n by simp
  then show ?thesis
    using read_chunks_total[OF assms(1,2,6), of ms "[]" Bd] assms n by (auto simp: served_rel_def)
qed

text \<open>
  C1: the messages of a client reach their handlers whole, once and in order, however TCP cuts
  the byte stream. If the chunks delivered to \<open>do_read\<close> concatenate to the encoding of some
  messages with non-empty bodies, then the run of read events returns; afterwards the
  application data are what handling the messages one after the other gives, exactly the
  replies of the handlers have been appended to the output, in order, no input is left, and the
  buffers and loop entries of all other connections are untouched. The bounds say that the
  stream fits the largest buffer class, the replies the output buffer, and the allocations the
  memory budget.
\<close>

theorem messages_served_in_any_chunking:
  assumes "cfg_ok cfg" and "conn_inv this X s" and "in_bytes s = []"
    and "\<forall>m \<in> set ms. frame_ok m \<and> snd m \<noteq> []"
    and "concat chunks = concat (map frame_bytes ms)" and "\<forall>ch \<in> set chunks. ch \<noteq> []"
    and "int (length (concat chunks)) \<le> cap_of m8M"
    and "fits Bd (e_pool (snd s)) (c_obuf (fst s)) (length (replies cfg (c_fd (fst s)) (e_app (snd s)) ms))"
    and "Bd + 8192 * length chunks < EXTRA_MEM_LIMIT"
  shows "\<exists>s'. read_chunks cfg this s chunks = Inr s' \<and> conn_inv this X s' \<and>
    e_app (snd s') = fst (serve cfg (c_fd (fst s)) (e_app (snd s)) ms) \<and>
    out_bytes s' = out_bytes s @ replies cfg (c_fd (fst s)) (e_app (snd s)) ms \<and>
    in_bytes s' = [] \<and> c_fd (fst s') = c_fd (fst s) \<and>
    frame_rel X (c_fd (fst s)) (snd s) (snd s')"
  using assms by (rule chunks_served)

text \<open>A message of two bytes, cut inside its head.\<close>

theorem messages_served_in_any_chunking_witness:
  "\<exists>s s'. conn_inv 7 {} s \<and>
     read_chunks echo_cfg 7 s [take 3 (frame_bytes (1, [65, 66])), drop 3 (frame_bytes (1, [65, 66]))] = Inr s' \<and>
     out_bytes s' = frame_bytes (1, [65, 66])"
proof -
  from echo_conn obtain s :: "tcp_conn \<times> unit env" where s: "conn_inv 7 {} s" "in_bytes s = []" "out_bytes s = []"
    "c_obuf (fst s) = None" "fits 400000 (e_pool (snd s)) None 4096" by blast
  let ?m = "(1, [65, 66]) :: frame"
  let ?ch = "[take 3 (frame_bytes ?m), drop 3 (frame_bytes ?m)]"
  have l: "length (frame_bytes ?m) = 10" by (simp add: frame_bytes_def)
  have rp: "replies echo_cfg (c_fd (fst s)) (e_app (snd s)) [?m] = frame_bytes ?m"
    by (simp add: replies_def serve_one_def router_call_echo callback_busi_def reply_bytes_def frame_bytes_def)
  have "fits 400000 (e_pool (snd s)) (c_obuf (fst s)) (length (replies echo_cfg (c_fd (fst s)) (e_app (snd s)) [?m]))"
    using s(4,5) unfolding rp l by (simp add: fits_def)
  note f = this
  have "frame_bytes ?m \<noteq> []" using l by force
  with l have ne: "\<forall>ch \<in> set ?ch. ch \<noteq> []" by simp
  have ok: "\<forall>m \<in> set [?m]. frame_ok m \<and> snd m \<noteq> []" by (simp add: frame_ok_def in_int_def message_limits)
  have cc: "concat ?ch = concat (map frame_bytes [?m])" by simp
  have ln: "int (length (concat ?ch)) \<le> cap_of m8M" unfolding cc using l by simp
  have bd: "400000 + 8192 * length ?ch < EXTRA_MEM_LIMIT" by (simp add: EXTRA_MEM_LIMIT_def)
  from messages_served_in_any_chunking[OF cfg_ok_echo s(1,2) ok cc ne ln f bd] obtain s' where
    "read_chunks echo_cfg 7 s ?ch = Inr s'" "out_bytes s' = out_bytes s @ frame_bytes ?m"
    unfolding rp by blast
  with s show ?thesis by (intro exI[of _ s] exI[of _ s']) simp
qed

text \<open>
  C13: one write event, whatever the socket answers (interrupted calls, partial writes, a full
  socket buffer, an error). If \<open>do_write\<close> returns, the bytes the socket accepted are a prefix of
  the queued output, in order and without loss: the rest is still queued and the connection is
  in order, its write interest registered exactly if something is left, or else the connection
  was closed, its buffers are back in the pool and the registry has forgotten it.
\<close>

theorem do_write_fifo:
  assumes "cfg_ok cfg" and "conn_inv this X s" and "reg_inv (e_reg (snd s)) S"
    and "S (c_fd (fst s)) = Some this" and "do_write cfg this s ws = Inr (sent, s')"
  shows "\<exists>rest. out_bytes s = sent @ rest \<and>
    (conn_inv this X s' \<and> c_fd (fst s') = c_fd (fst s) \<and> out_bytes s' = rest \<and>
       frame_rel X (c_fd (fst s)) (snd s) (snd s')
     \<or> closed_rel X S s s')"
  using do_write_handled[OF assms] by (auto simp: handled_def)

lemma write2fd_accepts:
  assumes I: "rb_inv P X (Some p)" and F: "rb_front P (Some p)" and k: "0 < k"
    and ne: "rb_bytes P (Some p) \<noteq> []"
  shows "\<exists>P'. write2fd P (Some p) (Wr k # ws) =
    Inr (int (min k (length (rb_bytes P (Some p)))), take k (rb_bytes P (Some p)), ws, P')"
proof -
  from I obtain b where b: "heap P p = Some b" "buf_ok b" by (rule rb_inv_buf)
  have h: "b_head b = 0" using F b by simp
  let ?l = "length (bytes b)"
  have l: "nat (b_length b) = ?l" "int ?l = b_length b" using b(2) by (simp_all add: length_bytes_nat buf_ok_def)
  let ?m = "min k ?l"
  have m: "0 < ?m" using k ne b by simp
  have "int ?m \<le> b_length b" using l(2) by linarith
  then obtain b1 where b1: "io_buf_pop b (int ?m) = Inr b1" "buf_ok b1"
    using io_buf_pop_spec[OF b(2), of "int ?m"] by auto
  from io_buf_adjust_spec[OF b1(2)] obtain b2 where b2: "io_buf_adjust b1 = Inr b2" by auto
  have t: "take ?m (b_data b) = take k (bytes b)" using h l by (simp add: bytes_def min.commute)
  show ?thesis using b h l m b1 b2 t by (auto simp: write2fd_def)
qed

lemma write_loop_drains:
  assumes "bufs_ok (e_pool (snd s)) X (fst s)" and "rb_front (e_pool (snd s)) (c_obuf (fst s))"
    and "\<forall>k \<in> set ks. 0 < k" and "length (out_bytes s) \<le> sum_list ks" and "length (out_bytes s) < n"
  shows "\<exists>s'. write_loop n cfg this s (map Wr ks) = Inr (False, out_bytes s, s') \<and> drained_rel X (out_bytes s) s s'"
  using assms
proof (induction n arbitrary: s ks)
  case 0
  then show ?case by simp
next
  case (Suc n)
  obtain c E where s: "s = (c, E)" by (cases s)
  have I: "rb_inv (e_pool E) (X \<union> set_option (c_ibuf c)) (c_obuf c)" using Suc.prems(1) s by (simp add: bufs_ok_def)
  have l: "rb_length (e_pool E) (c_obuf c) = Inr (int (length (out_bytes s)))"
    using rb_inv_length[OF I] s by (simp add: out_bytes_def)
  show ?case
  proof (cases "out_bytes s = []")
    case True
    then have "write_loop (Suc n) cfg this s (map Wr ks) = Inr (False, [], s)" using l s by simp
    then show ?thesis using True drained_rel_refl[OF Suc.prems(1,2)] by (intro exI[of _ s]) (simp del: write_loop.simps)
  next
    case False
    then obtain p where p: "c_obuf c = Some p" using s by (cases "c_obuf c") (auto simp: out_bytes_def)
    obtain k ks' where ks: "ks = k # ks'" using Suc.prems(4) False by (cases ks) auto
    let ?o = "take k (out_bytes s)"
    from write2fd_accepts[OF I[unfolded p], of k "map Wr ks'"] Suc.prems(2,3) False s p ks obtain P where
      w: "write2fd (e_pool E) (c_obuf c) (map Wr ks) = Inr (int (min k (length (out_bytes s))), ?o, map Wr ks', P)"
      by (auto simp: out_bytes_def)
    let ?s1 = "(c, E\<lparr>e_pool := P\<rparr>)"
    have d: "drained_rel X ?o s ?s1"
      using write_step[OF _ _ _ w, of X] Suc.prems(1,2) False s by auto
    have b: "bufs_ok (e_pool (snd ?s1)) X (fst ?s1)" "rb_front (e_pool (snd ?s1)) (c_obuf (fst ?s1))"
      and "out_bytes s = ?o @ out_bytes ?s1"
      using d s by (auto simp: drained_rel_def)
    then have o1: "out_bytes ?s1 = drop k (out_bytes s)" by (metis append_take_drop_id same_append_eq)
    have m: "0 < min k (length (out_bytes s))" using Suc.prems(3) ks False by simp
    have le: "length (out_bytes ?s1) \<le> sum_list ks'" "length (out_bytes ?s1) < n"
      using Suc.prems(4,5) m unfolding ks o1 length_drop min_less_iff_conj sum_list.Cons by linarith+
    from Suc.IH[OF b _ le] Suc.prems(3) ks o1 obtain s' where
      s': "write_loop n cfg this ?s1 (map Wr ks') = Inr (False, drop k (out_bytes s), s')"
        "drained_rel X (drop k (out_bytes s)) ?s1 s'" by auto
    have "write_loop (Suc n) cfg this s (map Wr ks) = Inr (False, out_bytes s, s')"
      using l s w s'(1) False m by (simp add: Let_def min_def split: if_splits)
    then show ?thesis using drained_rel_trans[OF d s'(2)] by (intro exI[of _ s']) (simp del: write_loop.simps)
  qed
qed

lemma do_write_all:
  assumes "conn_inv this X s" and "\<forall>k \<in> set ks. 0 < k" and "length (out_bytes s) \<le> sum_list ks"
  shows "\<exists>s'. do_write cfg this s (map Wr ks) = Inr (out_bytes s, s') \<and> conn_inv this X s' \<and>
    out_bytes s' = [] \<and> armed (e_loop (snd s')) this (c_fd (fst s)) False"
proof -
  obtain c E where s: "s = (c, E)" by (cases s)
  have B: "bufs_ok (e_pool (snd s)) X (fst s)" "rb_front (e_pool (snd s)) (c_obuf (fst s))"
    using assms(1) by (simp_all add: conn_inv_def mid_inv_def)
  have I: "rb_inv (e_pool E) (X \<union> set_option (c_ibuf c)) (c_obuf c)" using B s by (simp add: bufs_ok_def)
  have l: "rb_length (e_pool E) (c_obuf c) = Inr (int (length (out_bytes s)))"
    using rb_inv_length[OF I] s by (simp add: out_bytes_def)
  from write_loop_drains[OF B assms(2,3), of "Suc (length (out_bytes s))" cfg this] obtain s1 where
    w: "write_loop (Suc (length (out_bytes s))) cfg this s (map Wr ks) = Inr (False, out_bytes s, s1)"
    and d: "drained_rel X (out_bytes s) s s1" by auto
  obtain c1 E1 where s1: "s1 = (c1, E1)" by (cases s1)
  have o1: "out_bytes s1 = []" and c1: "c1 = c" using d s s1 by (auto simp: drained_rel_def)
  have "rb_inv (e_pool E1) (X \<union> set_option (c_ibuf c)) (c_obuf c)"
    using d s s1 by (simp add: drained_rel_def bufs_ok_def)
  from rb_inv_length[OF this] o1 s1 c1 have l1: "rb_length (e_pool E1) (c_obuf c1) = Inr 0" by (simp add: out_bytes_def)
  let ?s' = "(c1, E1\<lparr>e_loop := del_io_event_mask (e_loop E1) (c_fd c1) EPOLLOUT\<rparr>)"
  have eq: "do_write cfg this s (map Wr ks) = Inr (out_bytes s, ?s')"
    using w l l1 s s1 by (simp add: do_write_def del: write_loop.simps)
  have C: "conn_inv this X ?s'" using drained_conn(2)[OF assms(1) d o1] s1 by simp
  moreover have o': "out_bytes ?s' = []" using o1 s1 by (simp add: out_bytes_def)
  ultimately have "armed (e_loop (snd ?s')) this (c_fd c) False"
    using c1 by (simp add: conn_inv_def mid_inv_def)
  then show ?thesis using eq C o' s by (intro exI[of _ ?s']) simp
qed

text \<open>
  C14: a write event on a socket that accepts bytes, in pieces of any positive size, sends the
  whole queued output in order, leaves nothing queued and removes the write interest, so that
  the loop does not spin on a writable socket.
\<close>

theorem do_write_drains:
  assumes "conn_inv this X s" and "\<forall>k \<in> set ks. 0 < k" and "length (out_bytes s) \<le> sum_list ks"
  shows "\<exists>s'. do_write cfg this s (map Wr ks) = Inr (out_bytes s, s') \<and> conn_inv this X s' \<and>
    out_bytes s' = [] \<and> armed (e_loop (snd s')) this (c_fd (fst s)) False"
  using assms by (rule do_write_all)

text \<open>What the handler of an empty message replies, after the messages before it.\<close>

definition last_replies :: "('a, 'u) server_cfg \<Rightarrow> tcp_conn \<times> 'a env \<Rightarrow> frame list \<Rightarrow> int \<Rightarrow> byte list" where
  "last_replies cfg s ms i = replies cfg (c_fd (fst s)) (e_app (snd s)) ms @ concat (map reply_bytes
     (empty_replies cfg i (fst s, (snd s)\<lparr>e_app := fst (serve cfg (c_fd (fst s)) (e_app (snd s)) ms)\<rparr>)))"

lemma empty_replies_cong:
  "c_fd (fst s') = c_fd (fst s) \<Longrightarrow> e_app (snd s') = e_app (snd s) \<Longrightarrow> empty_replies cfg i s' = empty_replies cfg i s"
  unfolding empty_replies_def by (cases "router_call (s_router cfg) i") auto

lemma last_replies_cong:
  assumes "c_fd (fst s') = c_fd (fst s)" and "e_app (snd s') = e_app (snd s)"
  shows "last_replies cfg s' ms i = last_replies cfg s ms i"
  unfolding last_replies_def using assms
  by (simp add: empty_replies_cong[of "(fst s', (snd s')\<lparr>e_app := a\<rparr>)" "(fst s, (snd s)\<lparr>e_app := a\<rparr>)" for a])

lemma last_replies_Cons:
  assumes "serve_one cfg (c_fd (fst s)) (e_app (snd s)) m = (a, rs)" and "c_fd (fst s') = c_fd (fst s)" and "e_app (snd s') = a"
  shows "last_replies cfg s (m # ms) i = concat (map reply_bytes rs) @ last_replies cfg s' ms i"
  using replies_Cons[OF assms(1), of ms] assms
    empty_replies_cong[of "(fst s', (snd s')\<lparr>e_app := b\<rparr>)" "(fst s, (snd s)\<lparr>e_app := b\<rparr>)" cfg i for b]
  by (simp add: last_replies_def split: prod.splits)

lemma read_loop_crash:
  assumes cfg: "cfg_ok cfg" and i: "in_int i"
    and "mid_inv this X s" and "in_bytes s = concat (map frame_bytes ms) @ frame_bytes (i, [])"
    and "\<forall>m \<in> set ms. frame_ok m" and "length ms < n"
  shows "(\<exists>e. read_loop n cfg this s = Inl e) \<and>
    (fits Bd (e_pool (snd s)) (c_obuf (fst s)) (length (last_replies cfg s ms i)) \<longrightarrow> read_loop n cfg this s = Inl Assert_failed)"
  using assms(3-)
proof (induction ms arbitrary: s n)
  case Nil
  obtain n' where n: "n = Suc n'" using Nil.prems(4) by (cases n) auto
  have nf: "next_frame (in_bytes s) = Msg (i, []) []"
    using next_frame_bytes[of "(i, [])" "[]"] i Nil.prems(2) by (simp add: frame_ok_def message_limits)
  have "last_replies cfg s [] i = concat (map reply_bytes (empty_replies cfg i s))"
    using empty_replies_cong[of "(fst s, (snd s)\<lparr>e_app := e_app (snd s)\<rparr>)" s cfg i] by (simp add: last_replies_def replies_def)
  then show ?case using read_crash[OF cfg Nil.prems(1) nf, where n = n'] by (simp add: n del: read_loop.simps)
next
  case (Cons m ms)
  obtain n' where n: "n = Suc n'" using Cons.prems(4) by (cases n) auto
  let ?rest = "concat (map frame_bytes ms) @ frame_bytes (i, [])"
  obtain a rs where so: "serve_one cfg (c_fd (fst s)) (e_app (snd s)) m = (a, rs)" by fastforce
  have nf: "next_frame (in_bytes s) = Msg m ?rest" using next_frame_bytes[of m ?rest] Cons.prems(2,3) by simp
  have ne: "snd m \<noteq> [] \<or> ?rest \<noteq> []" by (simp add: frame_bytes_def)
  have IH: "(\<exists>e. read_loop n' cfg this s' = Inl e) \<and>
      (fits Bd (e_pool (snd s')) (c_obuf (fst s')) (length (last_replies cfg s' ms i)) \<longrightarrow> read_loop n' cfg this s' = Inl Assert_failed)"
    if "served_rel this X a ?rest (concat (map reply_bytes rs)) s s'" for s'
    using Cons.IH[of s' n'] Cons.prems(3,4) that n by (simp add: served_rel_def)
  have c: "last_replies cfg s (m # ms) i = concat (map reply_bytes rs) @ last_replies cfg s' ms i"
    if "served_rel this X a ?rest (concat (map reply_bytes rs)) s s'" for s'
    using last_replies_Cons[OF so] that by (simp add: served_rel_def)
  have "\<exists>e. read_loop n cfg this s = Inl e" using read_step(1)[OF cfg Cons.prems(1) nf ne so, of n'] IH n by metis
  moreover have "read_loop n cfg this s = Inl Assert_failed"
    if f: "fits Bd (e_pool (snd s)) (c_obuf (fst s)) (length (last_replies cfg s (m # ms) i))"
  proof -
    let ?t = "(fst s, (snd s)\<lparr>e_app := a\<rparr>)"
    have "fits Bd (e_pool (snd s)) (c_obuf (fst s)) (length (concat (map reply_bytes rs)) + length (last_replies cfg ?t ms i))"
      using f last_replies_Cons[OF so, of ?t ms i] by simp
    from read_step(2)[OF cfg Cons.prems(1) nf ne so this, of n'] obtain s' where
      s': "served_rel this X a ?rest (concat (map reply_bytes rs)) s s'" "read_loop (Suc n') cfg this s = read_loop n' cfg this s'"
        "fits Bd (e_pool (snd s')) (c_obuf (fst s')) (length (last_replies cfg ?t ms i))" by blast
    moreover have "last_replies cfg s' ms i = last_replies cfg ?t ms i"
      using s'(1) by (intro last_replies_cong) (simp_all add: served_rel_def)
    ultimately show ?thesis using IH[OF s'(1)] n by simp
  qed
  ultimately show ?case by blast
qed

text \<open>
  C31: a message without a body that ends the received bytes stops the whole server, whatever
  messages came before it in the same buffer and whichever handlers are registered, if they keep their contract
  \<open>cfg_ok\<close>. Once the bytes are
  in the buffer, \<open>do_read\<close> does not return normally: the head is removed, the then empty buffer goes back to
  the pool, and after the handler ran the second \<open>pop\<close> asserts that there is a buffer. If the replies of all
  handlers fit the output buffer and the budget, it is this assertion that fails. A protobuf message
  all of whose fields have their default values is such a message.
\<close>

theorem empty_message_asserts:
  assumes cfg: "cfg_ok cfg" and C: "conn_inv this X s" and i: "in_int i" and ms: "\<forall>m \<in> set ms. frame_ok m"
    and n: "0 < need" "need \<le> length bs"
    and b: "in_bytes s @ take need bs = concat (map frame_bytes ms) @ frame_bytes (i, [])"
    and cap: "int need + int (length (in_bytes s)) \<le> cap_of m8M"
    and tm: "total_mem (e_pool (snd s)) + 8192 < EXTRA_MEM_LIMIT"
  shows "(\<exists>e. do_read cfg this s (Some need, [Rd bs]) = Inl e) \<and>
    (\<forall>Bd. Bd + 8192 < EXTRA_MEM_LIMIT \<and> fits Bd (e_pool (snd s)) (c_obuf (fst s)) (length (last_replies cfg s ms i)) \<longrightarrow>
      do_read cfg this s (Some need, [Rd bs]) = Inl Assert_failed)"
proof -
  obtain c E where s: "s = (c, E)" by (cases s)
  have I: "rb_inv (e_pool E) (X \<union> set_option (c_obuf c)) (c_ibuf c)" and F: "rb_front (e_pool E) (c_ibuf c)"
    using C s by (auto simp: conn_inv_def mid_inv_def bufs_ok_def)
  from read_data_appended[OF I F n(1) _ _ n(2), of 0 "[]"] cap tm s obtain q P where
    rd: "read_data (e_pool E) (c_ibuf c) (Some need) [Rd bs] = Inr (int need, q, P)"
    and qb: "rb_bytes P q = in_bytes s @ take need bs" by (auto simp: in_bytes_def)
  let ?s1 = "(c\<lparr>c_ibuf := q\<rparr>, E\<lparr>e_pool := P\<rparr>)"
  from read_in_spec[OF C[unfolded s] rd] have M1: "mid_inv this X ?s1"
    and so: "same_on (set_option (c_obuf c)) (e_pool E) P" by (auto simp: served_rel_def)
  have ib: "in_bytes ?s1 = concat (map frame_bytes ms) @ frame_bytes (i, [])" using qb b by (simp add: in_bytes_def)
  have "length ms \<le> length (concat (map frame_bytes ms))" for ms by (induction ms) (simp_all add: frame_bytes_def)
  then have fl: "length ms < Suc (length (in_bytes ?s1))" unfolding ib using le_imp_less_Suc trans_le_add1 by (metis length_append)
  have lr: "last_replies cfg ?s1 ms i = last_replies cfg s ms i" by (rule last_replies_cong) (simp_all add: s)
  have "rb_length P q = Inr (int (length (in_bytes ?s1)))"
    using M1 rb_inv_length[of P "X \<union> set_option (c_obuf c)" q] by (simp add: mid_inv_def bufs_ok_def in_bytes_def)
  then have eq: "do_read cfg this s (Some need, [Rd bs]) = Inl e"
    if "read_loop (Suc (length (in_bytes ?s1))) cfg this ?s1 = Inl e" for e
    using rd s n(1) that by (simp add: do_read_def Let_def del: read_loop.simps)
  note cr = read_loop_crash[OF cfg i M1 ib ms fl]
  have "do_read cfg this s (Some need, [Rd bs]) = Inl Assert_failed"
    if "Bd + 8192 < EXTRA_MEM_LIMIT" "fits Bd (e_pool (snd s)) (c_obuf (fst s)) (length (last_replies cfg s ms i))" for Bd
  proof -
    have "fits (Bd + 8192) P (c_obuf c) (length (last_replies cfg ?s1 ms i))"
      using fits_after_read[OF _ that(1) so read_data_mem[OF rd]] that(2) s lr by simp
    then show ?thesis using cr[of "Bd + 8192"] eq by simp
  qed
  then show ?thesis using cr eq by blast
qed

text \<open>An empty message behind one that the server echoes.\<close>

theorem empty_message_asserts_witness:
  "\<exists>s. conn_inv 7 {} s \<and>
     do_read echo_cfg 7 s (Some 18, [Rd (frame_bytes (1, [65, 66]) @ frame_bytes (1, []))]) = Inl Assert_failed"
proof -
  from echo_conn obtain s :: "tcp_conn \<times> unit env" where s: "conn_inv 7 {} s" "in_bytes s = []"
    "c_obuf (fst s) = None" "fits 400000 (e_pool (snd s)) None 4096" by blast
  let ?ms = "[(1, [65, 66])] :: frame list" and ?bs = "frame_bytes (1, [65, 66]) @ frame_bytes (1, [])"
  have l: "length ?bs = 18" by (simp add: frame_bytes_def)
  have "length (last_replies echo_cfg s ?ms 1) = 18"
    by (simp add: last_replies_def replies_def serve_one_def empty_replies_def router_call_echo callback_busi_def reply_bytes_def)
  then have f: "fits 400000 (e_pool (snd s)) (c_obuf (fst s)) (length (last_replies echo_cfg s ?ms 1))"
    using s(3,4) by (simp add: fits_def)
  have m: "total_mem (e_pool (snd s)) + 8192 < EXTRA_MEM_LIMIT" using s(4) by (simp add: fits_def EXTRA_MEM_LIMIT_def)
  have ok: "\<forall>m \<in> set ?ms. frame_ok m" "in_int 1" by (simp_all add: frame_ok_def in_int_def message_limits)
  have "in_bytes s @ take 18 ?bs = concat (map frame_bytes ?ms) @ frame_bytes (1, [])" using s(2) l by simp
  from empty_message_asserts[OF cfg_ok_echo s(1) ok(2,1) _ _ this _ m] f l s(2)
  have "do_read echo_cfg 7 s (Some 18, [Rd ?bs]) = Inl Assert_failed"
    by (fastforce simp: EXTRA_MEM_LIMIT_def)
  with s(1) show ?thesis by blast
qed

text \<open>A connection with a message of two bytes in its output.\<close>

lemma echo_queued:
  "\<exists>s :: tcp_conn \<times> unit env. conn_inv 7 {} s \<and> out_bytes s = frame_bytes (1, [65, 66]) \<and> c_fd (fst s) = 5 \<and>
     reg_inv (e_reg (snd s)) [5 \<mapsto> 7]"
proof -
  from echo_conn obtain s :: "tcp_conn \<times> unit env" where s: "conn_inv 7 {} s" "out_bytes s = []" "c_fd (fst s) = 5"
    "c_obuf (fst s) = None" "fits 400000 (e_pool (snd s)) None 4096" "reg_inv (e_reg (snd s)) [5 \<mapsto> 7]" by blast
  let ?r = "([65, 66], 2, 1) :: send_req"
  have rb: "reply_bytes ?r = frame_bytes (1, [65, 66])" by (simp add: reply_bytes_def frame_bytes_def)
  have ok: "req_ok ?r" by (simp add: req_ok_def in_int_def)
  have M: "mid_inv 7 {} s" using s(1) by (simp add: conn_inv_def)
  have "fits 400000 (e_pool (snd s)) (c_obuf (fst s)) (length (reply_bytes ?r) + 0)"
    using s(4,5) by (simp add: rb frame_bytes_def fits_def)
  from send_message_fits[OF M ok this] obtain s' where "send_message 7 s ?r = Inr (0, s')" by blast
  from send_message_spec[OF M ok this] have r: "sent_rel 7 {} (reply_bytes ?r) s s'" by simp
  then have "rb_front (e_pool (snd s')) (c_ibuf (fst s'))"
    using s(1) rb_front_same[of "c_ibuf (fst s)" "set_option (c_ibuf (fst s))"] by (auto simp: sent_rel_def frame_rel_def conn_inv_def)
  then show ?thesis using r s rb by (intro exI[of _ s']) (simp add: sent_rel_def conn_inv_def)
qed

theorem do_write_drains_witness:
  "\<exists>s s'. conn_inv 7 {} s \<and> do_write echo_cfg 7 s (map Wr [4, 6]) = Inr (frame_bytes (1, [65, 66]), s') \<and> out_bytes s' = []"
proof -
  from echo_queued obtain s :: "tcp_conn \<times> unit env" where s: "conn_inv 7 {} s" "out_bytes s = frame_bytes (1, [65, 66])" by blast
  have "length (frame_bytes (1, [65, 66])) = 10" by (simp add: frame_bytes_def)
  with do_write_drains[OF s(1), of "[4, 6]" echo_cfg] s(2) obtain s' where
    "do_write echo_cfg 7 s (map Wr [4, 6]) = Inr (out_bytes s, s')" "out_bytes s' = []" by auto
  with s show ?thesis by (intro exI[of _ s] exI[of _ s']) simp
qed

text \<open>
  C32: \<open>send_message\<close> on a connection that has no output buffer, for every body length a size class
  exists for. The message is queued, head first, exactly if head and body together fit the
  buffer of the smallest class or the class chosen for the body alone. Otherwise, for bodies
  within eight bytes below the size of a class, the body is written past the end of the buffer.
  On success the write interest is registered.
\<close>

theorem send_message_outcome:
  assumes C: "conn_inv this X s" and o: "c_obuf (fst s) = None" and r: "req_ok (data, n, i)"
    and c: "pick_cap n = Some cl" and m: "total_mem (e_pool (snd s)) + 16384 < EXTRA_MEM_LIMIT"
  shows "if n + 8 \<le> 4096 \<or> n + 8 \<le> cap_of cl
    then \<exists>s'. send_message this s (data, n, i) = Inr (0, s') \<and> conn_inv this X s' \<and>
      out_bytes s' = frame_bytes (i, take (nat n) data) \<and> in_bytes s' = in_bytes s \<and>
      armed (e_loop (snd s')) this (c_fd (fst s)) True
    else send_message this s (data, n, i) = Inl Out_of_bounds"
proof -
  obtain c E where s: "s = (c, E)" by (cases s)
  let ?h = "head_bytes \<lparr>h_id = i, h_length = n\<rparr>" and ?X = "X \<union> set_option (c_ibuf c)"
  have M: "mid_inv this X (c, E)" and Fi: "rb_front (e_pool E) (c_ibuf c)" using C s by (auto simp: conn_inv_def)
  have I: "rb_inv (e_pool E) ?X None" using M o s by (simp add: mid_inv_def bufs_ok_def)
  have n: "0 \<le> n" "n \<le> int (length data)" using r by (auto simp: req_ok_def)
  have "fits (total_mem (e_pool E) + 8192) (e_pool E) None (length ?h + 4088)"
    using m s by (simp add: fits_def)
  from send_data_fits[OF I _ this] obtain q1 P1 where
    s1: "send_data (e_pool E) None ?h 8 = Inr (0, q1, P1)" and f1: "fits (total_mem (e_pool E) + 8192) P1 q1 4088"
    by auto
  from send_data_spec[OF I _ s1] have S1: "rb_inv P1 ?X q1" "rb_bytes P1 q1 = ?h" "rb_front P1 q1" by auto
  then obtain p b where p: "q1 = Some p" "heap P1 p = Some b" "b_head b = 0" "bytes b = ?h"
    using length_head_bytes[of "\<lparr>h_id = i, h_length = n\<rparr>"]
    by (cases q1) (auto elim!: rb_inv_buf)
  have bok: "buf_ok b" using S1(1) p by (auto elim: rb_inv_buf)
  have b8: "b_length b = 8" using length_bytes[OF bok] p(4) by simp
  have "b_capacity b = 4096"
    using send_head_class[OF I _ s1[unfolded p(1)]] p by auto
  then have room: "room b = 4088" using b8 by (simp add: room_def)
  have tm: "total_mem P1 + 8192 < EXTRA_MEM_LIMIT" using f1 p m s by (auto simp: fits_def)
  note O = send_data_result[OF S1(1)[unfolded p(1)] p(2,3) n c tm]
  have len: "rb_length (e_pool E) None = Inr 0" by (simp add: rb_length_def)
  show ?thesis
  proof (cases "n + 8 \<le> 4096 \<or> n + 8 \<le> cap_of cl")
    case False
    with O room b8 have "send_data P1 (Some p) data n = Inl Out_of_bounds" by (auto split: if_splits)
    with False s1 p o s len show ?thesis by (simp add: send_message_def Let_def MESSAGE_HEAD_LEN_def)
  next
    case True
    with O room b8 obtain q2 P2 where s2: "send_data P1 q1 data n = Inr (0, Some q2, P2)"
      using p(1) by (auto split: if_splits)
    from send_message_parts[OF M r] s1 s2 o s obtain s' where
      s': "send_message this (c, E) (data, n, i) = Inr (0, s')"
        "sent_rel this X (reply_bytes (data, n, i)) (c, E) s'" by fastforce
    have ob: "out_bytes s' = frame_bytes (i, take (nat n) data)"
      using s'(2) o s n by (simp add: sent_rel_def out_bytes_def reply_bytes_def frame_bytes_def)
    then have "out_bytes s' \<noteq> []" by (simp add: frame_bytes_def)
    then have "armed (e_loop (snd s')) this (c_fd c) True"
      using s'(2) by (auto simp: sent_rel_def mid_inv_def)
    moreover have "same_on ?X (e_pool E) (e_pool (snd s'))" using s'(2) by (simp add: sent_rel_def frame_rel_def)
    ultimately show ?thesis
      using True s' ob s Fi rb_front_same[of "c_ibuf c" ?X] rb_bytes_same[of "c_ibuf c" ?X]
      by (intro if_P[THEN iffD2] exI[of _ s']) (auto simp: sent_rel_def conn_inv_def in_bytes_def)
  qed
qed

theorem send_message_outcome_witness:
  "\<exists>s :: tcp_conn \<times> unit env. conn_inv 7 {} s \<and> send_message 7 s (replicate 4090 0, 4090, 1) = Inl Out_of_bounds"
proof -
  from echo_conn obtain s :: "tcp_conn \<times> unit env" where s: "conn_inv 7 {} s" "c_obuf (fst s) = None"
    "fits 400000 (e_pool (snd s)) None 4096" by blast
  have "req_ok (replicate 4090 0, 4090, 1)" by (simp add: req_ok_def in_int_def)
  moreover have "total_mem (e_pool (snd s)) + 16384 < EXTRA_MEM_LIMIT"
    using s(3) by (simp add: fits_def EXTRA_MEM_LIMIT_def)
  moreover have "pick_cap 4090 = Some m4K" by (simp add: pick_cap_def)
  ultimately have "send_message 7 s (replicate 4090 0, 4090, 1) = Inl Out_of_bounds"
    using send_message_outcome[OF s(1,2), of "replicate 4090 0" 4090 1 m4K] by simp
  with s(1) show ?thesis by (intro exI[of _ s]) simp
qed

text \<open>
  A message whose body no size class can hold is refused, and the queued head is taken back
  by removing eight bytes from the front of the output. If nothing was queued before, that is
  the head itself and the output is empty again. If something was queued, the first eight bytes
  of it are lost and the head of the refused message stays at the end.
\<close>

theorem send_message_refused:
  assumes C: "conn_inv this X s" and n: "cap_of m8M < n"
    and f: "fits Bd (e_pool (snd s)) (c_obuf (fst s)) 8"
  shows "\<exists>s'. send_message this s (data, n, i) = Inr (-1, s') \<and>
    out_bytes s' = drop 8 (out_bytes s @ head_bytes \<lparr>h_id = i, h_length = n\<rparr>) \<and>
    e_loop (snd s') = e_loop (snd s)"
proof -
  obtain c E where s: "s = (c, E)" by (cases s)
  let ?h = "head_bytes \<lparr>h_id = i, h_length = n\<rparr>" and ?X = "X \<union> set_option (c_ibuf c)"
  have I: "rb_inv (e_pool E) ?X (c_obuf c)" and F: "rb_front (e_pool E) (c_obuf c)"
    using C s by (auto simp: conn_inv_def mid_inv_def bufs_ok_def)
  from send_data_fits[OF I F, of Bd ?h 0] f s obtain q1 P1 where
    s1: "send_data (e_pool E) (c_obuf c) ?h 8 = Inr (0, q1, P1)" by auto
  have S1: "rb_inv P1 ?X q1" "rb_bytes P1 q1 = rb_bytes (e_pool E) (c_obuf c) @ ?h" "rb_front P1 q1"
    using send_data_spec[OF I F s1] by auto
  then obtain p where p: "q1 = Some p" by (cases q1) auto
  obtain b where b: "heap P1 p = Some b" "buf_ok b" using S1(1) p by (auto elim: rb_inv_buf)
  have nb: "b_capacity b - b_length b < n"
  proof -
    have "b_capacity b \<le> cap_of m8M"
      using S1(1) p b(1) pool_inv_class[of P1 "?X \<union> {p}" p b] cap_of_le_max by (auto simp: rb_inv_def)
    then show ?thesis using n b(2) by (auto simp: buf_ok_def)
  qed
  have h0: "b_head b = 0" using S1(3) p b by simp
  have "alloc_buf P1 n = Inr (None, P1)"
    using n pick_cap_None[of n] by (simp add: alloc_buf_def)
  then have s2: "send_data P1 q1 data n = Inr (-1, q1, P1)"
    using p b nb h0 by (simp add: send_data_def send_reserve_def)
  have l8: "8 \<le> int (length (rb_bytes P1 q1))" using S1(2) by simp
  from rb_pop_spec[OF S1(1)[unfolded p], of 8] l8 p obtain q3 P3 where
    s3: "rb_pop P1 (Some p) 8 = Inr (q3, P3)" "rb_bytes P3 q3 = drop 8 (rb_bytes P1 (Some p))" by auto
  have "send_message this s (data, n, i) = Inr (-1, c\<lparr>c_obuf := q3\<rparr>, E\<lparr>e_pool := P3\<rparr>)"
    using s s1 s2 s3(1) p rb_inv_length[OF I] by (simp add: send_message_def Let_def MESSAGE_HEAD_LEN_def)
  then show ?thesis using s3(2) S1(2) p s by (auto simp: out_bytes_def)
qed

theorem send_message_refused_witness:
  "\<exists>s s' :: tcp_conn \<times> unit env. conn_inv 7 {} s \<and> out_bytes s = frame_bytes (1, [65]) \<and>
     send_message 7 s ([], 9000000, 2) = Inr (-1, s') \<and>
     out_bytes s' = 65 # head_bytes \<lparr>h_id = 2, h_length = 9000000\<rparr>"
proof -
  from echo_conn obtain s0 :: "tcp_conn \<times> unit env" where s0: "conn_inv 7 {} s0" "c_obuf (fst s0) = None"
    "fits 400000 (e_pool (snd s0)) None 4096" by blast
  have M: "mid_inv 7 {} s0" and ok: "req_ok ([65], 1, 1)" and rl: "length (reply_bytes ([65], 1, 1)) = 9"
    using s0(1) by (simp_all add: conn_inv_def req_ok_def in_int_def reply_bytes_def)
  have "fits 400000 (e_pool (snd s0)) (c_obuf (fst s0)) (length (reply_bytes ([65], 1, 1)) + 8)"
    using s0(2,3) unfolding rl by (simp add: fits_def)
  from send_message_fits[OF M ok this] obtain s where
    s: "send_message 7 s0 ([65], 1, 1) = Inr (0, s)" "fits 400000 (e_pool (snd s)) (c_obuf (fst s)) 8" by blast
  have R: "sent_rel 7 {} (reply_bytes ([65], 1, 1)) s0 s" using send_message_spec[OF M ok s(1)] by simp
  have ob: "out_bytes s = frame_bytes (1, [65])"
    using R s0(2) by (simp add: sent_rel_def out_bytes_def reply_bytes_def frame_bytes_def)
  have C: "conn_inv 7 {} s"
    using R s0(1) rb_front_same[of "c_ibuf (fst s0)" "set_option (c_ibuf (fst s0))"]
    by (auto simp: sent_rel_def conn_inv_def frame_rel_def)
  from send_message_refused[OF C, of 9000000 400000 "[]" 2] s(2) obtain s' where
    "send_message 7 s ([], 9000000, 2) = Inr (-1, s')"
    "out_bytes s' = drop 8 (out_bytes s @ head_bytes \<lparr>h_id = 2, h_length = 9000000\<rparr>)" by auto
  with C ob show ?thesis by (intro exI[of _ s] exI[of _ s']) (simp add: frame_bytes_def)
qed

theorem do_write_fifo_witness:
  "\<exists>s s' sent rest. conn_inv 7 {} (s :: tcp_conn \<times> unit env) \<and> do_write echo_cfg 7 s (map Wr [4, 6]) = Inr (sent, s') \<and>
     sent \<noteq> [] \<and> out_bytes s = sent @ rest"
proof -
  from echo_queued obtain s :: "tcp_conn \<times> unit env" where s: "conn_inv 7 {} s" "out_bytes s = frame_bytes (1, [65, 66])" "c_fd (fst s) = 5"
    "reg_inv (e_reg (snd s)) [5 \<mapsto> 7]" by blast
  have l: "length (frame_bytes (1, [65, 66])) = 10" by (simp add: frame_bytes_def)
  with do_write_all[OF s(1), of "[4, 6]" echo_cfg] s(2) obtain s' where
    d: "do_write echo_cfg 7 s (map Wr [4, 6]) = Inr (frame_bytes (1, [65, 66]), s')" by auto
  from do_write_fifo[OF cfg_ok_echo s(1,4) _ d] s(3) obtain rest where "out_bytes s = frame_bytes (1, [65, 66]) @ rest" by auto
  moreover have "frame_bytes (1, [65, 66]) \<noteq> []" using l by force
  ultimately show ?thesis using s(1) d by blast
qed

text \<open>
  C30: a head that announces a body longer than the limit or negative ends the connection, and
  nothing else. For handlers that keep their contract and whose replies fit the output buffer, a
  close callback that sends nothing, and a memory budget that allows one more buffer: the messages before
  the head are served; then \<open>clean_conn\<close> runs the close callback, takes
  the descriptor out of loop and registry and gives both buffers back to the pool, so that the
  pool is as consistent as if the connection had never been.
\<close>

theorem do_read_malformed_closes:
  assumes cfg: "cfg_ok cfg" and C: "conn_inv this X s" and R: "reg_inv (e_reg (snd s)) S"
    and r: "S (c_fd (fst s)) = Some this" and n: "0 < need" "need \<le> length bs"
    and cap: "int need + int (length (in_bytes s)) \<le> cap_of m8M"
    and u: "unframe next_frame (in_bytes s @ take need bs) = (ms, rest, True)"
    and f: "fits Bd (e_pool (snd s)) (c_obuf (fst s)) (length (replies cfg (c_fd (fst s)) (e_app (snd s)) ms))"
    and Bd: "Bd + 8192 < EXTRA_MEM_LIMIT" and silent: "\<And>t. close_replies cfg t = []"
  shows "\<exists>s' s1. do_read cfg this s (Some need, [Rd bs]) = Inr s' \<and> closed_rel X S s s' \<and>
    e_app (snd s1) = fst (serve cfg (c_fd (fst s)) (e_app (snd s)) ms) \<and> c_fd (fst s1) = c_fd (fst s) \<and>
    e_app (snd s') = close_app cfg s1"
proof -
  obtain c E where s: "s = (c, E)" by (cases s)
  have I: "rb_inv (e_pool E) (X \<union> set_option (c_obuf c)) (c_ibuf c)" and F: "rb_front (e_pool E) (c_ibuf c)"
    using C s by (auto simp: conn_inv_def mid_inv_def bufs_ok_def)
  have "total_mem (e_pool E) \<le> Bd" using f s by (cases "c_obuf c") (auto simp: fits_def)
  then have tm: "total_mem (e_pool E) + 8192 < EXTRA_MEM_LIMIT" using Bd by simp
  from read_data_appended[OF I F n(1) _ tm n(2), of 0 "[]"] cap s obtain q P where
    rd: "read_data (e_pool E) (c_ibuf c) (Some need) [Rd bs] = Inr (int need, q, P)"
    and qb: "rb_bytes P q = in_bytes s @ take need bs" by (auto simp: in_bytes_def)
  let ?s1 = "(c\<lparr>c_ibuf := q\<rparr>, E\<lparr>e_pool := P\<rparr>)"
  from read_in_spec[OF C[unfolded s] rd] have
    s1: "served_rel this X (e_app E) (in_bytes ?s1) [] (c, E) ?s1"
    and so: "same_on (set_option (c_obuf c)) (e_pool E) P" by (auto simp: served_rel_def)
  have M1: "mid_inv this X ?s1" and ib: "in_bytes ?s1 = in_bytes s @ take need bs"
    using s1 qb by (simp_all add: served_rel_def in_bytes_def)
  have f1: "fits (Bd + 8192) P (c_obuf c) (length (replies cfg (c_fd c) (e_app E) ms))"
    using fits_after_read[OF _ Bd so read_data_mem[OF rd]] f s by simp
  have ne: "rest \<noteq> []" using fr.unframe_leftover[OF u] fr.nxt_nil by auto
  then have pr: "proper ms rest" by (simp add: proper_def)
  from read_loop_total[OF cfg M1 _ pr, of True "Bd + 8192" 0 "Suc (length (in_bytes ?s1))"] u ib f1 obtain s2 where
    s2: "served_rel this X (fst (serve cfg (c_fd c) (e_app E) ms)) rest (replies cfg (c_fd c) (e_app E) ms) ?s1 s2"
    and rl: "read_loop (Suc (length (in_bytes ?s1))) cfg this ?s1 = clean_conn cfg this s2"
    and f2: "fits (Bd + 8192) (e_pool (snd s2)) (c_obuf (fst s2)) 0"
    by (auto simp del: read_loop.simps)
  have e: "mid_inv this X s2" "c_fd (fst s2) = c_fd c" "e_reg (snd s2) = e_reg E"
    using s2 by (simp_all add: served_rel_def)
  have f2': "fits (Bd + 8192) (e_pool (snd s2)) (c_obuf (fst s2)) (length (concat (map reply_bytes (close_replies cfg s2))))"
    using f2 silent by simp
  obtain s3 where cl: "clean_conn cfg this s2 = Inr s3"
    using clean_conn_spec(2)[OF cfg e(1) _ _ f2', of S] R r s e by auto
  have s3: "closed_rel X S s2 s3" "e_app (snd s3) = close_app cfg s2"
    using clean_conn_spec(1)[OF cfg e(1) _ _ cl, of S] R r s e by auto
  have l: "rb_length P q = Inr (int (length (in_bytes ?s1)))"
    using M1 rb_inv_length[of P "X \<union> set_option (c_obuf c)" q] by (simp add: mid_inv_def bufs_ok_def in_bytes_def)
  have "do_read cfg this s (Some need, [Rd bs]) = Inr s3"
    using s rd n(1) l rl cl s3(1) by (cases s3) (simp add: do_read_def Let_def closed_rel_def rb_adjust_def del: read_loop.simps)
  moreover have "closed_rel X S s s3" using closed_after_served[OF served_rel_trans[OF s1 s2] s3(1)] s by simp
  ultimately show ?thesis using s3(2) s2 s by (intro exI[of _ s3] exI[of _ s2]) (simp add: served_rel_def)
qed

theorem do_read_malformed_closes_witness:
  "\<exists>s s'. conn_inv 7 {} s \<and> closed_rel {} [5 \<mapsto> 7] s s' \<and>
     do_read echo_cfg 7 s (Some 8, [Rd (head_bytes \<lparr>h_id = 1, h_length = -1\<rparr>)]) = Inr s'"
proof -
  from echo_conn obtain s :: "tcp_conn \<times> unit env" where s: "conn_inv 7 {} s" "in_bytes s = []" "c_fd (fst s) = 5"
    "c_obuf (fst s) = None" "fits 400000 (e_pool (snd s)) None 4096" "reg_inv (e_reg (snd s)) [5 \<mapsto> 7]" by blast
  let ?bs = "head_bytes \<lparr>h_id = 1, h_length = -1\<rparr>"
  have "next_frame ?bs = Bad"
    using read_head_head_bytes[of "\<lparr>h_id = 1, h_length = -1\<rparr>" "[]"]
    by (simp add: next_frame_def message_limits in_int_def)
  then have u: "unframe next_frame (in_bytes s @ take 8 ?bs) = ([], ?bs, True)" using s(2) by simp
  have f: "fits 400000 (e_pool (snd s)) (c_obuf (fst s)) (length (replies echo_cfg (c_fd (fst s)) (e_app (snd s)) []))"
    using s(4,5) by (simp add: replies_def fits_def)
  have si: "close_replies echo_cfg t = []" for t by (simp add: close_replies_def echo_cfg_def)
  have "\<exists>s' s1. do_read echo_cfg 7 s (Some 8, [Rd ?bs]) = Inr s' \<and> closed_rel {} [5 \<mapsto> 7] s s' \<and>
      e_app (snd s1) = fst (serve echo_cfg (c_fd (fst s)) (e_app (snd s)) []) \<and> c_fd (fst s1) = c_fd (fst s) \<and>
      e_app (snd s') = close_app echo_cfg s1"
    using do_read_malformed_closes[OF cfg_ok_echo s(1,6) _ _ _ _ u f _ si] s(2,3)
    by (simp add: EXTRA_MEM_LIMIT_def)
  with s(1) show ?thesis by blast
qed

end
