(* ===== verification/Tcp_Client.thy ===== *)
theory Tcp_Client
  imports Tcp_Conn
begin

text \<open>
  reactor/include/tcp_client.h and reactor/src/tcp_client.cc: a client connection with two fixed
  buffers that connects, reconnects after a failure, splits its input into messages and queues
  its output. The answers of \<open>socket\<close> and \<open>connect\<close> are a list the object consumes; those of \<open>read\<close>,
  \<open>write\<close>, \<open>FIONREAD\<close> and \<open>SO_ERROR\<close> are arguments. The two connection callbacks are members that the
  constructor does not initialise, so a slot is in one of three states.
\<close>

section \<open>State\<close>

type_synonym ('a, 'u) client_handler =
  "'a \<Rightarrow> int \<Rightarrow> byte list \<Rightarrow> u32 \<Rightarrow> int \<Rightarrow> 'u option \<Rightarrow> ('a \<times> send_req list) res"

datatype 'a slot = Uninit | Null | Callback "'a \<Rightarrow> ('a \<times> send_req list) res"

datatype connect_answer = Connect_ok | Connect_EINPROGRESS | Connect_failed

record ('a, 'u) tcp_client =
  k_this :: nat
  k_fd :: int
  k_ibuf :: io_buf
  k_obuf :: io_buf
  k_connected :: bool
  k_start :: "'a slot"
  k_close :: "'a slot"
  k_router :: "(('a, 'u) client_handler, 'u) msg_router"
  k_app :: 'a
  k_loop :: event_loop
  k_net :: "(int option \<times> connect_answer) list"

section \<open>Operations\<close>

definition client_send_message ::
  "('a, 'u) tcp_client \<Rightarrow> send_req \<Rightarrow> (int \<times> ('a, 'u) tcp_client) res" where
  "client_send_message K req =
     (let (data, msglen, msgid) = req in
      if \<not> k_connected K then Inr (-1, K) else
      let need_add_event = (b_length (k_obuf K) = 0) in
      res_bind (check Int_overflow (in_int (msglen + int MESSAGE_HEAD_LEN))) (\<lambda>_.
      if msglen + int MESSAGE_HEAD_LEN > b_capacity (k_obuf K) - b_length (k_obuf K) then Inr (-1, K) else
      res_bind (io_buf_append (k_obuf K) (head_bytes \<lparr>h_id = msgid, h_length = msglen\<rparr>) (int MESSAGE_HEAD_LEN)) (\<lambda>b1.
      res_bind (io_buf_append b1 data msglen) (\<lambda>b2.
        let K' = K\<lparr>k_obuf := b2\<rparr> in
        Inr (0, if need_add_event
                then K'\<lparr>k_loop := add_io_event (k_loop K') (k_fd K') client_write_callback EPOLLOUT (Some (k_this K'))\<rparr>
                else K')))))"

definition client_send_all :: "('a, 'u) tcp_client \<Rightarrow> send_req list \<Rightarrow> ('a, 'u) tcp_client res" where
  "client_send_all = run (\<lambda>K req. res_bind (client_send_message K req) (\<lambda>(_, K'). Inr K'))"

text \<open>\<open>if (_conn_start_cb) _conn_start_cb(this, args)\<close>: reading the member comes first.\<close>

definition call_slot :: "'a slot \<Rightarrow> ('a, 'u) tcp_client \<Rightarrow> ('a, 'u) tcp_client res" where
  "call_slot cb K =
     (case cb of
        Uninit \<Rightarrow> Inl Uninit_read
      | Null \<Rightarrow> Inr K
      | Callback f \<Rightarrow> res_bind (f (k_app K)) (\<lambda>(a', reqs). client_send_all (K\<lparr>k_app := a'\<rparr>) reqs))"

text \<open>What follows a successful connection, in \<open>do_connect\<close> and in \<open>connection_delay\<close>.\<close>

definition connection_made :: "('a, 'u) tcp_client \<Rightarrow> ('a, 'u) tcp_client res" where
  "connection_made K =
     res_bind (call_slot (k_start K) (K\<lparr>k_connected := True\<rparr>)) (\<lambda>K1.
     let l1 = add_io_event (k_loop K1) (k_fd K1) client_read_callback EPOLLIN (Some (k_this K1));
         l2 = (if b_length (k_obuf K1) \<noteq> 0
               then add_io_event l1 (k_fd K1) client_write_callback EPOLLOUT (Some (k_this K1)) else l1)
     in Inr (K1\<lparr>k_loop := l2\<rparr>))"

definition do_connect :: "('a, 'u) tcp_client \<Rightarrow> ('a, 'u) tcp_client res" where
  "do_connect K =
     (if k_fd K = -1 then Inr K else
      case k_net K of
        [] \<Rightarrow> Inl No_return
      | (None, _) # _ \<Rightarrow> Inl Exit_failure
      | (Some sockfd, ans) # rest \<Rightarrow>
          (let K1 = K\<lparr>k_fd := sockfd, k_net := rest\<rparr> in
           case ans of
             Connect_EINPROGRESS \<Rightarrow>
               Inr (K1\<lparr>k_loop := add_io_event (k_loop K1) sockfd connection_delay EPOLLOUT (Some (k_this K1))\<rparr>)
           | Connect_failed \<Rightarrow> Inl Exit_failure
           | Connect_ok \<Rightarrow> connection_made K1))"

definition client_connection_delay :: "('a, 'u) tcp_client \<Rightarrow> int \<Rightarrow> ('a, 'u) tcp_client res" where
  "client_connection_delay K so_error =
     (let K1 = K\<lparr>k_loop := del_io_event (k_loop K) (k_fd K)\<rparr>
      in if so_error = 0 then connection_made K1 else Inr K1)"

definition tcp_client_new ::
  "nat \<Rightarrow> (nat \<Rightarrow> byte) \<times> (nat \<Rightarrow> byte) \<Rightarrow> 'a \<Rightarrow> event_loop \<Rightarrow> (int option \<times> connect_answer) list \<Rightarrow> ('a, 'u) tcp_client res" where
  "tcp_client_new this garbage a loop net =
     do_connect \<lparr>k_this = this, k_fd = 0, k_ibuf = io_buf_new (fst garbage) 4194304, k_obuf = io_buf_new (snd garbage) 4194304,
       k_connected = False, k_start = Uninit, k_close = Uninit, k_router = router_new, k_app = a, k_loop = loop, k_net = net\<rparr>"

definition client_clean_conn :: "('a, 'u) tcp_client \<Rightarrow> ('a, 'u) tcp_client res" where
  "client_clean_conn K =
     (let K1 = (if k_fd K \<noteq> -1 then K\<lparr>k_loop := del_io_event (k_loop K) (k_fd K)\<rparr> else K)
      in res_bind (call_slot (k_close K) (K1\<lparr>k_connected := False\<rparr>)) do_connect)"

definition client_dispatch ::
  "('a, 'u) tcp_client \<Rightarrow> int \<Rightarrow> u32 \<Rightarrow> byte list \<Rightarrow> ('a, 'u) tcp_client res" where
  "client_dispatch K msgid msglen data =
     (case router_call (k_router K) msgid of
        None \<Rightarrow> Inr K
      | Some (cb, user_data) \<Rightarrow>
          res_bind (cb (k_app K) (k_fd K) data msglen msgid user_data) (\<lambda>(a', reqs). client_send_all (K\<lparr>k_app := a'\<rparr>) reqs))"

text \<open>
  The message loop of \<open>do_read\<close>. It takes the length of the head on trust: it does not wait for the
  body and does not reject a negative length, so it need not end; the first argument is fuel.
\<close>

fun client_read_loop :: "nat \<Rightarrow> ('a, 'u) tcp_client \<Rightarrow> ('a, 'u) tcp_client res" where
  "client_read_loop 0 K = Inl No_return"
| "client_read_loop (Suc n) K =
     (let b = k_ibuf K in
      if b_length b < int MESSAGE_HEAD_LEN then Inr K
      else
        res_bind (check Out_of_bounds (0 \<le> b_head b \<and> b_head b + int MESSAGE_HEAD_LEN \<le> int (length (b_data b)))) (\<lambda>_.
        let head = read_head (drop (nat (b_head b)) (b_data b)) in
        res_bind (io_buf_pop b (int MESSAGE_HEAD_LEN)) (\<lambda>b1.
        res_bind (client_dispatch (K\<lparr>k_ibuf := b1\<rparr>) (h_id head) (word_of_int (h_length head))
                    (drop (nat (b_head b1)) (b_data b1))) (\<lambda>K2.
        res_bind (io_buf_pop (k_ibuf K2) (h_length head)) (\<lambda>b3.
          client_read_loop n (K2\<lparr>k_ibuf := b3\<rparr>))))))"

definition client_do_read ::
  "nat \<Rightarrow> ('a, 'u) tcp_client \<Rightarrow> nat option \<times> rd list \<Rightarrow> (int \<times> ('a, 'u) tcp_client) res" where
  "client_do_read fuel K io =
     res_bind (check Assert_failed (k_connected K)) (\<lambda>_.
     case fst io of
       None \<Rightarrow> Inr (-1, K)
     | Some need_read \<Rightarrow>
         res_bind (check Assert_failed (int need_read \<le> b_capacity (k_ibuf K) - b_length (k_ibuf K))) (\<lambda>_.
         res_bind (read_retry need_read (snd io)) (\<lambda>r.
         case r of
           Rd_err e \<Rightarrow> res_bind (client_clean_conn K) (\<lambda>K'. Inr (-1, K'))
         | Rd bs \<Rightarrow>
             if bs = [] then res_bind (client_clean_conn K) (\<lambda>K'. Inr (-1, K')) else
             res_bind (io_buf_append (k_ibuf K) bs (int (length bs))) (\<lambda>b.
             res_bind (check Assert_failed (length bs = need_read)) (\<lambda>_.
             res_bind (client_read_loop fuel (K\<lparr>k_ibuf := b\<rparr>)) (\<lambda>K2.
             res_bind (io_buf_adjust (k_ibuf K2)) (\<lambda>b2.
               Inr (0, K2\<lparr>k_ibuf := b2\<rparr>))))))))"

text \<open>
  The loop of \<open>do_write\<close>: every round consumes an answer of \<open>write\<close>. After an error the connection is
  set up again and the loop goes on with the new socket. The byte list is what the sockets took.
\<close>

fun client_write_loop ::
  "('a, 'u) tcp_client \<Rightarrow> wr list \<Rightarrow> (byte list \<times> ('a, 'u) tcp_client) res" where
  "client_write_loop K ws =
     (if b_length (k_obuf K) = 0 then Inr ([], K) else
      case ws of
        [] \<Rightarrow> Inl No_return
      | Wr_err EINTR # ws' \<Rightarrow> client_write_loop K ws'
      | Wr_err EAGAIN # _ \<Rightarrow> Inr ([], K)
      | Wr_err EOTHER # ws' \<Rightarrow> res_bind (client_clean_conn K) (\<lambda>K'. client_write_loop K' ws')
      | Wr k # ws' \<Rightarrow>
          (let n = min k (nat (b_length (k_obuf K))) in
           if n = 0 then Inr ([], K) else
           res_bind (io_buf_pop (k_obuf K) (int n)) (\<lambda>b1.
           res_bind (io_buf_adjust b1) (\<lambda>b2.
           res_bind (client_write_loop (K\<lparr>k_obuf := b2\<rparr>) ws') (\<lambda>(sent, K').
             Inr (take n (bytes (k_obuf K)) @ sent, K'))))))"

declare client_write_loop.simps [simp del]

definition client_do_write :: "('a, 'u) tcp_client \<Rightarrow> wr list \<Rightarrow> (byte list \<times> ('a, 'u) tcp_client) res" where
  "client_do_write K ws =
     res_bind (check Assert_failed (b_head (k_obuf K) = 0 \<and> b_length (k_obuf K) \<noteq> 0)) (\<lambda>_.
     res_bind (client_write_loop K ws) (\<lambda>(sent, K').
       Inr (sent, if b_length (k_obuf K') = 0
                  then K'\<lparr>k_loop := del_io_event_mask (k_loop K') (k_fd K') EPOLLOUT\<rparr> else K')))"

definition client_add_msg_router ::
  "('a, 'u) tcp_client \<Rightarrow> int \<Rightarrow> ('a, 'u) client_handler \<Rightarrow> 'u \<Rightarrow> ('a, 'u) tcp_client" where
  "client_add_msg_router K msgid cb user_data = K\<lparr>k_router := snd (register_msg_router (k_router K) msgid cb user_data)\<rparr>"

definition client_set_conn_start :: "('a, 'u) tcp_client \<Rightarrow> ('a \<Rightarrow> ('a \<times> send_req list) res) \<Rightarrow> ('a, 'u) tcp_client" where
  "client_set_conn_start K cb = K\<lparr>k_start := Callback cb\<rparr>"

definition client_set_conn_close :: "('a, 'u) tcp_client \<Rightarrow> ('a \<Rightarrow> ('a \<times> send_req list) res) \<Rightarrow> ('a, 'u) tcp_client" where
  "client_set_conn_close K cb = K\<lparr>k_close := Callback cb\<rparr>"

text \<open>
  \<open>check_connect\<close>: is a socket writable, and did its connection succeed? \<open>sel\<close> is the answer of
  \<open>select\<close>, \<open>isset\<close> whether the descriptor is in the set afterwards, \<open>so_error\<close> what \<open>getsockopt\<close>
  reports, if it succeeds. The second result says whether the socket was closed.
\<close>

definition check_connect :: "int \<Rightarrow> bool \<Rightarrow> int option \<Rightarrow> int \<times> bool" where
  "check_connect sel isset so_error =
     (if sel \<le> 0 then (-1, True)
      else if isset then
        (case so_error of
           None \<Rightarrow> (-2, True)
         | Some err \<Rightarrow> if err \<noteq> 0 then (-3, True) else (0, False))
      else (0, False))"

lemma check_connect_keeps_open: "snd (check_connect sel isset so_error) \<longleftrightarrow> fst (check_connect sel isset so_error) \<noteq> 0"
  by (simp add: check_connect_def split: option.splits)

section \<open>Sending\<close>

definition client_ok :: "('a, 'u) tcp_client \<Rightarrow> bool" where
  "client_ok K \<longleftrightarrow> buf_ok (k_ibuf K) \<and> buf_ok (k_obuf K) \<and> b_head (k_obuf K) = 0"

definition client_req_ok :: "send_req \<Rightarrow> bool" where
  "client_req_ok req = (case req of (data, msglen, msgid) \<Rightarrow> 0 \<le> msglen \<and> msglen \<le> int (length data))"

definition same_input :: "('a, 'u) tcp_client \<Rightarrow> ('a, 'u) tcp_client \<Rightarrow> bool" where
  "same_input K K' \<longleftrightarrow> k_ibuf K' = k_ibuf K \<and> k_fd K' = k_fd K \<and> k_connected K' = k_connected K \<and>
     k_router K' = k_router K \<and> k_app K' = k_app K"

lemma client_send_out:
  assumes "out_ok (k_obuf K)" and "k_connected K" and "client_req_ok req"
    and "int (length (reply_bytes req)) \<le> room (k_obuf K)"
  shows "\<exists>K'. client_send_message K req = Inr (0, K') \<and> out_ok (k_obuf K') \<and> same_input K K' \<and>
    bytes (k_obuf K') = bytes (k_obuf K) @ reply_bytes req \<and>
    room (k_obuf K') = room (k_obuf K) - int (length (reply_bytes req))"
proof -
  obtain data msglen msgid where req: "req = (data, msglen, msgid)" by (cases req)
  have m: "0 \<le> msglen" "msglen \<le> int (length data)" using assms(3) by (simp_all add: client_req_ok_def req)
  have r: "msglen + 8 \<le> room (k_obuf K)" "int (length (reply_bytes req)) = msglen + 8"
    using assms(4) m by (simp_all add: req reply_bytes_def)
  have o: "buf_ok (k_obuf K)" "b_head (k_obuf K) = 0" using assms(1) by (simp_all add: out_ok_def)
  have i: "in_int (msglen + 8)" using r m o by (simp add: in_int_def room_def buf_ok_def)
  let ?h = "head_bytes \<lparr>h_id = msgid, h_length = msglen\<rparr>"
  from io_buf_append_spec[OF o, of 8 ?h] r m obtain b1 where
    b1: "io_buf_append (k_obuf K) ?h 8 = Inr b1" "buf_ok b1" "b_head b1 = 0" "bytes b1 = bytes (k_obuf K) @ ?h"
      "b_length b1 = b_length (k_obuf K) + 8" "b_capacity b1 = b_capacity (k_obuf K)" by auto
  from io_buf_append_spec[OF b1(2,3), of msglen data] r m b1 obtain b2 where
    b2: "io_buf_append b1 data msglen = Inr b2" "buf_ok b2" "b_head b2 = 0" "bytes b2 = bytes b1 @ take (nat msglen) data"
      "b_length b2 = b_length b1 + msglen" "b_capacity b2 = b_capacity b1" by (auto simp: room_def)
  show ?thesis
    using assms(1,2) r i b1 b2
    by (auto simp: client_send_message_def req MESSAGE_HEAD_LEN_def Let_def room_def out_ok_def same_input_def reply_bytes_def)
qed

lemma client_send_all_out:
  assumes "out_ok (k_obuf K)" and "k_connected K" and "\<forall>req \<in> set reqs. client_req_ok req"
    and "int (length (concat (map reply_bytes reqs))) \<le> room (k_obuf K)"
  shows "\<exists>K'. client_send_all K reqs = Inr K' \<and> out_ok (k_obuf K') \<and> same_input K K' \<and>
    bytes (k_obuf K') = bytes (k_obuf K) @ concat (map reply_bytes reqs) \<and>
    room (k_obuf K') = room (k_obuf K) - int (length (concat (map reply_bytes reqs)))"
  using assms
proof (induction reqs arbitrary: K)
  case Nil
  then show ?case by (simp add: client_send_all_def same_input_def)
next
  case (Cons req reqs)
  from client_send_out[OF Cons.prems(1,2), of req] Cons.prems(3,4) obtain K1 where
    K1: "client_send_message K req = Inr (0, K1)" "out_ok (k_obuf K1)" "same_input K K1"
      "bytes (k_obuf K1) = bytes (k_obuf K) @ reply_bytes req"
      "room (k_obuf K1) = room (k_obuf K) - int (length (reply_bytes req))" by auto
  from Cons.IH[OF K1(2)] K1 Cons.prems obtain K2 where
    "client_send_all K1 reqs = Inr K2" "out_ok (k_obuf K2)" "same_input K1 K2"
      "bytes (k_obuf K2) = bytes (k_obuf K1) @ concat (map reply_bytes reqs)"
      "room (k_obuf K2) = room (k_obuf K1) - int (length (concat (map reply_bytes reqs)))" by (auto simp: same_input_def)
  with K1 show ?case by (auto simp: client_send_all_def same_input_def)
qed

lemma client_ok_out: "client_ok K \<longleftrightarrow> buf_ok (k_ibuf K) \<and> out_ok (k_obuf K)"
  by (simp add: client_ok_def out_ok_def)

lemma client_send_ok:
  assumes "client_ok K" and "k_connected K" and "client_req_ok req" and "int (length (reply_bytes req)) \<le> room (k_obuf K)"
  shows "\<exists>K'. client_send_message K req = Inr (0, K') \<and> client_ok K' \<and> same_input K K' \<and>
    bytes (k_obuf K') = bytes (k_obuf K) @ reply_bytes req"
  using client_send_out[of K req] assms by (auto simp: client_ok_out same_input_def)

lemma client_send_all_ok:
  assumes "client_ok K" and "k_connected K" and "\<forall>req \<in> set reqs. client_req_ok req"
    and "int (length (concat (map reply_bytes reqs))) \<le> room (k_obuf K)"
  shows "\<exists>K'. client_send_all K reqs = Inr K' \<and> client_ok K' \<and> same_input K K' \<and>
    bytes (k_obuf K') = bytes (k_obuf K) @ concat (map reply_bytes reqs) \<and>
    room (k_obuf K') = room (k_obuf K) - int (length (concat (map reply_bytes reqs)))"
  using client_send_all_out[of K reqs] assms by (auto simp: client_ok_out same_input_def)

text \<open>While no write fails, the sockets take a prefix of the queued bytes and the rest stays queued.\<close>

lemma client_write_fifo:
  assumes "client_ok K" and "Wr_err EOTHER \<notin> set ws" and "client_write_loop K ws = Inr (sent, K')"
  shows "client_ok K' \<and> sent @ bytes (k_obuf K') = bytes (k_obuf K) \<and> k_fd K' = k_fd K"
  using assms
proof (induction ws arbitrary: K sent)
  case Nil
  then show ?case by (simp add: client_write_loop.simps[of K "[]"] split: if_splits)
next
  case (Cons w ws)
  have o: "buf_ok (k_obuf K)" "buf_ok (k_ibuf K)" using Cons.prems(1) by (simp_all add: client_ok_def)
  have step: "client_write_loop K (w # ws) = Inr (sent, K')" "w \<noteq> Wr_err EOTHER" using Cons.prems(2,3) by auto
  show ?case
  proof (cases "b_length (k_obuf K) = 0 \<or> w = Wr_err EAGAIN \<or> w = Wr 0")
    case True
    then have "sent = []" "K' = K" using step(1) by (auto simp: client_write_loop.simps[of K "w # ws"] split: if_splits)
    then show ?thesis using Cons.prems(1) by simp
  next
    case go: False
    show ?thesis
    proof (cases w)
      case (Wr_err e)
      with go step have "client_write_loop K ws = Inr (sent, K')"
        unfolding client_write_loop.simps[of K "w # ws"] by (cases e) simp_all
      then show ?thesis using Cons.IH Cons.prems by simp
    next
      case (Wr k)
      define n where "n = min k (nat (b_length (k_obuf K)))"
      have n: "n \<noteq> 0" using go Wr o(1) by (auto simp: buf_ok_def n_def)
      have "int n \<le> b_length (k_obuf K)" using o(1) unfolding buf_ok_def n_def by linarith
      from io_buf_pop_spec[OF o(1) _ this] obtain b1 where
        b1: "io_buf_pop (k_obuf K) (int n) = Inr b1" "buf_ok b1" "bytes b1 = drop n (bytes (k_obuf K))" by auto
      from io_buf_adjust_spec[OF b1(2)] obtain b2 where
        b2: "io_buf_adjust b1 = Inr b2" "buf_ok b2" "b_head b2 = 0" "bytes b2 = bytes b1" by auto
      from step(1) go Wr n b1(1) b2(1) obtain sent' where
        r: "client_write_loop (K\<lparr>k_obuf := b2\<rparr>) ws = Inr (sent', K')" "sent = take n (bytes (k_obuf K)) @ sent'"
        unfolding client_write_loop.simps[of K "w # ws"] by (auto simp: Let_def res_bind_Inr_iff n_def[symmetric])
      have "client_ok (K\<lparr>k_obuf := b2\<rparr>)" using o b2 by (simp add: client_ok_def)
      from Cons.IH[OF this _ r(1)] Cons.prems(2) b1(3) b2(4) r(2) show ?thesis by simp
    qed
  qed
qed

section \<open>Receiving\<close>

text \<open>The specification: hand the messages to their handlers one after the other.\<close>

fun client_serve ::
  "(('a, 'u) client_handler, 'u) msg_router \<Rightarrow> int \<Rightarrow> 'a \<Rightarrow> frame list \<Rightarrow> ('a \<times> send_req list) res" where
  "client_serve router fd a [] = Inr (a, [])"
| "client_serve router fd a (m # ms) =
     (case router_call router (fst m) of
        None \<Rightarrow> client_serve router fd a ms
      | Some (h, u) \<Rightarrow>
          res_bind (h a fd (snd m) (of_nat (length (snd m))) (fst m) u) (\<lambda>(a1, rs).
          res_bind (client_serve router fd a1 ms) (\<lambda>(a2, rs').
            Inr (a2, rs @ rs'))))"

text \<open>What the client relies on of a handler: it looks at the body only, and its replies are within their data.\<close>

definition client_handler_ok :: "(('a, 'u) client_handler, 'u) msg_router \<Rightarrow> int \<Rightarrow> bool" where
  "client_handler_ok router i \<longleftrightarrow> (\<forall>h u. router_call router i = Some (h, u) \<longrightarrow>
     (\<forall>a fd d d' len. take (unat len) d = take (unat len) d' \<longrightarrow> h a fd d len i u = h a fd d' len i u) \<and>
     (\<forall>a fd d len a' rs req. h a fd d len i u = Inr (a', rs) \<longrightarrow> req \<in> set rs \<longrightarrow> client_req_ok req))"

lemma drop_head_bytes:
  assumes "buf_ok b"
  shows "drop (nat (b_head b)) (b_data b) = bytes b @ drop (nat (b_head b + b_length b)) (b_data b)"
  using assms take_drop_split[of "nat (b_length b)" "nat (b_head b)" "b_data b"]
  by (simp add: bytes_def buf_ok_def nat_add_distrib)

text \<open>
  One message handed to its handler: the bytes behind the body in the buffer do not matter, and the
  replies are queued behind what is already there.
\<close>

lemma client_dispatch_one:
  assumes "client_handler_ok (k_router K) (fst m)" and "client_ok K" and "k_connected K" and "frame_ok m"
    and "client_serve (k_router K) (k_fd K) (k_app K) (m # ms) = Inr (a', reqs)"
    and "int (length (concat (map reply_bytes reqs))) \<le> room (k_obuf K)"
    and "take (length (snd m)) d = snd m"
  shows "\<exists>K2 a1 rs rs'. client_dispatch K (fst m) (of_nat (length (snd m))) d = Inr K2 \<and> client_ok K2 \<and>
    same_input (K\<lparr>k_app := a1\<rparr>) K2 \<and> client_serve (k_router K) (k_fd K) a1 ms = Inr (a', rs') \<and> reqs = rs @ rs' \<and>
    bytes (k_obuf K2) = bytes (k_obuf K) @ concat (map reply_bytes rs) \<and>
    room (k_obuf K2) = room (k_obuf K) - int (length (concat (map reply_bytes rs)))"
proof (cases "router_call (k_router K) (fst m)")
  case None
  then show ?thesis using assms(2,5)
    by (intro exI[of _ K] exI[of _ "k_app K"] exI[of _ "[]"] exI[of _ reqs]) (simp add: client_dispatch_def same_input_def)
next
  case (Some hu)
  obtain h u where hu: "hu = (h, u)" by (cases hu)
  let ?len = "of_nat (length (snd m)) :: u32"
  from assms(5) Some hu obtain a1 rs rs' where
    h: "h (k_app K) (k_fd K) (snd m) ?len (fst m) u = Inr (a1, rs)"
    and s: "client_serve (k_router K) (k_fd K) a1 ms = Inr (a', rs')" and rq: "reqs = rs @ rs'"
    by (auto simp: res_bind_Inr_iff)
  have "unat ?len = length (snd m)" using assms(4) by (simp add: frame_ok_def message_limits unat_of_nat)
  then have "take (unat ?len) d = take (unat ?len) (snd m)" using assms(7) by simp
  then have h': "h (k_app K) (k_fd K) d ?len (fst m) u = Inr (a1, rs)"
    using assms(1) Some hu h unfolding client_handler_ok_def by metis
  have rs: "\<forall>req \<in> set rs. client_req_ok req" using assms(1) Some hu h unfolding client_handler_ok_def by blast
  have rm: "int (length (concat (map reply_bytes rs))) \<le> room (k_obuf (K\<lparr>k_app := a1\<rparr>))" using assms(6) rq by simp
  have c: "client_ok (K\<lparr>k_app := a1\<rparr>)" "k_connected (K\<lparr>k_app := a1\<rparr>)" using assms(2,3) by (simp_all add: client_ok_def)
  from client_send_all_ok[OF c rs rm] obtain K2 where
    "client_send_all (K\<lparr>k_app := a1\<rparr>) rs = Inr K2" "client_ok K2" "same_input (K\<lparr>k_app := a1\<rparr>) K2"
      "bytes (k_obuf K2) = bytes (k_obuf K) @ concat (map reply_bytes rs)"
      "room (k_obuf K2) = room (k_obuf K) - int (length (concat (map reply_bytes rs)))" by auto
  with Some hu h' s rq show ?thesis
    by (intro exI[of _ K2] exI[of _ a1] exI[of _ rs] exI[of _ rs']) (simp add: client_dispatch_def)
qed

text \<open>One round of the loop on a message that is there completely.\<close>

lemma client_read_one:
  assumes "client_handler_ok (k_router K) (fst m)" and "client_ok K" and "k_connected K" and "frame_ok m"
    and "bytes (k_ibuf K) = frame_bytes m @ rest"
    and "client_serve (k_router K) (k_fd K) (k_app K) (m # ms) = Inr (a', reqs)"
    and "int (length (concat (map reply_bytes reqs))) \<le> room (k_obuf K)"
  shows "\<exists>K1 rs rs'. client_read_loop (Suc n) K = client_read_loop n K1 \<and> client_ok K1 \<and> k_connected K1 \<and>
    k_router K1 = k_router K \<and> bytes (k_ibuf K1) = rest \<and> k_fd K1 = k_fd K \<and>
    client_serve (k_router K1) (k_fd K1) (k_app K1) ms = Inr (a', rs') \<and> reqs = rs @ rs' \<and>
    bytes (k_obuf K1) = bytes (k_obuf K) @ concat (map reply_bytes rs) \<and>
    room (k_obuf K1) = room (k_obuf K) - int (length (concat (map reply_bytes rs)))"
proof -
  let ?b = "k_ibuf K" and ?len = "int (length (snd m))"
  have b: "buf_ok ?b" using assms(2) by (simp add: client_ok_def)
  have fb: "frame_bytes m = head_bytes \<lparr>h_id = fst m, h_length = ?len\<rparr> @ snd m" by (simp add: frame_bytes_def)
  have l: "b_length ?b = 8 + ?len + int (length rest)" using length_bytes[OF b] assms(5) by (simp add: fb)
  have hd: "read_head (drop (nat (b_head ?b)) (b_data ?b)) = \<lparr>h_id = fst m, h_length = ?len\<rparr>"
    unfolding drop_head_bytes[OF b] assms(5) fb using assms(4) by (simp add: frame_ok_def in_int_def message_limits)
  from io_buf_pop_spec[OF b, of 8] l obtain b1 where
    b1: "io_buf_pop ?b 8 = Inr b1" "buf_ok b1" "bytes b1 = snd m @ rest" "b_length b1 = b_length ?b - 8"
    by (auto simp: assms(5) fb)
  let ?K = "K\<lparr>k_ibuf := b1\<rparr>" and ?d = "drop (nat (b_head b1)) (b_data b1)"
  have td: "take (length (snd m)) ?d = snd m" unfolding drop_head_bytes[OF b1(2)] b1(3) by simp
  have K: "client_ok ?K" "client_handler_ok (k_router ?K) (fst m)" "k_connected ?K"
      "client_serve (k_router ?K) (k_fd ?K) (k_app ?K) (m # ms) = Inr (a', reqs)"
      "int (length (concat (map reply_bytes reqs))) \<le> room (k_obuf ?K)"
    using assms b1(2) by (simp_all add: client_ok_def)
  from client_dispatch_one[OF K(2,1,3) assms(4) K(4,5) td] obtain K2 a1 rs rs' where
    K2: "client_dispatch ?K (fst m) (of_nat (length (snd m))) ?d = Inr K2" "client_ok K2"
      "same_input (?K\<lparr>k_app := a1\<rparr>) K2" "client_serve (k_router K) (k_fd K) a1 ms = Inr (a', rs')" "reqs = rs @ rs'"
      "bytes (k_obuf K2) = bytes (k_obuf K) @ concat (map reply_bytes rs)"
      "room (k_obuf K2) = room (k_obuf K) - int (length (concat (map reply_bytes rs)))" by auto
  have i2: "k_ibuf K2 = b1" using K2(3) by (simp add: same_input_def)
  from io_buf_pop_spec[OF b1(2), of ?len] l b1(4) obtain b3 where
    b3: "io_buf_pop b1 ?len = Inr b3" "buf_ok b3" "bytes b3 = rest" by (auto simp: b1(3))
  have "client_read_loop (Suc n) K = client_read_loop n (K2\<lparr>k_ibuf := b3\<rparr>)"
    using l hd b1(1) K2(1) i2 b3(1) b by (simp add: MESSAGE_HEAD_LEN_def Let_def buf_ok_def)
  with K2 b3 b1 assms(3) show ?thesis
    by (intro exI[of _ "K2\<lparr>k_ibuf := b3\<rparr>"] exI[of _ rs] exI[of _ rs']) (simp add: client_ok_def same_input_def)
qed

lemma client_read_all:
  assumes "\<forall>m \<in> set ms. client_handler_ok (k_router K) (fst m)" and "client_ok K" and "k_connected K" and "\<forall>m \<in> set ms. frame_ok m"
    and "bytes (k_ibuf K) = concat (map frame_bytes ms)"
    and "client_serve (k_router K) (k_fd K) (k_app K) ms = Inr (a', reqs)"
    and "int (length (concat (map reply_bytes reqs))) \<le> room (k_obuf K)" and "length ms < n"
  shows "\<exists>K'. client_read_loop n K = Inr K' \<and> client_ok K' \<and> k_connected K' \<and> bytes (k_ibuf K') = [] \<and>
    k_app K' = a' \<and> bytes (k_obuf K') = bytes (k_obuf K) @ concat (map reply_bytes reqs)"
  using assms
proof (induction ms arbitrary: K n reqs)
  case Nil
  then obtain n' where n: "n = Suc n'" by (cases n) auto
  have "b_length (k_ibuf K) = 0" using Nil.prems(2,5) length_bytes[of "k_ibuf K"] by (simp add: client_ok_def)
  then show ?case using Nil.prems n by (simp add: MESSAGE_HEAD_LEN_def)
next
  case (Cons m ms)
  then obtain n' where n: "n = Suc n'" "length ms < n'" by (cases n) auto
  have fm: "frame_ok m" "\<forall>m \<in> set ms. frame_ok m" "client_handler_ok (k_router K) (fst m)" using Cons.prems(1,4) by auto
  from client_read_one[OF fm(3) Cons.prems(2,3) fm(1) _ Cons.prems(6,7), of "concat (map frame_bytes ms)" n'] Cons.prems(5)
  obtain K1 rs rs' where
    K1: "client_read_loop (Suc n') K = client_read_loop n' K1" "client_ok K1" "k_connected K1" "k_router K1 = k_router K"
      "bytes (k_ibuf K1) = concat (map frame_bytes ms)"
      "client_serve (k_router K1) (k_fd K1) (k_app K1) ms = Inr (a', rs')" and rq: "reqs = rs @ rs'"
      and o: "bytes (k_obuf K1) = bytes (k_obuf K) @ concat (map reply_bytes rs)"
      "room (k_obuf K1) = room (k_obuf K) - int (length (concat (map reply_bytes rs)))" by auto
  have "\<forall>m \<in> set ms. client_handler_ok (k_router K1) (fst m)" "int (length (concat (map reply_bytes rs'))) \<le> room (k_obuf K1)"
    using Cons.prems(1,7) K1(4) rq o by simp_all
  from Cons.IH[OF this(1) K1(2,3) fm(2) K1(5,6) this(2) n(2)] o rq K1(1) n(1) show ?case by auto
qed

lemma client_do_read_start:
  assumes "client_ok K" and "k_connected K" and "b_head (k_ibuf K) = 0" and "input \<noteq> []"
    and "int (length input) \<le> room (k_ibuf K)"
  shows "\<exists>b. buf_ok b \<and> b_head b = 0 \<and> bytes b = bytes (k_ibuf K) @ input \<and> client_ok (K\<lparr>k_ibuf := b\<rparr>) \<and>
    client_do_read fuel K (Some (length input), [Rd input]) =
      res_bind (client_read_loop fuel (K\<lparr>k_ibuf := b\<rparr>)) (\<lambda>K2.
      res_bind (io_buf_adjust (k_ibuf K2)) (\<lambda>b2. Inr (0, K2\<lparr>k_ibuf := b2\<rparr>)))"
proof -
  have "buf_ok (k_ibuf K)" using assms(1) by (simp add: client_ok_def)
  from io_buf_append_spec[OF this assms(3), of "int (length input)" input] assms(5) obtain b where
    "io_buf_append (k_ibuf K) input (int (length input)) = Inr b" "buf_ok b" "b_head b = 0" "bytes b = bytes (k_ibuf K) @ input"
    by auto
  then show ?thesis using assms
    by (intro exI[of _ b]) (simp add: client_do_read_def room_def client_ok_def)
qed

lemma client_do_read_all:
  assumes "\<forall>m \<in> set ms. client_handler_ok (k_router K) (fst m)" and "client_ok K" and "k_connected K" and "b_head (k_ibuf K) = 0"
    and "\<forall>m \<in> set ms. frame_ok m" and "bytes (k_ibuf K) @ input = concat (map frame_bytes ms)"
    and "input \<noteq> []" and "int (length input) \<le> room (k_ibuf K)"
    and "client_serve (k_router K) (k_fd K) (k_app K) ms = Inr (a', reqs)"
    and "int (length (concat (map reply_bytes reqs))) \<le> room (k_obuf K)" and "length ms < fuel"
  shows "\<exists>K'. client_do_read fuel K (Some (length input), [Rd input]) = Inr (0, K') \<and> client_ok K' \<and>
    bytes (k_ibuf K') = [] \<and> b_head (k_ibuf K') = 0 \<and> k_app K' = a' \<and>
    bytes (k_obuf K') = bytes (k_obuf K) @ concat (map reply_bytes reqs)"
proof -
  from client_do_read_start[OF assms(2-4,7,8), of fuel] obtain b where
    b: "bytes b = bytes (k_ibuf K) @ input" "client_ok (K\<lparr>k_ibuf := b\<rparr>)" and
    rd: "client_do_read fuel K (Some (length input), [Rd input]) =
      res_bind (client_read_loop fuel (K\<lparr>k_ibuf := b\<rparr>)) (\<lambda>K2.
      res_bind (io_buf_adjust (k_ibuf K2)) (\<lambda>b2. Inr (0, K2\<lparr>k_ibuf := b2\<rparr>)))" by blast
  have p: "\<forall>m \<in> set ms. client_handler_ok (k_router (K\<lparr>k_ibuf := b\<rparr>)) (fst m)" "k_connected (K\<lparr>k_ibuf := b\<rparr>)"
    "bytes (k_ibuf (K\<lparr>k_ibuf := b\<rparr>)) = concat (map frame_bytes ms)"
    "client_serve (k_router (K\<lparr>k_ibuf := b\<rparr>)) (k_fd (K\<lparr>k_ibuf := b\<rparr>)) (k_app (K\<lparr>k_ibuf := b\<rparr>)) ms = Inr (a', reqs)"
    "int (length (concat (map reply_bytes reqs))) \<le> room (k_obuf (K\<lparr>k_ibuf := b\<rparr>))"
    using assms b(1) by simp_all
  from client_read_all[OF p(1) b(2) p(2) assms(5) p(3-5) assms(11)] obtain K2 where
    K2: "client_read_loop fuel (K\<lparr>k_ibuf := b\<rparr>) = Inr K2" "client_ok K2" "bytes (k_ibuf K2) = []" "k_app K2 = a'"
      "bytes (k_obuf K2) = bytes (k_obuf K) @ concat (map reply_bytes reqs)" by auto
  from io_buf_adjust_spec[of "k_ibuf K2"] K2(2) obtain b2 where
    "io_buf_adjust (k_ibuf K2) = Inr b2" "buf_ok b2" "bytes b2 = bytes (k_ibuf K2)" "b_head b2 = 0" by (auto simp: client_ok_def)
  with rd K2 show ?thesis by (simp add: client_ok_def)
qed

text \<open>
  C26: the client serves complete messages. When what is left in the input buffer and what arrives
  make up whole messages, one call of \<open>do_read\<close> returns 0 after running the handlers on all of them
  in order; their replies are queued, in order, behind the output that is already there, and the
  input buffer is empty again. A fuel above the number of messages is enough. The handlers look
  only at the bytes of the body and their replies fit into the output buffer.
\<close>

theorem client_messages_served:
  assumes "\<forall>m \<in> set ms. client_handler_ok (k_router K) (fst m)" and "client_ok K" and "k_connected K" and "b_head (k_ibuf K) = 0"
    and "\<forall>m \<in> set ms. frame_ok m" and "bytes (k_ibuf K) @ input = concat (map frame_bytes ms)"
    and "input \<noteq> []" and "int (length input) \<le> room (k_ibuf K)"
    and "client_serve (k_router K) (k_fd K) (k_app K) ms = Inr (a', reqs)"
    and "int (length (concat (map reply_bytes reqs))) \<le> room (k_obuf K)" and "length ms < fuel"
  shows "\<exists>K'. client_do_read fuel K (Some (length input), [Rd input]) = Inr (0, K') \<and> client_ok K' \<and>
    bytes (k_ibuf K') = [] \<and> b_head (k_ibuf K') = 0 \<and> k_app K' = a' \<and>
    bytes (k_obuf K') = bytes (k_obuf K) @ concat (map reply_bytes reqs)"
  using assms by (rule client_do_read_all)

definition echo_client :: "(nat, unit) client_handler" where
  "echo_client n fd d len i u =
     (let body = take (unat len) d in Inr (n + unat len, [(body, int (length body), i)]))"

definition connected_client :: "'a \<Rightarrow> (('a, unit) client_handler, unit) msg_router \<Rightarrow> ('a, unit) tcp_client" where
  "connected_client a router =
     \<lparr>k_this = 0, k_fd = 5, k_ibuf = io_buf_new (\<lambda>_. 0) 64, k_obuf = io_buf_new (\<lambda>_. 0) 64, k_connected = True,
      k_start = Null, k_close = Null, k_router = router, k_app = a, k_loop = event_loop_new (\<lambda>_. True), k_net = []\<rparr>"

lemma connected_client_ok:
  "client_ok (connected_client a router)" "k_connected (connected_client a router)"
  "b_head (k_ibuf (connected_client a router)) = 0" "bytes (k_ibuf (connected_client a router)) = []"
  "bytes (k_obuf (connected_client a router)) = []" "room (k_ibuf (connected_client a router)) = 64"
  "room (k_obuf (connected_client a router)) = 64" "k_router (connected_client a router) = router"
  "k_app (connected_client a router) = a" "k_fd (connected_client a router) = 5"
  by (simp_all add: connected_client_def client_ok_def room_def bytes_def)

theorem client_messages_served_witness:
  "\<exists>K'. client_do_read 3 (connected_client 0 (snd (register_msg_router router_new 4 echo_client ())))
      (Some 19, [Rd (frame_bytes (4, [7, 8]) @ frame_bytes (9, [1]))]) = Inr (0, K') \<and>
    k_app K' = 2 \<and> bytes (k_obuf K') = frame_bytes (4, [7, 8])"
proof -
  let ?r = "snd (register_msg_router router_new 4 echo_client ())"
  let ?K = "connected_client 0 ?r" and ?ms = "[(4, [7, 8]), (9, [1])] :: frame list"
  have r: "router_call ?r i = (if i = 4 then Some (echo_client, Some ()) else None)" for i by (simp add: router_call_register)
  have ok: "\<forall>m \<in> set ?ms. client_handler_ok (k_router ?K) (fst m)" unfolding client_handler_ok_def connected_client_ok r
    by (auto simp: echo_client_def Let_def client_req_ok_def split: if_splits)
  have s: "client_serve (k_router ?K) (k_fd ?K) (k_app ?K) ?ms = Inr (2, [([7, 8], 2, 4)])"
    by (simp add: connected_client_ok r echo_client_def)
  have l: "length (frame_bytes (4, [7, 8]) @ frame_bytes (9, [1])) = 19" by (simp add: frame_bytes_def)
  have "concat (map reply_bytes [([7, 8], 2, 4)]) = frame_bytes (4, [7, 8])" by (simp add: reply_bytes_def frame_bytes_def)
  with client_messages_served[OF ok, of "frame_bytes (4, [7, 8]) @ frame_bytes (9, [1])" 2 "[([7, 8], 2, 4)]" 3] s l
  show ?thesis
    by (fastforce simp: connected_client_ok frame_ok_def in_int_def message_limits frame_bytes_def simp del: client_serve.simps)
qed

section \<open>What the client does not check\<close>

definition quiet_on :: "(('a, 'u) client_handler, 'u) msg_router \<Rightarrow> int \<Rightarrow> bool" where
  "quiet_on router i \<longleftrightarrow> (\<forall>h u. router_call router i = Some (h, u) \<longrightarrow> (\<forall>a fd d len. \<exists>a'. h a fd d len i u = Inr (a', [])))"

lemma client_dispatch_quiet:
  assumes "quiet_on (k_router K) i"
  shows "\<exists>a'. client_dispatch K i len d = Inr (K\<lparr>k_app := a'\<rparr>)"
proof (cases "router_call (k_router K) i")
  case None
  then show ?thesis by (intro exI[of _ "k_app K"]) (simp add: client_dispatch_def)
next
  case (Some hu)
  obtain h u where hu: "hu = (h, u)" by (cases hu)
  with Some assms obtain a' where "h (k_app K) (k_fd K) d len i u = Inr (a', [])" unfolding quiet_on_def by blast
  then show ?thesis using Some hu by (intro exI[of _ a']) (simp add: client_dispatch_def client_send_all_def)
qed

text \<open>One round of the loop whose handler sends nothing: the head goes, and then as much as it announces.\<close>

lemma client_read_round:
  assumes "client_ok K" and "bytes (k_ibuf K) = head_bytes mh @ rest" and "in_int (h_id mh)" and "in_int (h_length mh)"
    and "client_dispatch (K\<lparr>k_ibuf := b1\<rparr>) (h_id mh) (word_of_int (h_length mh)) (drop (nat (b_head b1)) (b_data b1)) =
      Inr (K\<lparr>k_ibuf := b1, k_app := a'\<rparr>)"
    and "b1 = (k_ibuf K)\<lparr>b_length := b_length (k_ibuf K) - 8, b_head := b_head (k_ibuf K) + 8\<rparr>"
  shows "client_read_loop (Suc n) K =
    res_bind (io_buf_pop b1 (h_length mh)) (\<lambda>b3. client_read_loop n (K\<lparr>k_app := a', k_ibuf := b3\<rparr>))"
proof -
  have b: "buf_ok (k_ibuf K)" using assms(1) by (simp add: client_ok_def)
  have l: "b_length (k_ibuf K) = 8 + int (length rest)" using length_bytes[OF b] assms(2) by simp
  have r: "read_head (drop (nat (b_head (k_ibuf K))) (b_data (k_ibuf K))) = mh"
    unfolding drop_head_bytes[OF b] assms(2) using assms(3,4) by simp
  have p: "io_buf_pop (k_ibuf K) 8 = Inr b1" using io_buf_pop_ok[OF b, of 8] l assms(6) by simp
  show ?thesis using l r p assms(5) b by (simp add: MESSAGE_HEAD_LEN_def Let_def buf_ok_def)
qed

text \<open>
  The client does not wait for a body. If a read ends inside a message, behind the head and
  fewer than 8 bytes of the body, the handler is called at once with the length of the whole body
  although only those bytes of it are there, and the bytes stay in the input buffer, where the next
  read takes them for the head of another message.
\<close>

theorem client_split_message:
  assumes "client_ok K" and "k_connected K" and "b_head (k_ibuf K) = 0" and "bytes (k_ibuf K) = []"
    and "frame_ok m" and "k < length (snd m)" and "k < 8" and "8 + int k \<le> room (k_ibuf K)"
    and "router_call (k_router K) (fst m) = Some (h, u)" and "quiet_on (k_router K) (fst m)"
  shows "\<exists>K' d. client_do_read (Suc (Suc n)) K (Some (8 + k), [Rd (take (8 + k) (frame_bytes m))]) = Inr (0, K') \<and>
    take k d = take k (snd m) \<and> h (k_app K) (k_fd K) d (of_nat (length (snd m))) (fst m) u = Inr (k_app K', []) \<and>
    bytes (k_ibuf K') = take k (snd m)"
proof -
  let ?in = "take (8 + k) (frame_bytes m)" and ?mh = "\<lparr>h_id = fst m, h_length = int (length (snd m))\<rparr>"
  have i: "?in = head_bytes ?mh @ take k (snd m)" "?in \<noteq> []" "length ?in = 8 + k" using assms(6) by (simp_all add: frame_bytes_def)
  from client_do_read_start[OF assms(1-3) i(2), of "Suc (Suc n)"] assms(4,8) i obtain b where
    b: "buf_ok b" "bytes b = head_bytes ?mh @ take k (snd m)" "client_ok (K\<lparr>k_ibuf := b\<rparr>)" "b_head b = 0" and
    rd: "client_do_read (Suc (Suc n)) K (Some (8 + k), [Rd ?in]) =
      res_bind (client_read_loop (Suc (Suc n)) (K\<lparr>k_ibuf := b\<rparr>)) (\<lambda>K2.
      res_bind (io_buf_adjust (k_ibuf K2)) (\<lambda>b2. Inr (0, K2\<lparr>k_ibuf := b2\<rparr>)))" by auto
  have l: "b_length b = 8 + int k" using length_bytes[OF b(1)] b(2) assms(6) by simp
  define b1 where "b1 = b\<lparr>b_length := b_length b - 8, b_head := b_head b + 8\<rparr>"
  from io_buf_pop_spec[OF b(1), of 8] io_buf_pop_ok[OF b(1), of 8] l b(2) have
    b1: "buf_ok b1" "bytes b1 = take k (snd m)" by (auto simp: b1_def)
  let ?d = "drop (nat (b_head b1)) (b_data b1)"
  from assms(9,10) obtain a' where h: "h (k_app K) (k_fd K) ?d (of_nat (length (snd m))) (fst m) u = Inr (a', [])"
    unfolding quiet_on_def by blast
  have "client_dispatch (K\<lparr>k_ibuf := b1\<rparr>) (fst m) (of_nat (length (snd m))) ?d = Inr (K\<lparr>k_ibuf := b1, k_app := a'\<rparr>)"
    using assms(9) h by (simp add: client_dispatch_def client_send_all_def)
  with client_read_round[OF b(3), of ?mh "take k (snd m)" b1 a' "Suc n"] b(2) assms(5,6) l
  have "client_read_loop (Suc (Suc n)) (K\<lparr>k_ibuf := b\<rparr>) = client_read_loop (Suc n) (K\<lparr>k_app := a', k_ibuf := b1\<rparr>)"
    by (simp add: frame_ok_def in_int_def message_limits b1_def io_buf_pop_def del: client_read_loop.simps)
  also have "\<dots> = Inr (K\<lparr>k_app := a', k_ibuf := b1\<rparr>)" using l assms(7) by (simp add: b1_def MESSAGE_HEAD_LEN_def)
  finally have rl: "client_read_loop (Suc (Suc n)) (K\<lparr>k_ibuf := b\<rparr>) = Inr (K\<lparr>k_app := a', k_ibuf := b1\<rparr>)" .
  have "take k ?d = take k (snd m)" unfolding drop_head_bytes[OF b1(1)] b1(2) using assms(6) by simp
  with h rd rl io_buf_adjust_spec[OF b1(1)] b1(2) show ?thesis by (auto simp del: client_read_loop.simps)
qed

theorem client_split_message_witness:
  "\<exists>K'. client_do_read (Suc (Suc 0)) (connected_client 0 (snd (register_msg_router router_new 4 (\<lambda>n fd d len i u. Inr (n + unat len, [])) ())))
      (Some 9, [Rd (take 9 (frame_bytes (4, [7, 8, 9])))]) = Inr (0, K') \<and> k_app K' = 3 \<and> bytes (k_ibuf K') = [7]"
proof -
  let ?h = "(\<lambda>n fd d len i u. Inr (n + unat len, [])) :: (nat, unit) client_handler"
  let ?r = "snd (register_msg_router router_new 4 ?h ())"
  have r: "router_call ?r i = (if i = 4 then Some (?h, Some ()) else None)" for i by (simp add: router_call_register)
  have "quiet_on (k_router (connected_client 0 ?r)) 4" by (simp add: quiet_on_def connected_client_ok r)
  with client_split_message[of "connected_client 0 ?r" "(4, [7, 8, 9])" 1 ?h "Some ()" 0]
  show ?thesis
    by (auto simp: connected_client_ok r frame_ok_def in_int_def message_limits simp del: client_read_loop.simps)
qed

lemma client_read_loop_stays:
  assumes "client_ok K" and "bytes (k_ibuf K) = head_bytes \<lparr>h_id = i, h_length = -8\<rparr>" and "in_int i" and "quiet_on (k_router K) i"
  shows "client_read_loop n K = Inl No_return"
  using assms
proof (induction n arbitrary: K)
  case 0
  then show ?case by simp
next
  case (Suc n)
  let ?mh = "\<lparr>h_id = i, h_length = -8\<rparr>"
  have b: "buf_ok (k_ibuf K)" using Suc.prems(1) by (simp add: client_ok_def)
  have l: "b_length (k_ibuf K) = 8" using length_bytes[OF b] Suc.prems(2) by simp
  define b1 where "b1 = (k_ibuf K)\<lparr>b_length := b_length (k_ibuf K) - 8, b_head := b_head (k_ibuf K) + 8\<rparr>"
  from client_dispatch_quiet[of "K\<lparr>k_ibuf := b1\<rparr>" i "word_of_int (-8)" "drop (nat (b_head b1)) (b_data b1)"] Suc.prems(4)
  obtain a' where "client_dispatch (K\<lparr>k_ibuf := b1\<rparr>) i (word_of_int (-8)) (drop (nat (b_head b1)) (b_data b1)) =
      Inr (K\<lparr>k_ibuf := b1, k_app := a'\<rparr>)" by auto
  with client_read_round[OF Suc.prems(1), of ?mh "[]" b1 a' n] Suc.prems(2,3)
  have "client_read_loop (Suc n) K = res_bind (io_buf_pop b1 (-8)) (\<lambda>b3. client_read_loop n (K\<lparr>k_app := a', k_ibuf := b3\<rparr>))"
    by (simp add: b1_def in_int_def del: client_read_loop.simps)
  moreover have "io_buf_pop b1 (-8) = Inr (k_ibuf K)" using l b by (simp add: b1_def io_buf_pop_def in_int_def buf_ok_def)
  moreover have "client_read_loop n (K\<lparr>k_app := a', k_ibuf := k_ibuf K\<rparr>) = Inl No_return"
    using Suc.prems by (intro Suc.IH) (simp_all add: client_ok_def)
  ultimately show ?case by (simp del: client_read_loop.simps)
qed

text \<open>
  C38: a peer can hang the client. The head of a message with the length \<open>-8\<close>, for whose id there is no
  handler or one that returns without a reply, is handed to the handler over and over: however many rounds the loop of \<open>do_read\<close> is given, it does not
  return.
\<close>

theorem client_negative_length_hangs:
  assumes "client_ok K" and "k_connected K" and "b_head (k_ibuf K) = 0" and "bytes (k_ibuf K) = []" and "8 \<le> room (k_ibuf K)"
    and "in_int i" and "quiet_on (k_router K) i"
  shows "client_do_read fuel K (Some 8, [Rd (head_bytes \<lparr>h_id = i, h_length = -8\<rparr>)]) = Inl No_return"
proof -
  let ?in = "head_bytes \<lparr>h_id = i, h_length = -8\<rparr>"
  have "?in \<noteq> []" using length_head_bytes[of "\<lparr>h_id = i, h_length = -8\<rparr>"] by fastforce
  from client_do_read_start[OF assms(1-3) this, of fuel] assms(4,5) obtain b where
    b: "bytes b = ?in" "client_ok (K\<lparr>k_ibuf := b\<rparr>)" and
    rd: "client_do_read fuel K (Some 8, [Rd ?in]) =
      res_bind (client_read_loop fuel (K\<lparr>k_ibuf := b\<rparr>)) (\<lambda>K2.
      res_bind (io_buf_adjust (k_ibuf K2)) (\<lambda>b2. Inr (0, K2\<lparr>k_ibuf := b2\<rparr>)))" by auto
  show ?thesis using client_read_loop_stays[OF b(2), of i fuel] b(1) assms(6,7) rd by simp
qed

theorem client_negative_length_hangs_witness:
  "client_do_read 1000 (connected_client () (router_new :: ((unit, unit) client_handler, unit) msg_router))
     (Some 8, [Rd (head_bytes \<lparr>h_id = 4, h_length = -8\<rparr>)]) = Inl No_return"
  using client_negative_length_hangs[of "connected_client () router_new" 4 1000]
  by (simp add: connected_client_ok in_int_def quiet_on_def router_call_new)

text \<open>
  A connection that is made before the owner could register its callbacks, that is within the
  constructor, reads the callback member that no one has set yet.
\<close>

lemma connect_in_constructor:
  "tcp_client_new this garbage a loop ((Some fd, Connect_ok) # net) = Inl Uninit_read"
  by (simp add: tcp_client_new_def do_connect_def connection_made_def call_slot_def)

lemma close_before_set:
  "k_close K = Uninit \<Longrightarrow> client_clean_conn K = Inl Uninit_read"
  by (simp add: client_clean_conn_def call_slot_def)

end
