(* ===== verification/Client_Loop.thy ===== *)
theory Client_Loop
  imports Tcp_Client
begin

text \<open>
  A TCP client in its event loop (reactor/src/tcp_client.cc): the three callbacks it registers and
  the states between which they move it. A client is connected, or waits for its connection to be
  made, or has given up. \<open>client_state\<close> ties these states to the loop's table: the read callback is
  registered exactly while the client is connected, the write callback exactly while there is
  output, so the assertions at the head of \<open>do_read\<close> and \<open>do_write\<close> hold whenever the loop calls them.
\<close>

section \<open>Callbacks\<close>

text \<open>The world of the loop: the client object, and the answers of the sockets, one per callback.\<close>

record ('a, 'u) client_world =
  cw_client :: "('a, 'u) tcp_client"
  cw_fuel :: "nat \<Rightarrow> nat"
  cw_rd :: "nat \<Rightarrow> nat option \<times> rd list"
  cw_wr :: "nat \<Rightarrow> wr list"
  cw_error :: "nat \<Rightarrow> int"
  cw_no :: nat
  cw_sent :: "byte list"

definition put_client :: "('a, 'u) client_world \<Rightarrow> byte list \<Rightarrow> ('a, 'u) tcp_client \<Rightarrow> event_loop \<times> ('a, 'u) client_world" where
  "put_client W sent K = (k_loop K, W\<lparr>cw_client := K, cw_no := Suc (cw_no W), cw_sent := cw_sent W @ sent\<rparr>)"

definition client_invoke :: "('a, 'u) client_world invoker" where
  "client_invoke cb f args s =
     (let W = snd s; n = cw_no W; K = (cw_client W)\<lparr>k_loop := fst s\<rparr> in
      case args of None \<Rightarrow> Inl Null_deref | Some a \<Rightarrow>
      res_bind (check Dangling (a = k_this K)) (\<lambda>_.
      case cb of
        client_read_callback \<Rightarrow> res_bind (client_do_read (cw_fuel W n) K (cw_rd W n)) (\<lambda>(_, K'). Inr (put_client W [] K'))
      | client_write_callback \<Rightarrow> res_bind (client_do_write K (cw_wr W n)) (\<lambda>(sent, K'). Inr (put_client W sent K'))
      | connection_delay \<Rightarrow> res_bind (client_connection_delay K (cw_error W n)) (\<lambda>K'. Inr (put_client W [] K'))
      | _ \<Rightarrow> Inl Null_deref))"

section \<open>Sending and the loop\<close>

text \<open>What any number of \<open>send_message\<close> calls do: output grows, and the write callback is registered with the first bytes.\<close>

definition armed_for :: "('a, 'u) tcp_client \<Rightarrow> io_buf \<Rightarrow> event_loop" where
  "armed_for K b = (if b_length (k_obuf K) = 0 \<and> b_length b \<noteq> 0
     then add_io_event (k_loop K) (k_fd K) client_write_callback EPOLLOUT (Some (k_this K)) else k_loop K)"

definition client_sends :: "('a, 'u) tcp_client \<Rightarrow> ('a, 'u) tcp_client \<Rightarrow> bool" where
  "client_sends K K' \<longleftrightarrow> (\<exists>b. out_ok b \<and> b_length (k_obuf K) \<le> b_length b \<and>
     (k_connected K \<or> b = k_obuf K) \<and> K' = K\<lparr>k_obuf := b, k_loop := armed_for K b\<rparr>)"

lemma client_sends_fields:
  assumes "client_sends K K'"
  shows "k_fd K' = k_fd K" "k_this K' = k_this K" "k_connected K' = k_connected K" "k_net K' = k_net K"
    "k_ibuf K' = k_ibuf K" "out_ok (k_obuf K')" "k_loop K' = armed_for K (k_obuf K')"
    "b_length (k_obuf K) \<le> b_length (k_obuf K')" "k_connected K \<or> k_obuf K' = k_obuf K"
  using assms by (auto simp: client_sends_def)

lemma client_sends_refl: "out_ok (k_obuf K) \<Longrightarrow> client_sends K K"
  by (cases K) (auto simp: client_sends_def armed_for_def)

lemma client_sends_trans:
  assumes "client_sends K K1" and "client_sends K1 K2" and "out_ok (k_obuf K)"
  shows "client_sends K K2"
proof -
  from assms(1) obtain b1 where b1: "out_ok b1" "b_length (k_obuf K) \<le> b_length b1" "k_connected K \<or> b1 = k_obuf K"
    "K1 = K\<lparr>k_obuf := b1, k_loop := armed_for K b1\<rparr>" by (auto simp: client_sends_def)
  from assms(2) b1(4) obtain b2 where b2: "out_ok b2" "b_length b1 \<le> b_length b2" "k_connected K \<or> b2 = b1"
    "K2 = K\<lparr>k_obuf := b2, k_loop := armed_for K1 b2\<rparr>" by (auto simp: client_sends_def)
  have "0 \<le> b_length (k_obuf K)" using assms(3) by (simp add: out_ok_def buf_ok_def)
  then have "armed_for K1 b2 = armed_for K b2" using b1 b2(2) by (auto simp: armed_for_def)
  then show ?thesis using b1 b2 unfolding client_sends_def by (intro exI[of _ b2]) auto
qed

lemma io_buf_append_out:
  assumes "out_ok b" and "io_buf_append b src n = Inr b'"
  shows "out_ok b'" and "b_length b' = b_length b + n" and "0 \<le> n"
proof -
  have n: "0 \<le> n" "b_length b + n \<le> b_capacity b" "n \<le> int (length src)"
    using assms by (auto simp: io_buf_append_def res_bind_Inr_iff c_memcpy_Inr_iff out_ok_def buf_ok_def)
  then show "out_ok b'" "b_length b' = b_length b + n" "0 \<le> n"
    using io_buf_append_spec[of b n src] assms by (auto simp: out_ok_def room_def)
qed

lemma client_send_sends:
  assumes "out_ok (k_obuf K)" and "client_send_message K req = Inr (r, K')"
  shows "client_sends K K'"
proof -
  obtain data n i where req: "req = (data, n, i)" by (cases req)
  show ?thesis
  proof (cases "k_connected K \<and> \<not> n + 8 > b_capacity (k_obuf K) - b_length (k_obuf K)")
    case False
    then have "client_send_message K req = Inr (-1, K) \<or>
        client_send_message K req = res_bind (check Int_overflow (in_int (n + 8))) (\<lambda>_. Inr (-1, K))"
      by (auto simp: client_send_message_def req MESSAGE_HEAD_LEN_def Let_def)
    then have "K' = K" using assms(2) by (cases "in_int (n + 8)") auto
    then show ?thesis using assms(1) by (simp add: client_sends_refl)
  next
    case True
    then have "client_send_message K req =
      res_bind (check Int_overflow (in_int (n + 8))) (\<lambda>_.
      res_bind (io_buf_append (k_obuf K) (head_bytes \<lparr>h_id = i, h_length = n\<rparr>) 8) (\<lambda>b1.
      res_bind (io_buf_append b1 data n) (\<lambda>b2.
        Inr (0, if b_length (k_obuf K) = 0
          then K\<lparr>k_obuf := b2, k_loop := add_io_event (k_loop K) (k_fd K) client_write_callback EPOLLOUT (Some (k_this K))\<rparr>
          else K\<lparr>k_obuf := b2\<rparr>))))"
      by (simp add: client_send_message_def req MESSAGE_HEAD_LEN_def Let_def cong: if_cong)
    with assms(2) obtain b1 b2 where
      b: "io_buf_append (k_obuf K) (head_bytes \<lparr>h_id = i, h_length = n\<rparr>) 8 = Inr b1" "io_buf_append b1 data n = Inr b2"
      and K': "(if b_length (k_obuf K) = 0
          then K\<lparr>k_obuf := b2, k_loop := add_io_event (k_loop K) (k_fd K) client_write_callback EPOLLOUT (Some (k_this K))\<rparr>
          else K\<lparr>k_obuf := b2\<rparr>) = K'"
      by (auto elim!: res_bindE)
    note b1 = io_buf_append_out[OF assms(1) b(1)]
    note b2 = io_buf_append_out[OF b1(1) b(2)]
    have "0 \<le> b_length (k_obuf K)" using assms(1) by (simp add: out_ok_def buf_ok_def)
    then have le: "b_length (k_obuf K) \<le> b_length b2" "b_length b2 \<noteq> 0" using b1(2) b2(2,3) by simp_all
    have "K\<lparr>k_obuf := b2, k_loop := armed_for K b2\<rparr> = K'" unfolding K'[symmetric] armed_for_def using le(2) by (cases K) simp
    then show ?thesis using b2(1) le(1) True unfolding client_sends_def by blast
  qed
qed

lemma client_send_all_sends:
  assumes "out_ok (k_obuf K)" and "client_send_all K reqs = Inr K'"
  shows "client_sends K K'"
  using assms
proof (induction reqs arbitrary: K)
  case Nil
  then show ?case by (simp add: client_send_all_def client_sends_refl)
next
  case (Cons req reqs)
  from Cons.prems(2) obtain r K1 where s: "client_send_message K req = Inr (r, K1)" and a: "client_send_all K1 reqs = Inr K'"
    by (auto simp: client_send_all_def res_bind_Inr_iff)
  note s1 = client_send_sends[OF Cons.prems(1) s]
  then have "out_ok (k_obuf K1)" by (rule client_sends_fields)
  from client_sends_trans[OF s1 Cons.IH[OF this a] Cons.prems(1)] show ?case .
qed

lemma call_slot_sends:
  assumes "out_ok (k_obuf K)" and "call_slot cb K = Inr K'"
  shows "\<exists>a. client_sends (K\<lparr>k_app := a\<rparr>) K'"
proof (cases cb)
  case Null
  have "K\<lparr>k_app := k_app K\<rparr> = K" by (cases K) simp
  then show ?thesis using Null assms client_sends_refl[of K] by (intro exI[of _ "k_app K"]) (simp add: call_slot_def)
next
  case (Callback f)
  with assms(2) obtain a reqs where "client_send_all (K\<lparr>k_app := a\<rparr>) reqs = Inr K'"
    by (auto simp: call_slot_def res_bind_Inr_iff)
  then show ?thesis using client_send_all_sends[of "K\<lparr>k_app := a\<rparr>"] assms(1) by auto
qed (use assms in \<open>simp add: call_slot_def\<close>)

section \<open>The states of a client\<close>

text \<open>Connected: listening for input, and for room to write exactly if \<open>unsent\<close>.\<close>

definition client_armed :: "('a, 'u) tcp_client \<Rightarrow> bool \<Rightarrow> bool" where
  "client_armed K unsent \<longleftrightarrow> (\<exists>ev. io_evs (k_loop K) (k_fd K) = Some ev \<and> bit (ev_mask ev) 0 \<and>
     read_callback ev = Some client_read_callback \<and> rcb_args ev = Some (k_this K) \<and> (bit (ev_mask ev) 2 \<longleftrightarrow> unsent) \<and>
     (unsent \<longrightarrow> write_callback ev = Some client_write_callback \<and> wcb_args ev = Some (k_this K)))"

text \<open>Not connected yet: listening for the outcome of \<open>connect\<close>.\<close>

definition client_waiting :: "('a, 'u) tcp_client \<Rightarrow> bool" where
  "client_waiting K \<longleftrightarrow> io_evs (k_loop K) (k_fd K) = Some (registered None connection_delay EPOLLOUT (Some (k_this K)))"

definition net_fds :: "('a, 'u) tcp_client \<Rightarrow> int set" where
  "net_fds K = {s. \<exists>c. (Some s, c) \<in> set (k_net K)}"

text \<open>The kernel hands out descriptors that are not in use.\<close>

definition client_base :: "('a, 'u) tcp_client \<Rightarrow> bool" where
  "client_base K \<longleftrightarrow> loop_inv (k_loop K) \<and> out_ok (k_obuf K) \<and> k_fd K \<noteq> -1 \<and>
     (\<forall>s \<in> net_fds K. s \<noteq> -1 \<and> (io_evs (k_loop K) s = None \<or> s = k_fd K))"

text \<open>In a state in which the client has an entry in the table; \<open>unsent\<close> as above.\<close>

definition client_live :: "('a, 'u) tcp_client \<Rightarrow> bool \<Rightarrow> bool" where
  "client_live K unsent \<longleftrightarrow> client_base K \<and> (if k_connected K then client_armed K unsent else client_waiting K)"

definition client_state :: "('a, 'u) tcp_client \<Rightarrow> bool" where
  "client_state K \<longleftrightarrow> client_live K (b_length (k_obuf K) \<noteq> 0) \<or>
     client_base K \<and> \<not> k_connected K \<and> io_evs (k_loop K) (k_fd K) = None"

text \<open>What an operation of the client leaves alone: entries of others; its own old descriptor is gone when it has a new one.\<close>

definition client_frame :: "('a, 'u) tcp_client \<Rightarrow> ('a, 'u) tcp_client \<Rightarrow> bool" where
  "client_frame K K' \<longleftrightarrow> k_this K' = k_this K \<and> net_fds K' \<subseteq> net_fds K \<and>
     (k_fd K' = k_fd K \<or> k_fd K' \<in> net_fds K \<and> io_evs (k_loop K) (k_fd K') = None) \<and>
     (\<forall>g. g \<noteq> k_fd K' \<longrightarrow> io_evs (k_loop K') g = (if g = k_fd K then None else io_evs (k_loop K) g))"

lemma client_frame_refl [simp]: "client_frame K K"
  by (simp add: client_frame_def)

lemma client_frame_trans:
  assumes "client_frame K K1" and "client_frame K1 K2"
  shows "client_frame K K2"
proof -
  note f = assms[unfolded client_frame_def]
  have "io_evs (k_loop K2) g = (if g = k_fd K then None else io_evs (k_loop K) g)" if "g \<noteq> k_fd K2" for g
    using f that by (cases "g = k_fd K1") auto
  moreover have "k_fd K2 = k_fd K \<or> k_fd K2 \<in> net_fds K \<and> io_evs (k_loop K) (k_fd K2) = None"
    using f by (cases "k_fd K2 = k_fd K1") (auto split: if_splits)
  ultimately show ?thesis using f unfolding client_frame_def by auto
qed

lemma net_fds_cong: "k_net K' = k_net K \<Longrightarrow> net_fds K' = net_fds K"
  by (simp add: net_fds_def)

lemma armed_for_spec:
  assumes "loop_inv (k_loop K)"
  shows "loop_inv (armed_for K b)"
    and "io_evs (armed_for K b) = (if b_length (k_obuf K) = 0 \<and> b_length b \<noteq> 0
      then (io_evs (k_loop K))(k_fd K \<mapsto> registered (io_evs (k_loop K) (k_fd K)) client_write_callback EPOLLOUT (Some (k_this K)))
      else io_evs (k_loop K))"
  using add_io_event_spec[OF assms, of EPOLLOUT] assms by (simp_all add: armed_for_def rw_mask_def)

lemma client_frame_sends:
  assumes "client_sends K K'" and "loop_inv (k_loop K)"
  shows "client_frame K K'" and "loop_inv (k_loop K')" and "client_base K \<Longrightarrow> client_base K'"
proof -
  note f = client_sends_fields[OF assms(1)] and a = armed_for_spec[OF assms(2)]
  have o: "io_evs (k_loop K') g = io_evs (k_loop K) g" if "g \<noteq> k_fd K" for g using that unfolding f(7) a(2) by simp
  show "client_frame K K'" "loop_inv (k_loop K')"
    using f a(1) o net_fds_cong[OF f(4)] by (auto simp: client_frame_def)
  then show "client_base K \<Longrightarrow> client_base K'" using f o net_fds_cong[OF f(4)] by (auto simp: client_base_def)
qed

text \<open>A connected client that sends stays connected and armed.\<close>

lemma armed_sends:
  assumes "client_sends K K'" and "loop_inv (k_loop K)" and "client_armed K (b_length (k_obuf K) \<noteq> 0)" and "out_ok (k_obuf K)"
  shows "client_armed K' (b_length (k_obuf K') \<noteq> 0)"
proof -
  note f = client_sends_fields[OF assms(1)] and a = armed_for_spec[OF assms(2)]
  have "0 \<le> b_length (k_obuf K)" using assms(4) by (simp add: out_ok_def buf_ok_def)
  moreover from assms(3) obtain ev where "io_evs (k_loop K) (k_fd K) = Some ev" "bit (ev_mask ev) 0"
    "read_callback ev = Some client_read_callback" "rcb_args ev = Some (k_this K)"
    "bit (ev_mask ev) 2 \<longleftrightarrow> b_length (k_obuf K) \<noteq> 0"
    "b_length (k_obuf K) \<noteq> 0 \<longrightarrow> write_callback ev = Some client_write_callback \<and> wcb_args ev = Some (k_this K)"
    unfolding client_armed_def by blast
  ultimately show ?thesis
    unfolding client_armed_def f(1,2,7) a(2) using f(8)
    by (auto simp: registered_def Let_def bit_or_iff bit_epoll)
qed

section \<open>Connecting\<close>

lemma connection_made_spec:
  assumes B: "client_base K" and n: "io_evs (k_loop K) (k_fd K) = None" and c: "connection_made K = Inr K'"
  shows "client_live K' (b_length (k_obuf K') \<noteq> 0) \<and> k_connected K' \<and> client_frame K K' \<and>
    b_length (k_obuf K) \<le> b_length (k_obuf K')"
proof -
  have L: "loop_inv (k_loop K)" and o: "out_ok (k_obuf K)" using B by (simp_all add: client_base_def)
  from c obtain K1 where s: "call_slot (k_start K) (K\<lparr>k_connected := True\<rparr>) = Inr K1"
    and K': "K' = K1\<lparr>k_loop := (let l1 = add_io_event (k_loop K1) (k_fd K1) client_read_callback EPOLLIN (Some (k_this K1)) in
        if b_length (k_obuf K1) \<noteq> 0
        then add_io_event l1 (k_fd K1) client_write_callback EPOLLOUT (Some (k_this K1)) else l1)\<rparr>"
    by (auto simp: connection_made_def Let_def elim!: res_bindE)
  from call_slot_sends[OF _ s] o obtain a where sn: "client_sends (K\<lparr>k_connected := True, k_app := a\<rparr>) K1" by auto
  let ?K0 = "K\<lparr>k_connected := True, k_app := a\<rparr>"
  have L0: "loop_inv (k_loop ?K0)" using L by simp
  note f = client_sends_fields[OF sn, simplified] and ar = armed_for_spec[OF L0, of "k_obuf K1"]
  have L1: "loop_inv (k_loop K1)" unfolding f(7) by (rule ar(1))
  let ?l1 = "add_io_event (k_loop K1) (k_fd K) client_read_callback EPOLLIN (Some (k_this K))"
  have l1: "loop_inv ?l1" "io_evs ?l1 = (io_evs (k_loop K1))(k_fd K \<mapsto> registered (io_evs (k_loop K1) (k_fd K)) client_read_callback EPOLLIN (Some (k_this K)))"
    using add_io_event_spec[OF L1, of EPOLLIN] by (simp_all add: rw_mask_def)
  have l2: "loop_inv (k_loop K')" "io_evs (k_loop K') = (if b_length (k_obuf K1) \<noteq> 0
      then (io_evs ?l1)(k_fd K \<mapsto> registered (io_evs ?l1 (k_fd K)) client_write_callback EPOLLOUT (Some (k_this K))) else io_evs ?l1)"
    using add_io_event_spec[OF l1(1), of EPOLLOUT] l1(1) f(1,2) by (simp_all add: K' Let_def rw_mask_def)
  have fl: "k_fd K' = k_fd K" "k_this K' = k_this K" "k_net K' = k_net K" "k_obuf K' = k_obuf K1" "k_connected K'"
    using f by (simp_all add: K')
  have e1: "io_evs (k_loop K1) = (io_evs (k_loop K))(k_fd K := (if b_length (k_obuf K) = 0 \<and> b_length (k_obuf K1) \<noteq> 0
      then Some (registered None client_write_callback EPOLLOUT (Some (k_this K))) else None))"
    unfolding f(7) ar(2) using n by (auto simp: fun_eq_iff)
  have og: "io_evs (k_loop K') g = io_evs (k_loop K) g" if "g \<noteq> k_fd K" for g
    using that unfolding l2(2) l1(2) e1 by simp
  have "client_armed K' (b_length (k_obuf K1) \<noteq> 0)"
    unfolding client_armed_def l2(2) l1(2) fl e1
    by (auto simp: registered_def io_event_new_def Let_def bit_or_iff bit_epoll)
  moreover have "client_base K'" using B l2(1) og f(6) fl net_fds_cong[OF fl(3)] unfolding client_base_def by auto
  moreover have "client_frame K K'" using og fl net_fds_cong[OF fl(3)] by (auto simp: client_frame_def)
  ultimately show ?thesis using fl f(8) by (simp add: client_live_def)
qed

lemma do_connect_spec:
  assumes B: "client_base K" and n: "io_evs (k_loop K) (k_fd K) = None" and nc: "\<not> k_connected K" and c: "do_connect K = Inr K'"
  shows "client_live K' (b_length (k_obuf K') \<noteq> 0) \<and> client_frame K K' \<and> b_length (k_obuf K) \<le> b_length (k_obuf K')"
proof -
  have fd: "k_fd K \<noteq> -1" using B by (simp add: client_base_def)
  with c obtain s ans rest where net: "k_net K = (Some s, ans) # rest" and ans: "ans \<noteq> Connect_failed"
    by (auto simp: do_connect_def Let_def split: list.splits option.splits prod.splits connect_answer.splits if_splits)
  let ?K1 = "K\<lparr>k_fd := s, k_net := rest\<rparr>"
  have nf: "net_fds ?K1 \<subseteq> net_fds K" "s \<in> net_fds K" by (auto simp: net_fds_def net)
  then have es: "io_evs (k_loop K) s = None" "s \<noteq> -1" using B n unfolding client_base_def by auto
  have gone: "io_evs (k_loop K) g = None" if "g \<in> net_fds K" for g using that B n unfolding client_base_def by auto
  then have B1: "client_base ?K1" using B nf es unfolding client_base_def by auto
  have f1: "client_frame K ?K1" using nf es n by (auto simp: client_frame_def)
  show ?thesis
  proof (cases ans)
    case Connect_ok
    then have "connection_made ?K1 = Inr K'" using c fd net by (simp add: do_connect_def)
    from connection_made_spec[OF B1 _ this] es show ?thesis using client_frame_trans[OF f1] by auto
  next
    case Connect_EINPROGRESS
    then have K': "K' = ?K1\<lparr>k_loop := add_io_event (k_loop K) s connection_delay EPOLLOUT (Some (k_this K))\<rparr>"
      using c fd net by (simp add: do_connect_def)
    have L: "loop_inv (k_loop K)" using B by (simp add: client_base_def)
    have l: "loop_inv (k_loop K')" "io_evs (k_loop K') = (io_evs (k_loop K))(s \<mapsto> registered None connection_delay EPOLLOUT (Some (k_this K)))"
      using add_io_event_spec[OF L, of EPOLLOUT s] es by (simp_all add: K' rw_mask_def)
    have nn: "net_fds K' = net_fds ?K1" by (simp add: net_fds_def K')
    have "client_base K'" using B1 l gone nf unfolding client_base_def nn by (auto simp: K')
    moreover have "client_frame K K'" using l nf es n unfolding client_frame_def nn by (auto simp: K')
    ultimately show ?thesis using l nc by (simp add: client_live_def client_waiting_def K')
  qed (use ans in simp)
qed

lemma base_live: "client_live K u \<Longrightarrow> client_base K \<and> k_fd K \<in> dom (io_evs (k_loop K))"
  by (auto simp: client_live_def client_armed_def client_waiting_def split: if_splits)

lemma client_del_spec:
  assumes "client_base K" and "k_fd K \<in> dom (io_evs (k_loop K))"
  shows "client_base (K\<lparr>k_loop := del_io_event (k_loop K) (k_fd K)\<rparr>) \<and>
    io_evs (del_io_event (k_loop K) (k_fd K)) (k_fd K) = None \<and>
    client_frame K (K\<lparr>k_loop := del_io_event (k_loop K) (k_fd K)\<rparr>)"
proof -
  have L: "loop_inv (k_loop K)" using assms(1) by (simp add: client_base_def)
  note d = del_io_event_spec[OF L assms(2)]
  have nn: "net_fds (K\<lparr>k_loop := x\<rparr>) = net_fds K" for x by (simp add: net_fds_def)
  show ?thesis using assms(1) d unfolding client_base_def client_frame_def nn by auto
qed

lemma client_clean_conn_spec:
  assumes B: "client_base K" "k_fd K \<in> dom (io_evs (k_loop K))" and c: "client_clean_conn K = Inr K'"
  shows "client_live K' (b_length (k_obuf K') \<noteq> 0) \<and> client_frame K K' \<and> b_length (k_obuf K) \<le> b_length (k_obuf K')"
proof -
  let ?K1 = "K\<lparr>k_loop := del_io_event (k_loop K) (k_fd K)\<rparr>"
  note d = client_del_spec[OF B]
  have "k_fd K \<noteq> -1" using B by (simp add: client_base_def)
  with c obtain K2 where s: "call_slot (k_close K) (?K1\<lparr>k_connected := False\<rparr>) = Inr K2" and dc: "do_connect K2 = Inr K'"
    by (auto simp: client_clean_conn_def Let_def elim!: res_bindE)
  have "out_ok (k_obuf (?K1\<lparr>k_connected := False\<rparr>))" using B by (simp add: client_base_def)
  from call_slot_sends[OF this s] obtain a where sn: "client_sends (?K1\<lparr>k_connected := False, k_app := a\<rparr>) K2" by auto
  then have K2: "K2 = ?K1\<lparr>k_connected := False, k_app := a\<rparr>" by (cases K) (auto simp: client_sends_def armed_for_def)
  have nn: "net_fds (K\<lparr>k_loop := x, k_connected := b, k_app := a\<rparr>) = net_fds K" for x b by (simp add: net_fds_def)
  have nn': "net_fds (K\<lparr>k_loop := x\<rparr>) = net_fds K" for x by (simp add: net_fds_def)
  have B2: "client_base K2" "client_frame K K2" using d unfolding K2 client_base_def client_frame_def nn nn' by auto
  from do_connect_spec[OF B2(1) _ _ dc] d K2 show ?thesis using client_frame_trans[OF B2(2)] by auto
qed

lemma connection_delay_spec:
  assumes S: "client_live K u" and c: "client_connection_delay K e = Inr K'"
  shows "client_frame K K' \<and>
    (if e = 0 then client_live K' (b_length (k_obuf K') \<noteq> 0) \<and> k_connected K'
     else client_base K' \<and> io_evs (k_loop K') (k_fd K') = None \<and> k_connected K' = k_connected K)"
proof -
  let ?K1 = "K\<lparr>k_loop := del_io_event (k_loop K) (k_fd K)\<rparr>"
  have "client_base K" "k_fd K \<in> dom (io_evs (k_loop K))" using base_live[OF S] by simp_all
  note d = client_del_spec[OF this]
  show ?thesis
  proof (cases "e = 0")
    case True
    then have "connection_made ?K1 = Inr K'" using c by (simp add: client_connection_delay_def)
    from connection_made_spec[OF _ _ this] d True client_frame_trans[of K ?K1 K'] show ?thesis by auto
  next
    case False
    then show ?thesis using c d by (auto simp: client_connection_delay_def)
  qed
qed

section \<open>Reading and writing\<close>

lemma live_obuf:
  assumes "client_live K u" and "out_ok b"
  shows "client_live (K\<lparr>k_obuf := b\<rparr>) u" and "client_frame K (K\<lparr>k_obuf := b\<rparr>)"
  using assms by (auto simp: client_live_def client_base_def client_armed_def client_waiting_def client_frame_def net_fds_def)

lemma live_ibuf [simp]:
  "client_live (K\<lparr>k_ibuf := b\<rparr>) u = client_live K u" "client_frame K (K\<lparr>k_ibuf := b\<rparr>)"
  by (auto simp: client_live_def client_base_def client_armed_def client_waiting_def client_frame_def net_fds_def)

lemma live_app [simp]:
  "client_live (K\<lparr>k_app := a\<rparr>) u = client_live K u" "client_frame K (K\<lparr>k_app := a\<rparr>)"
  by (auto simp: client_live_def client_base_def client_armed_def client_waiting_def client_frame_def net_fds_def)

lemma client_dispatch_spec:
  assumes S: "client_live K (b_length (k_obuf K) \<noteq> 0)" "k_connected K" and d: "client_dispatch K i n xs = Inr K'"
  shows "client_live K' (b_length (k_obuf K') \<noteq> 0) \<and> k_connected K' \<and> client_frame K K'"
proof (cases "router_call (k_router K) i")
  case None
  then show ?thesis using S d by (simp add: client_dispatch_def)
next
  case (Some hu)
  then obtain a reqs where s: "client_send_all (K\<lparr>k_app := a\<rparr>) reqs = Inr K'"
    using d by (cases hu) (auto simp: client_dispatch_def elim!: res_bindE)
  let ?K = "K\<lparr>k_app := a\<rparr>"
  have "client_live ?K (b_length (k_obuf ?K) \<noteq> 0)" "k_connected ?K" using S by simp_all
  then have B: "client_base ?K" "client_armed ?K (b_length (k_obuf ?K) \<noteq> 0)"
    unfolding client_live_def by presburger+
  then have L: "loop_inv (k_loop ?K)" "out_ok (k_obuf ?K)" by (simp_all add: client_base_def)
  note sn = client_send_all_sends[OF L(2) s]
  have "client_live K' (b_length (k_obuf K') \<noteq> 0)" "k_connected K'"
    using armed_sends[OF sn L(1) B(2) L(2)] client_frame_sends(3)[OF sn L(1) B(1)] client_sends_fields(3)[OF sn] S(2)
    by (simp_all add: client_live_def)
  then show ?thesis using client_frame_trans[OF live_app(2) client_frame_sends(1)[OF sn L(1)]] by simp
qed

lemma client_read_loop_live:
  assumes "client_live K (b_length (k_obuf K) \<noteq> 0)" and "k_connected K" and "client_read_loop n K = Inr K'"
  shows "client_live K' (b_length (k_obuf K') \<noteq> 0) \<and> k_connected K' \<and> client_frame K K'"
  using assms
proof (induction n arbitrary: K)
  case (Suc n)
  show ?case
  proof (cases "b_length (k_ibuf K) < 8")
    case True
    then show ?thesis using Suc.prems by (simp add: MESSAGE_HEAD_LEN_def)
  next
    case False
    with Suc.prems(3) obtain b1 i len xs K2 b3 where d: "client_dispatch (K\<lparr>k_ibuf := b1\<rparr>) i len xs = Inr K2"
      and r: "client_read_loop n (K2\<lparr>k_ibuf := b3\<rparr>) = Inr K'"
      by (auto simp: MESSAGE_HEAD_LEN_def Let_def elim!: res_bindE)
    have d': "client_live K2 (b_length (k_obuf K2) \<noteq> 0)" "k_connected K2" "client_frame (K\<lparr>k_ibuf := b1\<rparr>) K2"
      using client_dispatch_spec[OF _ _ d] Suc.prems(1,2) by auto
    have "client_live K' (b_length (k_obuf K') \<noteq> 0) \<and> k_connected K' \<and> client_frame (K2\<lparr>k_ibuf := b3\<rparr>) K'"
      using Suc.IH[OF _ _ r] d' by simp
    then show ?thesis
      using client_frame_trans[OF live_ibuf(2) client_frame_trans[OF d'(3) client_frame_trans[OF live_ibuf(2)]]] by blast
  qed
qed simp

lemma client_do_read_live:
  assumes S: "client_live K (b_length (k_obuf K) \<noteq> 0)" "k_connected K" and r: "client_do_read fuel K io = Inr (ret, K')"
  shows "client_live K' (b_length (k_obuf K') \<noteq> 0) \<and> client_frame K K'"
proof -
  have B: "client_base K" "k_fd K \<in> dom (io_evs (k_loop K))" using base_live[OF S(1)] by simp_all
  show ?thesis
  proof (cases "fst io")
    case None
    then show ?thesis using S r by (simp add: client_do_read_def)
  next
    case (Some need)
    with r S(2) obtain x where x: "(case x of
           Rd_err e \<Rightarrow> res_bind (client_clean_conn K) (\<lambda>K'. Inr (-1, K'))
         | Rd bs \<Rightarrow>
             if bs = [] then res_bind (client_clean_conn K) (\<lambda>K'. Inr (-1, K')) else
             res_bind (io_buf_append (k_ibuf K) bs (int (length bs))) (\<lambda>b.
             res_bind (check Assert_failed (length bs = need)) (\<lambda>_.
             res_bind (client_read_loop fuel (K\<lparr>k_ibuf := b\<rparr>)) (\<lambda>K2.
             res_bind (io_buf_adjust (k_ibuf K2)) (\<lambda>b2. Inr (0, K2\<lparr>k_ibuf := b2\<rparr>)))))) = Inr (ret, K')"
      by (auto simp: client_do_read_def elim!: res_bindE)
    then consider (clean) "client_clean_conn K = Inr K'"
      | (read) b K2 b2 where "client_read_loop fuel (K\<lparr>k_ibuf := b\<rparr>) = Inr K2" "K' = K2\<lparr>k_ibuf := b2\<rparr>"
      by (cases x) (auto elim!: res_bindE split: if_splits)
    then show ?thesis
    proof cases
      case clean
      then show ?thesis using client_clean_conn_spec[OF B] by blast
    next
      case read
      have "client_live (K\<lparr>k_ibuf := b\<rparr>) (b_length (k_obuf (K\<lparr>k_ibuf := b\<rparr>)) \<noteq> 0)" using S(1) by simp
      from client_read_loop_live[OF this _ read(1)] S(2)
      have "client_live K2 (b_length (k_obuf K2) \<noteq> 0)" "client_frame (K\<lparr>k_ibuf := b\<rparr>) K2" by auto
      then show ?thesis
        using read(2) client_frame_trans[OF live_ibuf(2) client_frame_trans[OF _ live_ibuf(2)]] by simp
    qed
  qed
qed

lemma client_write_loop_live:
  assumes "client_live K True" and "client_write_loop K ws = Inr (sent, K')"
  shows "client_live K' True \<and> client_frame K K'"
  using assms
proof (induction ws arbitrary: K sent)
  case Nil
  then show ?case by (auto simp: client_write_loop.simps[of K "[]"] split: if_splits)
next
  case (Cons w ws)
  have B: "client_base K" "k_fd K \<in> dom (io_evs (k_loop K))" using base_live[OF Cons.prems(1)] by simp_all
  then have o: "buf_ok (k_obuf K)" by (simp add: client_base_def out_ok_def)
  note step = Cons.prems(2)[unfolded client_write_loop.simps[of K "w # ws"]]
  show ?case
  proof (cases "b_length (k_obuf K) = 0 \<or> w = Wr_err EAGAIN \<or> w = Wr 0")
    case True
    then show ?thesis using step Cons.prems(1) by (auto split: if_splits)
  next
    case go: False
    show ?thesis
    proof (cases w)
      case (Wr_err e)
      show ?thesis
      proof (cases e)
        case EINTR
        then show ?thesis using Cons.IH[OF Cons.prems(1)] step Wr_err go by simp
      next
        case EAGAIN
        then show ?thesis using go Wr_err by simp
      next
        case EOTHER
        with step Wr_err go obtain K1 where c: "client_clean_conn K = Inr K1" and r: "client_write_loop K1 ws = Inr (sent, K')"
          by (auto elim!: res_bindE)
        from client_clean_conn_spec[OF B c] have c1: "client_live K1 (b_length (k_obuf K1) \<noteq> 0)" "client_frame K K1"
          "b_length (k_obuf K) \<le> b_length (k_obuf K1)" by auto
        have "0 \<le> b_length (k_obuf K)" using o by (simp add: buf_ok_def)
        then have "b_length (k_obuf K1) \<noteq> 0" using c1(3) go by simp
        then show ?thesis using Cons.IH[OF _ r] c1 client_frame_trans[OF c1(2)] by simp
      qed
    next
      case (Wr k)
      define n where "n = min k (nat (b_length (k_obuf K)))"
      have n: "n \<noteq> 0" using go Wr o by (auto simp: buf_ok_def n_def)
      have "int n \<le> b_length (k_obuf K)" using o unfolding buf_ok_def n_def by linarith
      from io_buf_pop_spec[OF o _ this] obtain b1 where b1: "io_buf_pop (k_obuf K) (int n) = Inr b1" "buf_ok b1" by auto
      from io_buf_adjust_spec[OF b1(2)] obtain b2 where b2: "io_buf_adjust b1 = Inr b2" "buf_ok b2" "b_head b2 = 0" by auto
      from step go Wr n b1(1) b2(1) obtain sent' where r: "client_write_loop (K\<lparr>k_obuf := b2\<rparr>) ws = Inr (sent', K')"
        by (auto simp: Let_def res_bind_Inr_iff n_def[symmetric])
      have ob: "out_ok b2" using b2 by (simp add: out_ok_def)
      from Cons.IH[OF live_obuf(1)[OF Cons.prems(1) ob] r] show ?thesis
        using client_frame_trans[OF live_obuf(2)[OF Cons.prems(1) ob]] by blast
    qed
  qed
qed

lemma client_do_write_state:
  assumes S: "client_live K True" and r: "client_do_write K ws = Inr (sent, K')"
  shows "client_state K' \<and> client_frame K K'"
proof -
  from r obtain K1 where w: "client_write_loop K ws = Inr (sent, K1)"
    and K': "K' = (if b_length (k_obuf K1) = 0 then K1\<lparr>k_loop := del_io_event_mask (k_loop K1) (k_fd K1) EPOLLOUT\<rparr> else K1)"
    by (auto simp: client_do_write_def elim!: res_bindE)
  from client_write_loop_live[OF S w] have L: "client_live K1 True" and f: "client_frame K K1" by simp_all
  show ?thesis
  proof (cases "b_length (k_obuf K1) = 0")
    case False
    then show ?thesis using K' L f by (simp add: client_state_def)
  next
    case True
    let ?l = "del_io_event_mask (k_loop K1) (k_fd K1) EPOLLOUT"
    have B: "client_base K1" "loop_inv (k_loop K1)" using base_live[OF L] by (simp_all add: client_base_def)
    have rw: "rw_mask EPOLLOUT" by (simp add: rw_mask_def)
    note d = del_io_event_mask_spec[OF B(2) rw, of "k_fd K1"]
    have K'l: "K' = K1\<lparr>k_loop := ?l\<rparr>" using K' True by simp
    have nn: "net_fds (K1\<lparr>k_loop := ?l\<rparr>) = net_fds K1" by (simp add: net_fds_def)
    have og: "io_evs ?l g = io_evs (k_loop K1) g" if "g \<noteq> k_fd K1" for g using d that by simp
    have B': "client_base K'" "client_frame K1 K'" using B(1) d og unfolding K'l client_base_def client_frame_def nn by auto
    show ?thesis
    proof (cases "k_connected K1")
      case True
      then obtain ev where ev: "io_evs (k_loop K1) (k_fd K1) = Some ev" "bit (ev_mask ev) 0"
        "read_callback ev = Some client_read_callback" "rcb_args ev = Some (k_this K1)"
        using L by (auto simp: client_live_def client_armed_def)
      have nz: "ev_mask ev AND NOT EPOLLOUT \<noteq> 0" using ev(2) by (auto simp: and_not_zero bit_epoll)
      have "client_armed K' False" unfolding client_armed_def
        using d ev nz by (simp add: K'l bit_and_iff bit_not_iff bit_epoll)
      then show ?thesis using B' True \<open>b_length (k_obuf K1) = 0\<close> client_frame_trans[OF f B'(2)]
        by (simp add: client_state_def client_live_def K'l)
    next
      case False
      then have "io_evs (k_loop K1) (k_fd K1) = Some (registered None connection_delay EPOLLOUT (Some (k_this K1)))"
        using L by (simp add: client_live_def client_waiting_def)
      moreover have "ev_mask (registered None connection_delay EPOLLOUT (Some (k_this K1))) AND NOT EPOLLOUT = 0"
        by (simp add: registered_def io_event_new_def Let_def)
      ultimately have "io_evs ?l (k_fd K1) = None" using d by simp
      then show ?thesis using B' False client_frame_trans[OF f B'(2)] by (simp add: client_state_def K'l)
    qed
  qed
qed

section \<open>All callbacks of a client\<close>

text \<open>A loop that serves one client and nothing else.\<close>

definition client_good :: "event_loop \<times> ('a, 'u) client_world \<Rightarrow> bool" where
  "client_good s \<longleftrightarrow> client_state ((cw_client (snd s))\<lparr>k_loop := fst s\<rparr>) \<and>
     dom (io_evs (fst s)) \<subseteq> {k_fd (cw_client (snd s))}"

text \<open>What the table holds for a client, state by state.\<close>

lemma client_entry:
  assumes S: "client_state K" and e: "entry (k_loop K) cb (k_fd K) args"
  shows "args = Some (k_this K) \<and> client_live K (b_length (k_obuf K) \<noteq> 0) \<and>
    (cb = client_read_callback \<and> k_connected K \<or>
     cb = client_write_callback \<and> k_connected K \<and> b_length (k_obuf K) \<noteq> 0 \<or>
     cb = connection_delay \<and> \<not> k_connected K)"
proof -
  from e have "k_fd K \<in> dom (io_evs (k_loop K))" by (auto simp: entry_def)
  then have L: "client_live K (b_length (k_obuf K) \<noteq> 0)" using S by (auto simp: client_state_def)
  show ?thesis
  proof (cases "k_connected K")
    case True
    then show ?thesis using L e by (auto simp: client_live_def client_armed_def entry_def)
  next
    case False
    then show ?thesis using L e
      by (auto simp: client_live_def client_waiting_def entry_def registered_def io_event_new_def Let_def)
  qed
qed

lemma client_good_put:
  assumes g: "client_good (l, W)" and S: "client_state K'" and f: "client_frame ((cw_client W)\<lparr>k_loop := l\<rparr>) K'"
  shows "client_good (put_client W sent K')"
proof -
  have d: "dom (io_evs l) \<subseteq> {k_fd (cw_client W)}" using g by (simp add: client_good_def)
  have "io_evs (k_loop K') g = None" if "g \<noteq> k_fd K'" for g
    using f d that unfolding client_frame_def by auto
  then have "dom (io_evs (k_loop K')) \<subseteq> {k_fd K'}" by (metis domIff insertI1 subsetI)
  moreover have "K'\<lparr>k_loop := k_loop K'\<rparr> = K'" by (cases K') simp
  ultimately show ?thesis using S by (simp add: client_good_def put_client_def)
qed

text \<open>Each callback leads from a state of a client to another and leaves the entries of others alone.\<close>

lemma client_invoke_state:
  assumes S: "client_state ((cw_client W)\<lparr>k_loop := l\<rparr>)" and e: "entry l cb (k_fd (cw_client W)) args"
    and i: "client_invoke cb f args (l, W) = Inr s'"
  shows "\<exists>sent K'. s' = put_client W sent K' \<and> client_state K' \<and> client_frame ((cw_client W)\<lparr>k_loop := l\<rparr>) K'"
proof -
  let ?K = "(cw_client W)\<lparr>k_loop := l\<rparr>" and ?n = "cw_no W"
  from client_entry[OF S, of cb args] e have a: "args = Some (k_this ?K)" and L: "client_live ?K (b_length (k_obuf ?K) \<noteq> 0)"
    and c: "cb = client_read_callback \<and> k_connected ?K \<or>
     cb = client_write_callback \<and> k_connected ?K \<and> b_length (k_obuf ?K) \<noteq> 0 \<or> cb = connection_delay \<and> \<not> k_connected ?K" by auto
  from c show ?thesis
  proof (elim disjE conjE)
    assume cb: "cb = client_read_callback" and k: "k_connected ?K"
    then obtain ret K' where r: "client_do_read (cw_fuel W ?n) ?K (cw_rd W ?n) = Inr (ret, K')" and s': "s' = put_client W [] K'"
      using i a by (auto simp: client_invoke_def Let_def elim!: res_bindE)
    from client_do_read_live[OF L k r] show ?thesis using s' by (auto simp: client_state_def)
  next
    assume cb: "cb = client_write_callback" and b: "b_length (k_obuf ?K) \<noteq> 0"
    then obtain sent K' where r: "client_do_write ?K (cw_wr W ?n) = Inr (sent, K')" and s': "s' = put_client W sent K'"
      using i a by (auto simp: client_invoke_def Let_def elim!: res_bindE)
    have "client_live ?K True" using L b by simp
    from client_do_write_state[OF this r] show ?thesis using s' by blast
  next
    assume cb: "cb = connection_delay" and nk: "\<not> k_connected ?K"
    then obtain K' where r: "client_connection_delay ?K (cw_error W ?n) = Inr K'" and s': "s' = put_client W [] K'"
      using i a by (auto simp: client_invoke_def Let_def elim!: res_bindE)
    from connection_delay_spec[OF L r] nk have "client_state K'" "client_frame ?K K'"
      by (auto simp: client_state_def split: if_splits)
    then show ?thesis using s' by blast
  qed
qed

lemma client_invoke_law:
  assumes g: "client_good (l, W)" and e: "entry l cb f args" and i: "client_invoke cb f args (l, W) = Inr s'"
  shows "client_good s'"
proof -
  have "f = k_fd (cw_client W)" using g e by (auto simp: client_good_def entry_def)
  with client_invoke_state[OF _ _ i] g e show ?thesis using client_good_put[OF g] by (auto simp: client_good_def)
qed

text \<open>Messages that are sent outside the client's own callbacks.\<close>

lemma client_state_sends:
  assumes "client_state K" and "client_sends K K'"
  shows "client_state K' \<and> client_frame K K'"
proof -
  have B: "client_base K" using assms(1) by (auto simp: client_state_def client_live_def)
  then have o: "out_ok (k_obuf K)" and L: "loop_inv (k_loop K)" by (simp_all add: client_base_def)
  note f = client_sends_fields[OF assms(2)] and fr = client_frame_sends[OF assms(2) L]
  show ?thesis
  proof (cases "k_connected K")
    case True
    then have "client_armed K (b_length (k_obuf K) \<noteq> 0)" using assms(1) by (auto simp: client_state_def client_live_def)
    from armed_sends[OF assms(2) L this o] show ?thesis using fr(1) fr(3)[OF B] f(3) True by (simp add: client_state_def client_live_def)
  next
    case False
    then have "k_obuf K' = k_obuf K" "k_loop K' = k_loop K" using f(7,9) by (auto simp: armed_for_def)
    then show ?thesis using assms(1) fr(1) fr(3)[OF B] f(1-3) False
      by (auto simp: client_state_def client_live_def client_waiting_def)
  qed
qed

interpretation cl: loop_callbacks "client_invoke :: ('a, 'u) client_world invoker" client_good
proof
  show "loop_inv (fst s)" if "client_good s" for s :: "event_loop \<times> ('a, 'u) client_world"
    using that by (auto simp: client_good_def client_state_def client_live_def client_base_def)
  show "client_good s' \<and> (\<forall>g. g \<noteq> f \<longrightarrow> g \<in> dom (io_evs (fst s)) \<longrightarrow> io_evs (fst s') g = io_evs (fst s) g)"
    if "client_good s" "entry (fst s) cb f a" "client_invoke cb f a s = Inr s'" for s s' :: "event_loop \<times> ('a, 'u) client_world" and cb f a
  proof -
    have "f = k_fd (cw_client (snd s))" using that(1,2) by (auto simp: client_good_def entry_def)
    then have "g = f" if "g \<in> dom (io_evs (fst s))" for g using that \<open>client_good s\<close> by (auto simp: client_good_def)
    then show ?thesis using client_invoke_law[of "fst s" "snd s" cb f a s'] that by auto
  qed
qed

text \<open>Any number of events that the kernel may report, in any order.\<close>

inductive client_run :: "event_loop \<times> ('a, 'u) client_world \<Rightarrow> event_loop \<times> ('a, 'u) client_world \<Rightarrow> bool" where
  start: "client_run s s"
| event: "client_run s t \<Longrightarrow> reported (fst t) fe \<Longrightarrow> dispatch_one client_invoke t fe = Inr t' \<Longrightarrow> client_run s t'"

lemma client_run_good: "client_run s t \<Longrightarrow> client_good s \<Longrightarrow> client_good t"
proof (induction rule: client_run.induct)
  case (event s t fe t')
  then have g: "client_good t" by simp
  obtain f ev where fe: "fe = (f, ev)" by (cases fe)
  from cl.dispatch_one_safe[OF g] event.hyps(2,3) fe show ?case
    using client_invoke_law[of "fst t" "snd t"] g by fastforce
qed simp

text \<open>A client that has been constructed while its connection is under way, with its callbacks set.\<close>

lemma client_new_good:
  assumes n: "tcp_client_new this garbage a (event_loop_new (\<lambda>_. True)) ((Some fd, Connect_EINPROGRESS) # net) = Inr K"
    and fds: "fd \<noteq> -1" "\<forall>s c. (Some s, c) \<in> set net \<longrightarrow> s \<noteq> -1"
    and W: "cw_client W = K\<lparr>k_start := st, k_close := cl, k_router := router\<rparr>"
  shows "client_good (k_loop K, W)"
proof -
  let ?l = "event_loop_new (\<lambda>_. True)"
  have L: "loop_inv ?l" by (simp add: loop_inv_new)
  have e: "io_evs ?l = Map.empty" by (simp add: event_loop_new_def)
  have K: "k_fd K = fd" "k_net K = net" "\<not> k_connected K" "k_obuf K = io_buf_new (snd garbage) 4194304" "k_this K = this"
    "k_loop K = add_io_event ?l fd connection_delay EPOLLOUT (Some this)"
    using n by (auto simp: tcp_client_new_def do_connect_def)
  have l: "loop_inv (k_loop K)" "io_evs (k_loop K) = [fd \<mapsto> registered None connection_delay EPOLLOUT (Some this)]"
    using add_io_event_spec[OF L, of EPOLLOUT] e K(6) by (simp_all add: rw_mask_def)
  let ?K = "K\<lparr>k_start := st, k_close := cl, k_router := router, k_loop := k_loop K\<rparr>"
  have nf: "net_fds ?K = {s. \<exists>c. (Some s, c) \<in> set net}" by (simp add: net_fds_def K(2))
  have "client_base ?K" unfolding client_base_def nf using l K fds by (auto simp: out_ok_def)
  moreover have "client_waiting ?K" using l K by (simp add: client_waiting_def)
  ultimately show ?thesis using l K by (simp add: client_good_def W client_state_def client_live_def)
qed

text \<open>
  C10: the callbacks of a TCP client are registered only in states they are made for. Start from a
  client whose connection is under way, with any callbacks and any handlers, and let the kernel
  report any events it can, with any answers of the sockets: partial reads and writes, errors,
  reconnections. As long as no callback fails, the loop calls \<open>do_read\<close> only while the client is
  connected, \<open>do_write\<close> only while there is output at the front of the buffer, which is what they
  assert first, and \<open>connection_delay\<close> only while the connection is under way, always with a
  pointer to the client; a connected client always listens for input, and for room to write
  exactly while output is pending, so that nothing queued is forgotten.
\<close>

theorem client_callbacks_match_state:
  assumes "tcp_client_new this garbage a (event_loop_new (\<lambda>_. True)) ((Some fd, Connect_EINPROGRESS) # net) = Inr K0"
    and "fd \<noteq> -1" and "\<forall>s c. (Some s, c) \<in> set net \<longrightarrow> s \<noteq> -1"
    and "cw_client W0 = K0\<lparr>k_start := st, k_close := cl, k_router := router\<rparr>"
    and "client_run (k_loop K0, W0) (l, W)"
  shows "(\<forall>fe. reported l fe \<longrightarrow> dispatch_one client_invoke (l, W) fe = Inr (l, W) \<or>
      (\<exists>cb args. entry l cb (fst fe) args \<and> dispatch_one client_invoke (l, W) fe = client_invoke cb (fst fe) args (l, W))) \<and>
    (\<forall>cb f args. entry l cb f args \<longrightarrow> f = k_fd (cw_client W) \<and> args = Some (k_this (cw_client W)) \<and>
       (cb = client_read_callback \<and> k_connected (cw_client W) \<or>
        cb = client_write_callback \<and> k_connected (cw_client W) \<and>
          b_head (k_obuf (cw_client W)) = 0 \<and> b_length (k_obuf (cw_client W)) \<noteq> 0 \<or>
        cb = connection_delay \<and> \<not> k_connected (cw_client W))) \<and>
    (k_connected (cw_client W) \<longrightarrow> (\<exists>ev. io_evs l (k_fd (cw_client W)) = Some ev \<and> bit (ev_mask ev) 0 \<and>
       (bit (ev_mask ev) 2 \<longleftrightarrow> b_length (k_obuf (cw_client W)) \<noteq> 0)))"
proof -
  let ?K = "(cw_client W)\<lparr>k_loop := l\<rparr>"
  have g: "client_good (l, W)" using client_run_good[OF assms(5) client_new_good[OF assms(1-4)]] .
  then have S: "client_state ?K" and d: "dom (io_evs l) \<subseteq> {k_fd (cw_client W)}" by (simp_all add: client_good_def)
  have "out_ok (k_obuf (cw_client W))" using S by (auto simp: client_state_def client_live_def client_base_def)
  then have h: "b_head (k_obuf (cw_client W)) = 0" by (simp add: out_ok_def)
  have "f = k_fd (cw_client W)" if "entry l cb f args" for cb f args using that d by (auto simp: entry_def)
  moreover have "\<exists>ev. io_evs l (k_fd (cw_client W)) = Some ev \<and> bit (ev_mask ev) 0 \<and>
      (bit (ev_mask ev) 2 \<longleftrightarrow> b_length (k_obuf (cw_client W)) \<noteq> 0)" if "k_connected (cw_client W)"
    using S that by (auto simp: client_state_def client_live_def client_armed_def)
  moreover have "dispatch_one client_invoke (l, W) fe = Inr (l, W) \<or>
      (\<exists>cb args. entry l cb (fst fe) args \<and> dispatch_one client_invoke (l, W) fe = client_invoke cb (fst fe) args (l, W))"
    if "reported l fe" for fe
    using cl.dispatch_one_safe[OF g, of "fst fe" "snd fe"] that by auto
  ultimately show ?thesis using client_entry[OF S] h by simp
qed

theorem client_callbacks_match_state_witness:
  "\<exists>(K0 :: (unit, unit) tcp_client) l (W :: (unit, unit) client_world). tcp_client_new 3 (\<lambda>_. 0, \<lambda>_. 0) () (event_loop_new (\<lambda>_. True)) [(Some 5, Connect_EINPROGRESS)] = Inr K0 \<and>
     cw_client W = K0\<lparr>k_connected := True, k_start := Null, k_close := Null, k_router := router_new, k_loop := l\<rparr> \<and>
     (\<exists>ev. io_evs l 5 = Some ev \<and> bit (ev_mask ev) 0 \<and> \<not> bit (ev_mask ev) 2)"
proof -
  let ?new = "event_loop_new (\<lambda>_. True)"
  obtain K0 :: "(unit, unit) tcp_client" where n: "tcp_client_new 3 (\<lambda>_. 0, \<lambda>_. 0) () ?new [(Some 5, Connect_EINPROGRESS)] = Inr K0"
    and K0: "k_loop K0 = add_io_event ?new 5 connection_delay EPOLLOUT (Some 3)" "k_fd K0 = 5" "k_this K0 = 3" "b_length (k_obuf K0) = 0"
    by (simp add: tcp_client_new_def do_connect_def)
  let ?K = "K0\<lparr>k_start := Null, k_close := Null, k_router := router_new\<rparr>"
  let ?init = "\<lparr>cw_client = ?K, cw_fuel = (\<lambda>_. 0), cw_rd = (\<lambda>_. (None, [])), cw_wr = (\<lambda>_. []), cw_error = (\<lambda>_. 0), cw_no = 0, cw_sent = []\<rparr>"
  let ?l = "add_io_event (del_io_event (k_loop K0) 5) 5 client_read_callback EPOLLIN (Some 3)"
  let ?W = "?init\<lparr>cw_client := ?K\<lparr>k_connected := True, k_loop := ?l\<rparr>, cw_no := 1\<rparr>"
  have L: "loop_inv ?new" by (simp add: loop_inv_new)
  have l0: "io_evs (k_loop K0) = [5 \<mapsto> registered None connection_delay EPOLLOUT (Some 3)]" "loop_inv (k_loop K0)"
    using add_io_event_spec[OF L, of EPOLLOUT 5 connection_delay "Some 3"] K0(1)
    by (simp_all add: rw_mask_def) (simp add: event_loop_new_def)
  then have "reported (k_loop K0) (5, EPOLLOUT)"
    by (simp add: reported_def loop_inv_def registered_def io_event_new_def Let_def epoll_bits)
  moreover have "dispatch_one client_invoke (k_loop K0, ?init) (5, EPOLLOUT) = Inr (?l, ?W)"
    using l0(1) K0 by (simp add: dispatch_one_def call_ptr_def in_mask out_mask bit_epoll client_invoke_def registered_def io_event_new_def Let_def
        client_connection_delay_def connection_made_def call_slot_def put_client_def epoll_bits)
  ultimately have r: "client_run (k_loop K0, ?init) (?l, ?W)"
    using client_run.event[OF client_run.start, of "(k_loop K0, ?init)" "(5, EPOLLOUT)" "(?l, ?W)"] by simp
  have "\<exists>ev. io_evs ?l (k_fd (cw_client ?W)) = Some ev \<and> bit (ev_mask ev) 0 \<and> (bit (ev_mask ev) 2 \<longleftrightarrow> b_length (k_obuf (cw_client ?W)) \<noteq> 0)"
    using client_callbacks_match_state[OF n _ _ _ r, where st = Null and cl = Null and router = router_new] by simp
  then have "\<exists>ev. io_evs ?l 5 = Some ev \<and> bit (ev_mask ev) 0 \<and> \<not> bit (ev_mask ev) 2" using K0(2,4) by simp
  moreover have "cw_client ?W = K0\<lparr>k_connected := True, k_start := Null, k_close := Null, k_router := router_new, k_loop := ?l\<rparr>" by simp
  ultimately show ?thesis using n by blast
qed

section \<open>Reconnecting\<close>

text \<open>
  A connection attempt that fails after \<open>connect\<close> returned is the last one: \<open>connection_delay\<close> removes
  the descriptor from the loop and does not connect again, so no event reaches the client any
  more, and everything it is asked to send is refused.
\<close>

lemma failed_connection_is_final:
  assumes "client_live K u" and "\<not> k_connected K" and "so_error \<noteq> 0"
  shows "\<exists>K'. client_connection_delay K so_error = Inr K' \<and> io_evs (k_loop K') (k_fd K') = None \<and> \<not> k_connected K' \<and>
    client_send_message K' req = Inr (-1, K')"
proof -
  obtain K' where c: "client_connection_delay K so_error = Inr K'" using assms(3) by (simp add: client_connection_delay_def)
  from connection_delay_spec[OF assms(1) c] assms(2,3) show ?thesis
    using c by (cases req) (auto simp: client_send_message_def)
qed

text \<open>
  C36: reconnecting cuts a message. The output buffer is not cleared when a connection breaks:
  after a write that took the first \<open>k\<close> bytes and one that failed, a client without callbacks connects again
  at once, and what it then sends on the new connection starts with byte \<open>k\<close> of what was queued, in the middle
  of a message, so that the peer takes the rest of a body for the head of a message.
\<close>

theorem reconnect_cuts_message:
  assumes "client_ok K" and "k_connected K" and "k_fd K \<noteq> -1" and "k_start K = Null" and "k_close K = Null"
    and "k_net K = (Some s, Connect_ok) # net" and "bytes (k_obuf K) = frame_bytes m @ rest"
    and "0 < k" and "k < length (frame_bytes m)"
  shows "\<exists>K'. client_do_write K [Wr k, Wr_err EOTHER, Wr_err EAGAIN] = Inr (take k (frame_bytes m), K') \<and>
    k_fd K' = s \<and> k_connected K' \<and> bytes (k_obuf K') = drop k (frame_bytes m) @ rest"
proof -
  have o: "buf_ok (k_obuf K)" "b_head (k_obuf K) = 0" using assms(1) by (simp_all add: client_ok_def)
  have len: "b_length (k_obuf K) = int (length (frame_bytes m)) + int (length rest)" using length_bytes[OF o(1)] assms(7) by simp
  then have k: "int k < b_length (k_obuf K)" "b_length (k_obuf K) \<noteq> 0" using assms(9) by simp_all
  from io_buf_pop_spec[OF o(1), of "int k"] k obtain b1 where b1: "io_buf_pop (k_obuf K) (int k) = Inr b1" "buf_ok b1"
    "bytes b1 = drop k (bytes (k_obuf K))" "b_length b1 = b_length (k_obuf K) - int k" by auto
  from io_buf_adjust_spec[OF b1(2)] obtain b2 where b2: "io_buf_adjust b1 = Inr b2" "bytes b2 = bytes b1" "b_length b2 = b_length b1" by auto
  let ?K1 = "K\<lparr>k_obuf := b2\<rparr>"
  have nz: "b_length b2 \<noteq> 0" using b2(3) b1(4) k(1) by simp
  obtain K2 where K2: "client_clean_conn ?K1 = Inr K2" "k_fd K2 = s" "k_connected K2" "k_obuf K2 = b2"
    using assms(3-6) nz by (simp add: client_clean_conn_def call_slot_def do_connect_def connection_made_def)
  have m: "min k (nat (b_length (k_obuf K))) = k" using k(1) by simp
  have "client_write_loop K [Wr k, Wr_err EOTHER, Wr_err EAGAIN] = Inr (take k (bytes (k_obuf K)), K2)"
    using k nz b1(1) b2(1) K2(1,4) assms(8)
    by (simp add: client_write_loop.simps[of K] client_write_loop.simps[of ?K1] client_write_loop.simps[of K2] Let_def m)
  then show ?thesis
    using o(2) k K2 nz b1(3) b2(2) assms(7,9) by (simp add: client_do_write_def)
qed

theorem reconnect_cuts_message_witness:
  "\<exists>K K'. bytes (k_obuf K) = frame_bytes (4, [7, 8]) \<and> client_do_write K [Wr 9, Wr_err EOTHER, Wr_err EAGAIN] = Inr (take 9 (frame_bytes (4, [7, 8])), K') \<and>
     k_fd (K' :: (unit, unit) tcp_client) = 6 \<and> bytes (k_obuf K') = [8]"
proof -
  let ?K0 = "(connected_client () router_new)\<lparr>k_net := [(Some 6, Connect_ok)]\<rparr> :: (unit, unit) tcp_client"
  have c: "client_ok ?K0" "k_connected ?K0" by (simp_all add: connected_client_def client_ok_def)
  have "client_req_ok ([7, 8], 2, 4)" by (simp add: client_req_ok_def)
  moreover have rb: "reply_bytes ([7, 8], 2, 4) = frame_bytes (4, [7, 8])" by (simp add: reply_bytes_def frame_bytes_def)
  moreover have "int (length (reply_bytes ([7, 8], 2, 4))) \<le> room (k_obuf ?K0)"
    by (simp add: rb connected_client_def room_def frame_bytes_def)
  ultimately obtain K where K: "client_send_message ?K0 ([7, 8], 2, 4) = Inr (0, K)" "client_ok K" "same_input ?K0 K"
    "bytes (k_obuf K) = frame_bytes (4, [7, 8])"
    using client_send_ok[OF c] by (fastforce simp: connected_client_def)
  have "k_net K = [(Some 6, Connect_ok)]" "k_start K = Null" "k_close K = Null"
    using K(1) by (auto simp: client_send_message_def connected_client_def Let_def elim!: res_bindE split: if_splits)
  moreover have "k_connected K" "k_fd K = 5" using K(3) by (simp_all add: same_input_def connected_client_def)
  ultimately obtain K' where "client_do_write K [Wr 9, Wr_err EOTHER, Wr_err EAGAIN] = Inr (take 9 (frame_bytes (4, [7, 8])), K')"
    "k_fd K' = 6" "bytes (k_obuf K') = drop 9 (frame_bytes (4, [7, 8]))"
    using reconnect_cuts_message[OF K(2), of 6 "[]" "(4, [7, 8])" "[]" 9] K(4) by (auto simp: frame_bytes_def)
  moreover have "drop 9 (frame_bytes (4, [7, 8])) = [8]" by (simp add: frame_bytes_def numeral_eq_Suc)
  ultimately show ?thesis using K(4) by auto
qed

section \<open>Deleting a client\<close>

definition client_delete :: "('a, 'u) tcp_client \<Rightarrow> event_loop" where
  "client_delete K = close_fd (k_loop K) (k_fd K)"

text \<open>
  The destructor closes the socket and leaves the loop's entry: the next connection of the process
  that gets the number and is put into this loop gets no events.
\<close>

lemma deleted_client_blocks_descriptor:
  assumes "client_live K u"
  shows "\<not> reported (add_io_event (client_delete K) (k_fd K) cb m args) (k_fd K, events)"
proof -
  have "k_fd K \<in> dom (io_evs (k_loop K))"
    using assms by (auto simp: client_live_def client_armed_def client_waiting_def split: if_splits)
  from closed_not_registered[OF this] show ?thesis by (simp add: client_delete_def reported_def)
qed

end
