(* ===== verification/Config_File.thy ===== *)
theory Config_File
  imports Prelude
begin

text \<open>
  \<open>class config_file\<close> (reactor/include/config_file.h, reactor/src/config_file.cc): the INI-style
  configuration that every program of the repository reads. The map of sections is a map of
  maps; the pointer to the current section is its name, or null before the first section line.
  Shown: what a lookup returns after loading a file that was written from sections and entries,
  and what the loader does with lines outside any section.
\<close>

section \<open>Characters\<close>

definition is_space :: "char \<Rightarrow> bool" where
  "is_space c \<longleftrightarrow> (let n = of_char c :: nat in n = 32 \<or> 9 \<le> n \<and> n \<le> 13)"

definition is_digit :: "char \<Rightarrow> bool" where
  "is_digit c \<longleftrightarrow> (let n = of_char c :: nat in 48 \<le> n \<and> n \<le> 57)"

definition digit_val :: "char \<Rightarrow> int" where
  "digit_val c = of_char c - 48"

definition to_lower :: "char \<Rightarrow> char" where
  "to_lower c = (let n = of_char c :: nat in if 65 \<le> n \<and> n \<le> 90 then char_of (n + 32) else c)"

definition newline :: char where
  "newline = CHR 0x0A"

section \<open>Trimming\<close>

text \<open>The counting loops of \<open>trim_left\<close> and \<open>trim_right\<close>.\<close>

fun first_not_empty :: "string \<Rightarrow> nat" where
  "first_not_empty [] = 0"
| "first_not_empty (c # s) = (if \<not> is_space c then 0 else Suc (first_not_empty s))"

definition trim_left :: "string \<Rightarrow> string" where
  "trim_left s = drop (first_not_empty s) s"

definition last_not_empty :: "string \<Rightarrow> nat" where
  "last_not_empty s = length s - first_not_empty (rev s)"

definition trim_right :: "string \<Rightarrow> string" where
  "trim_right s = take (last_not_empty s) s"

definition trim :: "string \<Rightarrow> string" where
  "trim s = trim_left (trim_right s)"

lemma trim_left_dropWhile: "trim_left s = dropWhile is_space s"
  by (induction s) (auto simp: trim_left_def)

lemma trim_right_dropWhile: "trim_right s = rev (dropWhile is_space (rev s))"
proof -
  have "rev (dropWhile is_space (rev s)) = rev (drop (first_not_empty (rev s)) (rev s))"
    by (simp flip: trim_left_dropWhile add: trim_left_def)
  also have "\<dots> = take (length s - first_not_empty (rev s)) s" by (simp add: rev_drop)
  finally show ?thesis by (simp add: trim_right_def last_not_empty_def)
qed

definition trimmed :: "string \<Rightarrow> bool" where
  "trimmed s \<longleftrightarrow> s = [] \<or> \<not> is_space (hd s) \<and> \<not> is_space (last s)"

lemma dropWhile_id: "xs = [] \<or> \<not> P (hd xs) \<Longrightarrow> dropWhile P xs = xs"
  by (cases xs) auto

lemma trim_trimmed [simp]: "trimmed s \<Longrightarrow> trim s = s"
proof -
  assume t: "trimmed s"
  then have "dropWhile is_space (rev s) = rev s"
    by (intro dropWhile_id) (auto simp: trimmed_def hd_rev)
  moreover have "dropWhile is_space s = s" using t by (intro dropWhile_id) (auto simp: trimmed_def)
  ultimately show ?thesis by (simp add: trim_def trim_left_dropWhile trim_right_dropWhile)
qed

section \<open>Lookup\<close>

type_synonym str_map = "string \<rightharpoonup> (string \<rightharpoonup> string)"

definition get_string :: "str_map \<Rightarrow> string \<Rightarrow> string \<Rightarrow> string \<Rightarrow> string" where
  "get_string m sec key default_value =
     (case m sec of None \<Rightarrow> default_value
      | Some e \<Rightarrow> (case e key of None \<Rightarrow> default_value | Some v \<Rightarrow> v))"

definition is_sep :: "char \<Rightarrow> bool" where
  "is_sep c \<longleftrightarrow> c = CHR '','' \<or> c = CHR 0x09"

text \<open>The loop of \<open>get_string_list\<close>, on what is left of the string behind \<open>start\<close>.\<close>

function split_list :: "string \<Rightarrow> string list" where
  "split_list str =
     (if \<exists>c \<in> set str. is_sep c then
        (let w = takeWhile (\<lambda>c. \<not> is_sep c) str;
             r = dropWhile is_sep (dropWhile (\<lambda>c. \<not> is_sep c) str)
         in if r = [] then [w] else w # split_list r)
      else [str])"
  by pat_completeness auto
termination
proof (relation "measure length", simp, clarsimp)
  fix str :: string and c
  assume c: "c \<in> set str" "is_sep c"
  let ?d = "dropWhile (\<lambda>c. \<not> is_sep c) str"
  have ne: "?d \<noteq> []" using c by (auto simp: dropWhile_eq_Nil_conv)
  then have "is_sep (hd ?d)" using hd_dropWhile[of "\<lambda>c. \<not> is_sep c" str] by simp
  then have "length (dropWhile is_sep ?d) < length ?d"
    using ne length_dropWhile_le[of is_sep "tl ?d"] by (cases ?d) (auto simp: less_Suc_eq_le)
  also have "\<dots> \<le> length str" by (rule length_dropWhile_le)
  finally show "length (dropWhile is_sep ?d) < length str" .
qed

declare split_list.simps [simp del]

definition get_string_list :: "str_map \<Rightarrow> string \<Rightarrow> string \<Rightarrow> string list" where
  "get_string_list m sec key = split_list (get_string m sec key [])"

text \<open>\<open>strcasecmp\<close> compares C strings, up to the first NUL.\<close>

definition c_str :: "string \<Rightarrow> string" where
  "c_str s = takeWhile (\<lambda>c. c \<noteq> CHR 0x00) s"

definition strcaseeq :: "string \<Rightarrow> string \<Rightarrow> bool" where
  "strcaseeq a b \<longleftrightarrow> map to_lower (c_str a) = map to_lower (c_str b)"

definition get_bool :: "str_map \<Rightarrow> string \<Rightarrow> string \<Rightarrow> bool \<Rightarrow> bool" where
  "get_bool m sec key default_value =
     (case m sec of None \<Rightarrow> default_value
      | Some e \<Rightarrow> (case e key of None \<Rightarrow> default_value
                 | Some v \<Rightarrow> if strcaseeq v ''true'' then True else default_value))"

text \<open>
  \<open>iss >> v\<close> for \<open>long long\<close>: leading white space is skipped; without digits the value is 0, out of
  range it is the nearest bound. The result is converted to \<open>unsigned\<close>.
\<close>

definition digits_val :: "string \<Rightarrow> int" where
  "digits_val ds = fold (\<lambda>c n. 10 * n + digit_val c) ds 0"

definition read_long_long :: "string \<Rightarrow> int" where
  "read_long_long s =
     (let t = dropWhile is_space s;
          neg = (t \<noteq> [] \<and> hd t = CHR ''-'');
          u = (if t \<noteq> [] \<and> (hd t = CHR ''-'' \<or> hd t = CHR ''+'') then tl t else t);
          n = digits_val (takeWhile is_digit u);
          v = (if neg then - n else n)
      in max (- (2 ^ 63)) (min (2 ^ 63 - 1) v))"

definition parse_number :: "string \<Rightarrow> u32" where
  "parse_number s = word_of_int (read_long_long s)"

definition get_number :: "str_map \<Rightarrow> string \<Rightarrow> string \<Rightarrow> u32 \<Rightarrow> u32" where
  "get_number m sec key default_value =
     (case m sec of None \<Rightarrow> default_value
      | Some e \<Rightarrow> (case e key of None \<Rightarrow> default_value | Some v \<Rightarrow> parse_number v))"

text \<open>
  \<open>show\<close> and \<open>scan\<close> are the stream conversions of \<open>float\<close>; a failed conversion stores zero.
\<close>

definition get_float :: "('f \<Rightarrow> string) \<Rightarrow> (string \<Rightarrow> 'f option) \<Rightarrow> 'f \<Rightarrow> str_map \<Rightarrow> string \<Rightarrow> string \<Rightarrow> 'f \<Rightarrow> 'f" where
  "get_float show scan zero m sec key default_value =
     (case scan (get_string m sec key (show default_value)) of None \<Rightarrow> zero | Some f \<Rightarrow> f)"

section \<open>Loading\<close>

definition is_section :: "string \<Rightarrow> string option" where
  "is_section line =
     (let s = trim line in
      if s = [] \<or> length s \<le> 2 then None
      else if s ! 0 \<noteq> CHR ''['' \<or> s ! (length s - 1) \<noteq> CHR '']'' then None
      else Some (trim (take (length s - 2) (drop 1 s))))"

fun split_lines :: "string \<Rightarrow> string list" where
  "split_lines [] = [[]]"
| "split_lines (c # s) =
     (if c = newline then [] # split_lines s
      else (case split_lines s of [] \<Rightarrow> [[c]] | l # ls \<Rightarrow> (c # l) # ls))"

text \<open>One round of the loop of \<open>load\<close>. The state is the map and the pointer \<open>m\<close>.\<close>

definition load_line :: "str_map \<times> string option \<Rightarrow> string \<Rightarrow> (str_map \<times> string option) res" where
  "load_line s line =
     (let (mp, m) = s in
      case is_section line of
        Some sec \<Rightarrow> Inr (if mp sec = None then (mp(sec \<mapsto> Map.empty), Some sec) else (mp, Some sec))
      | None \<Rightarrow>
          if CHR ''='' \<notin> set line then Inr s
          else let key = trim (takeWhile (\<lambda>c. c \<noteq> CHR ''='') line);
                   val = trim (tl (dropWhile (\<lambda>c. c \<noteq> CHR ''='') line))
            in if key = [] then Inr s
               else if hd key = CHR ''#'' \<or> hd key = CHR '';'' then Inr s
               else (case m of
                  None \<Rightarrow> Inl Null_deref
                | Some sec \<Rightarrow> res_bind (deref mp sec) (\<lambda>e. Inr (mp(sec \<mapsto> e(key \<mapsto> val)), m))))"

text \<open>\<open>load\<close>: the file's contents, or nothing if it cannot be opened. The flag is the result.\<close>

definition load :: "str_map \<Rightarrow> string option \<Rightarrow> (bool \<times> str_map) res" where
  "load mp contents =
     (case contents of None \<Rightarrow> Inr (False, mp)
      | Some txt \<Rightarrow> res_bind (run load_line (mp, None) (split_lines txt)) (\<lambda>(mp', _). Inr (True, mp')))"

definition set_path :: "str_map option \<Rightarrow> string option \<Rightarrow> (bool \<times> str_map option) res" where
  "set_path config contents =
     res_bind (check Assert_failed (config = None)) (\<lambda>_.
     res_bind (load Map.empty contents) (\<lambda>(ok, mp). Inr (ok, Some mp)))"

definition instance_of :: "str_map option \<Rightarrow> str_map res" where
  "instance_of config = (case config of None \<Rightarrow> Inl Assert_failed | Some mp \<Rightarrow> Inr mp)"

section \<open>Files written from sections and entries\<close>

type_synonym conf_section = "string \<times> (string \<times> string) list"

definition entry_line :: "string \<times> string \<Rightarrow> string" where
  "entry_line kv = fst kv @ CHR ''='' # snd kv"

definition section_lines :: "conf_section \<Rightarrow> string list" where
  "section_lines sec = (CHR ''['' # fst sec @ [CHR '']'']) # map entry_line (snd sec)"

definition conf_text :: "conf_section list \<Rightarrow> string" where
  "conf_text secs = concat (map (\<lambda>l. l @ [newline]) (concat (map section_lines secs)))"

definition name_ok :: "string \<Rightarrow> bool" where
  "name_ok n \<longleftrightarrow> n \<noteq> [] \<and> trimmed n \<and> newline \<notin> set n"

definition entry_ok :: "string \<times> string \<Rightarrow> bool" where
  "entry_ok kv \<longleftrightarrow> name_ok (fst kv) \<and> CHR ''='' \<notin> set (fst kv) \<and> hd (fst kv) \<notin> {CHR ''['', CHR ''#'', CHR '';''} \<and>
     trimmed (snd kv) \<and> newline \<notin> set (snd kv)"

definition conf_ok :: "conf_section list \<Rightarrow> bool" where
  "conf_ok secs \<longleftrightarrow> (\<forall>sec \<in> set secs. name_ok (fst sec) \<and> (\<forall>kv \<in> set (snd sec). entry_ok kv))"

text \<open>What the file means: the last value given for a key in any section of that name.\<close>

definition conf_entries :: "conf_section list \<Rightarrow> string \<Rightarrow> (string \<times> string) list" where
  "conf_entries secs n = concat (map snd (filter (\<lambda>sec. fst sec = n) secs))"

definition conf_value :: "conf_section list \<Rightarrow> string \<Rightarrow> string \<Rightarrow> string option" where
  "conf_value secs n k = map_of (rev (conf_entries secs n)) k"

lemma split_lines_line: "newline \<notin> set l \<Longrightarrow> split_lines (l @ newline # r) = l # split_lines r"
  by (induction l) auto

lemma split_lines_text:
  "\<forall>l \<in> set ls. newline \<notin> set l \<Longrightarrow> split_lines (concat (map (\<lambda>l. l @ [newline]) ls)) = ls @ [[]]"
  by (induction ls) (simp_all add: split_lines_line)

lemma trim_first:
  assumes "\<not> is_space c"
  shows "\<exists>r. trim (c # s) = c # r"
proof -
  have "dropWhile is_space (rev (c # s)) = dropWhile is_space (rev s) @ [c]"
    using assms by (auto simp: dropWhile_append dropWhile_eq_Nil_conv split: if_splits)
  then show ?thesis using assms by (simp add: trim_def trim_left_dropWhile trim_right_dropWhile)
qed

lemma load_section:
  assumes "name_ok n"
  shows "load_line (mp, m) (CHR ''['' # n @ [CHR '']'']) =
    Inr (mp(n \<mapsto> (case mp n of None \<Rightarrow> Map.empty | Some e \<Rightarrow> e)), Some n)"
proof -
  let ?l = "CHR ''['' # n @ [CHR '']'']"
  have sp: "\<not> is_space (CHR ''['')" "\<not> is_space (CHR '']'')" by (simp_all add: is_space_def)
  have t: "trim ?l = ?l" by (rule trim_trimmed) (use sp in \<open>simp add: trimmed_def\<close>)
  have i: "is_section ?l = Some n"
    using assms unfolding is_section_def t by (auto simp: name_ok_def Let_def nth_append)
  show ?thesis by (cases "mp n") (auto simp: load_line_def i fun_upd_idem)
qed

lemma entry_parts:
  assumes ok: "entry_ok kv"
  shows "is_section (entry_line kv) = None" and "CHR ''='' \<in> set (entry_line kv)"
    and "trim (takeWhile (\<lambda>c. c \<noteq> CHR ''='') (entry_line kv)) = fst kv"
    and "trim (tl (dropWhile (\<lambda>c. c \<noteq> CHR ''='') (entry_line kv))) = snd kv"
    and "fst kv \<noteq> []" and "hd (fst kv) \<noteq> CHR ''#''" and "hd (fst kv) \<noteq> CHR '';''"
proof -
  obtain c k where k: "fst kv = c # k" using ok by (cases "fst kv") (auto simp: entry_ok_def name_ok_def)
  have c: "\<not> is_space c" "c \<noteq> CHR ''[''" "c \<noteq> CHR ''#''" "c \<noteq> CHR '';''"
    using ok k by (auto simp: entry_ok_def name_ok_def trimmed_def)
  obtain r where "trim (entry_line kv) = c # r" using trim_first[OF c(1)] k by (auto simp: entry_line_def)
  then show "is_section (entry_line kv) = None" using c(2) by (simp add: is_section_def Let_def)
  have ne: "\<forall>x \<in> set (fst kv). x \<noteq> CHR ''=''" using ok by (auto simp: entry_ok_def)
  then show "trim (takeWhile (\<lambda>c. c \<noteq> CHR ''='') (entry_line kv)) = fst kv"
    and "trim (tl (dropWhile (\<lambda>c. c \<noteq> CHR ''='') (entry_line kv))) = snd kv"
    using ok by (simp_all add: entry_line_def takeWhile_append2 dropWhile_append2 entry_ok_def name_ok_def)
  show "CHR ''='' \<in> set (entry_line kv)" by (simp add: entry_line_def)
  show "fst kv \<noteq> []" "hd (fst kv) \<noteq> CHR ''#''" "hd (fst kv) \<noteq> CHR '';''" using k c by simp_all
qed

lemma load_entry:
  assumes ok: "entry_ok kv" and mp: "mp n = Some e"
  shows "load_line (mp, Some n) (entry_line kv) = Inr (mp(n \<mapsto> e(fst kv \<mapsto> snd kv)), Some n)"
  using entry_parts[OF ok] mp unfolding load_line_def Let_def by simp

lemma load_entry_null:
  assumes ok: "entry_ok kv"
  shows "load_line (mp, None) (entry_line kv) = Inl Null_deref"
  using entry_parts[OF ok] unfolding load_line_def Let_def by simp

lemma load_entries:
  assumes "\<forall>kv \<in> set es. entry_ok kv" and "mp n = Some e"
  shows "run load_line (mp, Some n) (map entry_line es) = Inr (mp(n \<mapsto> e ++ map_of (rev es)), Some n)"
  using assms
proof (induction es arbitrary: mp e)
  case Nil
  then show ?case by (simp add: fun_upd_idem)
next
  case (Cons kv es)
  let ?e = "e(fst kv \<mapsto> snd kv)"
  have r: "run load_line (mp(n \<mapsto> ?e), Some n) (map entry_line es) = Inr ((mp(n \<mapsto> ?e))(n \<mapsto> ?e ++ map_of (rev es)), Some n)"
  proof (rule Cons.IH)
    show "\<forall>kv \<in> set es. entry_ok kv" using Cons.prems by simp
    show "(mp(n \<mapsto> ?e)) n = Some ?e" by (rule fun_upd_same)
  qed
  have eq: "?e ++ map_of (rev es) = e ++ map_of (rev (kv # es))"
    by (cases kv) (auto simp: map_add_def fun_eq_iff split: option.splits)
  have l: "load_line (mp, Some n) (entry_line kv) = Inr (mp(n \<mapsto> ?e), Some n)"
    by (rule load_entry) (use Cons.prems in simp_all)
  show ?case using r unfolding list.map run.simps l res_bind_simps eq fun_upd_upd .
qed

definition merge_section :: "str_map \<Rightarrow> conf_section \<Rightarrow> str_map" where
  "merge_section mp sec =
     mp(fst sec \<mapsto> (case mp (fst sec) of None \<Rightarrow> Map.empty | Some e \<Rightarrow> e) ++ map_of (rev (snd sec)))"

lemma load_whole_section:
  assumes "name_ok (fst sec)" and "\<forall>kv \<in> set (snd sec). entry_ok kv"
  shows "run load_line (mp, m) (section_lines sec) = Inr (merge_section mp sec, Some (fst sec))"
proof -
  let ?e = "case mp (fst sec) of None \<Rightarrow> Map.empty | Some e \<Rightarrow> e"
  have "run load_line (mp(fst sec \<mapsto> ?e), Some (fst sec)) (map entry_line (snd sec)) =
      Inr ((mp(fst sec \<mapsto> ?e))(fst sec \<mapsto> ?e ++ map_of (rev (snd sec))), Some (fst sec))"
    by (rule load_entries[OF assms(2) fun_upd_same])
  then show ?thesis
    using load_section[OF assms(1), of mp m] by (simp add: section_lines_def merge_section_def)
qed

lemma load_sections:
  "conf_ok secs \<Longrightarrow> \<exists>m'. run load_line (mp, m) (concat (map section_lines secs)) = Inr (fold (\<lambda>s mp. merge_section mp s) secs mp, m')"
proof (induction secs arbitrary: mp m)
  case Nil
  then show ?case by simp
next
  case (Cons sec secs)
  then have "run load_line (mp, m) (section_lines sec) = Inr (merge_section mp sec, Some (fst sec))"
    by (intro load_whole_section) (auto simp: conf_ok_def)
  moreover have "\<exists>m'. run load_line (merge_section mp sec, Some (fst sec)) (concat (map section_lines secs)) =
      Inr (fold (\<lambda>s mp. merge_section mp s) secs (merge_section mp sec), m')"
    by (rule Cons.IH) (use Cons.prems in \<open>auto simp: conf_ok_def\<close>)
  ultimately show ?case by (simp add: run_append)
qed

definition look :: "str_map \<Rightarrow> string \<Rightarrow> string \<Rightarrow> string option" where
  "look mp n k = (case mp n of None \<Rightarrow> None | Some e \<Rightarrow> e k)"

lemma look_merge:
  "look (merge_section mp sec) n k =
     (if n = fst sec then (case map_of (rev (snd sec)) k of None \<Rightarrow> look mp n k | Some v \<Rightarrow> Some v)
      else look mp n k)"
  by (auto simp: look_def merge_section_def map_add_def split: option.splits)

lemma look_fold:
  "look (fold (\<lambda>s mp. merge_section mp s) secs mp) n k =
     (case conf_value secs n k of None \<Rightarrow> look mp n k | Some v \<Rightarrow> Some v)"
proof (induction secs arbitrary: mp)
  case Nil
  then show ?case by (simp add: conf_value_def conf_entries_def)
next
  case (Cons sec secs)
  have "conf_value (sec # secs) n k =
      (case conf_value secs n k of None \<Rightarrow> (if fst sec = n then map_of (rev (snd sec)) k else None) | Some v \<Rightarrow> Some v)"
    by (auto simp: conf_value_def conf_entries_def map_add_def split: option.splits)
  then show ?case by (auto simp: Cons.IH look_merge split: option.splits)
qed

lemma get_string_look: "get_string mp n k d = (case look mp n k of None \<Rightarrow> d | Some v \<Rightarrow> v)"
  by (simp add: get_string_def look_def split: option.splits)

lemma text_lines:
  assumes "conf_ok secs"
  shows "split_lines (conf_text secs) = concat (map section_lines secs) @ [[]]"
proof -
  have "newline \<noteq> CHR ''[''" "newline \<noteq> CHR '']''" "newline \<noteq> CHR ''=''" by (simp_all add: newline_def)
  then have "\<forall>l \<in> set (concat (map section_lines secs)). newline \<notin> set l"
    using assms
    by (fastforce simp: section_lines_def entry_line_def conf_ok_def name_ok_def entry_ok_def)
  then show ?thesis unfolding conf_text_def by (rule split_lines_text)
qed

lemma load_empty_line: "load_line s [] = Inr s"
  by (cases s) (simp add: load_line_def is_section_def trim_def trim_left_def trim_right_def last_not_empty_def)

text \<open>
  C24: writing a configuration and loading it again is the identity on what can be looked up.
  For every list of sections with well-formed names, keys and values, sections and keys may
  repeat, loading the text into an empty map succeeds, and \<open>get_string\<close> returns for every section
  and key the value given last in the file, or the default where the file gives none.
\<close>

theorem config_roundtrip:
  assumes "conf_ok secs"
  shows "\<exists>mp. load Map.empty (Some (conf_text secs)) = Inr (True, mp) \<and>
    (\<forall>sec key d. get_string mp sec key d = (case conf_value secs sec key of None \<Rightarrow> d | Some v \<Rightarrow> v))"
proof -
  let ?mp = "fold (\<lambda>s mp. merge_section mp s) secs Map.empty"
  from load_sections[OF assms, of Map.empty None] obtain m where
    "run load_line (Map.empty, None) (concat (map section_lines secs)) = Inr (?mp, m)" by blast
  then have "load Map.empty (Some (conf_text secs)) = Inr (True, ?mp)"
    by (simp add: load_def text_lines[OF assms] run_append load_empty_line)
  moreover have "look Map.empty n k = None" for n k by (simp add: look_def)
  then have "get_string ?mp n k d = (case conf_value secs n k of None \<Rightarrow> d | Some v \<Rightarrow> v)" for n k d
    by (simp add: get_string_look look_fold split: option.splits)
  ultimately show ?thesis by blast
qed

theorem config_roundtrip_witness:
  "\<exists>mp. load Map.empty (Some (conf_text [(''reactor'', [(''ip'', ''1''), (''ip'', ''2'')])])) = Inr (True, mp) \<and>
     get_string mp ''reactor'' ''ip'' ''x'' = ''2'' \<and> get_string mp ''reactor'' ''port'' ''x'' = ''x''"
proof -
  let ?secs = "[(''reactor'', [(''ip'', ''1''), (''ip'', ''2'')])]"
  have ok: "conf_ok ?secs"
    by (simp add: conf_ok_def name_ok_def entry_ok_def trimmed_def is_space_def newline_def)
  from config_roundtrip[OF ok] show ?thesis
    by (auto simp: conf_value_def conf_entries_def)
qed

text \<open>
  An entry before the first section line makes the loader dereference a null pointer,
  whatever follows in the file; comments and lines without \<open>=\<close> before it do not help.
\<close>

theorem entry_before_section_faults:
  assumes "entry_ok kv" and "\<forall>l \<in> set pre. newline \<notin> set l \<and> CHR ''='' \<notin> set l \<and> is_section l = None"
  shows "load mp (Some (concat (map (\<lambda>l. l @ [newline]) pre) @ entry_line kv @ newline # rest)) = Inl Null_deref"
proof -
  have pl: "split_lines (concat (map (\<lambda>l. l @ [newline]) pre) @ t) = pre @ split_lines t" for t
    using assms(2) by (induction pre) (simp_all add: split_lines_line)
  have "newline \<noteq> CHR ''=''" by (simp add: newline_def)
  then have "newline \<notin> set (entry_line kv)" using assms(1) by (simp add: entry_line_def entry_ok_def name_ok_def)
  then have ls: "split_lines (concat (map (\<lambda>l. l @ [newline]) pre) @ entry_line kv @ newline # rest) =
      pre @ entry_line kv # split_lines rest"
    by (simp add: pl split_lines_line)
  have pr: "run load_line (mp, None) pre = Inr (mp, None)"
    using assms(2) by (induction pre) (simp_all add: load_line_def)
  have "load_line (mp, None) (entry_line kv) = Inl Null_deref" by (rule load_entry_null[OF assms(1)])
  then show ?thesis by (simp add: load_def ls run_append pr)
qed

theorem entry_before_section_faults_witness:
  "load Map.empty (Some (concat (map (\<lambda>l. l @ [newline]) [''[]'']) @ entry_line (''ip'', ''1'') @ newline # [])) = Inl Null_deref"
proof -
  have "entry_ok (''ip'', ''1'')" by (simp add: entry_ok_def name_ok_def trimmed_def is_space_def newline_def)
  moreover have "is_section ''[]'' = None" by code_simp
  ultimately show ?thesis
    by (intro entry_before_section_faults) (simp_all add: newline_def)
qed

lemma get_bool_cannot_be_false: "get_bool m sec key True"
  by (simp add: get_bool_def split: option.splits)

section \<open>Numbers\<close>

fun decimal :: "nat \<Rightarrow> string" where
  "decimal n = (if n < 10 then [char_of (48 + n)] else decimal (n div 10) @ [char_of (48 + n mod 10)])"

declare decimal.simps [simp del]

lemma of_char_digit:
  fixes n :: nat
  assumes "n < 10"
  shows "(of_char (char_of (48 + n) :: char) :: nat) = 48 + n"
  using assms by simp

lemma digit_char:
  fixes n :: nat
  assumes "n < 10"
  shows "is_digit (char_of (48 + n)) \<and> digit_val (char_of (48 + n)) = int n"
proof -
  note a = of_char_digit[OF assms]
  have "int (of_char (char_of (48 + n) :: char)) = 48 + int n" unfolding a by simp
  then have "(of_char (char_of (48 + n) :: char) :: int) = 48 + int n"
    unfolding of_nat_of_char .
  with a assms show ?thesis by (simp add: is_digit_def digit_val_def)
qed

lemma digits_val_snoc: "digits_val (ds @ [c]) = 10 * digits_val ds + digit_val c"
  by (simp add: digits_val_def)

lemma digits_val_decimal: "digits_val (decimal n) = int n \<and> (\<forall>c \<in> set (decimal n). is_digit c) \<and> decimal n \<noteq> []"
proof (induction n rule: decimal.induct)
  case (1 n)
  show ?case
  proof (cases "n < 10")
    case True
    then have "decimal n = [char_of (48 + n)]" by (simp add: decimal.simps)
    then show ?thesis using digit_char[OF True] by (simp add: digits_val_def)
  next
    case False
    then have d: "decimal n = decimal (n div 10) @ [char_of (48 + n mod 10)]" by (simp add: decimal.simps[of n])
    have "10 * int (n div 10) + int (n mod 10) = int n" by presburger
    then show ?thesis
      unfolding d digits_val_snoc using 1[OF False] digit_char[of "n mod 10"] by auto
  qed
qed

lemma digit_not_space: "is_digit c \<Longrightarrow> \<not> is_space c \<and> c \<noteq> CHR ''-'' \<and> c \<noteq> CHR ''+''"
  by (auto simp: is_digit_def is_space_def Let_def)

lemma read_long_long_decimal:
  assumes "int n < 2 ^ 63" and "\<forall>c \<in> set ws. is_space c" and "t = [] \<or> \<not> is_digit (hd t)"
  shows "read_long_long (ws @ decimal n @ t) = int n"
proof -
  note d = digits_val_decimal[of n]
  obtain c r where dc: "decimal n = c # r" using d by (cases "decimal n") auto
  then have c: "is_digit c" using d by simp
  have dw: "dropWhile is_space (ws @ decimal n @ t) = decimal n @ t"
    using assms(2) digit_not_space[OF c] dc by (simp add: dropWhile_append2)
  have tw: "takeWhile is_digit (decimal n @ t) = decimal n"
  proof -
    have "takeWhile is_digit t = []" using assms(3) by (cases t) auto
    then show ?thesis using d by (simp add: takeWhile_append2)
  qed
  have hd: "hd (decimal n @ t) = c" "decimal n @ t \<noteq> []" using dc by simp_all
  have "read_long_long (ws @ decimal n @ t) = max (- (2 ^ 63)) (min (2 ^ 63 - 1) (digits_val (decimal n)))"
    unfolding read_long_long_def dw Let_def hd(1) using digit_not_space[OF c] tw hd(2) by simp
  then show ?thesis using d assms(1) by simp
qed

text \<open>
  \<open>get_number\<close> reads back decimal numbers. A value that consists of white space, the decimal
  digits of \<open>n\<close> and anything that does not continue the number is read as \<open>n\<close> modulo \<open>2 ^ 32\<close>, for
  every \<open>n\<close> that a \<open>long long\<close> can hold, so numbers that fit an \<open>unsigned\<close> are read exactly.
\<close>

theorem get_number_decimal:
  assumes "m sec = Some e" and "e key = Some (ws @ decimal n @ t)"
    and "n < 2 ^ 63" and "\<forall>c \<in> set ws. is_space c" and "t = [] \<or> \<not> is_digit (hd t)"
  shows "get_number m sec key d = of_nat n \<and> (n < 2 ^ 32 \<longrightarrow> unat (get_number m sec key d) = n)"
proof -
  have "int n < 2 ^ 63" using assms(3) by (metis of_nat_less_iff of_nat_numeral of_nat_power)
  from read_long_long_decimal[OF this assms(4,5)] have "get_number m sec key d = of_nat n"
    using assms(1,2) by (simp add: get_number_def parse_number_def)
  then show ?thesis by (simp add: unat_of_nat)
qed

theorem get_number_decimal_witness:
  "unat (get_number [''reactor'' \<mapsto> [''maxConn'' \<mapsto> '' '' @ decimal 1024 @ ''x'']] ''reactor'' ''maxConn'' 7) = 1024"
  using get_number_decimal[of "[''reactor'' \<mapsto> [''maxConn'' \<mapsto> '' '' @ decimal 1024 @ ''x'']]" "''reactor''"
      "[''maxConn'' \<mapsto> '' '' @ decimal 1024 @ ''x'']" "''maxConn''" "'' ''" 1024 "''x''" 7]
  by (simp add: is_space_def is_digit_def)

end
