(* ===== verification/Dns_Route.thy ===== *)
theory Dns_Route
  imports Config_File
begin

text \<open>
  dns/include/dns_route.h and dns/src/dns_route.cc: the routing table of the DNS service. The
  database is a parameter: each query is answered by an error, by no result set, or by rows of
  columns. The table is a map from the 64-bit key of a module and command to a set of 64-bit
  host values; a second table is filled in the background and exchanged with the first. The
  lemmas give the arithmetic of keys and values and the table that a result set denotes.
\<close>

unbundle bit_operations_syntax

section \<open>Data\<close>

type_synonym row = "string list"

datatype answer = Query_failed | No_result | Rows "row list"

type_synonym route_map = "u64 \<rightharpoonup> u64 set"

record route =
  r_version :: u64
  r_data :: route_map
  r_temp :: route_map

definition column :: "row \<Rightarrow> nat \<Rightarrow> string res" where
  "column r i = (if i < length r then Inr (r ! i) else Inl Out_of_bounds)"

definition atoi :: "string \<Rightarrow> i32" where
  "atoi s = word_of_int (read_long_long s)"

definition atol :: "string \<Rightarrow> u64" where
  "atol s = word_of_int (read_long_long s)"

text \<open>\<open>((uint64_t)modid << 32) + cmdid\<close> and \<open>((uint64_t)ip << 32) + port\<close>; \<open>cmdid\<close> and \<open>port\<close> are sign-extended.\<close>

definition mod_key :: "i32 \<Rightarrow> i32 \<Rightarrow> u64" where
  "mod_key modid cmdid = push_bit 32 (scast modid) + scast cmdid"

definition host_value :: "u32 \<Rightarrow> i32 \<Rightarrow> u64" where
  "host_value ip port = push_bit 32 (ucast ip) + scast port"

text \<open>The way back: \<open>int(st >> 32)\<close> and \<open>int(st)\<close>, for keys and for host values alike.\<close>

definition high_half :: "u64 \<Rightarrow> u32" where
  "high_half st = ucast (drop_bit 32 st)"

definition low_half :: "u64 \<Rightarrow> u32" where
  "low_half st = ucast st"

section \<open>Operations\<close>

definition insert_row :: "route_map \<Rightarrow> row \<Rightarrow> route_map res" where
  "insert_row m r =
     res_bind (column r 1) (\<lambda>c1. res_bind (column r 2) (\<lambda>c2.
     res_bind (column r 3) (\<lambda>c3. res_bind (column r 4) (\<lambda>c4.
       let key = mod_key (atoi c1) (atoi c2);
           val = host_value (atoi c3) (atoi c4);
           old = (case m key of None \<Rightarrow> {} | Some s \<Rightarrow> s)
       in Inr (m(key \<mapsto> insert val old))))))"

definition build_maps :: "route \<Rightarrow> answer \<Rightarrow> route res" where
  "build_maps R ans =
     (case ans of
        Query_failed \<Rightarrow> Inl Exit_failure
      | No_result \<Rightarrow> Inl Null_deref
      | Rows rows \<Rightarrow> res_bind (run insert_row (r_data R) rows) (\<lambda>m. Inr (R\<lparr>r_data := m\<rparr>)))"

text \<open>
  \<open>mysql\<close> says whether \<open>mysql_real_connect\<close> accepts host, user, password, database and port. The
  port goes through a \<open>short\<close> into a parameter of type \<open>unsigned int\<close>.
\<close>

definition connect_db :: "(string \<Rightarrow> string \<Rightarrow> string \<Rightarrow> string \<Rightarrow> u32 \<Rightarrow> bool) \<Rightarrow> str_map option \<Rightarrow> unit res" where
  "connect_db mysql config =
     res_bind (instance_of config) (\<lambda>m.
     let db_host = get_string m ''mysql'' ''db_host'' ''172.17.0.1'';
         db_port = (ucast (get_number m ''mysql'' ''db_port'' 3306) :: 16 word);
         db_user = get_string m ''mysql'' ''db_user'' ''root'';
         db_passwd = get_string m ''mysql'' ''db_passwd'' ''root'';
         db_name = get_string m ''mysql'' ''db_name'' ''rins''
     in check Exit_failure (mysql db_host db_user db_passwd db_name (scast db_port)))"

text \<open>\<open>_version\<close> is not initialised: it starts with whatever the memory held.\<close>

definition route_new ::
  "u64 \<Rightarrow> (string \<Rightarrow> string \<Rightarrow> string \<Rightarrow> string \<Rightarrow> u32 \<Rightarrow> bool) \<Rightarrow> str_map option \<Rightarrow> answer \<Rightarrow> route res" where
  "route_new garbage mysql config ans =
     res_bind (connect_db mysql config) (\<lambda>_.
       build_maps \<lparr>r_version = garbage, r_data = Map.empty, r_temp = Map.empty\<rparr> ans)"

definition route_instance ::
  "route option \<Rightarrow> u64 \<Rightarrow> (string \<Rightarrow> string \<Rightarrow> string \<Rightarrow> string \<Rightarrow> u32 \<Rightarrow> bool) \<Rightarrow> str_map option \<Rightarrow> answer \<Rightarrow> (route \<times> route option) res" where
  "route_instance inst garbage mysql config ans = pthread_once inst (route_new garbage mysql config ans)"

definition get_hosts :: "route \<Rightarrow> i32 \<Rightarrow> i32 \<Rightarrow> u64 set" where
  "get_hosts R modid cmdid =
     (case r_data R (mod_key modid cmdid) of None \<Rightarrow> {} | Some s \<Rightarrow> s)"

definition load_version :: "route \<Rightarrow> answer \<Rightarrow> (int \<times> route) res" where
  "load_version R ans =
     (case ans of
        Rows (r # _) \<Rightarrow>
          res_bind (column r 0) (\<lambda>c.
            if atol c = r_version R then Inr (0, R) else Inr (1, R\<lparr>r_version := atol c\<rparr>))
      | _ \<Rightarrow> Inr (-1, R))"

definition load_route_data :: "route \<Rightarrow> answer \<Rightarrow> (int \<times> route) res" where
  "load_route_data R ans =
     (let R0 = R\<lparr>r_temp := Map.empty\<rparr> in
      case ans of
        Rows (r # rs) \<Rightarrow>
          res_bind (run insert_row Map.empty (r # rs)) (\<lambda>m. Inr (0, R0\<lparr>r_temp := m\<rparr>))
      | _ \<Rightarrow> Inr (-1, R0))"

definition swap :: "route \<Rightarrow> route" where
  "swap R = R\<lparr>r_data := r_temp R, r_temp := r_data R\<rparr>"

definition change_key :: "u64 list \<Rightarrow> row \<Rightarrow> u64 list res" where
  "change_key change_list r =
     res_bind (column r 0) (\<lambda>c0. res_bind (column r 1) (\<lambda>c1.
       Inr (change_list @ [mod_key (atoi c0) (atoi c1)])))"

text \<open>The query asks for the changes up to the current version, printed as a signed number.\<close>

definition load_changes :: "route \<Rightarrow> (int \<Rightarrow> answer) \<Rightarrow> u64 list \<Rightarrow> u64 list res" where
  "load_changes R query change_list =
     (case query (sint (r_version R)) of Rows rows \<Rightarrow> run change_key change_list rows | _ \<Rightarrow> Inr change_list)"

datatype sql = Delete_all | Delete_upto int

definition remove_changes :: "route \<Rightarrow> bool \<Rightarrow> sql" where
  "remove_changes R remove_all = (if remove_all then Delete_all else Delete_upto (sint (r_version R)))"

section \<open>Keys and values\<close>

lemma mod_key_int: "mod_key m c = word_of_int (2 ^ 32 * sint m + sint c)"
  by (simp add: mod_key_def push_bit_eq_mult signed_of_int)

lemma host_value_int: "host_value ip p = word_of_int (2 ^ 32 * uint ip + sint p)"
  by (simp add: host_value_def push_bit_eq_mult)

lemma low_half_int: "low_half (word_of_int x) = word_of_int x"
  unfolding low_half_def by transfer (simp add: min_def)

lemma high_half_int: "high_half (word_of_int x) = word_of_int (x div 2 ^ 32)"
  unfolding high_half_def drop_bit_eq_div[symmetric]
  by (rule bit_word_eqI) (simp add: bit_simps)

lemma word32_wrap: "(word_of_int (2 ^ 32 * a + b) :: u32) = word_of_int b"
  unfolding word_of_int_eq_iff take_bit_eq_mod by simp

lemma low_half_key [simp]: "low_half (mod_key m c) = c"
  unfolding mod_key_int low_half_int word32_wrap by simp

lemma low_half_value [simp]: "low_half (host_value ip p) = p"
  unfolding host_value_int low_half_int word32_wrap by simp

lemma high_part:
  assumes "- (2 ^ 31) \<le> b" and "b < 2 ^ 31"
  shows "(2 ^ 32 * a + b) div 2 ^ 32 = (if b < 0 then a - 1 else (a :: int))"
  using assms by (auto simp: div_eq_minus1 zmod_minus1)

lemma sint_i32_bounds: "- (2 ^ 31) \<le> sint (c :: i32)" "sint (c :: i32) < 2 ^ 31"
  using sint_range_size[of c] by (simp_all add: word_size)

lemma high_half_key: "high_half (mod_key m c) = (if sint c < 0 then m - 1 else m)"
  unfolding mod_key_int high_half_int high_part[OF sint_i32_bounds] by simp

lemma high_half_value: "high_half (host_value ip p) = (if sint p < 0 then ip - 1 else ip)"
  unfolding host_value_int high_half_int high_part[OF sint_i32_bounds] by simp

lemma mod_key_inject [simp]: "mod_key m c = mod_key m' c' \<longleftrightarrow> m = m' \<and> c = c'"
  by (metis high_half_key low_half_key diff_add_cancel)

lemma host_value_inject [simp]: "host_value m c = host_value m' c' \<longleftrightarrow> m = m' \<and> c = c'"
  by (metis high_half_value low_half_value diff_add_cancel)

section \<open>Tables\<close>

definition row_ok :: "row \<Rightarrow> bool" where
  "row_ok r \<longleftrightarrow> 5 \<le> length r"

definition row_key :: "row \<Rightarrow> u64" where
  "row_key r = mod_key (atoi (r ! 1)) (atoi (r ! 2))"

definition row_value :: "row \<Rightarrow> u64" where
  "row_value r = host_value (atoi (r ! 3)) (atoi (r ! 4))"

definition lookup :: "('k \<rightharpoonup> 'v set) \<Rightarrow> 'k \<Rightarrow> 'v set" where
  "lookup m k = (case m k of None \<Rightarrow> {} | Some s \<Rightarrow> s)"

lemma insert_row_ok:
  "row_ok r \<Longrightarrow> insert_row m r = Inr (m(row_key r \<mapsto> insert (row_value r) (lookup m (row_key r))))"
  by (simp add: insert_row_def column_def row_ok_def row_key_def row_value_def lookup_def Let_def)

lemma lookup_upd: "lookup (m(k \<mapsto> s)) j = (if j = k then s else lookup m j)"
  by (simp add: lookup_def)

lemma run_insert_row:
  assumes "\<forall>r \<in> set rows. row_ok r"
  shows "\<exists>m'. run insert_row m rows = Inr m' \<and>
    (\<forall>k. lookup m' k = lookup m k \<union> row_value ` {r \<in> set rows. row_key r = k})"
  using assms
proof (induction rows arbitrary: m)
  case (Cons r rows)
  let ?m = "m(row_key r \<mapsto> insert (row_value r) (lookup m (row_key r)))"
  have "\<forall>r \<in> set rows. row_ok r" using Cons.prems by simp
  from Cons.IH[OF this, of ?m] obtain m' where m': "run insert_row ?m rows = Inr m'"
      "\<forall>k. lookup m' k = lookup ?m k \<union> row_value ` {r \<in> set rows. row_key r = k}" by blast
  have "lookup m' k = lookup m k \<union> row_value ` {r' \<in> set (r # rows). row_key r' = k}" for k
    using m'(2) by (auto simp: lookup_upd)
  with m'(1) Cons.prems show ?case by (simp add: insert_row_ok)
qed simp

lemma get_hosts_lookup: "get_hosts R m c = lookup (r_data R) (mod_key m c)"
  by (simp add: get_hosts_def lookup_def)

lemma run_change_key:
  assumes "\<forall>r \<in> set rows. 2 \<le> length r"
  shows "run change_key cs rows = Inr (cs @ map (\<lambda>r. mod_key (atoi (r ! 0)) (atoi (r ! 1))) rows)"
  using assms by (induction rows arbitrary: cs) (auto simp: change_key_def column_def)

lemma load_route_data_data: "load_route_data R ans = Inr (ret, R') \<Longrightarrow> r_data R' = r_data R \<and> r_version R' = r_version R"
  by (auto simp: load_route_data_def res_bind_Inr_iff Let_def split: answer.splits list.splits)

text \<open>
  The ids and addresses of a table row, and the hosts a table gives for a module and command.
\<close>

definition table_hosts :: "row list \<Rightarrow> i32 \<Rightarrow> i32 \<Rightarrow> u64 set" where
  "table_hosts rows m c =
     {host_value (atoi (r ! 3)) (atoi (r ! 4)) |r. r \<in> set rows \<and> atoi (r ! 1) = m \<and> atoi (r ! 2) = c}"

lemma reload_table:
  assumes "rows \<noteq> []" and "\<forall>r \<in> set rows. row_ok r"
  shows "\<exists>R'. load_route_data R (Rows rows) = Inr (0, R') \<and> r_version R' = r_version R \<and>
    (\<forall>m c. get_hosts R' m c = get_hosts R m c \<and> get_hosts (swap R') m c = table_hosts rows m c)"
proof -
  obtain r rs where rows: "rows = r # rs" using assms(1) by (cases rows) auto
  obtain m' where m': "run insert_row Map.empty rows = Inr m'"
      "\<forall>k. lookup m' k = lookup Map.empty k \<union> row_value ` {r \<in> set rows. row_key r = k}"
    using run_insert_row[OF assms(2)] by blast
  have "lookup m' (mod_key m c) = table_hosts rows m c" for m c
    unfolding m'(2)[rule_format] by (auto simp: table_hosts_def row_key_def row_value_def lookup_def)
  with m'(1) show ?thesis
    by (intro exI[of _ "R\<lparr>r_temp := m'\<rparr>"]) (simp add: load_route_data_def rows get_hosts_lookup swap_def del: run.simps)
qed

text \<open>
  C17: a reload publishes exactly the table. If the query returns at least one row, each with its
  five columns, then \<open>load_route_data\<close> succeeds and leaves what \<open>get_hosts\<close> answers unchanged; after
  \<open>swap\<close>, \<open>get_hosts\<close> answers for every module and command, positive or negative, with exactly the
  hosts of the rows that carry these ids.
\<close>

theorem reload_publishes_table:
  assumes "rows \<noteq> []" and "\<forall>r \<in> set rows. row_ok r"
  shows "\<exists>R'. load_route_data R (Rows rows) = Inr (0, R') \<and>
    (\<forall>m c. get_hosts R' m c = get_hosts R m c \<and> get_hosts (swap R') m c = table_hosts rows m c)"
  using reload_table[OF assms, of R] by blast

theorem reload_publishes_table_witness:
  "\<exists>R'. load_route_data \<lparr>r_version = 0, r_data = Map.empty, r_temp = Map.empty\<rparr>
       (Rows [[''1'', ''1'', ''2'', ''3232235954'', ''7776'']]) = Inr (0, R') \<and>
     get_hosts (swap R') (atoi ''1'') (atoi ''2'') = {host_value (atoi ''3232235954'') (atoi ''7776'')}"
proof -
  let ?rows = "[[''1'', ''1'', ''2'', ''3232235954'', ''7776'']] :: row list"
  have "?rows \<noteq> []" "\<forall>r \<in> set ?rows. row_ok r" by (simp_all add: row_ok_def)
  from reload_publishes_table[OF this, of "\<lparr>r_version = 0, r_data = Map.empty, r_temp = Map.empty\<rparr>"]
  show ?thesis by (force simp: table_hosts_def)
qed

text \<open>
  Keys and host values. Different ids have different keys. A key or value is taken apart
  correctly exactly when its lower half is not negative: with a negative command id (or port) the
  sign extension borrows from the upper half, so \<open>push_change_task\<close> would announce the module one
  below.
\<close>

theorem key_halves:
  "(mod_key m c = mod_key m' c' \<longleftrightarrow> m = m' \<and> c = c') \<and>
   low_half (mod_key m c) = c \<and> (high_half (mod_key m c) = m \<longleftrightarrow> 0 \<le> sint c) \<and>
   low_half (host_value ip p) = p \<and> (high_half (host_value ip p) = ip \<longleftrightarrow> 0 \<le> sint p)"
  by (auto simp: high_half_key high_half_value)

end
