(* ===== verification/Pb_Wire.thy ===== *)
theory Pb_Wire
  imports Prelude
begin

text \<open>
  What base/proto/rins.pb.cc uses of the protocol buffer library, as a parameter: the record
  \<open>wire\<close> holds the library's readers and writers, and the locale \<open>wire_format\<close> states what the
  published encoding says of them (one-byte tags, a reader gives back what the writer of the same
  kind wrote, readers consume input). The loops that every generated \<open>_InternalParse\<close> has are
  defined here over that record, with the lemmas that let a message be parsed one field at a
  time. The last section writes the encoding out (base-128 varints) and shows that it satisfies
  the laws.
\<close>

unbundle bit_operations_syntax

section \<open>The library's readers and writers\<close>

text \<open>
  A reader returns the value it stores and the new position, \<open>None\<close> for a null pointer; the value
  is stored in both cases. Unknown fields are kept in an \<open>UnknownFieldSet\<close>, the type variable.
\<close>

record 'u wire =
  read_tag :: "byte list \<Rightarrow> (u32 \<times> byte list) option"
  read_varint32 :: "byte list \<Rightarrow> u32 \<times> byte list option"
  read_varint64 :: "byte list \<Rightarrow> u64 \<times> byte list option"
  read_sized :: "byte list \<Rightarrow> (byte list \<times> byte list) option"
  write_int32 :: "nat \<Rightarrow> i32 \<Rightarrow> byte list"
  write_uint32 :: "nat \<Rightarrow> u32 \<Rightarrow> byte list"
  write_bool :: "nat \<Rightarrow> bool \<Rightarrow> byte list"
  write_message :: "nat \<Rightarrow> nat \<Rightarrow> byte list \<Rightarrow> byte list"
  int32_size_plus_one :: "i32 \<Rightarrow> nat"
  uint32_size_plus_one :: "u32 \<Rightarrow> nat"
  message_size :: "nat \<Rightarrow> nat"
  no_unknown :: 'u
  parse_unknown :: "u32 \<Rightarrow> 'u \<Rightarrow> byte list \<Rightarrow> 'u \<times> byte list option"
  write_unknown :: "'u \<Rightarrow> byte list"
  unknown_size :: "'u \<Rightarrow> nat"
  merge_unknown :: "'u \<Rightarrow> 'u \<Rightarrow> 'u"

record 'u pb_message =
  unknown :: 'u

section \<open>The parse loop of generated code\<close>

text \<open>
  How \<open>_InternalParse\<close> ends: at the end of its data, at a tag that ends a group, or with a null
  pointer. \<open>Out_of_fuel\<close> is the model's, for a loop that does not return: the loop below is given as
  much fuel as there are bytes.
\<close>

datatype parse_end = At_limit | Last_tag u32 | Parse_failed | Out_of_fuel

type_synonym 'm field_step = "'m \<Rightarrow> byte list \<Rightarrow> 'm \<times> (parse_end + byte list)"

fun fields_loop :: "'m field_step \<Rightarrow> nat \<Rightarrow> 'm \<Rightarrow> byte list \<Rightarrow> 'm \<times> parse_end" where
  "fields_loop step n m [] = (m, At_limit)"
| "fields_loop step 0 m (b # bs) = (m, Out_of_fuel)"
| "fields_loop step (Suc n) m (b # bs) =
     (case step m (b # bs) of (m', Inl e) \<Rightarrow> (m', e) | (m', Inr r) \<Rightarrow> fields_loop step n m' r)"

definition internal_parse :: "'m field_step \<Rightarrow> 'm \<Rightarrow> byte list \<Rightarrow> 'm \<times> parse_end" where
  "internal_parse step m bs = fields_loop step (length bs) m bs"

definition varint32_field :: "'u wire \<Rightarrow> (u32 \<Rightarrow> 'm) \<Rightarrow> byte list \<Rightarrow> 'm \<times> (parse_end + byte list)" where
  "varint32_field w f p =
     (case read_varint32 w p of (v, None) \<Rightarrow> (f v, Inl Parse_failed) | (v, Some r) \<Rightarrow> (f v, Inr r))"

definition varint64_field :: "'u wire \<Rightarrow> (u64 \<Rightarrow> 'm) \<Rightarrow> byte list \<Rightarrow> 'm \<times> (parse_end + byte list)" where
  "varint64_field w f p =
     (case read_varint64 w p of (v, None) \<Rightarrow> (f v, Inl Parse_failed) | (v, Some r) \<Rightarrow> (f v, Inr r))"

definition unusual_field ::
  "'u wire \<Rightarrow> u32 \<Rightarrow> ('u, 'a) pb_message_scheme \<Rightarrow> byte list \<Rightarrow> ('u, 'a) pb_message_scheme \<times> (parse_end + byte list)" where
  "unusual_field w tag m p =
     (if tag = 0 \<or> tag AND 7 = 4 then (m, Inl (Last_tag tag))
      else (case parse_unknown w tag (unknown m) p of
              (u, None) \<Rightarrow> (m\<lparr>unknown := u\<rparr>, Inl Parse_failed)
            | (u, Some r) \<Rightarrow> (m\<lparr>unknown := u\<rparr>, Inr r)))"

text \<open>
  \<open>ctx->ParseMessage\<close> on a sub-message: the size, then the sub-message's own parser on that many
  bytes, which has to end at the limit; a sub-message whose parser does not return does not return
  either. \<open>message_field\<close> is a single sub-message, \<open>repeated_field\<close> the do-while loop that collects
  consecutive elements behind the same tag byte.
\<close>

definition parse_message ::
  "'u wire \<Rightarrow> ('s \<Rightarrow> byte list \<Rightarrow> 's \<times> parse_end) \<Rightarrow> 's \<Rightarrow> byte list \<Rightarrow> 's \<times> (parse_end + byte list)" where
  "parse_message w parse s p =
     (case read_sized w p of
        None \<Rightarrow> (s, Inl Parse_failed)
      | Some (body, r) \<Rightarrow>
          (case parse s body of (s', e) \<Rightarrow>
             (s', if e = At_limit then Inr r else if e = Out_of_fuel then Inl Out_of_fuel else Inl Parse_failed)))"

definition message_field ::
  "'u wire \<Rightarrow> ('s \<Rightarrow> byte list \<Rightarrow> 's \<times> parse_end) \<Rightarrow> 's \<Rightarrow> ('s \<Rightarrow> 'm) \<Rightarrow> byte list \<Rightarrow> 'm \<times> (parse_end + byte list)" where
  "message_field w parse s f p = (case parse_message w parse s p of (s', r) \<Rightarrow> (f s', r))"

fun repeated_loop ::
  "'u wire \<Rightarrow> byte \<Rightarrow> ('s \<Rightarrow> byte list \<Rightarrow> 's \<times> parse_end) \<Rightarrow> 's \<Rightarrow> ('s \<Rightarrow> 'm \<Rightarrow> 'm) \<Rightarrow> nat \<Rightarrow> 'm \<Rightarrow> byte list \<Rightarrow>
   'm \<times> (parse_end + byte list)" where
  "repeated_loop w t parse s add 0 m p = (m, Inl Out_of_fuel)"
| "repeated_loop w t parse s add (Suc n) m p =
     (case parse_message w parse s p of
        (s', Inl e) \<Rightarrow> (add s' m, Inl e)
      | (s', Inr []) \<Rightarrow> (add s' m, Inr [])
      | (s', Inr (b # r)) \<Rightarrow>
          if b = t then repeated_loop w t parse s add n (add s' m) r else (add s' m, Inr (b # r)))"

definition repeated_field ::
  "'u wire \<Rightarrow> byte \<Rightarrow> ('s \<Rightarrow> byte list \<Rightarrow> 's \<times> parse_end) \<Rightarrow> 's \<Rightarrow> ('s \<Rightarrow> 'm \<Rightarrow> 'm) \<Rightarrow> 'm \<Rightarrow> byte list \<Rightarrow>
   'm \<times> (parse_end + byte list)" where
  "repeated_field w t parse s add m p = repeated_loop w t parse s add (Suc (length p)) m p"

text \<open>
  \<open>ParseFromArray\<close> clears the message, parses, and reports success when the parser ended at the
  limit.
\<close>

definition parse_from_array :: "('m \<Rightarrow> byte list \<Rightarrow> 'm \<times> parse_end) \<Rightarrow> 'm \<Rightarrow> byte list \<Rightarrow> 'm \<times> bool" where
  "parse_from_array parse cleared bs = (case parse cleared bs of (m, e) \<Rightarrow> (m, e = At_limit))"

section \<open>Parsing one field at a time\<close>

definition consuming :: "'m field_step \<Rightarrow> bool" where
  "consuming step \<longleftrightarrow> (\<forall>m bs m' r. step m bs = (m', Inr r) \<longrightarrow> length r < length bs)"

lemma fields_loop_fuel:
  assumes "consuming step" and "length bs \<le> n"
  shows "fields_loop step n m bs = fields_loop step (length bs) m bs"
  using assms(2)
proof (induction n arbitrary: m bs rule: less_induct)
  case (less n)
  show ?case
  proof (cases bs)
    case (Cons b t)
    then obtain k where n: "n = Suc k" using less.prems by (cases n) auto
    show ?thesis
    proof (cases "step m bs")
      case (Pair m' o')
      show ?thesis
      proof (cases o')
        case (Inr r)
        then have lt: "length r < length bs" using assms(1) Pair by (auto simp: consuming_def)
        then have "fields_loop step k m' r = fields_loop step (length r) m' r"
          using less.IH[of k r m'] less.prems n by simp
        moreover have "fields_loop step (length t) m' r = fields_loop step (length r) m' r"
          using less.IH[of "length t" r m'] less.prems lt Cons n by simp
        ultimately show ?thesis using Cons n Pair Inr by simp
      qed (use Cons n Pair in simp)
    qed
  qed simp
qed

lemma internal_parse_Nil [simp]: "internal_parse step m [] = (m, At_limit)"
  by (simp add: internal_parse_def)

lemma internal_parse_field:
  assumes "consuming step" and "bs \<noteq> []" and "step m bs = (m', Inr r)"
  shows "internal_parse step m bs = internal_parse step m' r"
proof -
  obtain b t where bs: "bs = b # t" using assms(2) by (cases bs) auto
  have "length r \<le> length t" using assms(1,3) bs by (fastforce simp: consuming_def)
  then show ?thesis
    using fields_loop_fuel[OF assms(1), of r "length t" m'] assms(3) bs by (simp add: internal_parse_def)
qed

text \<open>\<open>puts step c f\<close>: one step on an input that starts with \<open>c\<close> consumes \<open>c\<close> and applies \<open>f\<close>.\<close>

definition puts :: "'m field_step \<Rightarrow> byte list \<Rightarrow> ('m \<Rightarrow> 'm) \<Rightarrow> bool" where
  "puts step c f \<longleftrightarrow> c \<noteq> [] \<and> (\<forall>m r. step m (c @ r) = (f m, Inr r))"

lemma internal_parse_puts:
  assumes "consuming step" and "b \<Longrightarrow> puts step c f"
  shows "internal_parse step m ((if b then c else []) @ r) = internal_parse step (if b then f m else m) r"
  using internal_parse_field[OF assms(1), of "c @ r" m "f m" r] assms(2) by (simp add: puts_def)

lemma consuming_not_out_of_fuel:
  assumes "consuming step" and "\<And>m bs. step m bs \<noteq> (m', Inl Out_of_fuel)"
  shows "internal_parse step m bs \<noteq> (m', Out_of_fuel)"
proof (induction bs arbitrary: m rule: length_induct)
  case (1 bs)
  show ?case
  proof (cases "bs = []")
    case False
    show ?thesis
    proof (cases "step m bs")
      case (Pair m2 o')
      show ?thesis
      proof (cases o')
        case (Inl e)
        then show ?thesis using Pair assms(2)[of m bs] False by (cases bs) (auto simp: internal_parse_def)
      next
        case (Inr r)
        then have "length r < length bs" using assms(1) Pair by (auto simp: consuming_def)
        then show ?thesis using 1 internal_parse_field[OF assms(1) False, of m m2 r] Pair Inr by simp
      qed
    qed
  qed simp
qed

lemma tag_number [simp]:
  "drop_bit 3 (8 :: u32) = 1" "drop_bit 3 (16 :: u32) = 2" "drop_bit 3 (24 :: u32) = 3"
  "drop_bit 3 (32 :: u32) = 4" "drop_bit 3 (40 :: u32) = 5" "drop_bit 3 (26 :: u32) = 3"
  "drop_bit 3 (34 :: u32) = 4" "drop_bit 3 (42 :: u32) = 5"
  by (simp_all add: drop_bit_eq_div word_div_def)

section \<open>The encoding's laws\<close>

locale wire_format =
  fixes w :: "'u wire"
  assumes tag_byte: "c < 128 \<Longrightarrow> read_tag w (c # p) = Some (ucast c, p)"
    and tag_consumes: "read_tag w bs = Some (t, r) \<Longrightarrow> length r < length bs"
    and varint32_consumes: "read_varint32 w bs = (v, Some r) \<Longrightarrow> length r \<le> length bs"
    and varint64_consumes: "read_varint64 w bs = (v', Some r) \<Longrightarrow> length r \<le> length bs"
    and sized_consumes: "read_sized w bs = Some (body, r) \<Longrightarrow> length r < length bs"
    and unknown_consumes: "parse_unknown w t u bs = (u', Some r) \<Longrightarrow> length r \<le> length bs"
    and int32_written: "1 \<le> n \<Longrightarrow> n < 16 \<Longrightarrow>
      \<exists>p. write_int32 w n x = of_nat (8 * n) # p \<and> (\<forall>r. read_varint32 w (p @ r) = (x, Some r))"
    and uint32_written: "1 \<le> n \<Longrightarrow> n < 16 \<Longrightarrow>
      \<exists>p. write_uint32 w n x = of_nat (8 * n) # p \<and> (\<forall>r. read_varint32 w (p @ r) = (x, Some r))"
    and bool_written: "1 \<le> n \<Longrightarrow> n < 16 \<Longrightarrow>
      \<exists>p. write_bool w n b = of_nat (8 * n) # p \<and> (\<forall>r. read_varint64 w (p @ r) = (of_bool b, Some r))"
    and message_written: "1 \<le> n \<Longrightarrow> n < 16 \<Longrightarrow> length body < 2 ^ 31 \<Longrightarrow>
      \<exists>p. write_message w n (length body) body = of_nat (8 * n + 2) # p \<and> (\<forall>r. read_sized w (p @ r) = Some (body, r))"
    and int32_length: "n < 16 \<Longrightarrow> length (write_int32 w n x) = int32_size_plus_one w x"
    and uint32_length: "n < 16 \<Longrightarrow> length (write_uint32 w n x) = uint32_size_plus_one w x"
    and bool_length: "n < 16 \<Longrightarrow> length (write_bool w n b) = 2"
    and message_length: "n < 16 \<Longrightarrow> length (write_message w n (length body) body) = 1 + message_size w (length body)"
    and unknown_written: "length (write_unknown w u) = unknown_size w u"
    and no_unknown_written: "write_unknown w (no_unknown w) = []"
    and no_unknown_merged: "merge_unknown w u (no_unknown w) = u"
    and int32_size: "int32_size_plus_one w x \<le> 11"
    and uint32_size: "uint32_size_plus_one w x \<le> 6"
    and message_overhead: "k < 2 ^ 31 \<Longrightarrow> message_size w k \<le> k + 5"
begin

lemma varint32_field_consumes: "varint32_field w f p = (m', Inr r) \<Longrightarrow> length r \<le> length p"
  by (auto simp: varint32_field_def split: prod.splits option.splits dest: varint32_consumes)

lemma varint64_field_consumes: "varint64_field w f p = (m', Inr r) \<Longrightarrow> length r \<le> length p"
  by (auto simp: varint64_field_def split: prod.splits option.splits dest: varint64_consumes)

lemma unusual_field_consumes: "unusual_field w t m p = (m', Inr r) \<Longrightarrow> length r \<le> length p"
  by (auto simp: unusual_field_def split: prod.splits option.splits if_splits dest: unknown_consumes)

lemma parse_message_consumes: "parse_message w f s p = (s', Inr r) \<Longrightarrow> length r < length p"
  by (auto simp: parse_message_def split: prod.splits option.splits if_splits dest: sized_consumes)

lemma message_field_consumes: "message_field w f s g p = (m', Inr r) \<Longrightarrow> length r \<le> length p"
  by (auto simp: message_field_def split: prod.splits dest!: parse_message_consumes)

lemma repeated_loop_consumes: "repeated_loop w t f s add n m p = (m', Inr r) \<Longrightarrow> length r \<le> length p"
proof (induction n arbitrary: m p)
  case (Suc n)
  show ?case
  proof (cases "parse_message w f s p")
    case (Pair s' o')
    with Suc.prems parse_message_consumes[of f s p s'] Suc.IH[of "add s' m"] show ?thesis
      by (cases o'; cases "projr o'") (fastforce split: if_splits)+
  qed
qed simp

lemma repeated_field_consumes: "repeated_field w t f s add m p = (m', Inr r) \<Longrightarrow> length r \<le> length p"
  unfolding repeated_field_def by (rule repeated_loop_consumes)

lemma parse_message_fuel:
  assumes "\<And>s bs s'. f s bs \<noteq> (s', Out_of_fuel)"
  shows "parse_message w f s p \<noteq> (s', Inl Out_of_fuel)"
  using assms by (auto simp: parse_message_def split: option.splits prod.splits if_splits)

lemma repeated_loop_fuel:
  assumes "\<And>s bs s'. f s bs \<noteq> (s', Out_of_fuel)" and "length p < n"
  shows "repeated_loop w t f s add n m p \<noteq> (m', Inl Out_of_fuel)"
  using assms(2)
proof (induction n arbitrary: m p)
  case (Suc n)
  show ?case
  proof (cases "parse_message w f s p")
    case (Pair s' o')
    with Suc.prems parse_message_consumes[of f s p s'] parse_message_fuel[of f s p s', OF assms(1)] Suc.IH[of _ "add s' m"]
    show ?thesis by (cases o'; cases "projr o'") (fastforce split: if_splits)+
  qed
qed simp

lemmas consumes = varint32_field_consumes varint64_field_consumes unusual_field_consumes
  message_field_consumes repeated_field_consumes

lemma small_tag:
  assumes "n < 16" and "k < 8"
  shows "read_tag w (of_nat (8 * n + k) # p) = Some (of_nat (8 * n + k), p)"
proof -
  define x where "x = 8 * n + k"
  have lt: "x < 128" using assms unfolding x_def by presburger
  then have "(of_nat x :: byte) < 128" by (simp add: word_less_nat_alt unat_of_nat)
  moreover have "(ucast (of_nat x :: byte) :: u32) = of_nat x"
    using lt by (simp add: word_unat_eq_iff unat_of_nat unsigned_ucast_eq take_bit_eq_mod)
  ultimately show ?thesis unfolding x_def[symmetric] using tag_byte by metis
qed

lemma int32_step:
  assumes "1 \<le> n" and "n < 16"
  obtains p where "read_tag w (write_int32 w n v @ r) = Some (of_nat (8 * n), p)"
    and "read_varint32 w p = (v, Some r)" and "write_int32 w n v @ r \<noteq> []"
  using int32_written[OF assms, of v] small_tag[OF assms(2), of 0] by fastforce

lemma uint32_step:
  assumes "1 \<le> n" and "n < 16"
  obtains p where "read_tag w (write_uint32 w n v @ r) = Some (of_nat (8 * n), p)"
    and "read_varint32 w p = (v, Some r)" and "write_uint32 w n v @ r \<noteq> []"
  using uint32_written[OF assms, of v] small_tag[OF assms(2), of 0] by fastforce

lemma bool_step:
  assumes "1 \<le> n" and "n < 16"
  obtains p where "read_tag w (write_bool w n b @ r) = Some (of_nat (8 * n), p)"
    and "read_varint64 w p = (of_bool b, Some r)" and "write_bool w n b @ r \<noteq> []"
  using bool_written[OF assms, of b] small_tag[OF assms(2), of 0] by fastforce

lemma message_step:
  assumes "1 \<le> n" and "n < 16" and "length body < 2 ^ 31"
  obtains p where "write_message w n (length body) body @ r = of_nat (8 * n + 2) # p"
    and "read_tag w (write_message w n (length body) body @ r) = Some (of_nat (8 * n + 2), p)"
    and "read_sized w p = Some (body, r)"
  using message_written[OF assms] small_tag[OF assms(2), of 2] by fastforce

end

context wire_format
begin

lemma parse_message_written:
  assumes "read_sized w p = Some (body, r)" and "parse s body = (s', At_limit)"
  shows "parse_message w parse s p = (s', Inr r)"
  using assms by (simp add: parse_message_def)

text \<open>
  The do-while loop on the elements of a repeated field: it takes all of them, and stops in front
  of whatever does not start with the same tag byte.
\<close>

lemma repeated_loop_written:
  assumes "1 \<le> k" and "k < 16" and "r = [] \<or> hd r \<noteq> of_nat (8 * k + 2)"
    and "\<forall>h \<in> set hs. length (ser h) < 2 ^ 31 \<and> parse s (ser h) = (f h, At_limit)"
    and "of_nat (8 * k + 2) # p = concat (map (\<lambda>h. write_message w k (length (ser h)) (ser h)) hs) @ r"
    and "hs \<noteq> []" and "length p < n"
  shows "repeated_loop w (of_nat (8 * k + 2)) parse s add n m p = (fold (\<lambda>h. add (f h)) hs m, Inr r)"
  using assms(4-)
proof (induction hs arbitrary: n m p)
  case (Cons h hs)
  obtain n' where n: "n = Suc n'" using Cons.prems(4) by (cases n) auto
  define q where "q = concat (map (\<lambda>h. write_message w k (length (ser h)) (ser h)) hs) @ r"
  have h: "length (ser h) < 2 ^ 31" "parse s (ser h) = (f h, At_limit)" using Cons.prems(1) by auto
  obtain p' where p': "write_message w k (length (ser h)) (ser h) @ q = of_nat (8 * k + 2) # p'"
      "read_sized w p' = Some (ser h, q)"
    using message_step[OF assms(1,2) h(1), of q] by metis
  then have "p' = p" using Cons.prems(2) by (simp add: q_def)
  then have pm: "parse_message w parse s p = (f h, Inr q)"
    using parse_message_written[of p _ q parse] p'(2) h(2) by simp
  show ?case
  proof (cases hs)
    case Nil
    then have "q = r" by (simp add: q_def)
    then show ?thesis using pm n Nil assms(3) by (cases r) simp_all
  next
    case (Cons h2 hs2)
    have "length (ser h2) < 2 ^ 31" using \<open>hs = h2 # hs2\<close> Cons.prems(1) by simp
    from message_written[OF assms(1,2) this] obtain q' where q': "q = of_nat (8 * k + 2) # q'"
      unfolding q_def Cons by auto
    have "length q' < n'" using parse_message_consumes[OF pm] q' Cons.prems(4) n by simp
    then have "repeated_loop w (of_nat (8 * k + 2)) parse s add n' (add (f h) m) q' =
        (fold (\<lambda>h. add (f h)) hs (add (f h) m), Inr r)"
      using Cons.IH[of q' n' "add (f h) m"] Cons.prems(1) q' Cons by (simp add: q_def)
    then show ?thesis using pm n q' by simp
  qed
qed simp

lemma puts_int32:
  assumes "1 \<le> n" and "n < 16"
    and "\<And>m p bs. read_tag w bs = Some (of_nat (8 * n), p) \<Longrightarrow> step m bs = varint32_field w (\<lambda>v. f v m) p"
  shows "puts step (write_int32 w n v) (f v)"
proof -
  have "step m (write_int32 w n v @ r) = (f v m, Inr r)" for m r
    by (rule int32_step[OF assms(1,2), of v r]) (simp add: assms(3) varint32_field_def)
  then show ?thesis using int32_step[OF assms(1,2), of v "[]"] by (auto simp: puts_def)
qed

lemma puts_uint32:
  assumes "1 \<le> n" and "n < 16"
    and "\<And>m p bs. read_tag w bs = Some (of_nat (8 * n), p) \<Longrightarrow> step m bs = varint32_field w (\<lambda>v. f v m) p"
  shows "puts step (write_uint32 w n v) (f v)"
proof -
  have "step m (write_uint32 w n v @ r) = (f v m, Inr r)" for m r
    by (rule uint32_step[OF assms(1,2), of v r]) (simp add: assms(3) varint32_field_def)
  then show ?thesis using uint32_step[OF assms(1,2), of v "[]"] by (auto simp: puts_def)
qed

lemma puts_bool:
  assumes "1 \<le> n" and "n < 16"
    and "\<And>m p bs. read_tag w bs = Some (of_nat (8 * n), p) \<Longrightarrow> step m bs = varint64_field w (\<lambda>v. f (v \<noteq> 0) m) p"
  shows "puts step (write_bool w n b) (f b)"
proof -
  have "step m (write_bool w n b @ r) = (f b m, Inr r)" for m r
    by (rule bool_step[OF assms(1,2), of b r]) (simp add: assms(3) varint64_field_def)
  then show ?thesis using bool_step[OF assms(1,2), of b "[]"] by (auto simp: puts_def)
qed

lemma puts_message:
  assumes "1 \<le> n" and "n < 16" and "length body < 2 ^ 31"
    and "\<And>m p bs. read_tag w bs = Some (of_nat (8 * n + 2), p) \<Longrightarrow> step m bs = message_field w parse (g m) (\<lambda>s. f s m) p"
    and "\<And>m. parse (g m) body = (h m, At_limit)"
  shows "puts step (write_message w n (length body) body) (\<lambda>m. f (h m) m)"
proof -
  have "step m (write_message w n (length body) body @ r) = (f (h m) m, Inr r)" for m r
    by (rule message_step[OF assms(1-3), of r])
      (simp add: assms(4,5) message_field_def parse_message_written)
  then show ?thesis using message_step[OF assms(1-3), of "[]"] by (auto simp: puts_def)
qed

lemma internal_parse_repeated:
  assumes "consuming step" and "1 \<le> k" and "k < 16" and "r = [] \<or> hd r \<noteq> of_nat (8 * k + 2)"
    and "\<forall>h \<in> set hs. length (ser h) < 2 ^ 31 \<and> parse s (ser h) = (f h, At_limit)"
    and "\<And>m p bs. read_tag w bs = Some (of_nat (8 * k + 2), p) \<Longrightarrow>
      step m bs = repeated_field w (of_nat (8 * k + 2)) parse s add m p"
  shows "internal_parse step m (concat (map (\<lambda>h. write_message w k (length (ser h)) (ser h)) hs) @ r) =
    internal_parse step (fold (\<lambda>h. add (f h)) hs m) r"
proof (cases hs)
  case (Cons h hs2)
  let ?bs = "concat (map (\<lambda>h. write_message w k (length (ser h)) (ser h)) hs) @ r"
  have "length (ser h) < 2 ^ 31" using assms(5) Cons by simp
  from message_written[OF assms(2,3) this] obtain p where p: "?bs = of_nat (8 * k + 2) # p"
    unfolding Cons by auto
  have "read_tag w ?bs = Some (of_nat (8 * k + 2), p)" unfolding p using small_tag[OF assms(3), of 2] by simp
  from assms(6)[OF this, of m]
  have "step m ?bs = (fold (\<lambda>h. add (f h)) hs m, Inr r)"
    using repeated_loop_written[of k r hs ser parse s f p "Suc (length p)" add m] assms(2-5) p Cons
    by (simp add: repeated_field_def)
  then show ?thesis using internal_parse_field[OF assms(1)] p by simp
qed simp

end

section \<open>The encoding written out\<close>

text \<open>
  Base-128 varints, least significant group first, the high bit set on all but the last byte; at
  most ten bytes for 64 bits. A negative \<open>int32\<close> is written sign-extended to 64 bits. Unknown
  fields are kept as the bytes they came in (groups, which no message here uses, are refused).
\<close>

fun varint :: "nat \<Rightarrow> byte list" where
  "varint n = (if n < 128 then [of_nat n] else of_nat (n mod 128 + 128) # varint (n div 128))"

declare varint.simps [simp del]

fun read_var :: "nat \<Rightarrow> byte list \<Rightarrow> nat \<times> byte list option" where
  "read_var (Suc k) (b # bs) =
     (if b < 128 then (unat b, Some bs)
      else (case read_var k bs of (v, r) \<Rightarrow> (unat b - 128 + 128 * v, r)))"
| "read_var _ _ = (0, None)"

definition take_bytes :: "nat \<Rightarrow> byte list \<Rightarrow> (byte list \<times> byte list) option" where
  "take_bytes n bs = (if n \<le> length bs then Some (take n bs, drop n bs) else None)"

definition skip_field :: "u32 \<Rightarrow> byte list \<Rightarrow> byte list option" where
  "skip_field tag bs =
     (if tag AND 7 = 0 then snd (read_var 10 bs)
      else if tag AND 7 = 1 then map_option snd (take_bytes 8 bs)
      else if tag AND 7 = 2 then
        (case read_var 5 bs of (v, Some r) \<Rightarrow> map_option snd (take_bytes v r) | (_, None) \<Rightarrow> None)
      else if tag AND 7 = 5 then map_option snd (take_bytes 4 bs)
      else None)"

definition pb_wire :: "byte list wire" where
  "pb_wire = \<lparr>
     read_tag = (\<lambda>bs. case read_var 5 bs of (v, None) \<Rightarrow> None | (v, Some r) \<Rightarrow> Some (of_nat v, r)),
     read_varint32 = (\<lambda>bs. case read_var 10 bs of (v, r) \<Rightarrow> (of_nat v, r)),
     read_varint64 = (\<lambda>bs. case read_var 10 bs of (v, r) \<Rightarrow> (of_nat v, r)),
     read_sized = (\<lambda>bs. case read_var 5 bs of (v, None) \<Rightarrow> None | (v, Some r) \<Rightarrow> take_bytes v r),
     write_int32 = (\<lambda>n x. varint (8 * n) @ varint (unat (scast x :: u64))),
     write_uint32 = (\<lambda>n x. varint (8 * n) @ varint (unat x)),
     write_bool = (\<lambda>n b. varint (8 * n) @ [of_bool b]),
     write_message = (\<lambda>n size body. varint (8 * n + 2) @ varint size @ body),
     int32_size_plus_one = (\<lambda>x. 1 + length (varint (unat (scast x :: u64)))),
     uint32_size_plus_one = (\<lambda>x. 1 + length (varint (unat x))),
     message_size = (\<lambda>k. length (varint k) + k),
     no_unknown = [],
     parse_unknown = (\<lambda>tag u bs. case skip_field tag bs of
       None \<Rightarrow> (u, None)
     | Some r \<Rightarrow> (u @ varint (unat tag) @ take (length bs - length r) bs, Some r)),
     write_unknown = (\<lambda>u. u),
     unknown_size = length,
     merge_unknown = (@)\<rparr>"

lemma unat_byte_of_nat: "n < 256 \<Longrightarrow> unat (of_nat n :: byte) = n"
  by (simp add: unat_of_nat)

lemma byte_less_128: "(b :: byte) < 128 \<longleftrightarrow> unat b < 128"
  by (simp add: word_less_nat_alt)

lemma read_var_byte: "0 < k \<Longrightarrow> b < 128 \<Longrightarrow> read_var k (b # bs) = (unat b, Some bs)"
  by (cases k) simp_all

lemma read_var_varint:
  assumes "n < 128 ^ k" and "0 < k"
  shows "read_var k (varint n @ r) = (n, Some r)"
  using assms
proof (induction k arbitrary: n)
  case (Suc k)
  show ?case
  proof (cases "n < 128")
    case True
    then show ?thesis by (simp add: varint.simps[of n] byte_less_128 unat_byte_of_nat)
  next
    case False
    then have k: "0 < k" using Suc.prems(1) by (cases k) auto
    have d: "n div 128 < 128 ^ k" using Suc.prems(1) by (simp add: less_mult_imp_div_less mult.commute)
    define c where "c = n mod 128 + 128"
    have c: "unat (of_nat c :: byte) = c" unfolding c_def by (intro unat_byte_of_nat) simp
    have nc: "\<not> (of_nat c :: byte) < 128" unfolding byte_less_128 c by (simp add: c_def)
    have v: "varint n = of_nat c # varint (n div 128)" using False by (simp add: varint.simps[of n] c_def)
    show ?thesis unfolding v using nc c Suc.IH[OF d k] by (simp add: c_def)
  qed
qed simp

lemma length_varint: "n < 128 ^ k \<Longrightarrow> 0 < k \<Longrightarrow> length (varint n) \<le> k"
proof (induction k arbitrary: n)
  case (Suc k)
  show ?case
  proof (cases "n < 128")
    case False
    then have k: "0 < k" using Suc.prems(1) by (cases k) auto
    have "n div 128 < 128 ^ k" using Suc.prems(1) by (simp add: less_mult_imp_div_less mult.commute)
    with False Suc.IH[OF this k] show ?thesis by (simp add: varint.simps[of n])
  qed (simp add: varint.simps[of n])
qed simp

lemma read_var_consumes: "read_var k bs = (v, Some r) \<Longrightarrow> length r < length bs"
  by (induction k bs arbitrary: v r rule: read_var.induct)
    (fastforce split: if_splits prod.splits)+

lemma take_bytes_consumes: "take_bytes n bs = Some (x, r) \<Longrightarrow> length r \<le> length bs"
  by (auto simp: take_bytes_def split: if_splits)

lemma snd_read_var_consumes: "snd (read_var k bs) = Some r \<Longrightarrow> length r < length bs"
  by (cases "read_var k bs") (simp add: read_var_consumes)

lemma skip_field_consumes: "skip_field t bs = Some r \<Longrightarrow> length r \<le> length bs"
  unfolding skip_field_def case_prod_unfold
  by (auto split: if_splits option.splits dest!: snd_read_var_consumes take_bytes_consumes)

lemma varint_tag: "n < 128 \<Longrightarrow> varint n = [of_nat n]"
  by (simp add: varint.simps)

lemma unat_u64_less: "unat (x :: u64) < 128 ^ 10"
  using unsigned_less[of x, where ?'a = nat] by simp

lemma unat_u32_less: "unat (x :: u32) < 128 ^ 5"
  using unsigned_less[of x, where ?'a = nat] by simp

lemma read_signed: "(ucast (scast (x :: i32) :: u64) :: u32) = x"
  by (rule bit_word_eqI) (simp add: bit_simps)

lemma uint32_size_pb: "1 + length (varint (unat (x :: u32))) \<le> 6"
  using length_varint[OF unat_u32_less, of x] by simp

interpretation pb: wire_format pb_wire
proof unfold_locales
  fix c :: byte and p show "c < 128 \<Longrightarrow> read_tag pb_wire (c # p) = Some (ucast c, p)"
    by (simp add: pb_wire_def read_var_byte)
next
  fix bs t r show "read_tag pb_wire bs = Some (t, r) \<Longrightarrow> length r < length bs"
    by (auto simp: pb_wire_def split: prod.splits option.splits dest: read_var_consumes)
next
  fix bs v r show "read_varint32 pb_wire bs = (v, Some r) \<Longrightarrow> length r \<le> length bs"
    by (auto simp: pb_wire_def split: prod.splits dest!: read_var_consumes)
next
  fix bs v r show "read_varint64 pb_wire bs = (v, Some r) \<Longrightarrow> length r \<le> length bs"
    by (auto simp: pb_wire_def split: prod.splits dest!: read_var_consumes)
next
  fix bs body r show "read_sized pb_wire bs = Some (body, r) \<Longrightarrow> length r < length bs"
    by (auto simp: pb_wire_def split: prod.splits option.splits dest!: read_var_consumes take_bytes_consumes)
next
  fix t u bs u' r show "parse_unknown pb_wire t u bs = (u', Some r) \<Longrightarrow> length r \<le> length bs"
    by (auto simp: pb_wire_def split: option.splits dest!: skip_field_consumes)
next
  fix n :: nat and x :: i32 assume "1 \<le> n" "n < 16"
  then show "\<exists>p. write_int32 pb_wire n x = of_nat (8 * n) # p \<and> (\<forall>r. read_varint32 pb_wire (p @ r) = (x, Some r))"
    by (intro exI[of _ "varint (unat (scast x :: u64))"])
      (simp add: pb_wire_def varint_tag read_var_varint[OF unat_u64_less] read_signed)
next
  fix n :: nat and x :: u32 assume "1 \<le> n" "n < 16"
  moreover have "unat x < 128 ^ 10" using unat_u32_less[of x] by simp
  ultimately show "\<exists>p. write_uint32 pb_wire n x = of_nat (8 * n) # p \<and> (\<forall>r. read_varint32 pb_wire (p @ r) = (x, Some r))"
    by (intro exI[of _ "varint (unat x)"]) (simp add: pb_wire_def varint_tag read_var_varint)
next
  fix n :: nat and b assume "1 \<le> n" "n < 16"
  then show "\<exists>p. write_bool pb_wire n b = of_nat (8 * n) # p \<and> (\<forall>r. read_varint64 pb_wire (p @ r) = (of_bool b, Some r))"
    by (intro exI[of _ "[of_bool b]"]) (cases b; simp add: pb_wire_def varint_tag read_var_byte)
next
  fix n :: nat and body :: "byte list" assume "1 \<le> n" "n < 16" "length body < 2 ^ 31"
  then show "\<exists>p. write_message pb_wire n (length body) body = of_nat (8 * n + 2) # p \<and>
      (\<forall>r. read_sized pb_wire (p @ r) = Some (body, r))"
    by (intro exI[of _ "varint (length body) @ body"])
      (simp add: pb_wire_def varint_tag read_var_varint take_bytes_def)
next
  fix n :: nat and x :: i32 show "n < 16 \<Longrightarrow> length (write_int32 pb_wire n x) = int32_size_plus_one pb_wire x"
    by (simp add: pb_wire_def varint_tag)
next
  fix n :: nat and x :: u32 show "n < 16 \<Longrightarrow> length (write_uint32 pb_wire n x) = uint32_size_plus_one pb_wire x"
    by (simp add: pb_wire_def varint_tag)
next
  fix n :: nat and b show "n < 16 \<Longrightarrow> length (write_bool pb_wire n b) = 2"
    by (simp add: pb_wire_def varint_tag)
next
  fix n :: nat and body show "n < 16 \<Longrightarrow> length (write_message pb_wire n (length body) body) = 1 + message_size pb_wire (length body)"
    by (simp add: pb_wire_def varint_tag)
next
  fix x :: i32 show "int32_size_plus_one pb_wire x \<le> 11"
    using length_varint[OF unat_u64_less, of "scast x"] by (simp add: pb_wire_def)
next
  fix x :: u32 show "uint32_size_plus_one pb_wire x \<le> 6"
    using uint32_size_pb[of x] by (simp add: pb_wire_def)
next
  fix k :: nat assume "k < 2 ^ 31"
  then show "message_size pb_wire k \<le> k + 5" using length_varint[of k 5] by (simp add: pb_wire_def)
qed (simp_all add: pb_wire_def)

lemma no_unknown_size: "wire_format w \<Longrightarrow> unknown_size w (no_unknown w) = 0"
  using wire_format.unknown_written[of w "no_unknown w"] wire_format.no_unknown_written[of w] by simp

end
