(* ===== verification/Rins_Proto.thy ===== *)
theory Rins_Proto
  imports Pb_Wire
begin

text \<open>
  base/proto/rins.pb.h and rins.pb.cc: the messages the services exchange. Each message is a
  record that extends \<open>pb_message\<close> (its unknown fields); the record's selectors and updates are the
  class's accessors. Per message there are the cleared value (constructor and \<open>Clear\<close>), the case
  analysis of \<open>_InternalParse\<close> on one field, \<open>_InternalSerialize\<close>, \<open>ByteSizeLong\<close> and \<open>MergeImpl\<close>, in the
  order of the generated code and over the library parameter of Pb\_Wire. The lemmas show that
  parsing what was serialised is merging it, that sizes announced are sizes written, and that
  parsing ends for every input.
\<close>

section \<open>Message and return codes\<close>

definition ID_GetRouteRequest :: int where "ID_GetRouteRequest = 1"

definition ID_GetRouteResponse :: int where "ID_GetRouteResponse = 2"

definition ID_ReportStatusRequest :: int where "ID_ReportStatusRequest = 3"

definition ID_GetHostRequest :: int where "ID_GetHostRequest = 4"

definition ID_GetHostResponse :: int where "ID_GetHostResponse = 5"

definition RET_SUCC :: i32 where "RET_SUCC = 0"

definition RET_OVERLOAD :: i32 where "RET_OVERLOAD = 1"

definition RET_SYSTEM_ERROR :: i32 where "RET_SYSTEM_ERROR = 2"

definition RET_NOEXIST :: i32 where "RET_NOEXIST = 3"

lemmas id_defs = ID_GetRouteRequest_def ID_GetRouteResponse_def ID_ReportStatusRequest_def
  ID_GetHostRequest_def ID_GetHostResponse_def

lemmas ret_defs = RET_SUCC_def RET_OVERLOAD_def RET_SYSTEM_ERROR_def RET_NOEXIST_def

section \<open>HostInfo\<close>

record 'u HostInfo = "'u pb_message" +
  hi_ip :: i32
  hi_port :: i32

definition HostInfo_clear :: "'u wire \<Rightarrow> 'u HostInfo" where
  "HostInfo_clear w = \<lparr>unknown = no_unknown w, hi_ip = 0, hi_port = 0\<rparr>"

definition HostInfo_field :: "'u wire \<Rightarrow> 'u HostInfo field_step" where
  "HostInfo_field w m bs =
     (case read_tag w bs of
        None \<Rightarrow> (m, Inl Parse_failed)
      | Some (tag, p) \<Rightarrow>
          if drop_bit 3 tag = 1 \<and> (ucast tag :: byte) = 8 then
            varint32_field w (\<lambda>v. m\<lparr>hi_ip := v\<rparr>) p
          else if drop_bit 3 tag = 2 \<and> (ucast tag :: byte) = 16 then
            varint32_field w (\<lambda>v. m\<lparr>hi_port := v\<rparr>) p
          else unusual_field w tag m p)"

definition HostInfo_serialize :: "'u wire \<Rightarrow> 'u HostInfo \<Rightarrow> byte list" where
  "HostInfo_serialize w m =
     (if hi_ip m \<noteq> 0 then write_int32 w 1 (hi_ip m) else []) @
     (if hi_port m \<noteq> 0 then write_int32 w 2 (hi_port m) else []) @
     write_unknown w (unknown m)"

definition HostInfo_size :: "'u wire \<Rightarrow> 'u HostInfo \<Rightarrow> nat" where
  "HostInfo_size w m =
     (if hi_ip m \<noteq> 0 then int32_size_plus_one w (hi_ip m) else 0) +
     (if hi_port m \<noteq> 0 then int32_size_plus_one w (hi_port m) else 0) +
     unknown_size w (unknown m)"

definition HostInfo_merge :: "'u wire \<Rightarrow> 'u HostInfo \<Rightarrow> 'u HostInfo \<Rightarrow> 'u HostInfo" where
  "HostInfo_merge w this from =
     (let this = (if hi_ip from \<noteq> 0 then this\<lparr>hi_ip := hi_ip from\<rparr> else this);
          this = (if hi_port from \<noteq> 0 then this\<lparr>hi_port := hi_port from\<rparr> else this)
      in this\<lparr>unknown := merge_unknown w (unknown this) (unknown from)\<rparr>)"

definition HostInfo_copy :: "'u wire \<Rightarrow> 'u HostInfo \<Rightarrow> 'u HostInfo" where
  "HostInfo_copy w from = HostInfo_merge w (HostInfo_clear w) from"

definition HostInfo_parse :: "'u wire \<Rightarrow> byte list \<Rightarrow> 'u HostInfo \<times> bool" where
  "HostInfo_parse w = parse_from_array (internal_parse (HostInfo_field w)) (HostInfo_clear w)"

section \<open>GetRouteRequest\<close>

record 'u GetRouteRequest = "'u pb_message" +
  rq_modid :: i32
  rq_cmdid :: i32

definition GetRouteRequest_clear :: "'u wire \<Rightarrow> 'u GetRouteRequest" where
  "GetRouteRequest_clear w = \<lparr>unknown = no_unknown w, rq_modid = 0, rq_cmdid = 0\<rparr>"

definition GetRouteRequest_field :: "'u wire \<Rightarrow> 'u GetRouteRequest field_step" where
  "GetRouteRequest_field w m bs =
     (case read_tag w bs of
        None \<Rightarrow> (m, Inl Parse_failed)
      | Some (tag, p) \<Rightarrow>
          if drop_bit 3 tag = 1 \<and> (ucast tag :: byte) = 8 then
            varint32_field w (\<lambda>v. m\<lparr>rq_modid := v\<rparr>) p
          else if drop_bit 3 tag = 2 \<and> (ucast tag :: byte) = 16 then
            varint32_field w (\<lambda>v. m\<lparr>rq_cmdid := v\<rparr>) p
          else unusual_field w tag m p)"

definition GetRouteRequest_serialize :: "'u wire \<Rightarrow> 'u GetRouteRequest \<Rightarrow> byte list" where
  "GetRouteRequest_serialize w m =
     (if rq_modid m \<noteq> 0 then write_int32 w 1 (rq_modid m) else []) @
     (if rq_cmdid m \<noteq> 0 then write_int32 w 2 (rq_cmdid m) else []) @
     write_unknown w (unknown m)"

definition GetRouteRequest_size :: "'u wire \<Rightarrow> 'u GetRouteRequest \<Rightarrow> nat" where
  "GetRouteRequest_size w m =
     (if rq_modid m \<noteq> 0 then int32_size_plus_one w (rq_modid m) else 0) +
     (if rq_cmdid m \<noteq> 0 then int32_size_plus_one w (rq_cmdid m) else 0) +
     unknown_size w (unknown m)"

definition GetRouteRequest_merge :: "'u wire \<Rightarrow> 'u GetRouteRequest \<Rightarrow> 'u GetRouteRequest \<Rightarrow> 'u GetRouteRequest" where
  "GetRouteRequest_merge w this from =
     (let this = (if rq_modid from \<noteq> 0 then this\<lparr>rq_modid := rq_modid from\<rparr> else this);
          this = (if rq_cmdid from \<noteq> 0 then this\<lparr>rq_cmdid := rq_cmdid from\<rparr> else this)
      in this\<lparr>unknown := merge_unknown w (unknown this) (unknown from)\<rparr>)"

definition GetRouteRequest_copy :: "'u wire \<Rightarrow> 'u GetRouteRequest \<Rightarrow> 'u GetRouteRequest" where
  "GetRouteRequest_copy w from = GetRouteRequest_merge w (GetRouteRequest_clear w) from"

definition GetRouteRequest_parse :: "'u wire \<Rightarrow> byte list \<Rightarrow> 'u GetRouteRequest \<times> bool" where
  "GetRouteRequest_parse w = parse_from_array (internal_parse (GetRouteRequest_field w)) (GetRouteRequest_clear w)"

section \<open>GetRouteResponse\<close>

record 'u GetRouteResponse = "'u pb_message" +
  rr_modid :: i32
  rr_cmdid :: i32
  rr_host :: "'u HostInfo list"

definition GetRouteResponse_clear :: "'u wire \<Rightarrow> 'u GetRouteResponse" where
  "GetRouteResponse_clear w = \<lparr>unknown = no_unknown w, rr_modid = 0, rr_cmdid = 0, rr_host = []\<rparr>"

definition GetRouteResponse_field :: "'u wire \<Rightarrow> 'u GetRouteResponse field_step" where
  "GetRouteResponse_field w m bs =
     (case read_tag w bs of
        None \<Rightarrow> (m, Inl Parse_failed)
      | Some (tag, p) \<Rightarrow>
          if drop_bit 3 tag = 1 \<and> (ucast tag :: byte) = 8 then
            varint32_field w (\<lambda>v. m\<lparr>rr_modid := v\<rparr>) p
          else if drop_bit 3 tag = 2 \<and> (ucast tag :: byte) = 16 then
            varint32_field w (\<lambda>v. m\<lparr>rr_cmdid := v\<rparr>) p
          else if drop_bit 3 tag = 3 \<and> (ucast tag :: byte) = 26 then
            repeated_field w 26 (internal_parse (HostInfo_field w)) (HostInfo_clear w)
              (\<lambda>s m. m\<lparr>rr_host := rr_host m @ [s]\<rparr>) m p
          else unusual_field w tag m p)"

definition GetRouteResponse_serialize :: "'u wire \<Rightarrow> 'u GetRouteResponse \<Rightarrow> byte list" where
  "GetRouteResponse_serialize w m =
     (if rr_modid m \<noteq> 0 then write_int32 w 1 (rr_modid m) else []) @
     (if rr_cmdid m \<noteq> 0 then write_int32 w 2 (rr_cmdid m) else []) @
     concat (map (\<lambda>h. write_message w 3 (HostInfo_size w h) (HostInfo_serialize w h)) (rr_host m)) @
     write_unknown w (unknown m)"

definition GetRouteResponse_size :: "'u wire \<Rightarrow> 'u GetRouteResponse \<Rightarrow> nat" where
  "GetRouteResponse_size w m =
     length (rr_host m) + (\<Sum>h \<leftarrow> rr_host m. message_size w (HostInfo_size w h)) +
     (if rr_modid m \<noteq> 0 then int32_size_plus_one w (rr_modid m) else 0) +
     (if rr_cmdid m \<noteq> 0 then int32_size_plus_one w (rr_cmdid m) else 0) +
     unknown_size w (unknown m)"

definition GetRouteResponse_merge :: "'u wire \<Rightarrow> 'u GetRouteResponse \<Rightarrow> 'u GetRouteResponse \<Rightarrow> 'u GetRouteResponse" where
  "GetRouteResponse_merge w this from =
     (let this = this\<lparr>rr_host := rr_host this @ rr_host from\<rparr>;
          this = (if rr_modid from \<noteq> 0 then this\<lparr>rr_modid := rr_modid from\<rparr> else this);
          this = (if rr_cmdid from \<noteq> 0 then this\<lparr>rr_cmdid := rr_cmdid from\<rparr> else this)
      in this\<lparr>unknown := merge_unknown w (unknown this) (unknown from)\<rparr>)"

definition GetRouteResponse_copy :: "'u wire \<Rightarrow> 'u GetRouteResponse \<Rightarrow> 'u GetRouteResponse" where
  "GetRouteResponse_copy w from = GetRouteResponse_merge w (GetRouteResponse_clear w) from"

definition GetRouteResponse_parse :: "'u wire \<Rightarrow> byte list \<Rightarrow> 'u GetRouteResponse \<times> bool" where
  "GetRouteResponse_parse w = parse_from_array (internal_parse (GetRouteResponse_field w)) (GetRouteResponse_clear w)"

section \<open>HostCallResult\<close>

record 'u HostCallResult = "'u pb_message" +
  cr_ip :: i32
  cr_port :: i32
  cr_succ :: u32
  cr_err :: u32
  cr_overload :: bool

definition HostCallResult_clear :: "'u wire \<Rightarrow> 'u HostCallResult" where
  "HostCallResult_clear w = \<lparr>unknown = no_unknown w, cr_ip = 0, cr_port = 0, cr_succ = 0, cr_err = 0, cr_overload = False\<rparr>"

definition HostCallResult_field :: "'u wire \<Rightarrow> 'u HostCallResult field_step" where
  "HostCallResult_field w m bs =
     (case read_tag w bs of
        None \<Rightarrow> (m, Inl Parse_failed)
      | Some (tag, p) \<Rightarrow>
          if drop_bit 3 tag = 1 \<and> (ucast tag :: byte) = 8 then
            varint32_field w (\<lambda>v. m\<lparr>cr_ip := v\<rparr>) p
          else if drop_bit 3 tag = 2 \<and> (ucast tag :: byte) = 16 then
            varint32_field w (\<lambda>v. m\<lparr>cr_port := v\<rparr>) p
          else if drop_bit 3 tag = 3 \<and> (ucast tag :: byte) = 24 then
            varint32_field w (\<lambda>v. m\<lparr>cr_succ := v\<rparr>) p
          else if drop_bit 3 tag = 4 \<and> (ucast tag :: byte) = 32 then
            varint32_field w (\<lambda>v. m\<lparr>cr_err := v\<rparr>) p
          else if drop_bit 3 tag = 5 \<and> (ucast tag :: byte) = 40 then
            varint64_field w (\<lambda>v. m\<lparr>cr_overload := (v \<noteq> 0)\<rparr>) p
          else unusual_field w tag m p)"

definition HostCallResult_serialize :: "'u wire \<Rightarrow> 'u HostCallResult \<Rightarrow> byte list" where
  "HostCallResult_serialize w m =
     (if cr_ip m \<noteq> 0 then write_int32 w 1 (cr_ip m) else []) @
     (if cr_port m \<noteq> 0 then write_int32 w 2 (cr_port m) else []) @
     (if cr_succ m \<noteq> 0 then write_uint32 w 3 (cr_succ m) else []) @
     (if cr_err m \<noteq> 0 then write_uint32 w 4 (cr_err m) else []) @
     (if cr_overload m then write_bool w 5 (cr_overload m) else []) @
     write_unknown w (unknown m)"

definition HostCallResult_size :: "'u wire \<Rightarrow> 'u HostCallResult \<Rightarrow> nat" where
  "HostCallResult_size w m =
     (if cr_ip m \<noteq> 0 then int32_size_plus_one w (cr_ip m) else 0) +
     (if cr_port m \<noteq> 0 then int32_size_plus_one w (cr_port m) else 0) +
     (if cr_succ m \<noteq> 0 then uint32_size_plus_one w (cr_succ m) else 0) +
     (if cr_err m \<noteq> 0 then uint32_size_plus_one w (cr_err m) else 0) +
     (if cr_overload m then 1 + 1 else 0) +
     unknown_size w (unknown m)"

definition HostCallResult_merge :: "'u wire \<Rightarrow> 'u HostCallResult \<Rightarrow> 'u HostCallResult \<Rightarrow> 'u HostCallResult" where
  "HostCallResult_merge w this from =
     (let this = (if cr_ip from \<noteq> 0 then this\<lparr>cr_ip := cr_ip from\<rparr> else this);
          this = (if cr_port from \<noteq> 0 then this\<lparr>cr_port := cr_port from\<rparr> else this);
          this = (if cr_succ from \<noteq> 0 then this\<lparr>cr_succ := cr_succ from\<rparr> else this);
          this = (if cr_err from \<noteq> 0 then this\<lparr>cr_err := cr_err from\<rparr> else this);
          this = (if cr_overload from then this\<lparr>cr_overload := cr_overload from\<rparr> else this)
      in this\<lparr>unknown := merge_unknown w (unknown this) (unknown from)\<rparr>)"

definition HostCallResult_copy :: "'u wire \<Rightarrow> 'u HostCallResult \<Rightarrow> 'u HostCallResult" where
  "HostCallResult_copy w from = HostCallResult_merge w (HostCallResult_clear w) from"

definition HostCallResult_parse :: "'u wire \<Rightarrow> byte list \<Rightarrow> 'u HostCallResult \<times> bool" where
  "HostCallResult_parse w = parse_from_array (internal_parse (HostCallResult_field w)) (HostCallResult_clear w)"

section \<open>ReportStatusRequest\<close>

record 'u ReportStatusRequest = "'u pb_message" +
  rs_modid :: i32
  rs_cmdid :: i32
  rs_caller :: i32
  rs_results :: "'u HostCallResult list"
  rs_timestamp :: u32

definition ReportStatusRequest_clear :: "'u wire \<Rightarrow> 'u ReportStatusRequest" where
  "ReportStatusRequest_clear w = \<lparr>unknown = no_unknown w, rs_modid = 0, rs_cmdid = 0, rs_caller = 0, rs_results = [], rs_timestamp = 0\<rparr>"

definition ReportStatusRequest_field :: "'u wire \<Rightarrow> 'u ReportStatusRequest field_step" where
  "ReportStatusRequest_field w m bs =
     (case read_tag w bs of
        None \<Rightarrow> (m, Inl Parse_failed)
      | Some (tag, p) \<Rightarrow>
          if drop_bit 3 tag = 1 \<and> (ucast tag :: byte) = 8 then
            varint32_field w (\<lambda>v. m\<lparr>rs_modid := v\<rparr>) p
          else if drop_bit 3 tag = 2 \<and> (ucast tag :: byte) = 16 then
            varint32_field w (\<lambda>v. m\<lparr>rs_cmdid := v\<rparr>) p
          else if drop_bit 3 tag = 3 \<and> (ucast tag :: byte) = 24 then
            varint32_field w (\<lambda>v. m\<lparr>rs_caller := v\<rparr>) p
          else if drop_bit 3 tag = 4 \<and> (ucast tag :: byte) = 34 then
            repeated_field w 34 (internal_parse (HostCallResult_field w)) (HostCallResult_clear w)
              (\<lambda>s m. m\<lparr>rs_results := rs_results m @ [s]\<rparr>) m p
          else if drop_bit 3 tag = 5 \<and> (ucast tag :: byte) = 40 then
            varint32_field w (\<lambda>v. m\<lparr>rs_timestamp := v\<rparr>) p
          else unusual_field w tag m p)"

definition ReportStatusRequest_serialize :: "'u wire \<Rightarrow> 'u ReportStatusRequest \<Rightarrow> byte list" where
  "ReportStatusRequest_serialize w m =
     (if rs_modid m \<noteq> 0 then write_int32 w 1 (rs_modid m) else []) @
     (if rs_cmdid m \<noteq> 0 then write_int32 w 2 (rs_cmdid m) else []) @
     (if rs_caller m \<noteq> 0 then write_int32 w 3 (rs_caller m) else []) @
     concat (map (\<lambda>h. write_message w 4 (HostCallResult_size w h) (HostCallResult_serialize w h)) (rs_results m)) @
     (if rs_timestamp m \<noteq> 0 then write_uint32 w 5 (rs_timestamp m) else []) @
     write_unknown w (unknown m)"

definition ReportStatusRequest_size :: "'u wire \<Rightarrow> 'u ReportStatusRequest \<Rightarrow> nat" where
  "ReportStatusRequest_size w m =
     length (rs_results m) + (\<Sum>h \<leftarrow> rs_results m. message_size w (HostCallResult_size w h)) +
     (if rs_modid m \<noteq> 0 then int32_size_plus_one w (rs_modid m) else 0) +
     (if rs_cmdid m \<noteq> 0 then int32_size_plus_one w (rs_cmdid m) else 0) +
     (if rs_caller m \<noteq> 0 then int32_size_plus_one w (rs_caller m) else 0) +
     (if rs_timestamp m \<noteq> 0 then uint32_size_plus_one w (rs_timestamp m) else 0) +
     unknown_size w (unknown m)"

definition ReportStatusRequest_merge :: "'u wire \<Rightarrow> 'u ReportStatusRequest \<Rightarrow> 'u ReportStatusRequest \<Rightarrow> 'u ReportStatusRequest" where
  "ReportStatusRequest_merge w this from =
     (let this = this\<lparr>rs_results := rs_results this @ rs_results from\<rparr>;
          this = (if rs_modid from \<noteq> 0 then this\<lparr>rs_modid := rs_modid from\<rparr> else this);
          this = (if rs_cmdid from \<noteq> 0 then this\<lparr>rs_cmdid := rs_cmdid from\<rparr> else this);
          this = (if rs_caller from \<noteq> 0 then this\<lparr>rs_caller := rs_caller from\<rparr> else this);
          this = (if rs_timestamp from \<noteq> 0 then this\<lparr>rs_timestamp := rs_timestamp from\<rparr> else this)
      in this\<lparr>unknown := merge_unknown w (unknown this) (unknown from)\<rparr>)"

definition ReportStatusRequest_copy :: "'u wire \<Rightarrow> 'u ReportStatusRequest \<Rightarrow> 'u ReportStatusRequest" where
  "ReportStatusRequest_copy w from = ReportStatusRequest_merge w (ReportStatusRequest_clear w) from"

definition ReportStatusRequest_parse :: "'u wire \<Rightarrow> byte list \<Rightarrow> 'u ReportStatusRequest \<times> bool" where
  "ReportStatusRequest_parse w = parse_from_array (internal_parse (ReportStatusRequest_field w)) (ReportStatusRequest_clear w)"

section \<open>GetHostRequest\<close>

record 'u GetHostRequest = "'u pb_message" +
  hq_seq :: u32
  hq_modid :: i32
  hq_cmdid :: i32

definition GetHostRequest_clear :: "'u wire \<Rightarrow> 'u GetHostRequest" where
  "GetHostRequest_clear w = \<lparr>unknown = no_unknown w, hq_seq = 0, hq_modid = 0, hq_cmdid = 0\<rparr>"

definition GetHostRequest_field :: "'u wire \<Rightarrow> 'u GetHostRequest field_step" where
  "GetHostRequest_field w m bs =
     (case read_tag w bs of
        None \<Rightarrow> (m, Inl Parse_failed)
      | Some (tag, p) \<Rightarrow>
          if drop_bit 3 tag = 1 \<and> (ucast tag :: byte) = 8 then
            varint32_field w (\<lambda>v. m\<lparr>hq_seq := v\<rparr>) p
          else if drop_bit 3 tag = 2 \<and> (ucast tag :: byte) = 16 then
            varint32_field w (\<lambda>v. m\<lparr>hq_modid := v\<rparr>) p
          else if drop_bit 3 tag = 3 \<and> (ucast tag :: byte) = 24 then
            varint32_field w (\<lambda>v. m\<lparr>hq_cmdid := v\<rparr>) p
          else unusual_field w tag m p)"

definition GetHostRequest_serialize :: "'u wire \<Rightarrow> 'u GetHostRequest \<Rightarrow> byte list" where
  "GetHostRequest_serialize w m =
     (if hq_seq m \<noteq> 0 then write_uint32 w 1 (hq_seq m) else []) @
     (if hq_modid m \<noteq> 0 then write_int32 w 2 (hq_modid m) else []) @
     (if hq_cmdid m \<noteq> 0 then write_int32 w 3 (hq_cmdid m) else []) @
     write_unknown w (unknown m)"

definition GetHostRequest_size :: "'u wire \<Rightarrow> 'u GetHostRequest \<Rightarrow> nat" where
  "GetHostRequest_size w m =
     (if hq_seq m \<noteq> 0 then uint32_size_plus_one w (hq_seq m) else 0) +
     (if hq_modid m \<noteq> 0 then int32_size_plus_one w (hq_modid m) else 0) +
     (if hq_cmdid m \<noteq> 0 then int32_size_plus_one w (hq_cmdid m) else 0) +
     unknown_size w (unknown m)"

definition GetHostRequest_merge :: "'u wire \<Rightarrow> 'u GetHostRequest \<Rightarrow> 'u GetHostRequest \<Rightarrow> 'u GetHostRequest" where
  "GetHostRequest_merge w this from =
     (let this = (if hq_seq from \<noteq> 0 then this\<lparr>hq_seq := hq_seq from\<rparr> else this);
          this = (if hq_modid from \<noteq> 0 then this\<lparr>hq_modid := hq_modid from\<rparr> else this);
          this = (if hq_cmdid from \<noteq> 0 then this\<lparr>hq_cmdid := hq_cmdid from\<rparr> else this)
      in this\<lparr>unknown := merge_unknown w (unknown this) (unknown from)\<rparr>)"

definition GetHostRequest_copy :: "'u wire \<Rightarrow> 'u GetHostRequest \<Rightarrow> 'u GetHostRequest" where
  "GetHostRequest_copy w from = GetHostRequest_merge w (GetHostRequest_clear w) from"

definition GetHostRequest_parse :: "'u wire \<Rightarrow> byte list \<Rightarrow> 'u GetHostRequest \<times> bool" where
  "GetHostRequest_parse w = parse_from_array (internal_parse (GetHostRequest_field w)) (GetHostRequest_clear w)"

section \<open>GetHostResponse\<close>

record 'u GetHostResponse = "'u pb_message" +
  hr_seq :: u32
  hr_modid :: i32
  hr_cmdid :: i32
  hr_retcode :: i32
  hr_host :: "'u HostInfo option"

definition GetHostResponse_clear :: "'u wire \<Rightarrow> 'u GetHostResponse" where
  "GetHostResponse_clear w = \<lparr>unknown = no_unknown w, hr_seq = 0, hr_modid = 0, hr_cmdid = 0, hr_retcode = 0, hr_host = None\<rparr>"

definition GetHostResponse_field :: "'u wire \<Rightarrow> 'u GetHostResponse field_step" where
  "GetHostResponse_field w m bs =
     (case read_tag w bs of
        None \<Rightarrow> (m, Inl Parse_failed)
      | Some (tag, p) \<Rightarrow>
          if drop_bit 3 tag = 1 \<and> (ucast tag :: byte) = 8 then
            varint32_field w (\<lambda>v. m\<lparr>hr_seq := v\<rparr>) p
          else if drop_bit 3 tag = 2 \<and> (ucast tag :: byte) = 16 then
            varint32_field w (\<lambda>v. m\<lparr>hr_modid := v\<rparr>) p
          else if drop_bit 3 tag = 3 \<and> (ucast tag :: byte) = 24 then
            varint32_field w (\<lambda>v. m\<lparr>hr_cmdid := v\<rparr>) p
          else if drop_bit 3 tag = 4 \<and> (ucast tag :: byte) = 32 then
            varint32_field w (\<lambda>v. m\<lparr>hr_retcode := v\<rparr>) p
          else if drop_bit 3 tag = 5 \<and> (ucast tag :: byte) = 42 then
            message_field w (internal_parse (HostInfo_field w))
              (case hr_host m of None \<Rightarrow> HostInfo_clear w | Some h \<Rightarrow> h) (\<lambda>s. m\<lparr>hr_host := Some s\<rparr>) p
          else unusual_field w tag m p)"

definition GetHostResponse_serialize :: "'u wire \<Rightarrow> 'u GetHostResponse \<Rightarrow> byte list" where
  "GetHostResponse_serialize w m =
     (if hr_seq m \<noteq> 0 then write_uint32 w 1 (hr_seq m) else []) @
     (if hr_modid m \<noteq> 0 then write_int32 w 2 (hr_modid m) else []) @
     (if hr_cmdid m \<noteq> 0 then write_int32 w 3 (hr_cmdid m) else []) @
     (if hr_retcode m \<noteq> 0 then write_int32 w 4 (hr_retcode m) else []) @
     (case hr_host m of None \<Rightarrow> [] | Some h \<Rightarrow> write_message w 5 (HostInfo_size w h) (HostInfo_serialize w h)) @
     write_unknown w (unknown m)"

definition GetHostResponse_size :: "'u wire \<Rightarrow> 'u GetHostResponse \<Rightarrow> nat" where
  "GetHostResponse_size w m =
     (case hr_host m of None \<Rightarrow> 0 | Some h \<Rightarrow> 1 + message_size w (HostInfo_size w h)) +
     (if hr_seq m \<noteq> 0 then uint32_size_plus_one w (hr_seq m) else 0) +
     (if hr_modid m \<noteq> 0 then int32_size_plus_one w (hr_modid m) else 0) +
     (if hr_cmdid m \<noteq> 0 then int32_size_plus_one w (hr_cmdid m) else 0) +
     (if hr_retcode m \<noteq> 0 then int32_size_plus_one w (hr_retcode m) else 0) +
     unknown_size w (unknown m)"

definition GetHostResponse_merge :: "'u wire \<Rightarrow> 'u GetHostResponse \<Rightarrow> 'u GetHostResponse \<Rightarrow> 'u GetHostResponse" where
  "GetHostResponse_merge w this from =
     (let this = (case hr_host from of None \<Rightarrow> this
                 | Some h \<Rightarrow> this\<lparr>hr_host := Some (HostInfo_merge w (case hr_host this of None \<Rightarrow> HostInfo_clear w | Some g \<Rightarrow> g) h)\<rparr>);
          this = (if hr_seq from \<noteq> 0 then this\<lparr>hr_seq := hr_seq from\<rparr> else this);
          this = (if hr_modid from \<noteq> 0 then this\<lparr>hr_modid := hr_modid from\<rparr> else this);
          this = (if hr_cmdid from \<noteq> 0 then this\<lparr>hr_cmdid := hr_cmdid from\<rparr> else this);
          this = (if hr_retcode from \<noteq> 0 then this\<lparr>hr_retcode := hr_retcode from\<rparr> else this)
      in this\<lparr>unknown := merge_unknown w (unknown this) (unknown from)\<rparr>)"

definition GetHostResponse_copy :: "'u wire \<Rightarrow> 'u GetHostResponse \<Rightarrow> 'u GetHostResponse" where
  "GetHostResponse_copy w from = GetHostResponse_merge w (GetHostResponse_clear w) from"

definition GetHostResponse_parse :: "'u wire \<Rightarrow> byte list \<Rightarrow> 'u GetHostResponse \<times> bool" where
  "GetHostResponse_parse w = parse_from_array (internal_parse (GetHostResponse_field w)) (GetHostResponse_clear w)"

section \<open>Parsing, sizes and merging\<close>

text \<open>
  Per message: the parser makes progress, each written field is understood by it, the announced
  size is the length of the serialisation, and parsing a serialisation is merging.
\<close>

context wire_format
begin

lemmas field_splits = option.splits prod.splits if_splits

lemmas written_length = int32_length uint32_length bool_length unknown_written

lemma HostInfo_consuming: "consuming (HostInfo_field w)"
  unfolding consuming_def HostInfo_field_def
  by (auto split: field_splits dest!: tag_consumes consumes)

lemma HostInfo_puts_ip: "puts (HostInfo_field w) (write_int32 w 1 v) (\<lambda>m. m\<lparr>hi_ip := v\<rparr>)"
  by (rule puts_int32; simp add: HostInfo_field_def)

lemma HostInfo_puts_port: "puts (HostInfo_field w) (write_int32 w 2 v) (\<lambda>m. m\<lparr>hi_port := v\<rparr>)"
  by (rule puts_int32; simp add: HostInfo_field_def)

lemmas HostInfo_fields = internal_parse_puts[OF HostInfo_consuming HostInfo_puts_ip] internal_parse_puts[OF HostInfo_consuming HostInfo_puts_port]

lemma GetRouteRequest_consuming: "consuming (GetRouteRequest_field w)"
  unfolding consuming_def GetRouteRequest_field_def
  by (auto split: field_splits dest!: tag_consumes consumes)

lemma GetRouteRequest_puts_modid: "puts (GetRouteRequest_field w) (write_int32 w 1 v) (\<lambda>m. m\<lparr>rq_modid := v\<rparr>)"
  by (rule puts_int32; simp add: GetRouteRequest_field_def)

lemma GetRouteRequest_puts_cmdid: "puts (GetRouteRequest_field w) (write_int32 w 2 v) (\<lambda>m. m\<lparr>rq_cmdid := v\<rparr>)"
  by (rule puts_int32; simp add: GetRouteRequest_field_def)

lemmas GetRouteRequest_fields = internal_parse_puts[OF GetRouteRequest_consuming GetRouteRequest_puts_modid] internal_parse_puts[OF GetRouteRequest_consuming GetRouteRequest_puts_cmdid]

lemma GetRouteResponse_consuming: "consuming (GetRouteResponse_field w)"
  unfolding consuming_def GetRouteResponse_field_def
  by (auto split: field_splits dest!: tag_consumes consumes)

lemma GetRouteResponse_puts_modid: "puts (GetRouteResponse_field w) (write_int32 w 1 v) (\<lambda>m. m\<lparr>rr_modid := v\<rparr>)"
  by (rule puts_int32; simp add: GetRouteResponse_field_def)

lemma GetRouteResponse_puts_cmdid: "puts (GetRouteResponse_field w) (write_int32 w 2 v) (\<lambda>m. m\<lparr>rr_cmdid := v\<rparr>)"
  by (rule puts_int32; simp add: GetRouteResponse_field_def)

lemmas GetRouteResponse_fields = internal_parse_puts[OF GetRouteResponse_consuming GetRouteResponse_puts_modid] internal_parse_puts[OF GetRouteResponse_consuming GetRouteResponse_puts_cmdid]

lemma HostCallResult_consuming: "consuming (HostCallResult_field w)"
  unfolding consuming_def HostCallResult_field_def
  by (auto split: field_splits dest!: tag_consumes consumes)

lemma HostCallResult_puts_ip: "puts (HostCallResult_field w) (write_int32 w 1 v) (\<lambda>m. m\<lparr>cr_ip := v\<rparr>)"
  by (rule puts_int32; simp add: HostCallResult_field_def)

lemma HostCallResult_puts_port: "puts (HostCallResult_field w) (write_int32 w 2 v) (\<lambda>m. m\<lparr>cr_port := v\<rparr>)"
  by (rule puts_int32; simp add: HostCallResult_field_def)

lemma HostCallResult_puts_succ: "puts (HostCallResult_field w) (write_uint32 w 3 v) (\<lambda>m. m\<lparr>cr_succ := v\<rparr>)"
  by (rule puts_uint32; simp add: HostCallResult_field_def)

lemma HostCallResult_puts_err: "puts (HostCallResult_field w) (write_uint32 w 4 v) (\<lambda>m. m\<lparr>cr_err := v\<rparr>)"
  by (rule puts_uint32; simp add: HostCallResult_field_def)

lemma HostCallResult_puts_overload: "puts (HostCallResult_field w) (write_bool w 5 v) (\<lambda>m. m\<lparr>cr_overload := v\<rparr>)"
  by (rule puts_bool; simp add: HostCallResult_field_def)

lemmas HostCallResult_fields = internal_parse_puts[OF HostCallResult_consuming HostCallResult_puts_ip] internal_parse_puts[OF HostCallResult_consuming HostCallResult_puts_port] internal_parse_puts[OF HostCallResult_consuming HostCallResult_puts_succ] internal_parse_puts[OF HostCallResult_consuming HostCallResult_puts_err] internal_parse_puts[OF HostCallResult_consuming HostCallResult_puts_overload]

lemma ReportStatusRequest_consuming: "consuming (ReportStatusRequest_field w)"
  unfolding consuming_def ReportStatusRequest_field_def
  by (auto split: field_splits dest!: tag_consumes consumes)

lemma ReportStatusRequest_puts_modid: "puts (ReportStatusRequest_field w) (write_int32 w 1 v) (\<lambda>m. m\<lparr>rs_modid := v\<rparr>)"
  by (rule puts_int32; simp add: ReportStatusRequest_field_def)

lemma ReportStatusRequest_puts_cmdid: "puts (ReportStatusRequest_field w) (write_int32 w 2 v) (\<lambda>m. m\<lparr>rs_cmdid := v\<rparr>)"
  by (rule puts_int32; simp add: ReportStatusRequest_field_def)

lemma ReportStatusRequest_puts_caller: "puts (ReportStatusRequest_field w) (write_int32 w 3 v) (\<lambda>m. m\<lparr>rs_caller := v\<rparr>)"
  by (rule puts_int32; simp add: ReportStatusRequest_field_def)

lemma ReportStatusRequest_puts_timestamp: "puts (ReportStatusRequest_field w) (write_uint32 w 5 v) (\<lambda>m. m\<lparr>rs_timestamp := v\<rparr>)"
  by (rule puts_uint32; simp add: ReportStatusRequest_field_def)

lemmas ReportStatusRequest_fields = internal_parse_puts[OF ReportStatusRequest_consuming ReportStatusRequest_puts_modid] internal_parse_puts[OF ReportStatusRequest_consuming ReportStatusRequest_puts_cmdid] internal_parse_puts[OF ReportStatusRequest_consuming ReportStatusRequest_puts_caller] internal_parse_puts[OF ReportStatusRequest_consuming ReportStatusRequest_puts_timestamp]

lemma GetHostRequest_consuming: "consuming (GetHostRequest_field w)"
  unfolding consuming_def GetHostRequest_field_def
  by (auto split: field_splits dest!: tag_consumes consumes)

lemma GetHostRequest_puts_seq: "puts (GetHostRequest_field w) (write_uint32 w 1 v) (\<lambda>m. m\<lparr>hq_seq := v\<rparr>)"
  by (rule puts_uint32; simp add: GetHostRequest_field_def)

lemma GetHostRequest_puts_modid: "puts (GetHostRequest_field w) (write_int32 w 2 v) (\<lambda>m. m\<lparr>hq_modid := v\<rparr>)"
  by (rule puts_int32; simp add: GetHostRequest_field_def)

lemma GetHostRequest_puts_cmdid: "puts (GetHostRequest_field w) (write_int32 w 3 v) (\<lambda>m. m\<lparr>hq_cmdid := v\<rparr>)"
  by (rule puts_int32; simp add: GetHostRequest_field_def)

lemmas GetHostRequest_fields = internal_parse_puts[OF GetHostRequest_consuming GetHostRequest_puts_seq] internal_parse_puts[OF GetHostRequest_consuming GetHostRequest_puts_modid] internal_parse_puts[OF GetHostRequest_consuming GetHostRequest_puts_cmdid]

lemma GetHostResponse_consuming: "consuming (GetHostResponse_field w)"
  unfolding consuming_def GetHostResponse_field_def
  by (auto split: field_splits dest!: tag_consumes consumes)

lemma GetHostResponse_puts_seq: "puts (GetHostResponse_field w) (write_uint32 w 1 v) (\<lambda>m. m\<lparr>hr_seq := v\<rparr>)"
  by (rule puts_uint32; simp add: GetHostResponse_field_def)

lemma GetHostResponse_puts_modid: "puts (GetHostResponse_field w) (write_int32 w 2 v) (\<lambda>m. m\<lparr>hr_modid := v\<rparr>)"
  by (rule puts_int32; simp add: GetHostResponse_field_def)

lemma GetHostResponse_puts_cmdid: "puts (GetHostResponse_field w) (write_int32 w 3 v) (\<lambda>m. m\<lparr>hr_cmdid := v\<rparr>)"
  by (rule puts_int32; simp add: GetHostResponse_field_def)

lemma GetHostResponse_puts_retcode: "puts (GetHostResponse_field w) (write_int32 w 4 v) (\<lambda>m. m\<lparr>hr_retcode := v\<rparr>)"
  by (rule puts_int32; simp add: GetHostResponse_field_def)

lemmas GetHostResponse_fields = internal_parse_puts[OF GetHostResponse_consuming GetHostResponse_puts_seq] internal_parse_puts[OF GetHostResponse_consuming GetHostResponse_puts_modid] internal_parse_puts[OF GetHostResponse_consuming GetHostResponse_puts_cmdid] internal_parse_puts[OF GetHostResponse_consuming GetHostResponse_puts_retcode]


lemma HostInfo_length: "length (HostInfo_serialize w m) = HostInfo_size w m"
  by (simp add: HostInfo_serialize_def HostInfo_size_def written_length)

lemma HostInfo_parse_serialize:
  assumes "unknown b = no_unknown w"
  shows "internal_parse (HostInfo_field w) m (HostInfo_serialize w b) = (HostInfo_merge w m b, At_limit)"
  unfolding HostInfo_serialize_def assms no_unknown_written
  by (simp add: HostInfo_fields internal_parse_puts[OF HostInfo_consuming HostInfo_puts_port, where r = "[]", simplified]
      HostInfo_merge_def assms no_unknown_merged Let_def)

lemma HostInfo_copy_same: "unknown b = no_unknown w \<Longrightarrow> HostInfo_copy w b = b"
  by (cases b) (auto simp: HostInfo_copy_def HostInfo_merge_def HostInfo_clear_def no_unknown_merged Let_def)

lemma GetRouteRequest_length: "length (GetRouteRequest_serialize w m) = GetRouteRequest_size w m"
  by (simp add: GetRouteRequest_serialize_def GetRouteRequest_size_def written_length)

lemma GetRouteRequest_parse_serialize:
  assumes "unknown b = no_unknown w"
  shows "internal_parse (GetRouteRequest_field w) m (GetRouteRequest_serialize w b) = (GetRouteRequest_merge w m b, At_limit)"
  unfolding GetRouteRequest_serialize_def assms no_unknown_written
  by (simp add: GetRouteRequest_fields internal_parse_puts[OF GetRouteRequest_consuming GetRouteRequest_puts_cmdid, where r = "[]", simplified]
      GetRouteRequest_merge_def assms no_unknown_merged Let_def)

lemma GetRouteRequest_copy_same: "unknown b = no_unknown w \<Longrightarrow> GetRouteRequest_copy w b = b"
  by (cases b) (auto simp: GetRouteRequest_copy_def GetRouteRequest_merge_def GetRouteRequest_clear_def no_unknown_merged Let_def)

lemma GetRouteResponse_copy_same: "unknown b = no_unknown w \<Longrightarrow> GetRouteResponse_copy w b = b"
  by (cases b) (auto simp: GetRouteResponse_copy_def GetRouteResponse_merge_def GetRouteResponse_clear_def no_unknown_merged Let_def)

lemma HostCallResult_length: "length (HostCallResult_serialize w m) = HostCallResult_size w m"
  by (simp add: HostCallResult_serialize_def HostCallResult_size_def written_length)

lemma HostCallResult_parse_serialize:
  assumes "unknown b = no_unknown w"
  shows "internal_parse (HostCallResult_field w) m (HostCallResult_serialize w b) = (HostCallResult_merge w m b, At_limit)"
  unfolding HostCallResult_serialize_def assms no_unknown_written
  by (simp add: HostCallResult_fields internal_parse_puts[OF HostCallResult_consuming HostCallResult_puts_overload, where r = "[]", simplified]
      HostCallResult_merge_def assms no_unknown_merged Let_def)

lemma HostCallResult_copy_same: "unknown b = no_unknown w \<Longrightarrow> HostCallResult_copy w b = b"
  by (cases b) (auto simp: HostCallResult_copy_def HostCallResult_merge_def HostCallResult_clear_def no_unknown_merged Let_def)

lemma ReportStatusRequest_copy_same: "unknown b = no_unknown w \<Longrightarrow> ReportStatusRequest_copy w b = b"
  by (cases b) (auto simp: ReportStatusRequest_copy_def ReportStatusRequest_merge_def ReportStatusRequest_clear_def no_unknown_merged Let_def)

lemma GetHostRequest_length: "length (GetHostRequest_serialize w m) = GetHostRequest_size w m"
  by (simp add: GetHostRequest_serialize_def GetHostRequest_size_def written_length)

lemma GetHostRequest_parse_serialize:
  assumes "unknown b = no_unknown w"
  shows "internal_parse (GetHostRequest_field w) m (GetHostRequest_serialize w b) = (GetHostRequest_merge w m b, At_limit)"
  unfolding GetHostRequest_serialize_def assms no_unknown_written
  by (simp add: GetHostRequest_fields internal_parse_puts[OF GetHostRequest_consuming GetHostRequest_puts_cmdid, where r = "[]", simplified]
      GetHostRequest_merge_def assms no_unknown_merged Let_def)

lemma GetHostRequest_copy_same: "unknown b = no_unknown w \<Longrightarrow> GetHostRequest_copy w b = b"
  by (cases b) (auto simp: GetHostRequest_copy_def GetHostRequest_merge_def GetHostRequest_clear_def no_unknown_merged Let_def)



lemma HostInfo_small: "unknown m = no_unknown w \<Longrightarrow> length (HostInfo_serialize w m) \<le> 22"
  using int32_size[of "hi_ip m"] int32_size[of "hi_port m"]
  by (auto simp: HostInfo_serialize_def no_unknown_written int32_length)

lemma HostCallResult_small: "unknown m = no_unknown w \<Longrightarrow> length (HostCallResult_serialize w m) \<le> 36"
  using int32_size[of "cr_ip m"] int32_size[of "cr_port m"] uint32_size[of "cr_succ m"] uint32_size[of "cr_err m"]
  by (auto simp: HostCallResult_serialize_def no_unknown_written written_length)

lemma repeated_length:
  assumes "n < 16" and "\<And>h. length (ser h) = sz h"
  shows "length (concat (map (\<lambda>h. write_message w n (sz h) (ser h)) hs)) =
    length hs + (\<Sum>h \<leftarrow> hs. message_size w (sz h))"
  by (induction hs) (simp_all add: message_length[OF assms(1)] flip: assms(2))

lemma GetRouteResponse_length: "length (GetRouteResponse_serialize w m) = GetRouteResponse_size w m"
  by (simp add: GetRouteResponse_serialize_def GetRouteResponse_size_def written_length
      repeated_length[OF _ HostInfo_length])

lemma ReportStatusRequest_length: "length (ReportStatusRequest_serialize w m) = ReportStatusRequest_size w m"
  by (simp add: ReportStatusRequest_serialize_def ReportStatusRequest_size_def written_length
      repeated_length[OF _ HostCallResult_length])

lemma GetHostResponse_length: "length (GetHostResponse_serialize w m) = GetHostResponse_size w m"
  by (simp add: GetHostResponse_serialize_def GetHostResponse_size_def written_length message_length
      flip: HostInfo_length split: option.splits)

lemma fold_add_host: "fold (\<lambda>h m. m\<lparr>rr_host := rr_host m @ [h]\<rparr>) hs m = m\<lparr>rr_host := rr_host m @ hs\<rparr>"
  by (induction hs arbitrary: m) simp_all

lemma fold_add_results: "fold (\<lambda>h m. m\<lparr>rs_results := rs_results m @ [h]\<rparr>) hs m = m\<lparr>rs_results := rs_results m @ hs\<rparr>"
  by (induction hs arbitrary: m) simp_all

lemma HostInfo_parse_clear:
  "unknown h = no_unknown w \<Longrightarrow> internal_parse (HostInfo_field w) (HostInfo_clear w) (HostInfo_serialize w h) = (h, At_limit)"
  using HostInfo_copy_same[of h] by (simp add: HostInfo_parse_serialize HostInfo_copy_def)

lemma HostCallResult_parse_clear:
  "unknown h = no_unknown w \<Longrightarrow>
   internal_parse (HostCallResult_field w) (HostCallResult_clear w) (HostCallResult_serialize w h) = (h, At_limit)"
  using HostCallResult_copy_same[of h] by (simp add: HostCallResult_parse_serialize HostCallResult_copy_def)

lemma GetRouteResponse_hosts:
  assumes "\<forall>h \<in> set hs. unknown h = no_unknown w"
  shows "internal_parse (GetRouteResponse_field w) m
      (concat (map (\<lambda>h. write_message w 3 (HostInfo_size w h) (HostInfo_serialize w h)) hs)) =
    (m\<lparr>rr_host := rr_host m @ hs\<rparr>, At_limit)"
proof -
  have "\<forall>h \<in> set hs. length (HostInfo_serialize w h) < 2 ^ 31 \<and>
      internal_parse (HostInfo_field w) (HostInfo_clear w) (HostInfo_serialize w h) = (h, At_limit)"
    using assms HostInfo_small HostInfo_parse_clear by fastforce
  then show ?thesis
    using internal_parse_repeated[OF GetRouteResponse_consuming, where k = 3 and r = "[]" and f = "\<lambda>h. h"
        and add = "\<lambda>h m. m\<lparr>rr_host := rr_host m @ [h]\<rparr>" and ser = "HostInfo_serialize w" and hs = hs
        and parse = "internal_parse (HostInfo_field w)" and s = "HostInfo_clear w" and m = m]
    by (simp add: GetRouteResponse_field_def fold_add_host HostInfo_length)
qed

lemma GetRouteResponse_parse_serialize:
  assumes "unknown b = no_unknown w" and "\<forall>h \<in> set (rr_host b). unknown h = no_unknown w"
  shows "internal_parse (GetRouteResponse_field w) m (GetRouteResponse_serialize w b) = (GetRouteResponse_merge w m b, At_limit)"
  unfolding GetRouteResponse_serialize_def assms(1) no_unknown_written
  by (simp add: GetRouteResponse_fields GetRouteResponse_hosts[OF assms(2)] GetRouteResponse_merge_def
      assms(1) no_unknown_merged Let_def)

lemma uint32_not_tag: "1 \<le> n \<Longrightarrow> n < 16 \<Longrightarrow> of_nat (8 * n) \<noteq> (t :: byte) \<Longrightarrow>
    (if v \<noteq> 0 then write_uint32 w n v else []) = [] \<or> hd (if v \<noteq> 0 then write_uint32 w n v else []) \<noteq> t"
  using uint32_written[of n v] by auto

lemma ReportStatusRequest_parse_results:
  assumes "\<forall>h \<in> set hs. unknown h = no_unknown w" and "r = [] \<or> hd r \<noteq> 34"
  shows "internal_parse (ReportStatusRequest_field w) m
      (concat (map (\<lambda>h. write_message w 4 (HostCallResult_size w h) (HostCallResult_serialize w h)) hs) @ r) =
    internal_parse (ReportStatusRequest_field w) (m\<lparr>rs_results := rs_results m @ hs\<rparr>) r"
proof -
  have "\<forall>h \<in> set hs. length (HostCallResult_serialize w h) < 2 ^ 31 \<and>
      internal_parse (HostCallResult_field w) (HostCallResult_clear w) (HostCallResult_serialize w h) = (h, At_limit)"
    using assms(1) HostCallResult_small HostCallResult_parse_clear by fastforce
  then show ?thesis
    using assms(2) internal_parse_repeated[OF ReportStatusRequest_consuming, where k = 4 and r = r and f = "\<lambda>h. h"
        and add = "\<lambda>h m. m\<lparr>rs_results := rs_results m @ [h]\<rparr>" and ser = "HostCallResult_serialize w" and hs = hs
        and parse = "internal_parse (HostCallResult_field w)" and s = "HostCallResult_clear w" and m = m]
    by (simp add: ReportStatusRequest_field_def fold_add_results HostCallResult_length)
qed

lemma ReportStatusRequest_parse_serialize:
  assumes "unknown b = no_unknown w" and "\<forall>h \<in> set (rs_results b). unknown h = no_unknown w"
  shows "internal_parse (ReportStatusRequest_field w) m (ReportStatusRequest_serialize w b) =
    (ReportStatusRequest_merge w m b, At_limit)"
proof -
  note ts = uint32_not_tag[of 5 34 "rs_timestamp b", simplified]
  show ?thesis
    unfolding ReportStatusRequest_serialize_def assms(1) no_unknown_written append_Nil2 ReportStatusRequest_fields
    using ReportStatusRequest_parse_results[OF assms(2) ts]
      internal_parse_puts[OF ReportStatusRequest_consuming ReportStatusRequest_puts_timestamp, where r = "[]"]
    by (auto simp: ReportStatusRequest_merge_def assms(1) no_unknown_merged Let_def)
qed

lemma GetHostResponse_puts_host:
  assumes "unknown h = no_unknown w"
  shows "puts (GetHostResponse_field w) (write_message w 5 (HostInfo_size w h) (HostInfo_serialize w h))
    (\<lambda>m. m\<lparr>hr_host := Some (HostInfo_merge w (case hr_host m of None \<Rightarrow> HostInfo_clear w | Some g \<Rightarrow> g) h)\<rparr>)"
  unfolding HostInfo_length[symmetric]
  by (rule puts_message[where parse = "internal_parse (HostInfo_field w)"
        and g = "\<lambda>m. case hr_host m of None \<Rightarrow> HostInfo_clear w | Some g \<Rightarrow> g"])
    (use HostInfo_small[OF assms] in \<open>simp_all add: GetHostResponse_field_def HostInfo_parse_serialize assms\<close>)

lemma GetHostResponse_parse_serialize:
  assumes "unknown b = no_unknown w" and "\<forall>h. hr_host b = Some h \<longrightarrow> unknown h = no_unknown w"
  shows "internal_parse (GetHostResponse_field w) m (GetHostResponse_serialize w b) = (GetHostResponse_merge w m b, At_limit)"
proof -
  have host: "internal_parse (GetHostResponse_field w) m'
      (case hr_host b of None \<Rightarrow> [] | Some h \<Rightarrow> write_message w 5 (HostInfo_size w h) (HostInfo_serialize w h)) =
    (case hr_host b of None \<Rightarrow> m' | Some h \<Rightarrow>
      m'\<lparr>hr_host := Some (HostInfo_merge w (case hr_host m' of None \<Rightarrow> HostInfo_clear w | Some g \<Rightarrow> g) h)\<rparr>, At_limit)" for m'
  proof (cases "hr_host b")
    case (Some h)
    then have "unknown h = no_unknown w" using assms(2) by simp
    from internal_parse_puts[OF GetHostResponse_consuming GetHostResponse_puts_host[OF this], where b = True and r = "[]" and m = m']
    show ?thesis using Some by simp
  qed simp
  show ?thesis
    unfolding GetHostResponse_serialize_def assms(1) no_unknown_written append_Nil2 GetHostResponse_fields host
    by (auto simp: GetHostResponse_merge_def assms(1) no_unknown_merged Let_def split: option.splits)
qed

lemma varint_fuelled:
  "varint32_field w f p \<noteq> (m', Inl Out_of_fuel)" "varint64_field w g p \<noteq> (m', Inl Out_of_fuel)"
  by (auto simp: varint32_field_def varint64_field_def split: field_splits)

lemma unusual_fuelled: "unusual_field w t m p \<noteq> (m', Inl Out_of_fuel)"
  by (auto simp: unusual_field_def split: field_splits)

lemma message_fuelled: "(\<And>s bs s'. q s bs \<noteq> (s', Out_of_fuel)) \<Longrightarrow> message_field w q s k p \<noteq> (m', Inl Out_of_fuel)"
  using parse_message_fuel[of q s p] by (auto simp: message_field_def split: prod.splits)

lemma repeated_fuelled: "(\<And>s bs s'. q s bs \<noteq> (s', Out_of_fuel)) \<Longrightarrow> repeated_field w b q s add m p \<noteq> (m', Inl Out_of_fuel)"
  by (simp add: repeated_field_def repeated_loop_fuel del: repeated_loop.simps)

lemmas fuelled = varint_fuelled unusual_fuelled message_fuelled repeated_fuelled

lemma HostInfo_ends: "internal_parse (HostInfo_field w) m bs \<noteq> (m', Out_of_fuel)"
  by (rule consuming_not_out_of_fuel[OF HostInfo_consuming])
    (simp add: HostInfo_field_def fuelled split: option.splits)

lemma GetRouteRequest_ends: "internal_parse (GetRouteRequest_field w) m bs \<noteq> (m', Out_of_fuel)"
  by (rule consuming_not_out_of_fuel[OF GetRouteRequest_consuming])
    (simp add: GetRouteRequest_field_def fuelled split: option.splits)

lemma GetRouteResponse_ends: "internal_parse (GetRouteResponse_field w) m bs \<noteq> (m', Out_of_fuel)"
  by (rule consuming_not_out_of_fuel[OF GetRouteResponse_consuming])
    (simp add: GetRouteResponse_field_def fuelled HostInfo_ends split: option.splits)

lemma HostCallResult_ends: "internal_parse (HostCallResult_field w) m bs \<noteq> (m', Out_of_fuel)"
  by (rule consuming_not_out_of_fuel[OF HostCallResult_consuming])
    (simp add: HostCallResult_field_def fuelled split: option.splits)

lemma ReportStatusRequest_ends: "internal_parse (ReportStatusRequest_field w) m bs \<noteq> (m', Out_of_fuel)"
  by (rule consuming_not_out_of_fuel[OF ReportStatusRequest_consuming])
    (simp add: ReportStatusRequest_field_def fuelled HostCallResult_ends split: option.splits)

lemma GetHostRequest_ends: "internal_parse (GetHostRequest_field w) m bs \<noteq> (m', Out_of_fuel)"
  by (rule consuming_not_out_of_fuel[OF GetHostRequest_consuming])
    (simp add: GetHostRequest_field_def fuelled split: option.splits)

lemma GetHostResponse_ends: "internal_parse (GetHostResponse_field w) m bs \<noteq> (m', Out_of_fuel)"
  by (rule consuming_not_out_of_fuel[OF GetHostResponse_consuming])
    (simp add: GetHostResponse_field_def fuelled HostInfo_ends split: option.splits)

end

section \<open>What the messages promise\<close>

lemma route_response_parsed:
  assumes "wire_format w" and "unknown m = no_unknown w" and "\<forall>h \<in> set (rr_host m). unknown h = no_unknown w"
  shows "GetRouteResponse_parse w (GetRouteResponse_serialize w m) = (m, True)"
  using wire_format.GetRouteResponse_parse_serialize[OF assms, of "GetRouteResponse_clear w"]
    wire_format.GetRouteResponse_copy_same[OF assms(1,2)]
  by (simp add: GetRouteResponse_parse_def parse_from_array_def GetRouteResponse_copy_def)

text \<open>
  C21: a \<open>GetRouteResponse\<close> survives the wire. For every response without unknown fields,
  \<open>ParseFromArray\<close> on what \<open>SerializeToString\<close> wrote succeeds and gives back the same message, hosts
  in order, and \<open>ByteSizeLong\<close> is the number of bytes written. The library's readers and writers
  are only assumed to follow the published encoding.
\<close>

theorem route_response_roundtrip:
  assumes "wire_format w" and "unknown m = no_unknown w" and "\<forall>h \<in> set (rr_host m). unknown h = no_unknown w"
  shows "GetRouteResponse_parse w (GetRouteResponse_serialize w m) = (m, True) \<and>
    length (GetRouteResponse_serialize w m) = GetRouteResponse_size w m"
  using route_response_parsed[OF assms] wire_format.GetRouteResponse_length[OF assms(1), of m] by simp

theorem route_response_roundtrip_witness:
  "\<exists>m :: byte list GetRouteResponse. length (rr_host m) = 2 \<and> hi_port (rr_host m ! 1) = - 1 \<and>
     GetRouteResponse_parse pb_wire (GetRouteResponse_serialize pb_wire m) = (m, True)"
proof -
  let ?h = "\<lambda>i p. \<lparr>unknown = [], hi_ip = i, hi_port = p\<rparr> :: byte list HostInfo"
  let ?m = "\<lparr>unknown = [], rr_modid = 1, rr_cmdid = 300, rr_host = [?h 7 80, ?h 0 (- 1)]\<rparr> :: byte list GetRouteResponse"
  have "GetRouteResponse_parse pb_wire (GetRouteResponse_serialize pb_wire ?m) = (?m, True)"
    using route_response_roundtrip[OF pb.wire_format_axioms, of ?m] by (simp add: pb_wire_def)
  then show ?thesis by (intro exI[of _ ?m]) simp
qed

lemma host_response_parsed:
  assumes "wire_format w" and "unknown b = no_unknown w" and "\<forall>h. hr_host b = Some h \<longrightarrow> unknown h = no_unknown w"
  shows "GetHostResponse_parse w (GetHostResponse_serialize w b) = (b, True)"
proof -
  have "HostInfo_merge w (HostInfo_clear w) h = h" if "hr_host b = Some h" for h
    using wire_format.HostInfo_copy_same[OF assms(1), of h] assms(3) that by (simp add: HostInfo_copy_def)
  then have "GetHostResponse_merge w (GetHostResponse_clear w) b = b"
    using wire_format.no_unknown_merged[OF assms(1)] assms(2)
    by (cases b) (auto simp: GetHostResponse_merge_def GetHostResponse_clear_def Let_def split: option.splits)
  then show ?thesis using wire_format.GetHostResponse_parse_serialize[OF assms, of "GetHostResponse_clear w"]
    by (simp add: GetHostResponse_parse_def parse_from_array_def)
qed

text \<open>
  C22: parsing a \<open>GetHostResponse\<close> into a message that already holds data is \<open>MergeFrom\<close>: fields that
  were written replace the old ones, fields that are zero leave them, and the host is merged into
  the host that is there. \<open>ParseFromArray\<close> clears first, so it returns the message written.
\<close>

theorem host_response_merges:
  assumes "wire_format w" and "unknown b = no_unknown w" and "\<forall>h. hr_host b = Some h \<longrightarrow> unknown h = no_unknown w"
  shows "internal_parse (GetHostResponse_field w) m (GetHostResponse_serialize w b) = (GetHostResponse_merge w m b, At_limit) \<and>
    GetHostResponse_parse w (GetHostResponse_serialize w b) = (b, True)"
  using wire_format.GetHostResponse_parse_serialize[OF assms] host_response_parsed[OF assms] by simp

theorem host_response_merges_witness:
  "\<exists>b :: byte list GetHostResponse. hr_host b \<noteq> None \<and> GetHostResponse_parse pb_wire (GetHostResponse_serialize pb_wire b) = (b, True)"
proof -
  let ?b = "\<lparr>unknown = [], hr_seq = 5, hr_modid = - 1, hr_cmdid = 2, hr_retcode = 0,
    hr_host = Some \<lparr>unknown = [], hi_ip = 1, hi_port = 8080\<rparr>\<rparr> :: byte list GetHostResponse"
  have "GetHostResponse_parse pb_wire (GetHostResponse_serialize pb_wire ?b) = (?b, True)"
    using host_response_merges[OF pb.wire_format_axioms, of ?b] by (simp add: pb_wire_def)
  then show ?thesis by (intro exI[of _ ?b]) simp
qed

lemma report_request_parsed:
  assumes "wire_format w" and "unknown m = no_unknown w" and "\<forall>h \<in> set (rs_results m). unknown h = no_unknown w"
  shows "ReportStatusRequest_parse w (ReportStatusRequest_serialize w m) = (m, True)"
  using wire_format.ReportStatusRequest_parse_serialize[OF assms, of "ReportStatusRequest_clear w"]
    wire_format.ReportStatusRequest_copy_same[OF assms(1,2)]
  by (simp add: ReportStatusRequest_parse_def parse_from_array_def ReportStatusRequest_copy_def)

text \<open>
  A \<open>ReportStatusRequest\<close> survives the wire: all call results in order, although the repeated
  field stands in front of the time stamp, so its loop has to stop at the right tag.
\<close>

theorem report_request_roundtrip:
  assumes "wire_format w" and "unknown m = no_unknown w" and "\<forall>h \<in> set (rs_results m). unknown h = no_unknown w"
  shows "ReportStatusRequest_parse w (ReportStatusRequest_serialize w m) = (m, True) \<and>
    length (ReportStatusRequest_serialize w m) = ReportStatusRequest_size w m"
  using report_request_parsed[OF assms] wire_format.ReportStatusRequest_length[OF assms(1), of m] by simp

theorem report_request_roundtrip_witness:
  "\<exists>m :: byte list ReportStatusRequest. length (rs_results m) = 1 \<and> rs_timestamp m \<noteq> 0 \<and>
     ReportStatusRequest_parse pb_wire (ReportStatusRequest_serialize pb_wire m) = (m, True)"
proof -
  let ?r = "\<lparr>unknown = [], cr_ip = 7, cr_port = 80, cr_succ = 3, cr_err = 0, cr_overload = True\<rparr> :: byte list HostCallResult"
  let ?m = "\<lparr>unknown = [], rs_modid = 1, rs_cmdid = 2, rs_caller = 0, rs_results = [?r], rs_timestamp = 99\<rparr> :: byte list ReportStatusRequest"
  have "ReportStatusRequest_parse pb_wire (ReportStatusRequest_serialize pb_wire ?m) = (?m, True)"
    using report_request_roundtrip[OF pb.wire_format_axioms, of ?m] by (simp add: pb_wire_def)
  then show ?thesis by (intro exI[of _ ?m]) simp
qed

text \<open>
  C23: parsing ends on every input. Whatever bytes a peer sends, and whatever the message holds
  already, the parse loop of each of the seven messages, the loops over repeated fields and the
  parsers of the sub-messages within it stop at the end of the data, at an end-group tag or with an
  error, never by running out of the fuel that the model gives each of them (one unit per byte).
\<close>

theorem parsing_ends:
  assumes "wire_format w"
  shows "snd (internal_parse (GetRouteResponse_field w) rr bs) \<noteq> Out_of_fuel \<and>
    snd (internal_parse (ReportStatusRequest_field w) rs bs) \<noteq> Out_of_fuel \<and>
    snd (internal_parse (GetHostResponse_field w) hr bs) \<noteq> Out_of_fuel \<and>
    snd (internal_parse (HostInfo_field w) hi bs) \<noteq> Out_of_fuel \<and>
    snd (internal_parse (HostCallResult_field w) cr bs) \<noteq> Out_of_fuel \<and>
    snd (internal_parse (GetRouteRequest_field w) rq bs) \<noteq> Out_of_fuel \<and>
    snd (internal_parse (GetHostRequest_field w) hq bs) \<noteq> Out_of_fuel"
  using wire_format.GetRouteResponse_ends[OF assms] wire_format.ReportStatusRequest_ends[OF assms]
    wire_format.GetHostResponse_ends[OF assms] wire_format.HostInfo_ends[OF assms] wire_format.HostCallResult_ends[OF assms]
    wire_format.GetRouteRequest_ends[OF assms] wire_format.GetHostRequest_ends[OF assms]
  by (metis prod.collapse)

theorem parsing_ends_witness:
  "snd (internal_parse (GetHostResponse_field pb_wire) (GetHostResponse_clear pb_wire) [42, 255, 1]) \<noteq> Out_of_fuel"
  using parsing_ends[OF pb.wire_format_axioms, where hr = "GetHostResponse_clear pb_wire" and bs = "[42, 255, 1]"] by blast

end
