(* ===== verification/Thread_Pool.thy ===== *)
theory Thread_Pool
  imports Event_Loop
begin

text \<open>
  \<open>thread_queue<T>\<close> (reactor/include/thread_queue.h) and \<open>thread_pool\<close>
  (reactor/include/thread_pool.h, reactor/src/thread_pool.cc): a queue guarded by a mutex whose
  eventfd wakes the consumer's loop, and the round-robin choice of a worker. Two contracts are
  stated as locales: a mailbox delivers everything once and in order and never sleeps on
  pending items; a round-robin choice is fair. Both are interpreted on the code's model.
\<close>

section \<open>Mailboxes\<close>

record 'a thread_queue =
  tq_queue :: "'a list"
  tq_count :: nat

definition EVENTFD_MAX :: nat where
  "EVENTFD_MAX = 2 ^ 64 - 2"

definition thread_queue_new :: "'a thread_queue" where
  "thread_queue_new = \<lparr>tq_queue = [], tq_count = 0\<rparr>"

text \<open>
  \<open>write(_evfd, 1)\<close> on a non-blocking eventfd fails when the counter is full; the failure is only
  reported. \<open>read\<close> resets the counter, or fails when it is zero.
\<close>

definition tq_send :: "'a thread_queue \<Rightarrow> 'a \<Rightarrow> 'a thread_queue" where
  "tq_send q task = q\<lparr>tq_queue := tq_queue q @ [task],
     tq_count := (if tq_count q + 1 \<le> EVENTFD_MAX then tq_count q + 1 else tq_count q)\<rparr>"

text \<open>\<open>recv\<close> swaps the queue with the caller's.\<close>

definition tq_recv :: "'a thread_queue \<Rightarrow> 'a list \<Rightarrow> 'a list \<times> 'a thread_queue" where
  "tq_recv q new_queue = (tq_queue q, q\<lparr>tq_queue := new_queue, tq_count := 0\<rparr>)"

definition set_callback :: "event_loop option \<Rightarrow> fd \<Rightarrow> io_callback \<Rightarrow> nat option \<Rightarrow> event_loop option" where
  "set_callback loop evfd cb args =
     (case loop of None \<Rightarrow> None | Some l \<Rightarrow> Some (add_io_event l evfd cb EPOLLIN args))"

definition tq_ready :: "'a thread_queue \<Rightarrow> bool" where
  "tq_ready q \<longleftrightarrow> tq_count q \<noteq> 0"

definition tq_inv :: "'a thread_queue \<Rightarrow> bool" where
  "tq_inv q \<longleftrightarrow> tq_count q = min (length (tq_queue q)) EVENTFD_MAX"

datatype 'a box_op = Send 'a | Recv

text \<open>A sequence of sends and receives, in the order in which the mutex admits them; what was received.\<close>

fun box_run :: "('q \<Rightarrow> 'a \<Rightarrow> 'q) \<Rightarrow> ('q \<Rightarrow> 'a list \<times> 'q) \<Rightarrow> 'q \<Rightarrow> 'a box_op list \<Rightarrow> 'a list \<times> 'q" where
  "box_run snd_op rcv_op q [] = ([], q)"
| "box_run snd_op rcv_op q (Send x # ops) = box_run snd_op rcv_op (snd_op q x) ops"
| "box_run snd_op rcv_op q (Recv # ops) =
     (case rcv_op q of (got, q1) \<Rightarrow>
        (case box_run snd_op rcv_op q1 ops of (later, q2) \<Rightarrow> (got @ later, q2)))"

fun box_sent :: "'a box_op list \<Rightarrow> 'a list" where
  "box_sent [] = []"
| "box_sent (Send x # ops) = x # box_sent ops"
| "box_sent (Recv # ops) = box_sent ops"

locale mailbox =
  fixes snd_op :: "'q \<Rightarrow> 'a \<Rightarrow> 'q"
    and rcv_op :: "'q \<Rightarrow> 'a list \<times> 'q"
    and content :: "'q \<Rightarrow> 'a list"
    and ready :: "'q \<Rightarrow> bool"
    and ok :: "'q \<Rightarrow> bool"
  assumes send_law: "ok q \<Longrightarrow> ok (snd_op q x) \<and> content (snd_op q x) = content q @ [x]"
    and recv_law: "ok q \<Longrightarrow> ok (snd (rcv_op q)) \<and> fst (rcv_op q) = content q \<and> content (snd (rcv_op q)) = []"
    and ready_law: "ok q \<Longrightarrow> ready q \<longleftrightarrow> content q \<noteq> []"
begin

text \<open>Whatever the interleaving of senders and the receiver: nothing is lost, doubled or reordered.\<close>

lemma box_fifo:
  "ok q \<Longrightarrow> ok (snd (box_run snd_op rcv_op q ops)) \<and>
   fst (box_run snd_op rcv_op q ops) @ content (snd (box_run snd_op rcv_op q ops)) = content q @ box_sent ops"
proof (induction ops arbitrary: q)
  case Nil
  then show ?case by simp
next
  case (Cons op ops)
  show ?case
  proof (cases op)
    case (Send x)
    then show ?thesis using send_law[OF Cons.prems, of x] Cons.IH[of "snd_op q x"] by simp
  next
    case Recv
    obtain got q1 where r: "rcv_op q = (got, q1)" by (cases "rcv_op q")
    with recv_law[OF Cons.prems] have q1: "ok q1" "got = content q" "content q1 = []" by simp_all
    obtain later q2 where b: "box_run snd_op rcv_op q1 ops = (later, q2)"
      by (cases "box_run snd_op rcv_op q1 ops")
    from Cons.IH[OF q1(1)] q1 b r Recv show ?thesis by simp
  qed
qed

text \<open>When the receiver is not woken it has everything.\<close>

lemma quiet_complete:
  "ok q \<Longrightarrow> \<not> ready (snd (box_run snd_op rcv_op q ops)) \<Longrightarrow>
   fst (box_run snd_op rcv_op q ops) = content q @ box_sent ops"
  using box_fifo[of q ops] ready_law by fastforce

end

lemma tq_inv_new: "tq_inv thread_queue_new"
  by (simp add: tq_inv_def thread_queue_new_def)

lemma tq_inv_send: "tq_inv q \<Longrightarrow> tq_inv (tq_send q x)"
  by (auto simp: tq_inv_def tq_send_def min_def EVENTFD_MAX_def)

interpretation tq: mailbox tq_send "\<lambda>q. tq_recv q []" tq_queue tq_ready tq_inv
proof
  show "tq_inv (tq_send q x) \<and> tq_queue (tq_send q x) = tq_queue q @ [x]" if "tq_inv q" for q :: "'a thread_queue" and x
    using tq_inv_send[OF that] by (simp add: tq_send_def)
  show "tq_inv (snd (tq_recv q [])) \<and> fst (tq_recv q []) = tq_queue q \<and> tq_queue (snd (tq_recv q [])) = []"
    if "tq_inv q" for q :: "'a thread_queue"
    by (simp add: tq_recv_def tq_inv_def)
  show "tq_ready q \<longleftrightarrow> tq_queue q \<noteq> []" if "tq_inv q" for q :: "'a thread_queue"
    using that by (auto simp: tq_ready_def tq_inv_def EVENTFD_MAX_def min_def)
qed

section \<open>Choosing a worker\<close>

primrec picks :: "('s \<Rightarrow> (nat \<times> 's) res) \<Rightarrow> nat \<Rightarrow> 's \<Rightarrow> (nat list \<times> 's) res" where
  "picks pick 0 s = Inr ([], s)"
| "picks pick (Suc k) s =
     res_bind (pick s) (\<lambda>(i, s1). res_bind (picks pick k s1) (\<lambda>(is, s2). Inr (i # is, s2)))"

locale round_robin =
  fixes pick :: "'s \<Rightarrow> (nat \<times> 's) res"
    and pos :: "'s \<Rightarrow> nat"
    and width :: "'s \<Rightarrow> nat"
    and ok :: "'s \<Rightarrow> bool"
  assumes width_pos: "ok s \<Longrightarrow> 0 < width s"
    and pick_law: "ok s \<Longrightarrow> \<exists>s'. pick s = Inr (pos s mod width s, s') \<and> ok s' \<and> width s' = width s \<and>
      pos s' mod width s = Suc (pos s) mod width s"
begin

lemma picks_eq:
  "ok s \<Longrightarrow> \<exists>s'. picks pick k s = Inr (map (\<lambda>i. (pos s + i) mod width s) [0..<k], s') \<and> ok s' \<and> width s' = width s"
proof (induction k arbitrary: s)
  case 0
  then show ?case by simp
next
  case (Suc k)
  from pick_law[OF Suc.prems] obtain s1 where s1: "pick s = Inr (pos s mod width s, s1)" "ok s1"
    "width s1 = width s" "pos s1 mod width s = Suc (pos s) mod width s" by blast
  from Suc.IH[OF s1(2)] obtain s2 where
    s2: "picks pick k s1 = Inr (map (\<lambda>i. (pos s1 + i) mod width s1) [0..<k], s2)" "ok s2" "width s2 = width s1" by blast
  have "(pos s1 + i) mod width s1 = (pos s + Suc i) mod width s" for i
    using s1(3,4) by (metis add_Suc_shift mod_add_left_eq)
  then have "map (\<lambda>i. (pos s1 + i) mod width s1) [0..<k] = map (\<lambda>i. (pos s + i) mod width s) [Suc 0..<Suc k]"
    by (simp add: map_Suc_upt[symmetric] comp_def del: upt_Suc)
  moreover have "[0..<Suc k] = 0 # [Suc 0..<Suc k]" by (simp add: upt_conv_Cons del: upt_Suc)
  ultimately show ?case using s1 s2 by (simp del: upt_Suc)
qed

text \<open>In \<open>m\<close> full rounds every choice is made exactly \<open>m\<close> times.\<close>

lemma one_round: "distinct (map (\<lambda>i. (p + i) mod w) [0..<w])"
proof (clarsimp simp: distinct_map inj_on_def)
  fix x y assume "x < w" "y < w" "(p + x) mod w = (p + y) mod w"
  then show "x = y"
  proof (induction x y rule: linorder_wlog)
    case (le a b)
    then have "(p + b) mod w = (p + a) mod w" by simp
    then have "w dvd (p + b) - (p + a)" by (metis mod_eq_dvd_iff_nat add_le_cancel_left le.hyps)
    then have "w dvd b - a" by simp
    then show ?case using le by (metis diff_le_self dvd_imp_le le_antisym le_less_trans not_less zero_less_diff)
  qed simp
qed

lemma fair_round:
  assumes "ok s" and "j < width s"
  shows "\<exists>is s'. picks pick (width s) s = Inr (is, s') \<and> count_list is j = 1 \<and> length is = width s"
proof -
  let ?w = "width s" and ?is = "map (\<lambda>i. (pos s + i) mod width s) [0..<width s]"
  from picks_eq[OF assms(1), of ?w] obtain s' where "picks pick ?w s = Inr (?is, s')" by blast
  moreover have d: "distinct ?is" by (rule one_round)
  have "set ?is = {..<?w}"
  proof (rule card_subset_eq)
    show "set ?is \<subseteq> {..<?w}" using width_pos[OF assms(1)] by auto
    show "card (set ?is) = card {..<?w}" using distinct_card[OF d] by simp
  qed simp
  with d assms(2) have "count_list ?is j = 1" by (simp add: count_list_distinct)
  ultimately show ?thesis by (intro exI[of _ ?is] exI[of _ s']) simp
qed

end

section \<open>The thread pool\<close>

datatype task_msg = NEW_CONN int | NEW_TASK task_func nat

record thread_pool =
  tp_queues :: "task_msg thread_queue list"
  thread_cnt :: int
  tp_index :: int

definition thread_pool_new :: "int \<Rightarrow> thread_pool res" where
  "thread_pool_new n =
     (if n \<le> 0 then Inl Exit_failure
      else Inr \<lparr>tp_queues = replicate (nat n) thread_queue_new, thread_cnt = n, tp_index = 0\<rparr>)"

text \<open>The result is the index of the queue returned.\<close>

definition get_thread :: "thread_pool \<Rightarrow> (nat \<times> thread_pool) res" where
  "get_thread tp =
     (let i = (if tp_index tp = thread_cnt tp then 0 else tp_index tp)
      in res_bind (check Out_of_bounds (0 \<le> i \<and> i < int (length (tp_queues tp)))) (\<lambda>_.
           Inr (nat i, tp\<lparr>tp_index := i + 1\<rparr>)))"

definition tp_send :: "thread_pool \<Rightarrow> nat \<Rightarrow> task_msg \<Rightarrow> thread_pool res" where
  "tp_send tp i task =
     res_bind (check Out_of_bounds (i < length (tp_queues tp))) (\<lambda>_.
       Inr (tp\<lparr>tp_queues := (tp_queues tp)[i := tq_send (tp_queues tp ! i) task]\<rparr>))"

definition send_task :: "thread_pool \<Rightarrow> task_func \<Rightarrow> nat \<Rightarrow> thread_pool res" where
  "send_task tp func args =
     run (\<lambda>tp i. tp_send tp i (NEW_TASK func args)) tp [0..<nat (thread_cnt tp)]"

text \<open>\<open>thread_main\<close>: a loop of its own that listens to the queue's eventfd.\<close>

definition thread_main :: "(nat \<Rightarrow> bool) \<Rightarrow> fd \<Rightarrow> nat \<Rightarrow> event_loop option" where
  "thread_main ans evfd queue = set_callback (Some (event_loop_new ans)) evfd deal_task_message (Some queue)"

definition tp_inv :: "thread_pool \<Rightarrow> bool" where
  "tp_inv tp \<longleftrightarrow> 0 < thread_cnt tp \<and> int (length (tp_queues tp)) = thread_cnt tp \<and>
     0 \<le> tp_index tp \<and> tp_index tp \<le> thread_cnt tp \<and> (\<forall>q \<in> set (tp_queues tp). tq_inv q)"

lemma tp_inv_new: "thread_pool_new n = Inr tp \<Longrightarrow> tp_inv tp"
  by (auto simp: thread_pool_new_def tp_inv_def tq_inv_new split: if_splits)

lemma tp_inv_length: "tp_inv tp \<Longrightarrow> nat (thread_cnt tp) = length (tp_queues tp) \<and> 0 < length (tp_queues tp)"
  by (auto simp: tp_inv_def)

lemma get_thread_spec:
  assumes "tp_inv tp"
  shows "\<exists>tp'. get_thread tp = Inr (nat (tp_index tp) mod nat (thread_cnt tp), tp') \<and> tp_inv tp' \<and>
    thread_cnt tp' = thread_cnt tp \<and> tp_queues tp' = tp_queues tp \<and>
    nat (tp_index tp') mod nat (thread_cnt tp) = Suc (nat (tp_index tp)) mod nat (thread_cnt tp)"
proof (cases "tp_index tp = thread_cnt tp")
  case True
  then have "get_thread tp = Inr (0, tp\<lparr>tp_index := 1\<rparr>)" using assms by (simp add: get_thread_def tp_inv_def)
  moreover have "Suc 0 mod nat (thread_cnt tp) = Suc (nat (thread_cnt tp)) mod nat (thread_cnt tp)"
    using mod_add_self2[of "Suc 0" "nat (thread_cnt tp)"] by simp
  ultimately show ?thesis using True assms by (auto simp: tp_inv_def)
next
  case False
  then have "get_thread tp = Inr (nat (tp_index tp), tp\<lparr>tp_index := tp_index tp + 1\<rparr>)"
    using assms by (simp add: get_thread_def tp_inv_def Let_def)
  moreover have "nat (tp_index tp) mod nat (thread_cnt tp) = nat (tp_index tp)"
    using False assms by (simp add: tp_inv_def)
  ultimately show ?thesis using False assms by (auto simp: tp_inv_def nat_add_distrib)
qed

interpretation tp: round_robin get_thread "\<lambda>tp. nat (tp_index tp)" "\<lambda>tp. nat (thread_cnt tp)" tp_inv
proof
  show "0 < nat (thread_cnt s)" if "tp_inv s" for s using that by (simp add: tp_inv_def)
  show "\<exists>s'. get_thread s = Inr (nat (tp_index s) mod nat (thread_cnt s), s') \<and> tp_inv s' \<and>
      nat (thread_cnt s') = nat (thread_cnt s) \<and>
      nat (tp_index s') mod nat (thread_cnt s) = Suc (nat (tp_index s)) mod nat (thread_cnt s)" if "tp_inv s" for s
    using get_thread_spec[OF that] by auto
qed

lemma tp_send_spec:
  assumes "tp_inv tp" and "i < length (tp_queues tp)"
  shows "\<exists>tp'. tp_send tp i task = Inr tp' \<and> tp_inv tp' \<and> thread_cnt tp' = thread_cnt tp \<and>
    tp_index tp' = tp_index tp \<and>
    map tq_queue (tp_queues tp') = (map tq_queue (tp_queues tp))[i := tq_queue (tp_queues tp ! i) @ [task]]"
proof -
  have "tq_inv (tp_queues tp ! i)" using assms by (simp add: tp_inv_def)
  then have "tq_inv (tq_send (tp_queues tp ! i) task)" by (rule tq_inv_send)
  then show ?thesis
    using assms by (auto simp: tp_send_def tp_inv_def map_update tq_send_def dest: set_update_subset_insert[THEN subsetD])
qed

text \<open>
  New connections are spread evenly. As many consecutive calls of \<open>get_thread\<close> as there are
  workers return every worker exactly once, wherever the index stands, and never index outside
  the array of queues.
\<close>

theorem get_thread_fair:
  assumes "tp_inv tp" and "j < nat (thread_cnt tp)"
  shows "\<exists>is tp'. picks get_thread (nat (thread_cnt tp)) tp = Inr (is, tp') \<and> count_list is j = 1 \<and>
    length is = nat (thread_cnt tp)"
  using tp.fair_round[OF assms] .

theorem get_thread_fair_witness:
  "\<exists>tp is tp'. thread_pool_new 3 = Inr tp \<and> picks get_thread 3 tp = Inr (is, tp') \<and> count_list is 2 = 1"
proof -
  obtain tp where tp: "thread_pool_new 3 = Inr tp" "thread_cnt tp = 3" by (simp add: thread_pool_new_def)
  from get_thread_fair[OF tp_inv_new[OF tp(1)], of 2] tp(2) obtain js tp' where
    "picks get_thread 3 tp = Inr (js, tp')" "count_list js 2 = 1" by auto
  with tp show ?thesis by blast
qed

lemma send_task_prefix:
  assumes "tp_inv tp" and "k \<le> length (tp_queues tp)"
  shows "\<exists>tp'. run (\<lambda>tp i. tp_send tp i task) tp [0..<k] = Inr tp' \<and> tp_inv tp' \<and> thread_cnt tp' = thread_cnt tp \<and>
    tp_index tp' = tp_index tp \<and>
    map tq_queue (tp_queues tp') =
      map (\<lambda>q. tq_queue q @ [task]) (take k (tp_queues tp)) @ map tq_queue (drop k (tp_queues tp))"
  using assms(2)
proof (induction k)
  case 0
  then show ?case using assms(1) by simp
next
  case (Suc k)
  then obtain tp1 where tp1: "run (\<lambda>tp i. tp_send tp i task) tp [0..<k] = Inr tp1" "tp_inv tp1"
    "thread_cnt tp1 = thread_cnt tp" "tp_index tp1 = tp_index tp"
    and q: "map tq_queue (tp_queues tp1) =
      map (\<lambda>q. tq_queue q @ [task]) (take k (tp_queues tp)) @ map tq_queue (drop k (tp_queues tp))" by auto
  let ?qs = "tp_queues tp"
  have l: "length (tp_queues tp1) = length ?qs" using assms(1) tp1(2,3) by (simp add: tp_inv_def)
  then have k1: "k < length (tp_queues tp1)" and k: "k < length ?qs" using Suc.prems by simp_all
  have dk: "drop k ?qs = ?qs ! k # drop (Suc k) ?qs" using k by (simp add: Cons_nth_drop_Suc)
  have "tq_queue (tp_queues tp1 ! k) = map tq_queue (tp_queues tp1) ! k" using k1 by simp
  also have "\<dots> = tq_queue (?qs ! k)" unfolding q using k by (simp add: nth_append)
  finally have e: "tq_queue (tp_queues tp1 ! k) = tq_queue (?qs ! k)" .
  from tp_send_spec[OF tp1(2) k1, of task] obtain tp2 where tp2: "tp_send tp1 k task = Inr tp2" "tp_inv tp2"
    "thread_cnt tp2 = thread_cnt tp1" "tp_index tp2 = tp_index tp1"
    and q2: "map tq_queue (tp_queues tp2) = (map tq_queue (tp_queues tp1))[k := tq_queue (tp_queues tp1 ! k) @ [task]]"
    by blast
  have "map tq_queue (tp_queues tp2) =
      map (\<lambda>q. tq_queue q @ [task]) (take (Suc k) ?qs) @ map tq_queue (drop (Suc k) ?qs)"
    unfolding q2 e q dk using k by (simp add: list_update_append take_Suc_conv_app_nth)
  then show ?case using tp1 tp2 by (simp add: run_append)
qed

lemma send_task_all:
  assumes "tp_inv tp"
  shows "\<exists>tp'. send_task tp func args = Inr tp' \<and> tp_inv tp' \<and>
    map tq_queue (tp_queues tp') = map (\<lambda>q. tq_queue q @ [NEW_TASK func args]) (tp_queues tp) \<and>
    (\<forall>q \<in> set (tp_queues tp'). tq_ready q)"
proof -
  have l: "nat (thread_cnt tp) = length (tp_queues tp)" using tp_inv_length[OF assms] by simp
  from send_task_prefix[OF assms order_refl, of "NEW_TASK func args"] obtain tp' where
    tp': "send_task tp func args = Inr tp'" "tp_inv tp'"
    and q: "map tq_queue (tp_queues tp') = map (\<lambda>q. tq_queue q @ [NEW_TASK func args]) (tp_queues tp)"
    by (auto simp: send_task_def l)
  have "tq_ready q" if "q \<in> set (tp_queues tp')" for q
  proof -
    from that have "tq_queue q \<in> set (map tq_queue (tp_queues tp'))" by simp
    then have "tq_queue q \<noteq> []" unfolding q by auto
    moreover have "tq_inv q" using tp'(2) that by (simp add: tp_inv_def)
    ultimately show ?thesis using tq.ready_law by blast
  qed
  with tp' q show ?thesis by blast
qed

text \<open>
  A task handed to \<open>send_task\<close> reaches every worker exactly once, behind what is already
  queued there, and wakes each of them.
\<close>

theorem send_task_broadcasts:
  assumes "tp_inv tp"
  shows "\<exists>tp'. send_task tp func args = Inr tp' \<and> tp_inv tp' \<and>
    map tq_queue (tp_queues tp') = map (\<lambda>q. tq_queue q @ [NEW_TASK func args]) (tp_queues tp) \<and>
    (\<forall>q \<in> set (tp_queues tp'). tq_ready q)"
  by (rule send_task_all[OF assms])

theorem send_task_broadcasts_witness:
  "\<exists>tp tp'. thread_pool_new 2 = Inr tp \<and> send_task tp push_change_task 9 = Inr tp' \<and>
     map tq_queue (tp_queues tp') = [[NEW_TASK push_change_task 9], [NEW_TASK push_change_task 9]]"
proof -
  let ?tp = "\<lparr>tp_queues = replicate 2 thread_queue_new, thread_cnt = 2, tp_index = 0\<rparr>"
  have tp: "thread_pool_new 2 = Inr ?tp" by (simp add: thread_pool_new_def)
  from send_task_broadcasts[OF tp_inv_new[OF tp], of push_change_task 9] obtain tp' where
    "send_task ?tp push_change_task 9 = Inr tp'"
    "map tq_queue (tp_queues tp') = map (\<lambda>q. tq_queue q @ [NEW_TASK push_change_task 9]) (tp_queues ?tp)" by blast
  then show ?thesis using tp by (auto simp: thread_queue_new_def numeral_2_eq_2)
qed

text \<open>
  No interleaving of \<open>send\<close> and \<open>recv\<close> on a \<open>thread_queue\<close> loses, doubles or reorders an item, and
  whenever the eventfd is not readable everything sent has been received, so the consumer never
  sleeps on a pending item.
\<close>

theorem thread_queue_delivers:
  assumes "tq_inv q" and "box_run tq_send (\<lambda>q. tq_recv q []) q ops = (got, q')"
  shows "tq_inv q' \<and> got @ tq_queue q' = tq_queue q @ box_sent ops \<and>
    (\<not> tq_ready q' \<longrightarrow> got = tq_queue q @ box_sent ops)"
  using tq.box_fifo[OF assms(1), of ops] tq.quiet_complete[OF assms(1), of ops] assms(2) by simp

theorem thread_queue_delivers_witness:
  "\<exists>got q'. box_run tq_send (\<lambda>q. tq_recv q []) (thread_queue_new :: nat thread_queue)
      [Send 1, Send 2, Recv, Send 3] = (got, q') \<and> got @ tq_queue q' = [1, 2, 3]"
proof -
  let ?q = "thread_queue_new :: nat thread_queue" and ?ops = "[Send 1, Send 2, Recv, Send 3] :: nat box_op list"
  obtain got q' where r: "box_run tq_send (\<lambda>q. tq_recv q []) ?q ?ops = (got, q')" by fastforce
  from thread_queue_delivers[OF tq_inv_new r] have "got @ tq_queue q' = [1, 2, 3]"
    by (simp add: thread_queue_new_def)
  with r show ?thesis by blast
qed

end
