(* ===== verification/Load_Balance.thy ===== *)
theory Load_Balance
  imports Dns_Route Rins_Proto Thread_Pool
begin

text \<open>
  load\_balance\_agent/include/host\_info.h, load\_balance.h and src/load\_balance.cc: the hosts of one
  route, in an idle and an overload list of pointers to shared \<open>host_info\<close> objects, and the choice
  among them. The objects live in an explicit store, because \<open>update\<close> deletes some that the map of
  the route still points to. The members \<open>status\<close> and \<open>_access_cnt\<close> are not initialised by the
  constructor: their first values are arguments.
\<close>

section \<open>Data\<close>

record host_info =
  ho_ip :: u32
  ho_port :: i32
  ho_vsucc :: u32
  ho_verr :: u32
  ho_rsucc :: u32
  ho_rerr :: u32
  ho_contin_succ :: u32
  ho_contin_err :: u32
  ho_overload :: bool

definition host_info_new :: "u32 \<Rightarrow> i32 \<Rightarrow> u32 \<Rightarrow> host_info" where
  "host_info_new ip port init_vsucc =
     \<lparr>ho_ip = ip, ho_port = port, ho_vsucc = init_vsucc, ho_verr = 0, ho_rsucc = 0, ho_rerr = 0,
      ho_contin_succ = 0, ho_contin_err = 0, ho_overload = False\<rparr>"

record host_store =
  hs_hosts :: "nat \<rightharpoonup> host_info"
  hs_next :: nat

datatype lb_status = PULLING | NEW

record load_balance =
  lb_status :: lb_status
  lb_modid :: i32
  lb_cmdid :: i32
  lb_access_cnt :: int
  lb_host_map :: "u64 \<rightharpoonup> nat"
  lb_idle :: "nat list"
  lb_overload :: "nat list"

definition load_balance_new :: "lb_status \<times> int \<Rightarrow> i32 \<Rightarrow> i32 \<Rightarrow> load_balance" where
  "load_balance_new garbage modid cmdid =
     \<lparr>lb_status = fst garbage, lb_modid = modid, lb_cmdid = cmdid, lb_access_cnt = snd garbage,
      lb_host_map = Map.empty, lb_idle = [], lb_overload = []\<rparr>"

section \<open>Operations\<close>

text \<open>
  The list is passed by value: the rotation at the end of the function is done on the copy. Only
  the response is a result. \<open>front\<close> of an empty list is outside its memory.
\<close>

definition get_host_from_list ::
  "'u wire \<Rightarrow> host_store \<Rightarrow> 'u GetHostResponse \<Rightarrow> nat list \<Rightarrow> 'u GetHostResponse res" where
  "get_host_from_list w H resp l =
     (case l of
        [] \<Rightarrow> Inl Out_of_bounds
      | p # _ \<Rightarrow>
          res_bind (deref (hs_hosts H) p) (\<lambda>host.
            let hip = (case hr_host resp of None \<Rightarrow> HostInfo_clear w | Some h \<Rightarrow> h)
            in Inr (resp\<lparr>hr_host := Some (hip\<lparr>hi_ip := ho_ip host, hi_port := ho_port host\<rparr>)\<rparr>)))"

definition lb_empty :: "load_balance \<Rightarrow> bool" where
  "lb_empty LB \<longleftrightarrow> lb_idle LB = [] \<and> lb_overload LB = []"

definition choice_one_host ::
  "'u wire \<Rightarrow> host_store \<Rightarrow> load_balance \<Rightarrow> 'u GetHostResponse \<Rightarrow> (i32 \<times> load_balance \<times> 'u GetHostResponse) res" where
  "choice_one_host w H LB rsp =
     (if lb_idle LB = [] then
        if lb_access_cnt LB \<ge> 10 then
          res_bind (get_host_from_list w H rsp (lb_overload LB)) (\<lambda>rsp'. Inr (RET_SUCC, LB\<lparr>lb_access_cnt := 0\<rparr>, rsp'))
        else Inr (RET_OVERLOAD, LB\<lparr>lb_access_cnt := lb_access_cnt LB + 1\<rparr>, rsp)
      else if lb_overload LB = [] then
        res_bind (get_host_from_list w H rsp (lb_idle LB)) (\<lambda>rsp'. Inr (RET_SUCC, LB, rsp'))
      else if lb_access_cnt LB \<ge> 10 then
        res_bind (get_host_from_list w H rsp (lb_overload LB)) (\<lambda>rsp'. Inr (RET_SUCC, LB\<lparr>lb_access_cnt := 0\<rparr>, rsp'))
      else
        res_bind (get_host_from_list w H rsp (lb_idle LB)) (\<lambda>rsp'. Inr (RET_SUCC, LB\<lparr>lb_access_cnt := lb_access_cnt LB + 1\<rparr>, rsp')))"

text \<open>\<open>dns_queue\<close> is a global pointer, null until \<open>main\<close> has created the queue.\<close>

definition pull ::
  "'u wire \<Rightarrow> 'u GetRouteRequest thread_queue option \<Rightarrow> load_balance \<Rightarrow> ('u GetRouteRequest thread_queue \<times> load_balance) res" where
  "pull w dns_queue LB =
     (let req = (GetRouteRequest_clear w)\<lparr>rq_modid := lb_modid LB, rq_cmdid := lb_cmdid LB\<rparr> in
      case dns_queue of
        None \<Rightarrow> Inl Null_deref
      | Some q \<Rightarrow> Inr (tq_send q req, LB\<lparr>lb_status := PULLING\<rparr>))"

text \<open>\<open>((uint64_t)h.ip() << 32) + h.port()\<close>\<close>

definition host_key :: "'u HostInfo \<Rightarrow> u64" where
  "host_key h = mod_key (hi_ip h) (hi_port h)"

definition update_one :: "host_store \<times> load_balance \<Rightarrow> 'u HostInfo \<Rightarrow> host_store \<times> load_balance" where
  "update_one s h =
     (let (H, LB) = s; key = host_key h in
      if key \<in> dom (lb_host_map LB) then
        let hi = hs_next H in
        (H\<lparr>hs_hosts := (hs_hosts H)(hi \<mapsto> host_info_new (hi_ip h) (hi_port h) 0), hs_next := hi + 1\<rparr>,
         LB\<lparr>lb_host_map := (lb_host_map LB)(key \<mapsto> hi), lb_idle := lb_idle LB @ [hi]\<rparr>)
      else s)"

text \<open>\<open>delete hi\<close> frees the object; the entry of the map stays.\<close>

definition delete_one :: "host_store \<times> load_balance \<Rightarrow> u64 \<Rightarrow> (host_store \<times> load_balance) res" where
  "delete_one s key =
     (let (H, LB) = s in
      case lb_host_map LB key of
        None \<Rightarrow> Inl Null_deref
      | Some hi \<Rightarrow>
          res_bind (deref (hs_hosts H) hi) (\<lambda>host.
            Inr (H\<lparr>hs_hosts := (hs_hosts H)(hi := None)\<rparr>,
                 if ho_overload host then LB\<lparr>lb_overload := removeAll hi (lb_overload LB)\<rparr>
                 else LB\<lparr>lb_idle := removeAll hi (lb_idle LB)\<rparr>)))"

definition lb_update ::
  "host_store \<times> load_balance \<Rightarrow> 'u GetRouteResponse \<Rightarrow> (host_store \<times> load_balance) res" where
  "lb_update s resp =
     res_bind (check Assert_failed (rr_host resp \<noteq> [])) (\<lambda>_.
       let (H1, LB1) = fold (\<lambda>h s. update_one s h) (rr_host resp) s;
           remote_hosts = host_key ` set (rr_host resp);
           need_delete = sorted_list_of_set (dom (lb_host_map LB1) - remote_hosts)
       in run delete_one (H1, LB1) need_delete)"

section \<open>Choosing a host\<close>

text \<open>\<open>n\<close> calls in a row, each with a response in the same state; the codes returned and the hosts filled in.\<close>

primrec choices ::
  "'u wire \<Rightarrow> host_store \<Rightarrow> load_balance \<Rightarrow> 'u GetHostResponse \<Rightarrow> nat \<Rightarrow> ((i32 \<times> 'u HostInfo option) list \<times> load_balance) res" where
  "choices w H LB rsp 0 = Inr ([], LB)"
| "choices w H LB rsp (Suc n) =
     res_bind (choice_one_host w H LB rsp) (\<lambda>(ret, LB1, r).
     res_bind (choices w H LB1 rsp n) (\<lambda>(rs, LB2). Inr ((ret, hr_host r) # rs, LB2)))"

definition offer :: "'u wire \<Rightarrow> host_store \<Rightarrow> 'u GetHostResponse \<Rightarrow> nat \<Rightarrow> 'u HostInfo option" where
  "offer w H rsp p =
     (let host = the (hs_hosts H p); hip = (case hr_host rsp of None \<Rightarrow> HostInfo_clear w | Some h \<Rightarrow> h)
      in Some (hip\<lparr>hi_ip := ho_ip host, hi_port := ho_port host\<rparr>))"

text \<open>What a call returns on an ordinary turn, and on a turn that tries an overloaded host.\<close>

definition ordinary :: "'u wire \<Rightarrow> host_store \<Rightarrow> load_balance \<Rightarrow> 'u GetHostResponse \<Rightarrow> i32 \<times> 'u HostInfo option" where
  "ordinary w H LB rsp =
     (if lb_idle LB = [] then (RET_OVERLOAD, hr_host rsp) else (RET_SUCC, offer w H rsp (hd (lb_idle LB))))"

definition probe :: "'u wire \<Rightarrow> host_store \<Rightarrow> load_balance \<Rightarrow> 'u GetHostResponse \<Rightarrow> i32 \<times> 'u HostInfo option" where
  "probe w H LB rsp = (RET_SUCC, offer w H rsp (hd (lb_overload LB)))"

definition lb_live :: "host_store \<Rightarrow> load_balance \<Rightarrow> bool" where
  "lb_live H LB \<longleftrightarrow> set (lb_idle LB) \<union> set (lb_overload LB) \<subseteq> dom (hs_hosts H)"

lemma get_host_from_list_ok:
  assumes "l \<noteq> []" and "set l \<subseteq> dom (hs_hosts H)"
  shows "\<exists>r. get_host_from_list w H rsp l = Inr r \<and> hr_host r = offer w H rsp (hd l)"
  using assms by (cases l) (auto simp: get_host_from_list_def offer_def Let_def)

lemma choice_step:
  assumes "lb_live H LB" and "lb_overload LB \<noteq> []" and "lb_access_cnt LB = int c" and "c \<le> 10"
  shows "\<exists>r. choice_one_host w H LB rsp =
      Inr (fst (if c = 10 then probe w H LB rsp else ordinary w H LB rsp), LB\<lparr>lb_access_cnt := int ((c + 1) mod 11)\<rparr>, r) \<and>
    hr_host r = snd (if c = 10 then probe w H LB rsp else ordinary w H LB rsp)"
proof -
  have o: "\<exists>r. get_host_from_list w H rsp (lb_overload LB) = Inr r \<and> hr_host r = offer w H rsp (hd (lb_overload LB))"
    using assms(1,2) by (intro get_host_from_list_ok) (auto simp: lb_live_def)
  have i: "\<exists>r. get_host_from_list w H rsp (lb_idle LB) = Inr r \<and> hr_host r = offer w H rsp (hd (lb_idle LB))" if "lb_idle LB \<noteq> []"
    using assms(1) that by (intro get_host_from_list_ok) (auto simp: lb_live_def)
  show ?thesis
  proof (cases "c = 10")
    case True
    then show ?thesis using assms o by (auto simp: choice_one_host_def probe_def)
  next
    case False
    then show ?thesis using assms i by (auto simp: choice_one_host_def ordinary_def)
  qed
qed

text \<open>
  C28: one access in eleven tries an overloaded host. With a counter between 0 and 10 and at least
  one overloaded host, the calls that come when the counter, counted on from its start, is 10 modulo
  11 are answered with the first overloaded host; all other calls get the first idle host, or the
  code for overload if no host is idle. It is always the first host of the list: the lists do not
  rotate.
\<close>

theorem choice_schedule:
  assumes "lb_live H LB" and "lb_overload LB \<noteq> []" and "lb_access_cnt LB = int c" and "c \<le> 10"
  shows "\<exists>LB'. choices w H LB rsp n =
      Inr (map (\<lambda>k. if (c + k) mod 11 = 10 then probe w H LB rsp else ordinary w H LB rsp) [0..<n], LB') \<and>
    lb_idle LB' = lb_idle LB \<and> lb_overload LB' = lb_overload LB"
  using assms
proof (induction n arbitrary: LB c)
  case 0
  then show ?case by simp
next
  case (Suc n)
  let ?LB = "LB\<lparr>lb_access_cnt := int ((c + 1) mod 11)\<rparr>" and ?c = "(c + 1) mod 11"
  have same: "probe w H (LB\<lparr>lb_access_cnt := x\<rparr>) rsp = probe w H LB rsp"
    "ordinary w H (LB\<lparr>lb_access_cnt := x\<rparr>) rsp = ordinary w H LB rsp" for x
    by (simp_all add: probe_def ordinary_def)
  have c10: "?c \<le> 10" using pos_mod_bound[of 11 "int (c + 1)"] by linarith
  from Suc.IH[of ?LB ?c, OF _ _ _ c10] Suc.prems obtain LB' where
    r: "choices w H ?LB rsp n =
        Inr (map (\<lambda>k. if (?c + k) mod 11 = 10 then probe w H LB rsp else ordinary w H LB rsp) [0..<n], LB')"
      "lb_idle LB' = lb_idle LB" "lb_overload LB' = lb_overload LB"
    by (auto simp: lb_live_def same)
  have m: "(?c + k) mod 11 = (c + Suc k) mod 11" for k by (simp add: mod_simps)
  have u: "[0..<Suc n] = 0 # map Suc [0..<n]" by (simp only: upt_conv_Cons[OF zero_less_Suc] map_Suc_upt)
  have c: "c mod 11 = 10 \<longleftrightarrow> c = 10" using Suc.prems(4) by auto
  from choice_step[OF Suc.prems, of w rsp] r show ?case
    unfolding u m by (auto simp: c comp_def)
qed

theorem choice_schedule_witness:
  "\<exists>LB'. choices pb_wire
      \<lparr>hs_hosts = [2 \<mapsto> host_info_new 7 80 0, 3 \<mapsto> host_info_new 8 81 0], hs_next = 4\<rparr>
      \<lparr>lb_status = PULLING, lb_modid = 1, lb_cmdid = 2, lb_access_cnt = 9, lb_host_map = Map.empty, lb_idle = [2], lb_overload = [3]\<rparr>
      (GetHostResponse_clear pb_wire) 3 =
    Inr ([(RET_SUCC, Some \<lparr>unknown = [], hi_ip = 7, hi_port = 80\<rparr>), (RET_SUCC, Some \<lparr>unknown = [], hi_ip = 8, hi_port = 81\<rparr>),
          (RET_SUCC, Some \<lparr>unknown = [], hi_ip = 7, hi_port = 80\<rparr>)], LB') \<and> lb_idle LB' = [2] \<and> lb_overload LB' = [3]"
proof -
  let ?H = "\<lparr>hs_hosts = [2 \<mapsto> host_info_new 7 80 0, 3 \<mapsto> host_info_new 8 81 0], hs_next = 4\<rparr>"
  let ?LB = "\<lparr>lb_status = PULLING, lb_modid = 1, lb_cmdid = 2, lb_access_cnt = 9, lb_host_map = Map.empty, lb_idle = [2], lb_overload = [3]\<rparr>"
  let ?r = "GetHostResponse_clear pb_wire"
  have a: "ordinary pb_wire ?H ?LB ?r = (RET_SUCC, Some \<lparr>unknown = [], hi_ip = 7, hi_port = 80\<rparr>)"
    "probe pb_wire ?H ?LB ?r = (RET_SUCC, Some \<lparr>unknown = [], hi_ip = 8, hi_port = 81\<rparr>)"
    by (simp_all add: ordinary_def probe_def offer_def GetHostResponse_clear_def HostInfo_clear_def pb_wire_def host_info_new_def)
  have u: "map f [0..<3] = [f 0, f 1, f 2]" for f :: "nat \<Rightarrow> i32 \<times> byte list HostInfo option" by (simp add: upt_rec numeral_2_eq_2)
  have "lb_live ?H ?LB" by (simp add: lb_live_def)
  from choice_schedule[OF this, of 9 pb_wire ?r 3] show ?thesis
    unfolding u by (simp add: a del: choices.simps)
qed

section \<open>Updating the hosts\<close>

lemma update_one_keys: "dom (lb_host_map (snd (update_one s h))) = dom (lb_host_map (snd s))"
  by (cases s) (auto simp: update_one_def Let_def)

lemma update_fold_keys:
  "dom (lb_host_map (snd (fold (\<lambda>h s. update_one s h) hs s))) = dom (lb_host_map (snd s))"
  by (induction hs arbitrary: s) (simp_all add: update_one_keys)

lemma delete_one_keys: "delete_one s k = Inr s' \<Longrightarrow> lb_host_map (snd s') = lb_host_map (snd s)"
  by (cases s) (auto simp: delete_one_def Let_def res_bind_Inr_iff split: option.splits if_splits)

interpretation del_keys: invariant_steps delete_one "\<lambda>s. lb_host_map (snd s) = m" for m
  by unfold_locales (simp add: delete_one_keys)

text \<open>\<open>update\<close> never learns a host and never forgets one: the set of keys stays the same.\<close>

lemma lb_update_keys:
  assumes "lb_update s resp = Inr s'"
  shows "dom (lb_host_map (snd s')) = dom (lb_host_map (snd s))"
proof -
  obtain H1 LB1 where f: "fold (\<lambda>h s. update_one s h) (rr_host resp) s = (H1, LB1)"
    by (cases "fold (\<lambda>h s. update_one s h) (rr_host resp) s")
  from assms f have "run delete_one (H1, LB1) (sorted_list_of_set (dom (lb_host_map LB1) - host_key ` set (rr_host resp))) = Inr s'"
    by (auto simp: lb_update_def Let_def res_bind_Inr_iff)
  from del_keys.inv_run[OF _ this, of "lb_host_map LB1"] have "lb_host_map (snd s') = lb_host_map LB1" by simp
  then show ?thesis using update_fold_keys[of "rr_host resp" s] f by simp
qed

lemma update_fold_unknown:
  "\<forall>h \<in> set hs. host_key h \<notin> dom (lb_host_map (snd s)) \<Longrightarrow> fold (\<lambda>h s. update_one s h) hs s = s"
proof (induction hs)
  case (Cons h hs)
  then have "update_one s h = s" by (cases s) (simp add: update_one_def Let_def)
  with Cons show ?case by simp
qed simp

lemma lb_update_no_hosts:
  assumes "lb_host_map LB = Map.empty" and "rr_host resp \<noteq> []"
  shows "lb_update (H, LB) resp = Inr (H, LB)"
  using assms by (simp add: lb_update_def update_fold_unknown)

text \<open>
  A host that has disappeared is deleted once and then again: the entry of the map that is left
  behind points to the freed object, and the next update reads it.
\<close>

lemma lb_update_dangles:
  assumes "lb_host_map LB = [k \<mapsto> p]" and "hs_hosts H p = Some h" and "rr_host resp \<noteq> []"
    and "k \<notin> host_key ` set (rr_host resp)"
  shows "\<exists>s'. lb_update (H, LB) resp = Inr s' \<and> lb_update s' resp = Inl Dangling"
proof -
  have u: "lb_update (H', LB') resp = delete_one (H', LB') k" if "lb_host_map LB' = [k \<mapsto> p]" for H' LB'
  proof -
    have "fold (\<lambda>h s. update_one s h) (rr_host resp) (H', LB') = (H', LB')"
      using that assms(4) by (intro update_fold_unknown) auto
    moreover have "{k} - host_key ` set (rr_host resp) = {k}" using assms(4) by blast
    ultimately show ?thesis using that assms(3) by (cases "delete_one (H', LB') k") (simp_all add: lb_update_def)
  qed
  obtain H' LB' where d: "delete_one (H, LB) k = Inr (H', LB')" "lb_host_map LB' = [k \<mapsto> p]" "hs_hosts H' p = None"
    using assms(1,2) by (auto simp: delete_one_def Let_def)
  then have "delete_one (H', LB') k = Inl Dangling" by (simp add: delete_one_def Let_def)
  with d u[OF assms(1)] u[OF d(2)] show ?thesis by simp
qed

end
