(* ===== verification/Route_Lb.thy ===== *)
theory Route_Lb
  imports Load_Balance
begin

text \<open>
  load\_balance\_agent/include/route\_lb.h and src/route\_lb.cc: the load balancers of the routes of one
  agent thread, created when a route is asked for the first time. Its mutex makes every operation
  one step. \<open>lb_world\<close> holds what the operations share with the rest of the agent: the \<open>host_info\<close>
  objects and the queue to the DNS client.
\<close>

section \<open>Operations\<close>

record route_lb =
  rl_id :: int
  rl_map :: "u64 \<rightharpoonup> load_balance"

record 'u lb_world =
  lw_store :: host_store
  lw_dns :: "'u GetRouteRequest thread_queue option"

definition route_lb_new :: "int \<Rightarrow> route_lb" where
  "route_lb_new i = \<lparr>rl_id = i, rl_map = Map.empty\<rparr>"

text \<open>The members of a new \<open>load_balance\<close> that nothing initialises are the argument \<open>garbage\<close>.\<close>

definition rl_get_host ::
  "'u wire \<Rightarrow> lb_status \<times> int \<Rightarrow> 'u lb_world \<times> route_lb \<Rightarrow> i32 \<Rightarrow> i32 \<Rightarrow> 'u GetHostResponse \<Rightarrow>
   (i32 \<times> 'u GetHostResponse \<times> 'u lb_world \<times> route_lb) res" where
  "rl_get_host w garbage s modid cmdid resp =
     (let (W, R) = s; key = mod_key modid cmdid in
      case rl_map R key of
        Some LB \<Rightarrow>
          if lb_empty LB then
            res_bind (check Assert_failed (lb_status LB = PULLING)) (\<lambda>_.
              Inr (RET_SUCC, resp\<lparr>hr_retcode := RET_NOEXIST\<rparr>, W, R))
          else
            res_bind (choice_one_host w (lw_store W) LB resp) (\<lambda>(ret, LB', resp').
              Inr (ret, resp'\<lparr>hr_retcode := ret\<rparr>, W, R\<lparr>rl_map := (rl_map R)(key \<mapsto> LB')\<rparr>))
      | None \<Rightarrow>
          res_bind (pull w (lw_dns W) (load_balance_new garbage modid cmdid)) (\<lambda>(q, LB).
            Inr (RET_NOEXIST, resp\<lparr>hr_retcode := RET_NOEXIST\<rparr>, W\<lparr>lw_dns := Some q\<rparr>, R\<lparr>rl_map := (rl_map R)(key \<mapsto> LB)\<rparr>)))"

definition rl_update_host ::
  "'u lb_world \<times> route_lb \<Rightarrow> i32 \<Rightarrow> i32 \<Rightarrow> 'u GetRouteResponse \<Rightarrow> ('u lb_world \<times> route_lb) res" where
  "rl_update_host s modid cmdid rsp =
     (let (W, R) = s; key = mod_key modid cmdid in
      case rl_map R key of
        None \<Rightarrow> Inr s
      | Some LB \<Rightarrow>
          if rr_host rsp = [] then Inr (W, R\<lparr>rl_map := (rl_map R)(key := None)\<rparr>)
          else res_bind (lb_update (lw_store W, LB) rsp) (\<lambda>(H, LB').
                 Inr (W\<lparr>lw_store := H\<rparr>, R\<lparr>rl_map := (rl_map R)(key \<mapsto> LB')\<rparr>)))"

section \<open>Every sequence of requests and updates\<close>

datatype 'u lb_op =
    Get_host "lb_status \<times> int" i32 i32 "'u GetHostResponse"
  | Update_host i32 i32 "'u GetRouteResponse"

definition lb_step :: "'u wire \<Rightarrow> 'u lb_world \<times> route_lb \<Rightarrow> 'u lb_op \<Rightarrow> ('u lb_world \<times> route_lb) res" where
  "lb_step w s op =
     (case op of
        Get_host g modid cmdid resp \<Rightarrow> res_bind (rl_get_host w g s modid cmdid resp) (\<lambda>(_, _, s'). Inr s')
      | Update_host modid cmdid rsp \<Rightarrow> rl_update_host s modid cmdid rsp)"

text \<open>Every balancer is still waiting for its hosts.\<close>

definition waiting :: "load_balance \<Rightarrow> bool" where
  "waiting LB \<longleftrightarrow> lb_empty LB \<and> lb_host_map LB = Map.empty \<and> lb_status LB = PULLING"

definition rl_inv :: "'u lb_world \<times> route_lb \<Rightarrow> bool" where
  "rl_inv s \<longleftrightarrow> lw_dns (fst s) \<noteq> None \<and> (\<forall>LB \<in> ran (rl_map (snd s)). waiting LB)"

lemma rl_get_host_inv:
  assumes "rl_inv s"
  shows "\<exists>s'. rl_get_host w g s modid cmdid resp =
      Inr (if mod_key modid cmdid \<in> dom (rl_map (snd s)) then RET_SUCC else RET_NOEXIST, resp\<lparr>hr_retcode := RET_NOEXIST\<rparr>, s') \<and>
    rl_inv s' \<and> dom (rl_map (snd s')) = insert (mod_key modid cmdid) (dom (rl_map (snd s))) \<and>
    tq_queue (the (lw_dns (fst s'))) = tq_queue (the (lw_dns (fst s))) @
      (if mod_key modid cmdid \<in> dom (rl_map (snd s)) then []
       else [(GetRouteRequest_clear w)\<lparr>rq_modid := modid, rq_cmdid := cmdid\<rparr>])"
proof -
  obtain W R where s: "s = (W, R)" by (cases s)
  show ?thesis
  proof (cases "rl_map R (mod_key modid cmdid)")
    case None
    obtain q where q: "lw_dns W = Some q" using assms s by (auto simp: rl_inv_def)
    let ?LB = "load_balance_new g modid cmdid\<lparr>lb_status := PULLING\<rparr>"
    have r: "ran ((rl_map R)(mod_key modid cmdid \<mapsto> ?LB)) = insert ?LB (ran (rl_map R))" using None by (rule ran_map_upd)
    have l: "waiting ?LB" by (simp add: waiting_def load_balance_new_def lb_empty_def)
    show ?thesis
      using assms None s q l by (auto simp: rl_get_host_def rl_inv_def pull_def r Let_def tq_send_def load_balance_new_def)
  next
    case (Some LB)
    then have "waiting LB" using assms s by (auto simp: rl_inv_def ran_def)
    then show ?thesis
      using Some assms s by (auto simp: rl_get_host_def waiting_def)
  qed
qed

lemma rl_update_host_inv:
  assumes "rl_inv s"
  shows "\<exists>s'. rl_update_host s modid cmdid rsp = Inr s' \<and> rl_inv s'"
proof -
  obtain W R where s: "s = (W, R)" by (cases s)
  show ?thesis
  proof (cases "rl_map R (mod_key modid cmdid)")
    case None
    then show ?thesis using assms s by (simp add: rl_update_host_def)
  next
    case (Some LB)
    then have w: "waiting LB" using assms s by (auto simp: rl_inv_def ran_def)
    show ?thesis
    proof (cases "rr_host rsp = []")
      case True
      have "ran ((rl_map R)(mod_key modid cmdid := None)) \<subseteq> ran (rl_map R)" by (auto simp: ran_def split: if_splits)
      then show ?thesis using Some True assms s by (auto simp: rl_update_host_def rl_inv_def)
    next
      case False
      have "(rl_map R)(mod_key modid cmdid \<mapsto> LB) = rl_map R" using Some by auto
      moreover have "lb_update (lw_store W, LB) rsp = Inr (lw_store W, LB)"
        using w False by (simp add: waiting_def lb_update_no_hosts)
      ultimately show ?thesis using Some False assms s by (simp add: rl_update_host_def)
    qed
  qed
qed

lemma lb_step_inv:
  assumes "rl_inv s"
  shows "\<exists>s'. lb_step w s op = Inr s' \<and> rl_inv s'"
proof (cases op)
  case (Get_host g modid cmdid resp)
  from rl_get_host_inv[OF assms, of w g modid cmdid resp] Get_host show ?thesis by (auto simp: lb_step_def)
next
  case (Update_host modid cmdid rsp)
  from rl_update_host_inv[OF assms, of modid cmdid rsp] Update_host show ?thesis by (simp add: lb_step_def)
qed

interpretation rlb: total_steps "lb_step w" rl_inv for w :: "'u wire"
proof
  fix s :: "'u lb_world \<times> route_lb" and op s'
  show "\<exists>t. lb_step w s op = Inr t" if "rl_inv s" using lb_step_inv[OF that, of w op] by blast
  show "rl_inv s'" if "rl_inv s" "lb_step w s op = Inr s'" using lb_step_inv[OF that(1), of w op] that(2) by auto
qed

definition rl_start :: "host_store \<Rightarrow> int \<Rightarrow> 'u lb_world \<times> route_lb" where
  "rl_start H i = (\<lparr>lw_store = H, lw_dns = Some thread_queue_new\<rparr>, route_lb_new i)"

lemma rl_inv_start: "rl_inv (rl_start H i)"
  by (simp add: rl_inv_def rl_start_def route_lb_new_def)

text \<open>
  C35: the agent never hands out a host. From the state in which an agent thread starts, with the
  queue to the DNS client in place, every sequence of host requests and of route updates runs
  without a fault, and after it a host request is answered with the code for an unknown route and
  with no host: \<open>update\<close> adds only hosts that are known already. The value the function returns
  differs from the code in the response once the route has been asked for: it is then the one for
  success.
\<close>

theorem agent_never_offers_a_host:
  fixes w :: "'u wire"
  shows "\<exists>s. run (lb_step w) (rl_start H i) ops = Inr s \<and>
    (\<exists>s'. rl_get_host w g s modid cmdid resp =
      Inr (if mod_key modid cmdid \<in> dom (rl_map (snd s)) then RET_SUCC else RET_NOEXIST, resp\<lparr>hr_retcode := RET_NOEXIST\<rparr>, s'))"
proof -
  obtain s where s: "run (lb_step w) (rl_start H i) ops = Inr s" "rl_inv s"
    using rlb.run_total[OF rl_inv_start] by blast
  from rl_get_host_inv[OF s(2), of w g modid cmdid resp] s(1) show ?thesis by blast
qed

lemma get_hosts_run:
  fixes w :: "'u wire"
  assumes "rl_inv s"
  shows "\<exists>s'. run (lb_step w) s (map (\<lambda>(g, modid, cmdid, resp). Get_host g modid cmdid resp) reqs) = Inr s' \<and> rl_inv s' \<and>
    dom (rl_map (snd s')) = dom (rl_map (snd s)) \<union> (\<lambda>(g, modid, cmdid, resp). mod_key modid cmdid) ` set reqs \<and>
    map (\<lambda>r. mod_key (rq_modid r) (rq_cmdid r)) (tq_queue (the (lw_dns (fst s')))) =
      map (\<lambda>r. mod_key (rq_modid r) (rq_cmdid r)) (tq_queue (the (lw_dns (fst s)))) @
      rev (remdups (rev (filter (\<lambda>k. k \<notin> dom (rl_map (snd s))) (map (\<lambda>(g, modid, cmdid, resp). mod_key modid cmdid) reqs))))"
proof (induction reqs rule: rev_induct)
  case Nil
  then show ?case using assms by simp
next
  case (snoc req reqs)
  obtain g modid cmdid resp where req: "req = (g, modid, cmdid, resp)" by (cases req)
  from snoc obtain s1 where s1: "run (lb_step w) s (map (\<lambda>(g, modid, cmdid, resp). Get_host g modid cmdid resp) reqs) = Inr s1" "rl_inv s1"
    "dom (rl_map (snd s1)) = dom (rl_map (snd s)) \<union> (\<lambda>(g, modid, cmdid, resp). mod_key modid cmdid) ` set reqs"
    "map (\<lambda>r. mod_key (rq_modid r) (rq_cmdid r)) (tq_queue (the (lw_dns (fst s1)))) =
      map (\<lambda>r. mod_key (rq_modid r) (rq_cmdid r)) (tq_queue (the (lw_dns (fst s)))) @
      rev (remdups (rev (filter (\<lambda>k. k \<notin> dom (rl_map (snd s))) (map (\<lambda>(g, modid, cmdid, resp). mod_key modid cmdid) reqs))))"
    by auto
  from rl_get_host_inv[OF s1(2), of w g modid cmdid resp] obtain s2 where
    s2: "lb_step w s1 (Get_host g modid cmdid resp) = Inr s2" "rl_inv s2"
      "dom (rl_map (snd s2)) = insert (mod_key modid cmdid) (dom (rl_map (snd s1)))"
      "tq_queue (the (lw_dns (fst s2))) = tq_queue (the (lw_dns (fst s1))) @
        (if mod_key modid cmdid \<in> dom (rl_map (snd s1)) then []
         else [(GetRouteRequest_clear w)\<lparr>rq_modid := modid, rq_cmdid := cmdid\<rparr>])"
    by (auto simp: lb_step_def)
  have "run (lb_step w) s (map (\<lambda>(g, modid, cmdid, resp). Get_host g modid cmdid resp) (reqs @ [req])) = Inr s2"
    using s1(1) s2(1) by (simp add: run_append req)
  then show ?case
    using s1(3,4) s2(2,3,4) by (intro exI[of _ s2]) (auto simp: req image_iff)
qed

text \<open>
  A route is asked for once. Whatever host requests an agent thread gets, its queue to the DNS
  client holds, in the order in which they were first asked for, one route request for each
  different route.
\<close>

theorem one_pull_per_route:
  fixes w :: "'u wire" and reqs :: "((lb_status \<times> int) \<times> i32 \<times> i32 \<times> 'u GetHostResponse) list"
  shows "\<exists>s q. run (lb_step w) (rl_start H i) (map (\<lambda>(g, modid, cmdid, resp). Get_host g modid cmdid resp) reqs) = Inr s \<and>
    lw_dns (fst s) = Some q \<and>
    map (\<lambda>r. mod_key (rq_modid r) (rq_cmdid r)) (tq_queue q) =
      rev (remdups (rev (map (\<lambda>(g, modid, cmdid, resp). mod_key modid cmdid) reqs)))"
proof -
  from get_hosts_run[OF rl_inv_start, of w H i reqs] obtain s where
    s: "run (lb_step w) (rl_start H i) (map (\<lambda>(g, modid, cmdid, resp). Get_host g modid cmdid resp) reqs) = Inr s" "rl_inv s"
      "map (\<lambda>r. mod_key (rq_modid r) (rq_cmdid r)) (tq_queue (the (lw_dns (fst s)))) =
        rev (remdups (rev (map (\<lambda>(g, modid, cmdid, resp). mod_key modid cmdid) reqs)))"
    by (auto simp: rl_start_def route_lb_new_def thread_queue_new_def)
  then show ?thesis by (cases "lw_dns (fst s)") (auto simp: rl_inv_def)
qed

end
