(* ===== verification/Udp.thy ===== *)
theory Udp
  imports Tcp_Conn
begin

text \<open>
  reactor/src/udp_server.cc and udp_client.cc: datagram endpoints with two fixed buffers of
  \<open>MESSAGE_LENGTH_LIMIT\<close> bytes. Answers of \<open>recvfrom\<close> are a list, whether \<open>sendto\<close> accepts a datagram is
  a predicate. \<open>us_out\<close> records the datagrams handed to the kernel with their destination; a
  connected client socket has only one, the unit value. The contents of a fresh buffer are
  arbitrary.
\<close>

section \<open>State and operations\<close>

type_synonym ('a, 'u) udp_handler =
  "'a \<Rightarrow> int \<Rightarrow> byte list \<Rightarrow> u32 \<Rightarrow> int \<Rightarrow> 'u option \<Rightarrow> ('a \<times> send_req list) res"

record ('c, 'a) udp =
  us_fd :: int
  us_read :: "byte list"
  us_write :: "byte list"
  us_peer :: 'c
  us_out :: "('c \<times> byte list) list"
  us_app :: 'a

datatype 'c rcv = Packet "byte list" 'c | Rcv_EINTR | Rcv_EAGAIN | Rcv_error

text \<open>
  The constructors: for the server the two calls of \<open>signal\<close>, each of which exits on failure; a socket,
  \<open>bind\<close> (server) or \<open>connect\<close> (client), and the read event.
\<close>

definition udp_server_new ::
  "bool \<times> bool \<Rightarrow> int option \<Rightarrow> bool \<Rightarrow> nat \<Rightarrow> byte list \<times> byte list \<Rightarrow> 'c \<Rightarrow> 'a \<Rightarrow> event_loop \<Rightarrow> (('c, 'a) udp \<times> event_loop) res" where
  "udp_server_new signals sock bound this garbage zero_addr a loop =
     res_bind (check Exit_failure (fst signals)) (\<lambda>_.
     res_bind (check Exit_failure (snd signals)) (\<lambda>_.
     case sock of
       None \<Rightarrow> Inl Exit_failure
     | Some sockfd \<Rightarrow>
         res_bind (check Exit_failure bound) (\<lambda>_.
           Inr (\<lparr>us_fd = sockfd, us_read = fst garbage, us_write = snd garbage, us_peer = zero_addr, us_out = [], us_app = a\<rparr>,
                add_io_event loop sockfd udp_server_read_callback EPOLLIN (Some this)))))"

definition udp_client_new ::
  "int option \<Rightarrow> bool \<Rightarrow> nat \<Rightarrow> byte list \<times> byte list \<Rightarrow> 'a \<Rightarrow> event_loop \<Rightarrow> ((unit, 'a) udp \<times> event_loop) res" where
  "udp_client_new sock connected this garbage a loop =
     (case sock of
        None \<Rightarrow> Inl Exit_failure
      | Some sockfd \<Rightarrow>
          res_bind (check Exit_failure connected) (\<lambda>_.
            Inr (\<lparr>us_fd = sockfd, us_read = fst garbage, us_write = snd garbage, us_peer = (), us_out = [], us_app = a\<rparr>,
                 add_io_event loop sockfd udp_client_read_callback EPOLLIN (Some this))))"

definition udp_send_message ::
  "(byte list \<Rightarrow> bool) \<Rightarrow> ('c, 'a) udp \<Rightarrow> send_req \<Rightarrow> (int \<times> ('c, 'a) udp) res" where
  "udp_send_message net U req =
     (let (data, msglen, msgid) = req in
      if MESSAGE_LENGTH_LIMIT < msglen then Inr (-1, U) else
      res_bind (c_memcpy (us_write U) 0 (head_bytes \<lparr>h_id = msgid, h_length = msglen\<rparr>) (int MESSAGE_HEAD_LEN)) (\<lambda>b1.
      res_bind (c_memcpy b1 (int MESSAGE_HEAD_LEN) data msglen) (\<lambda>b2.
        let pkt = take (nat (msglen + int MESSAGE_HEAD_LEN)) b2; U' = U\<lparr>us_write := b2\<rparr> in
        if net pkt then Inr (msglen + int MESSAGE_HEAD_LEN, U'\<lparr>us_out := us_out U @ [(us_peer U, pkt)]\<rparr>)
        else Inr (-1, U'))))"

text \<open>The client's \<open>send_message\<close> differs only in that \<open>sendto\<close> names no address.\<close>

definition udp_client_send_message ::
  "(byte list \<Rightarrow> bool) \<Rightarrow> (unit, 'a) udp \<Rightarrow> send_req \<Rightarrow> (int \<times> (unit, 'a) udp) res" where
  "udp_client_send_message net U req = udp_send_message net U req"

text \<open>\<open>recvfrom\<close> stores at most \<open>sizeof(_read_buf)\<close> bytes; the rest of the buffer keeps its old contents.\<close>

definition udp_store :: "('c, 'a) udp \<Rightarrow> byte list \<Rightarrow> 'c \<Rightarrow> int \<times> ('c, 'a) udp" where
  "udp_store U p peer =
     (let d = take (length (us_read U)) p
      in (int (length d), U\<lparr>us_read := blit 0 d (us_read U), us_peer := peer\<rparr>))"

definition udp_call ::
  "(byte list \<Rightarrow> bool) \<Rightarrow> (('a, 'u) udp_handler, 'u) msg_router \<Rightarrow> ('c, 'a) udp \<Rightarrow> int \<Rightarrow> int \<Rightarrow> ('c, 'a) udp res" where
  "udp_call net router U msgid msglen =
     (case router_call router msgid of
        None \<Rightarrow> Inr U
      | Some (cb, user_data) \<Rightarrow>
          res_bind (cb (us_app U) (us_fd U) (drop MESSAGE_HEAD_LEN (us_read U)) (word_of_int msglen) msgid user_data) (\<lambda>(a', reqs).
            run (\<lambda>U req. res_bind (udp_send_message net U req) (\<lambda>(_, U'). Inr U')) (U\<lparr>us_app := a'\<rparr>) reqs))"

definition udp_bad_head :: "msg_head \<Rightarrow> int \<Rightarrow> bool" where
  "udp_bad_head head pkg_len \<longleftrightarrow> h_length head > MESSAGE_LENGTH_LIMIT \<or> h_length head < 0 \<or>
     h_length head + int MESSAGE_HEAD_LEN \<noteq> pkg_len"

fun udp_server_do_read ::
  "(byte list \<Rightarrow> bool) \<Rightarrow> (('a, 'u) udp_handler, 'u) msg_router \<Rightarrow> ('c, 'a) udp \<Rightarrow> 'c rcv list \<Rightarrow> ('c, 'a) udp res" where
  "udp_server_do_read net router U [] = Inl No_return"
| "udp_server_do_read net router U (Rcv_EINTR # as) = udp_server_do_read net router U as"
| "udp_server_do_read net router U (Rcv_EAGAIN # as) = Inr U"
| "udp_server_do_read net router U (Rcv_error # as) = Inr U"
| "udp_server_do_read net router U (Packet p peer # as) =
     (case udp_store U p peer of (pkg_len, U1) \<Rightarrow>
        (let head = read_head (us_read U1) in
         if udp_bad_head head pkg_len then udp_server_do_read net router U1 as
         else res_bind (udp_call net router U1 (h_id head) (h_length head)) (\<lambda>U2. udp_server_do_read net router U2 as)))"

text \<open>The client passes \<open>head.id\<close> where the server passes \<open>head.length\<close>.\<close>

fun udp_client_do_read ::
  "(byte list \<Rightarrow> bool) \<Rightarrow> (('a, 'u) udp_handler, 'u) msg_router \<Rightarrow> (unit, 'a) udp \<Rightarrow> unit rcv list \<Rightarrow> (unit, 'a) udp res" where
  "udp_client_do_read net router U [] = Inl No_return"
| "udp_client_do_read net router U (Rcv_EINTR # as) = udp_client_do_read net router U as"
| "udp_client_do_read net router U (Rcv_EAGAIN # as) = Inr U"
| "udp_client_do_read net router U (Rcv_error # as) = Inr U"
| "udp_client_do_read net router U (Packet p peer # as) =
     (case udp_store U p peer of (pkt_len, U1) \<Rightarrow>
        (let head = read_head (us_read U1) in
         if udp_bad_head head pkt_len then udp_client_do_read net router U1 as
         else res_bind (udp_call net router U1 (h_id head) (h_id head)) (\<lambda>U2. udp_client_do_read net router U2 as)))"

text \<open>
  Registering a handler, and the destructors: they remove the descriptor from the loop before it
  is closed.
\<close>

definition udp_server_add_msg_router :: "('h, 'u) msg_router \<Rightarrow> int \<Rightarrow> 'h \<Rightarrow> 'u \<Rightarrow> ('h, 'u) msg_router" where
  "udp_server_add_msg_router router msgid cb user_data = snd (register_msg_router router msgid cb user_data)"

definition udp_client_add_msg_router :: "('h, 'u) msg_router \<Rightarrow> int \<Rightarrow> 'h \<Rightarrow> 'u \<Rightarrow> ('h, 'u) msg_router" where
  "udp_client_add_msg_router router msgid cb user_data = snd (register_msg_router router msgid cb user_data)"

definition udp_server_delete :: "('c, 'a) udp \<Rightarrow> event_loop \<Rightarrow> event_loop" where
  "udp_server_delete U loop = del_io_event loop (us_fd U)"

definition udp_client_delete :: "(unit, 'a) udp \<Rightarrow> event_loop \<Rightarrow> event_loop" where
  "udp_client_delete U loop = del_io_event loop (us_fd U)"

text \<open>
  The read callbacks, which a loop calls with a pointer to the endpoint. \<open>uw_rcv\<close> are the answers of
  the socket, one list per call.
\<close>

record ('c, 'a) udp_world =
  uw_end :: "('c, 'a) udp"
  uw_rcv :: "nat \<Rightarrow> 'c rcv list"
  uw_no :: nat

definition udp_server_invoke ::
  "(byte list \<Rightarrow> bool) \<Rightarrow> (('a, 'u) udp_handler, 'u) msg_router \<Rightarrow> ('c, 'a) udp_world invoker" where
  "udp_server_invoke net router cb f args s =
     (case cb of
        udp_server_read_callback \<Rightarrow>
          (case args of None \<Rightarrow> Inl Null_deref | Some _ \<Rightarrow>
             res_bind (udp_server_do_read net router (uw_end (snd s)) (uw_rcv (snd s) (uw_no (snd s)))) (\<lambda>U.
               Inr (fst s, (snd s)\<lparr>uw_end := U, uw_no := Suc (uw_no (snd s))\<rparr>)))
      | _ \<Rightarrow> Inl Null_deref)"

definition udp_client_invoke ::
  "(byte list \<Rightarrow> bool) \<Rightarrow> (('a, 'u) udp_handler, 'u) msg_router \<Rightarrow> (unit, 'a) udp_world invoker" where
  "udp_client_invoke net router cb f args s =
     (case cb of
        udp_client_read_callback \<Rightarrow>
          (case args of None \<Rightarrow> Inl Null_deref | Some _ \<Rightarrow>
             res_bind (udp_client_do_read net router (uw_end (snd s)) (uw_rcv (snd s) (uw_no (snd s)))) (\<lambda>U.
               Inr (fst s, (snd s)\<lparr>uw_end := U, uw_no := Suc (uw_no (snd s))\<rparr>)))
      | _ \<Rightarrow> Inl Null_deref)"

text \<open>Neither callback changes the loop.\<close>

interpretation usl: loop_callbacks "udp_server_invoke net router" "\<lambda>s. loop_inv (fst s)" for net router
  by unfold_locales (auto simp: udp_server_invoke_def res_bind_Inr_iff split: io_callback.splits option.splits)

interpretation ucl: loop_callbacks "udp_client_invoke net router" "\<lambda>s. loop_inv (fst s)" for net router
  by unfold_locales (auto simp: udp_client_invoke_def res_bind_Inr_iff split: io_callback.splits option.splits)

text \<open>A server or client that is created and deleted leaves the loop's table as it was.\<close>

lemma udp_new_delete:
  assumes L: "loop_inv loop" and n: "io_evs loop fd = None"
  shows "udp_server_new (True, True) (Some fd) True this bufs zero a loop = Inr (U, l) \<Longrightarrow> io_evs (udp_server_delete U l) = io_evs loop"
    and "udp_client_new (Some fd) True this bufs b loop = Inr (C, m) \<Longrightarrow> io_evs (udp_client_delete C m) = io_evs loop"
proof -
  have "io_evs (del_io_event (add_io_event loop fd cb EPOLLIN (Some this)) fd) = io_evs loop" for cb
    using del_io_event_spec(2)[OF add_io_event_spec(1)[OF L, of EPOLLIN fd cb "Some this"]]
      add_io_event_spec(2)[OF L, of EPOLLIN fd cb "Some this"] n by (simp add: rw_mask_def fun_upd_idem)
  then show "udp_server_new (True, True) (Some fd) True this bufs zero a loop = Inr (U, l) \<Longrightarrow> io_evs (udp_server_delete U l) = io_evs loop"
    and "udp_client_new (Some fd) True this bufs b loop = Inr (C, m) \<Longrightarrow> io_evs (udp_client_delete C m) = io_evs loop"
    by (auto simp: udp_server_new_def udp_client_new_def udp_server_delete_def udp_client_delete_def)
qed

section \<open>Sending\<close>

definition udp_ok :: "('c, 'a) udp \<Rightarrow> bool" where
  "udp_ok U \<longleftrightarrow> int (length (us_read U)) = MESSAGE_LENGTH_LIMIT \<and> int (length (us_write U)) = MESSAGE_LENGTH_LIMIT"

definition udp_req_ok :: "send_req \<Rightarrow> bool" where
  "udp_req_ok req = (case req of (data, msglen, msgid) \<Rightarrow>
     0 \<le> msglen \<and> msglen + int MESSAGE_HEAD_LEN \<le> MESSAGE_LENGTH_LIMIT \<and> msglen \<le> int (length data))"

text \<open>The head and then the body, copied to the front of a buffer that holds both.\<close>

lemma copy_head_body:
  assumes "0 \<le> n" and "n + 8 \<le> int (length buf)" and "n \<le> int (length data)" and "length h = 8"
  shows "\<exists>b1 b2. c_memcpy buf 0 h 8 = Inr b1 \<and> c_memcpy b1 8 data n = Inr b2 \<and>
    take (nat (n + 8)) b2 = h @ take (nat n) data \<and> length b2 = length buf"
proof -
  let ?b1 = "blit 0 h buf" and ?d = "take (nat n) data"
  let ?b2 = "blit 8 ?d ?b1"
  have l1: "length ?b1 = length buf" using assms by (intro length_blit) simp
  have dl: "length ?d = nat n" using assms(3) by simp
  have k: "nat (n + 8) = 8 + length ?d" using assms(1) dl by simp
  have "c_memcpy buf 0 h 8 = Inr ?b1" using assms by (simp add: c_memcpy_def)
  moreover have "c_memcpy ?b1 8 data n = Inr ?b2" using assms l1 by (simp add: c_memcpy_def del: blit_0)
  moreover have "take (8 + length ?d) ?b2 = take 8 ?b1 @ ?d" using assms l1 by (intro take_blit_end) simp
  moreover have "take 8 ?b1 = h" using assms(4) by simp
  moreover have "length ?b2 = length buf" using assms l1 dl by (subst length_blit) simp_all
  ultimately show ?thesis unfolding k by metis
qed

lemma udp_send_ok:
  assumes "udp_ok U" and "udp_req_ok req" and "net (reply_bytes req)"
  shows "\<exists>U'. udp_send_message net U req = Inr (int (length (reply_bytes req)), U') \<and> udp_ok U' \<and>
    us_out U' = us_out U @ [(us_peer U, reply_bytes req)] \<and> us_app U' = us_app U \<and> us_peer U' = us_peer U \<and>
    us_fd U' = us_fd U \<and> us_read U' = us_read U"
proof -
  obtain data msglen msgid where req: "req = (data, msglen, msgid)" by (cases req)
  have m: "0 \<le> msglen" "msglen + 8 \<le> int (length (us_write U))" "msglen \<le> int (length data)"
    using assms(1,2) by (simp_all add: udp_req_ok_def udp_ok_def req message_limits)
  from copy_head_body[OF m, of "head_bytes \<lparr>h_id = msgid, h_length = msglen\<rparr>"] obtain b1 b2 where
    c: "c_memcpy (us_write U) 0 (head_bytes \<lparr>h_id = msgid, h_length = msglen\<rparr>) 8 = Inr b1" "c_memcpy b1 8 data msglen = Inr b2"
      "take (nat (msglen + 8)) b2 = reply_bytes req" "length b2 = length (us_write U)"
    by (auto simp: req reply_bytes_def)
  have "int (length (reply_bytes req)) = msglen + 8" using m by (simp add: req reply_bytes_def)
  then show ?thesis
    using m assms(1,3) c by (simp add: udp_send_message_def req message_limits udp_ok_def)
qed

text \<open>
  C33: the size check of \<open>udp_server::send_message\<close> does not protect its buffer. A message whose
  head and body fit the buffer is sent as one datagram, head first. A body longer than that but
  within \<open>MESSAGE_LENGTH_LIMIT\<close> passes the check and is copied past the end of \<open>_write_buf\<close>, as is
  one of negative length; only larger ones are refused.
\<close>

theorem udp_send_outcome:
  assumes "udp_ok U" and "msglen \<le> int (length data)" and "\<forall>p. net p"
  shows "(0 \<le> msglen \<and> msglen \<le> MESSAGE_LENGTH_LIMIT - 8 \<longrightarrow>
      (\<exists>U'. udp_send_message net U (data, msglen, msgid) = Inr (msglen + 8, U') \<and> udp_ok U' \<and>
         us_out U' = us_out U @ [(us_peer U, head_bytes \<lparr>h_id = msgid, h_length = msglen\<rparr> @ take (nat msglen) data)])) \<and>
    (MESSAGE_LENGTH_LIMIT - 8 < msglen \<and> msglen \<le> MESSAGE_LENGTH_LIMIT \<or> msglen < 0 \<longrightarrow>
      udp_send_message net U (data, msglen, msgid) = Inl Out_of_bounds) \<and>
    (MESSAGE_LENGTH_LIMIT < msglen \<longrightarrow> udp_send_message net U (data, msglen, msgid) = Inr (-1, U))"
proof (intro conjI impI)
  let ?req = "(data, msglen, msgid)"
  assume "0 \<le> msglen \<and> msglen \<le> MESSAGE_LENGTH_LIMIT - 8"
  then have "udp_req_ok ?req" "int (length (reply_bytes ?req)) = msglen + 8"
    using assms(2) by (simp_all add: udp_req_ok_def message_limits reply_bytes_def)
  with udp_send_ok[OF assms(1), of ?req net] assms(3)
  show "\<exists>U'. udp_send_message net U ?req = Inr (msglen + 8, U') \<and> udp_ok U' \<and>
         us_out U' = us_out U @ [(us_peer U, head_bytes \<lparr>h_id = msgid, h_length = msglen\<rparr> @ take (nat msglen) data)]"
    by (auto simp: reply_bytes_def)
next
  assume "MESSAGE_LENGTH_LIMIT - 8 < msglen \<and> msglen \<le> MESSAGE_LENGTH_LIMIT \<or> msglen < 0"
  then show "udp_send_message net U (data, msglen, msgid) = Inl Out_of_bounds"
    using assms(1) by (auto simp: udp_send_message_def udp_ok_def message_limits c_memcpy_def)
next
  assume "MESSAGE_LENGTH_LIMIT < msglen"
  then show "udp_send_message net U (data, msglen, msgid) = Inr (-1, U)" by (simp add: udp_send_message_def)
qed

theorem udp_send_outcome_witness:
  "udp_send_message (\<lambda>_. True) \<lparr>us_fd = 3, us_read = replicate 65527 0, us_write = replicate 65527 0, us_peer = (), us_out = [], us_app = ()\<rparr>
     (replicate 65520 1, 65520, 4) = Inl Out_of_bounds"
  using udp_send_outcome[of "\<lparr>us_fd = 3, us_read = replicate 65527 0, us_write = replicate 65527 0, us_peer = (), us_out = [], us_app = ()\<rparr>"
      65520 "replicate 65520 1" "\<lambda>_. True" 4]
  by (simp add: udp_ok_def message_limits)

section \<open>Receiving\<close>

text \<open>
  The specification of the server: a datagram is a message if it holds exactly the head and the
  body the head announces; it goes to its handler, and the replies go back to its sender.
\<close>

definition datagram :: "byte list \<Rightarrow> frame option" where
  "datagram p =
     (if 8 \<le> length p \<and> h_length (read_head p) + 8 = int (length p) then Some (h_id (read_head p), drop 8 p) else None)"

fun udp_serve ::
  "(('a, 'u) udp_handler, 'u) msg_router \<Rightarrow> int \<Rightarrow> 'a \<Rightarrow> (byte list \<times> 'c) list \<Rightarrow> ('a \<times> ('c \<times> byte list) list) res" where
  "udp_serve router fd a [] = Inr (a, [])"
| "udp_serve router fd a ((p, c) # ps) =
     (case datagram p of
        None \<Rightarrow> udp_serve router fd a ps
      | Some (i, b) \<Rightarrow>
          (case router_call router i of
             None \<Rightarrow> udp_serve router fd a ps
           | Some (h, u) \<Rightarrow>
               res_bind (h a fd b (of_nat (length b)) i u) (\<lambda>(a1, rs).
               res_bind (udp_serve router fd a1 ps) (\<lambda>(a2, os).
                 Inr (a2, map (\<lambda>r. (c, reply_bytes r)) rs @ os)))))"

definition udp_router_ok :: "(('a, 'u) udp_handler, 'u) msg_router \<Rightarrow> bool" where
  "udp_router_ok router \<longleftrightarrow> (\<forall>i h u. router_call router i = Some (h, u) \<longrightarrow>
     (\<forall>a fd d d' len. take (unat len) d = take (unat len) d' \<longrightarrow> h a fd d len i u = h a fd d' len i u) \<and>
     (\<forall>a fd d len a' rs req. h a fd d len i u = Inr (a', rs) \<longrightarrow> req \<in> set rs \<longrightarrow> udp_req_ok req))"

lemma udp_send_all:
  assumes "udp_ok U" and "\<forall>req \<in> set reqs. udp_req_ok req" and "\<forall>p. net p"
  shows "\<exists>U'. run (\<lambda>U req. res_bind (udp_send_message net U req) (\<lambda>(_, U'). Inr U')) U reqs = Inr U' \<and> udp_ok U' \<and>
    us_out U' = us_out U @ map (\<lambda>r. (us_peer U, reply_bytes r)) reqs \<and> us_app U' = us_app U \<and> us_fd U' = us_fd U"
  using assms(1,2)
proof (induction reqs arbitrary: U)
  case (Cons req reqs)
  from udp_send_ok[OF Cons.prems(1), of req net] Cons.prems(2) assms(3) obtain U1 where
    U1: "udp_send_message net U req = Inr (int (length (reply_bytes req)), U1)" "udp_ok U1"
    "us_out U1 = us_out U @ [(us_peer U, reply_bytes req)]" "us_app U1 = us_app U" "us_peer U1 = us_peer U" "us_fd U1 = us_fd U"
    by auto
  from Cons.IH[OF U1(2)] Cons.prems(2) show ?case using U1 by (auto simp: prod_eq_iff)
qed simp

lemma udp_store_ok:
  assumes "udp_ok U" and "int (length p) \<le> MESSAGE_LENGTH_LIMIT"
  shows "udp_store U p c = (int (length p), U\<lparr>us_read := p @ drop (length p) (us_read U), us_peer := c\<rparr>)"
    and "udp_ok (U\<lparr>us_read := p @ drop (length p) (us_read U), us_peer := c\<rparr>)"
  using assms by (simp_all add: udp_store_def udp_ok_def Let_def)

text \<open>Short datagrams leave stale bytes in the head, but a length that is not negative cannot match then.\<close>

lemma udp_head_datagram:
  assumes "int (length p) \<le> MESSAGE_LENGTH_LIMIT"
  shows "udp_bad_head (read_head (p @ r)) (int (length p)) \<longleftrightarrow> datagram p = None"
proof (cases "8 \<le> length p")
  case True
  then show ?thesis using assms by (auto simp: udp_bad_head_def datagram_def read_head_append message_limits)
next
  case False
  then show ?thesis by (auto simp: udp_bad_head_def datagram_def message_limits)
qed

lemma datagram_Some:
  assumes "datagram p = Some (i, b)"
  shows "8 \<le> length p" and "i = h_id (read_head p)" and "b = drop 8 p" and "h_length (read_head p) = int (length b)"
  using assms by (auto simp: datagram_def split: if_splits)

lemma udp_packet_ignored:
  assumes "udp_ok U" and "int (length p) \<le> MESSAGE_LENGTH_LIMIT"
    and "\<And>i b. datagram p = Some (i, b) \<Longrightarrow> router_call router i = None"
  shows "\<exists>U2. (\<forall>as. udp_server_do_read net router U (Packet p c # as) = udp_server_do_read net router U2 as) \<and>
    udp_ok U2 \<and> us_out U2 = us_out U \<and> us_app U2 = us_app U \<and> us_fd U2 = us_fd U"
proof -
  let ?r = "drop (length p) (us_read U)"
  note st = udp_store_ok[OF assms(1,2), of c] and bad = udp_head_datagram[OF assms(2), of ?r]
  show ?thesis
  proof (cases "datagram p")
    case None
    then show ?thesis using st bad by (intro exI[of _ "U\<lparr>us_read := p @ ?r, us_peer := c\<rparr>"]) simp
  next
    case (Some m)
    then obtain i b where m: "datagram p = Some (i, b)" by (cases m) auto
    note d = datagram_Some[OF m]
    show ?thesis
      using st bad m assms(3)[OF m] d read_head_append[OF d(1), of ?r]
      by (intro exI[of _ "U\<lparr>us_read := p @ ?r, us_peer := c\<rparr>"]) (simp add: udp_call_def)
  qed
qed

lemma udp_packet_handled:
  assumes "udp_router_ok router" and "\<forall>p. net p" and "udp_ok U" and "int (length p) \<le> MESSAGE_LENGTH_LIMIT"
    and "datagram p = Some (i, b)" and "router_call router i = Some (h, u)"
    and "h (us_app U) (us_fd U) b (of_nat (length b)) i u = Inr (a1, rs)"
  shows "\<exists>U2. (\<forall>as. udp_server_do_read net router U (Packet p c # as) = udp_server_do_read net router U2 as) \<and>
    udp_ok U2 \<and> us_out U2 = us_out U @ map (\<lambda>r. (c, reply_bytes r)) rs \<and> us_app U2 = a1 \<and> us_fd U2 = us_fd U"
proof -
  let ?r = "drop (length p) (us_read U)" and ?len = "of_nat (length b) :: u32"
  let ?U = "U\<lparr>us_read := p @ ?r, us_peer := c\<rparr>"
  note st = udp_store_ok[OF assms(3,4), of c] and bad = udp_head_datagram[OF assms(4), of ?r] and d = datagram_Some[OF assms(5)]
  have "length b < 2 ^ 32" using assms(4) d(3) by (simp add: message_limits)
  then have ul: "unat ?len = length b" by (simp add: unat_of_nat)
  have "take (unat ?len) b = take (unat ?len) (drop 8 (p @ ?r))" using d(1,3) ul by simp
  then have h: "h (us_app U) (us_fd U) (drop 8 (p @ ?r)) ?len i u = Inr (a1, rs)"
    using assms(1,6,7) unfolding udp_router_ok_def by metis
  have rs: "\<forall>req \<in> set rs. udp_req_ok req" using assms(1,6,7) unfolding udp_router_ok_def by blast
  have "udp_ok (?U\<lparr>us_app := a1\<rparr>)" using st(2) by (simp add: udp_ok_def)
  from udp_send_all[OF this rs assms(2)] obtain U2 where
    U2: "run (\<lambda>U req. res_bind (udp_send_message net U req) (\<lambda>(_, U'). Inr U')) (?U\<lparr>us_app := a1\<rparr>) rs = Inr U2"
      "udp_ok U2" "us_out U2 = us_out U @ map (\<lambda>r. (c, reply_bytes r)) rs" "us_app U2 = a1" "us_fd U2 = us_fd U"
    by auto
  have "udp_call net router ?U i (int (length b)) = Inr U2"
    using assms(6) h U2(1) by (simp add: udp_call_def MESSAGE_HEAD_LEN_def)
  then have "udp_server_do_read net router U (Packet p c # as) = udp_server_do_read net router U2 as" for as
    using st(1) bad assms(5) read_head_append[OF d(1), of ?r] d(2,4) by simp
  with U2 show ?thesis by blast
qed

lemma udp_do_read_spec:
  assumes "udp_router_ok router" and "\<forall>p. net p" and "udp_ok U"
    and "\<forall>(p, c) \<in> set ps. int (length p) \<le> MESSAGE_LENGTH_LIMIT"
    and "udp_serve router (us_fd U) (us_app U) ps = Inr (a', os)"
  shows "\<exists>U'. udp_server_do_read net router U (map (\<lambda>(p, c). Packet p c) ps @ [Rcv_EAGAIN]) = Inr U' \<and>
    udp_ok U' \<and> us_app U' = a' \<and> us_out U' = us_out U @ os \<and> us_fd U' = us_fd U"
  using assms(3-)
proof (induction ps arbitrary: U os)
  case (Cons pc ps)
  obtain p c where pc: "pc = (p, c)" by (cases pc)
  have lp: "int (length p) \<le> MESSAGE_LENGTH_LIMIT" and lps: "\<forall>(p, c) \<in> set ps. int (length p) \<le> MESSAGE_LENGTH_LIMIT"
    using Cons.prems(2) by (auto simp: pc)
  show ?case
  proof (cases "\<exists>i b h u. datagram p = Some (i, b) \<and> router_call router i = Some (h, u)")
    case True
    then obtain i b h u where d: "datagram p = Some (i, b)" "router_call router i = Some (h, u)" by blast
    with Cons.prems(3) obtain a1 rs os' where h: "h (us_app U) (us_fd U) b (of_nat (length b)) i u = Inr (a1, rs)"
      and s: "udp_serve router (us_fd U) a1 ps = Inr (a', os')" and os: "os = map (\<lambda>r. (c, reply_bytes r)) rs @ os'"
      by (auto simp: pc res_bind_Inr_iff)
    from udp_packet_handled[OF assms(1,2) Cons.prems(1) lp d h, of c] obtain U2 where
      U2: "\<forall>as. udp_server_do_read net router U (Packet p c # as) = udp_server_do_read net router U2 as" "udp_ok U2"
        "us_out U2 = us_out U @ map (\<lambda>r. (c, reply_bytes r)) rs" "us_app U2 = a1" "us_fd U2 = us_fd U" by blast
    from Cons.IH[OF U2(2) lps, of os'] s U2 os show ?thesis by (simp add: pc)
  next
    case False
    then have ig: "\<And>i b. datagram p = Some (i, b) \<Longrightarrow> router_call router i = None" by (metis not_None_eq surj_pair)
    from udp_packet_ignored[OF Cons.prems(1) lp, of router net c] ig obtain U2 where
      U2: "\<forall>as. udp_server_do_read net router U (Packet p c # as) = udp_server_do_read net router U2 as" "udp_ok U2"
        "us_out U2 = us_out U" "us_app U2 = us_app U" "us_fd U2 = us_fd U" by blast
    have "udp_serve router (us_fd U) (us_app U) ps = Inr (a', os)"
      using Cons.prems(3) ig by (auto simp: pc split: option.splits prod.splits)
    then show ?thesis using Cons.IH[OF U2(2) lps, of os] U2 by (simp add: pc)
  qed
qed simp

lemma udp_serve_append:
  "udp_serve router fd a (ps @ qs) =
     res_bind (udp_serve router fd a ps) (\<lambda>(a1, os). res_bind (udp_serve router fd a1 qs) (\<lambda>(a2, os'). Inr (a2, os @ os')))"
proof (induction ps arbitrary: a)
  case (Cons pc ps)
  obtain p c where "pc = (p, c)" by (cases pc)
  then show ?case by (simp add: Cons.IH res_bind_def split: option.splits sum.splits prod.splits)
qed (simp add: res_bind_def split: sum.splits)

lemma udp_rounds:
  assumes "udp_router_ok router" and "\<forall>p. net p"
    and l: "io_evs l fd = Some ev" "read_callback ev = Some udp_server_read_callback" "rcb_args ev = Some this" "ready_tasks l = []"
    and "\<forall>ps \<in> set pss. \<forall>(p, c) \<in> set ps. int (length p) \<le> MESSAGE_LENGTH_LIMIT"
    and "\<forall>j < length pss. uw_rcv W (uw_no W + j) = map (\<lambda>(p, c). Packet p c) (pss ! j) @ [Rcv_EAGAIN]"
    and "udp_ok (uw_end W)" and "us_fd (uw_end W) = fd" and "udp_serve router fd (us_app (uw_end W)) (concat pss) = Inr (a', os)"
  shows "\<exists>W'. event_process (udp_server_invoke net router) task (l, W) (replicate (length pss) [(fd, EPOLLIN)]) = Inr (l, W') \<and>
    us_app (uw_end W') = a' \<and> us_out (uw_end W') = us_out (uw_end W) @ os"
  using assms(7-)
proof (induction pss arbitrary: W os)
  case (Cons ps pss)
  let ?U = "uw_end W"
  from Cons.prems(5) obtain a1 os1 os2 where s: "udp_serve router fd (us_app ?U) ps = Inr (a1, os1)"
    "udp_serve router fd a1 (concat pss) = Inr (a', os2)" "os = os1 @ os2" by (auto simp: udp_serve_append res_bind_Inr_iff)
  from udp_do_read_spec[OF assms(1,2) Cons.prems(3), of ps a1 os1] Cons.prems(1,4) s(1) obtain U1 where
    U1: "udp_server_do_read net router ?U (map (\<lambda>(p, c). Packet p c) ps @ [Rcv_EAGAIN]) = Inr U1" "udp_ok U1"
      "us_app U1 = a1" "us_out U1 = us_out ?U @ os1" "us_fd U1 = fd" by auto
  let ?W1 = "W\<lparr>uw_end := U1, uw_no := Suc (uw_no W)\<rparr>"
  have "uw_rcv W (uw_no W) = map (\<lambda>(p, c). Packet p c) ps @ [Rcv_EAGAIN]" using Cons.prems(2)[rule_format, of 0] by simp
  then have d: "dispatch_one (udp_server_invoke net router) (l, W) (fd, EPOLLIN) = Inr (l, ?W1)"
    using l U1(1) by (simp add: dispatch_one_def call_ptr_def in_mask bit_epoll udp_server_invoke_def)
  have r: "event_round (udp_server_invoke net router) task (l, W) [(fd, EPOLLIN)] = Inr (l, ?W1)"
    using d l(4) by (simp add: event_round_def MAXEVENTS_def execute_ready_task_def)
  have "uw_rcv ?W1 (uw_no ?W1 + j) = map (\<lambda>(p, c). Packet p c) (pss ! j) @ [Rcv_EAGAIN]" if "j < length pss" for j
    using Cons.prems(2)[rule_format, of "Suc j"] that by simp
  then obtain W' where "event_process (udp_server_invoke net router) task (l, ?W1) (replicate (length pss) [(fd, EPOLLIN)]) = Inr (l, W')"
    "us_app (uw_end W') = a'" "us_out (uw_end W') = us_out U1 @ os2"
    using Cons.IH[of ?W1 os2] Cons.prems(1) U1 s(2) by auto
  then show ?case using r U1(4) s(3) by (simp add: event_process_def)
qed (auto simp: event_process_def)

text \<open>
  C4: a UDP server in its loop handles each datagram as the specification says. A server that was
  created and whose loop is woken any number of times, each time for any sequence of datagrams that
  fit the buffer, well-formed or not, when \<open>sendto\<close> succeeds, the handlers return and their replies fit
  the send buffer: every round of the loop returns; handlers have seen exactly
  the well-formed messages, whole and in order, malformed and unknown ones had no effect, and
  each reply was sent as one datagram to the address its request came from.
\<close>

theorem udp_server_refines_spec:
  assumes "udp_router_ok router" and "\<forall>p. net p"
    and "udp_server_new (True, True) (Some fd) True this bufs zero a (event_loop_new (\<lambda>_. True)) = Inr (U, l)"
    and "int (length (fst bufs)) = MESSAGE_LENGTH_LIMIT" and "int (length (snd bufs)) = MESSAGE_LENGTH_LIMIT"
    and "\<forall>ps \<in> set pss. \<forall>(p, c) \<in> set ps. int (length p) \<le> MESSAGE_LENGTH_LIMIT"
    and "udp_serve router fd a (concat pss) = Inr (a', os)"
    and "uw_end W = U" and "uw_no W = 0" and "uw_rcv W = (\<lambda>k. map (\<lambda>(p, c). Packet p c) (pss ! k) @ [Rcv_EAGAIN])"
  shows "\<exists>W'. event_process (udp_server_invoke net router) task (l, W) (replicate (length pss) [(fd, EPOLLIN)]) = Inr (l, W') \<and>
    us_app (uw_end W') = a' \<and> us_out (uw_end W') = os"
proof -
  have U: "U = \<lparr>us_fd = fd, us_read = fst bufs, us_write = snd bufs, us_peer = zero, us_out = [], us_app = a\<rparr>"
    and l: "l = add_io_event (event_loop_new (\<lambda>_. True)) fd udp_server_read_callback EPOLLIN (Some this)"
    using assms(3) by (simp_all add: udp_server_new_def)
  have "loop_inv (event_loop_new (\<lambda>_. True))" by (simp add: loop_inv_new)
  note add = add_io_event_spec[OF this, of EPOLLIN fd udp_server_read_callback "Some this", folded l]
  have n: "io_evs (event_loop_new (\<lambda>_. True)) fd = None" "ready_tasks (event_loop_new (\<lambda>_. True)) = []"
    by (simp_all add: event_loop_new_def)
  obtain ev where ev: "io_evs l fd = Some ev" "read_callback ev = Some udp_server_read_callback" "rcb_args ev = Some this"
    using add(2) n(1) by (simp add: rw_mask_def registered_def io_event_new_def Let_def epoll_bits)
  have rt: "ready_tasks l = []" using add(3) n(2) by (simp add: rw_mask_def)
  have W: "udp_ok (uw_end W)" "us_fd (uw_end W) = fd" "us_app (uw_end W) = a" "us_out (uw_end W) = []"
    using assms(4,5,8) U by (simp_all add: udp_ok_def)
  show ?thesis
    using udp_rounds[OF assms(1,2) ev rt assms(6) _ W(1,2), of a' os task] assms(7,9,10) W(3,4) by simp
qed

definition udp_pong :: "(nat, unit) udp_handler" where
  "udp_pong n fd data len msgid u =
     (let b = take (unat len) data in Inr (if length b = 2 then (Suc n, [(b, 2, msgid)]) else (n, [])))"

theorem udp_server_refines_spec_witness:
  "\<exists>U l W'. udp_server_new (True, True) (Some 3) True 1 (replicate 65527 0, replicate 65527 0) 0 0 (event_loop_new (\<lambda>_. True)) = Inr (U, l) \<and>
     event_process (udp_server_invoke (\<lambda>_. True) (udp_server_add_msg_router router_new 4 udp_pong ())) (\<lambda>_ _. Inr)
       (l, \<lparr>uw_end = U, uw_rcv = (\<lambda>k. map (\<lambda>(p, c). Packet p c) ([[([1, 2], 5)], [(frame_bytes (4, [7, 8]), 6)]] ! k) @ [Rcv_EAGAIN]), uw_no = 0\<rparr>)
       [[(3, EPOLLIN)], [(3, EPOLLIN)]] = Inr (l, W') \<and>
     us_app (uw_end W') = (1 :: nat) \<and> us_out (uw_end W') = [(6 :: nat, frame_bytes (4, [7, 8]))]"
proof -
  let ?r = "udp_server_add_msg_router router_new 4 udp_pong ()" and ?b = "(replicate 65527 0, replicate 65527 0) :: byte list \<times> byte list"
  let ?pss = "[[([1, 2], 5)], [(frame_bytes (4, [7, 8]), 6 :: nat)]]"
  obtain U l where n: "udp_server_new (True, True) (Some 3) True 1 ?b (0 :: nat) (0 :: nat) (event_loop_new (\<lambda>_. True)) = Inr (U, l)"
    by (simp add: udp_server_new_def)
  let ?W = "\<lparr>uw_end = U, uw_rcv = (\<lambda>k. map (\<lambda>(p, c). Packet p c) (?pss ! k) @ [Rcv_EAGAIN]), uw_no = 0\<rparr>"
  have r: "router_call ?r i = (if i = 4 then Some (udp_pong, Some ()) else None)" for i
    by (simp add: udp_server_add_msg_router_def router_call_register)
  have ok: "udp_router_ok ?r" unfolding udp_router_ok_def r
    by (auto simp: udp_pong_def Let_def udp_req_ok_def message_limits split: if_splits)
  have d: "datagram [1, 2] = None" "datagram (frame_bytes (4, [7, 8])) = Some (4, [7, 8])"
    by (simp_all add: datagram_def frame_bytes_def in_int_def)
  have s: "udp_serve ?r 3 0 (concat ?pss) = Inr (1, [(6, frame_bytes (4, [7, 8]))])"
    by (simp add: d r udp_pong_def) (simp add: reply_bytes_def frame_bytes_def)
  have len: "\<forall>ps \<in> set ?pss. \<forall>(p, c) \<in> set ps. int (length p) \<le> MESSAGE_LENGTH_LIMIT" by (simp add: message_limits frame_bytes_def)
  from udp_server_refines_spec[OF ok _ n _ _ len s, of "\<lambda>_. True" ?W "\<lambda>_ _. Inr"] n show ?thesis
    by (simp add: message_limits)
qed

text \<open>
  The UDP client tells its handlers the wrong length. For a well-formed message in a fresh
  receive buffer, the handler registered for its id is called with the id in place of the number
  of bytes in the body.
\<close>

theorem udp_client_length_is_id:
  assumes "udp_ok U" and "frame_ok m" and "int (length (frame_bytes m)) \<le> MESSAGE_LENGTH_LIMIT"
    and "router_call router (fst m) = Some (h, u)"
    and "h (us_app U) (us_fd U) (snd m @ drop (length (frame_bytes m)) (us_read U)) (word_of_int (fst m)) (fst m) u = Inr (a', [])"
  shows "\<exists>U'. udp_client_do_read net router U [Packet (frame_bytes m) (), Rcv_EAGAIN] = Inr U' \<and> us_app U' = a'"
proof -
  let ?p = "frame_bytes m" and ?r = "drop (length (frame_bytes m)) (us_read U)"
  have rh: "read_head (?p @ ?r) = \<lparr>h_id = fst m, h_length = int (length (snd m))\<rparr>"
    using assms(2) by (simp add: frame_bytes_def frame_ok_def in_int_def message_limits)
  have nb: "\<not> udp_bad_head (read_head (?p @ ?r)) (int (length ?p))"
    unfolding rh using assms(2) by (simp add: udp_bad_head_def frame_ok_def frame_bytes_def message_limits)
  have dr: "drop 8 (?p @ ?r) = snd m @ ?r" by (simp add: frame_bytes_def)
  show ?thesis
    using udp_store_ok[OF assms(1,3), of "()"] nb assms(4,5) dr
    by (simp add: rh udp_call_def MESSAGE_HEAD_LEN_def)
qed

definition length_seen :: "(nat, unit) udp_handler" where
  "length_seen n fd data len msgid u = Inr (unat len, [])"

theorem udp_client_length_is_id_witness:
  "\<exists>U'. udp_client_do_read (\<lambda>_. True) (udp_client_add_msg_router router_new 5 length_seen ())
      \<lparr>us_fd = 3, us_read = replicate 65527 0, us_write = replicate 65527 0, us_peer = (), us_out = [], us_app = 0\<rparr>
      [Packet (frame_bytes (5, [7, 8])) (), Rcv_EAGAIN] = Inr U' \<and> us_app U' = 5"
proof -
  let ?U = "\<lparr>us_fd = 3, us_read = replicate 65527 0, us_write = replicate 65527 0, us_peer = (), us_out = [], us_app = 0\<rparr> :: (unit, nat) udp"
  have "router_call (udp_client_add_msg_router router_new 5 length_seen ()) 5 = Some (length_seen, Some ())"
    by (simp add: udp_client_add_msg_router_def router_call_register)
  from udp_client_length_is_id[of ?U "(5, [7, 8])" _ length_seen "Some ()" 5 "\<lambda>_. True"] this
  show ?thesis by (simp add: udp_ok_def frame_ok_def frame_bytes_def in_int_def message_limits length_seen_def)
qed

end
