(* ===== verification/Lb_Agent.thy ===== *)
theory Lb_Agent
  imports Route_Lb Udp Tcp_Client Config_File "HOL-Library.Signed_Division"
begin

text \<open>
  The agent of the load balancer: src/main\_server.cc, agent\_udp\_server.cc, dns\_client.cc and
  report\_client.cc of load\_balance\_agent. Three UDP threads answer host requests from three
  \<open>route_lb\<close> objects; a TCP client forwards queued route requests to the DNS service and gets the
  routes back, a second one forwards reports. The globals of the agent are the record \<open>agent\<close>. A
  thread that is started runs its event loop, whose steps are the operations of Udp and Tcp\_Client.
\<close>

section \<open>State\<close>

text \<open>\<open>r_lb[3]\<close> is a global array of pointers, all null until \<open>create_route_lb\<close>.\<close>

record 'u agent =
  ag_world :: "'u lb_world"
  ag_lbs :: "route_lb option list"
  ag_reports :: "'u ReportStatusRequest thread_queue option"
  ag_config :: "str_map option"

definition agent_globals :: "'u agent" where
  "agent_globals = \<lparr>ag_world = \<lparr>lw_store = \<lparr>hs_hosts = Map.empty, hs_next = 0\<rparr>, lw_dns = None\<rparr>,
     ag_lbs = [None, None, None], ag_reports = None, ag_config = None\<rparr>"

definition lb_pointer :: "'u agent \<Rightarrow> int \<Rightarrow> route_lb option res" where
  "lb_pointer A i = (if 0 \<le> i \<and> nat i < length (ag_lbs A) then Inr (ag_lbs A ! nat i) else Inl Out_of_bounds)"

text \<open>\<open>(modid + cmdid) % 3\<close>: the sum may overflow, and the remainder has the sign of the sum.\<close>

definition route_index :: "i32 \<Rightarrow> i32 \<Rightarrow> int res" where
  "route_index modid cmdid =
     res_bind (check Int_overflow (in_int (sint modid + sint cmdid))) (\<lambda>_. Inr ((sint modid + sint cmdid) smod 3))"

section \<open>main\_server.cc\<close>

definition create_route_lb :: "'u agent \<Rightarrow> 'u agent" where
  "create_route_lb A = A\<lparr>ag_lbs := map (\<lambda>i. Some (route_lb_new (int i + 1))) [0..<3]\<rparr>"

definition init_lb_agent :: "'u agent \<Rightarrow> string option \<Rightarrow> 'u agent res" where
  "init_lb_agent A contents =
     res_bind (set_path (ag_config A) contents) (\<lambda>(_, config). Inr (create_route_lb (A\<lparr>ag_config := config\<rparr>)))"

text \<open>\<open>pthread_create\<close> returns an error number, the code compares it with \<open>-1\<close>.\<close>

definition start_thread :: "int \<Rightarrow> unit res" where
  "start_thread ret = check Exit_failure (ret \<noteq> -1)"

definition start_UDP_servers :: "int list \<Rightarrow> unit res" where
  "start_UDP_servers rets = run (\<lambda>_ ret. start_thread ret) () (take 3 rets)"

definition start_report_client :: "int \<Rightarrow> unit res" where
  "start_report_client ret = start_thread ret"

definition start_dns_client :: "int \<Rightarrow> unit res" where
  "start_dns_client ret = start_thread ret"

text \<open>\<open>main\<close>: the agent after each of the steps that other threads can observe.\<close>

definition agent_main :: "string option \<Rightarrow> int list \<times> int \<times> int \<Rightarrow> ('u agent \<times> 'u agent \<times> 'u agent) res" where
  "agent_main contents rets =
     res_bind (init_lb_agent agent_globals contents) (\<lambda>A0.
     res_bind (start_UDP_servers (fst rets)) (\<lambda>_.
     let A1 = A0\<lparr>ag_reports := Some thread_queue_new\<rparr> in
     res_bind (start_report_client (fst (snd rets))) (\<lambda>_.
     let A2 = A1\<lparr>ag_world := (ag_world A1)\<lparr>lw_dns := Some thread_queue_new\<rparr>\<rparr> in
     res_bind (start_dns_client (snd (snd rets))) (\<lambda>_. Inr (A0, A1, A2)))))"

section \<open>agent\_udp\_server.cc\<close>

text \<open>The user data is a pointer to a \<open>route_lb\<close>: null, or an element of \<open>r_lb\<close>.\<close>

definition get_host_cb :: "'u wire \<Rightarrow> lb_status \<times> int \<Rightarrow> ('u agent, nat option) udp_handler" where
  "get_host_cb w garbage A fd data len msgid userdata =
     (let req = fst (GetHostRequest_parse w (take (unat len) data));
          modid = hq_modid req; cmdid = hq_cmdid req;
          resp = (GetHostResponse_clear w)\<lparr>hr_seq := hq_seq req, hr_cmdid := cmdid, hr_modid := modid\<rparr> in
      case userdata of
        Some (Some i) \<Rightarrow>
          res_bind (lb_pointer A (int i)) (\<lambda>p.
          case p of
            None \<Rightarrow> Inl Null_deref
          | Some R \<Rightarrow>
              res_bind (rl_get_host w garbage (ag_world A, R) modid cmdid resp) (\<lambda>(_, resp', W', R').
                let resp_string = GetHostResponse_serialize w resp'
                in Inr (A\<lparr>ag_world := W', ag_lbs := (ag_lbs A)[i := Some R']\<rparr>,
                        [(resp_string, int (length resp_string), msgid)])))
      | _ \<Rightarrow> Inl Null_deref)"

text \<open>The handler is registered without user data, which is then the null pointer.\<close>

definition agent_router :: "'u wire \<Rightarrow> lb_status \<times> int \<Rightarrow> (('u agent, nat option) udp_handler, nat option) msg_router" where
  "agent_router w garbage = udp_server_add_msg_router router_new ID_GetHostRequest (get_host_cb w garbage) None"

text \<open>
  \<open>*index\<close> is read from a variable of the loop in \<open>start_UDP_servers\<close> that may be gone or changed by
  then: the value found is an argument.
\<close>

definition agent_server_main ::
  "'u wire \<Rightarrow> lb_status \<times> int \<Rightarrow> int \<Rightarrow> bool \<times> bool \<Rightarrow> int option \<Rightarrow> bool \<Rightarrow> nat \<Rightarrow> byte list \<times> byte list \<Rightarrow> 'c \<Rightarrow> 'u agent \<Rightarrow> (nat \<Rightarrow> bool) \<Rightarrow>
   (16 word \<times> ('c, 'u agent) udp \<times> event_loop \<times> (('u agent, nat option) udp_handler, nat option) msg_router) res" where
  "agent_server_main w garbage index signals sock bound this buffers zero_addr A ans =
     res_bind (check Int_overflow (in_int (index + 8888))) (\<lambda>_.
     res_bind (udp_server_new signals sock bound this buffers zero_addr A (event_loop_new ans)) (\<lambda>(U, loop).
       Inr (word_of_int (index + 8888), U, loop, agent_router w garbage)))"

section \<open>dns\_client.cc and report\_client.cc\<close>

definition new_dns_request_cb :: "'u wire \<Rightarrow> 'u agent \<times> ('a, 'v) tcp_client \<Rightarrow> ('u agent \<times> ('a, 'v) tcp_client) res" where
  "new_dns_request_cb w s =
     (let (A, K) = s in
      case lw_dns (ag_world A) of
        None \<Rightarrow> Inl Null_deref
      | Some q \<Rightarrow>
          (let (msgs, q') = tq_recv q [] in
           res_bind (client_send_all K
               (map (\<lambda>msg. let s = GetRouteRequest_serialize w msg in (s, int (length s), ID_GetRouteRequest)) msgs)) (\<lambda>K'.
             Inr (A\<lparr>ag_world := (ag_world A)\<lparr>lw_dns := Some q'\<rparr>\<rparr>, K'))))"

definition new_report_request_cb :: "'u wire \<Rightarrow> 'u agent \<times> ('a, 'v) tcp_client \<Rightarrow> ('u agent \<times> ('a, 'v) tcp_client) res" where
  "new_report_request_cb w s =
     (let (A, K) = s in
      case ag_reports A of
        None \<Rightarrow> Inl Null_deref
      | Some q \<Rightarrow>
          (let (msgs, q') = tq_recv q [] in
           res_bind (client_send_all K
               (map (\<lambda>msg. let s = ReportStatusRequest_serialize w msg in (s, int (length s), ID_ReportStatusRequest)) msgs)) (\<lambda>K'.
             Inr (A\<lparr>ag_reports := Some q'\<rparr>, K'))))"

text \<open>\<open>ParseFromArray(data, msgid)\<close>: the id is taken for the number of bytes.\<close>

definition deal_recv_route :: "'u wire \<Rightarrow> ('u agent, unit) client_handler" where
  "deal_recv_route w A fd data len msgid userdata =
     res_bind (check Out_of_bounds (0 \<le> msgid \<and> msgid \<le> int (length data))) (\<lambda>_.
     let resp = fst (GetRouteResponse_parse w (take (nat msgid) data));
         modid = rr_modid resp; cmdid = rr_cmdid resp in
     res_bind (route_index modid cmdid) (\<lambda>index.
     res_bind (lb_pointer A index) (\<lambda>p.
     case p of
       None \<Rightarrow> Inl Null_deref
     | Some R \<Rightarrow>
         res_bind (rl_update_host (ag_world A, R) modid cmdid resp) (\<lambda>(W', R').
           Inr (A\<lparr>ag_world := W', ag_lbs := (ag_lbs A)[nat index := Some R']\<rparr>, [])))))"

text \<open>
  The threads: read the address from the configuration, connect, and have the loop wait for the
  queue. What \<open>socket\<close> and \<open>connect\<close> answer is an argument, as in Tcp\_Client.
\<close>

definition queue_client ::
  "string \<Rightarrow> io_callback \<Rightarrow> fd \<Rightarrow> nat \<Rightarrow> (nat \<Rightarrow> byte) \<times> (nat \<Rightarrow> byte) \<Rightarrow> (nat \<Rightarrow> bool) \<Rightarrow> (int option \<times> connect_answer) list \<Rightarrow>
   'u agent \<Rightarrow> (string \<times> 16 word \<times> ('u agent, unit) tcp_client) res" where
  "queue_client sec cb evfd this buffers ans net A =
     res_bind (instance_of (ag_config A)) (\<lambda>config.
     let ip = get_string config sec ''ip'' ''''; port = ucast (get_number config sec ''port'' 0) in
     res_bind (tcp_client_new this buffers A (event_loop_new ans) net) (\<lambda>K.
       Inr (ip, port, K\<lparr>k_loop := the (set_callback (Some (k_loop K)) evfd cb (Some this))\<rparr>)))"

definition dns_client_thread ::
  "'u wire \<Rightarrow> fd \<Rightarrow> nat \<Rightarrow> (nat \<Rightarrow> byte) \<times> (nat \<Rightarrow> byte) \<Rightarrow> (nat \<Rightarrow> bool) \<Rightarrow> (int option \<times> connect_answer) list \<Rightarrow>
   'u agent \<Rightarrow> (string \<times> 16 word \<times> ('u agent, unit) tcp_client) res" where
  "dns_client_thread w evfd this buffers ans net A =
     res_bind (queue_client ''dnsserver'' new_dns_request evfd this buffers ans net A) (\<lambda>(ip, port, K).
       Inr (ip, port, client_add_msg_router K ID_GetHostResponse (deal_recv_route w) ()))"

definition report_client_thread ::
  "fd \<Rightarrow> nat \<Rightarrow> (nat \<Rightarrow> byte) \<times> (nat \<Rightarrow> byte) \<Rightarrow> (nat \<Rightarrow> bool) \<Rightarrow> (int option \<times> connect_answer) list \<Rightarrow>
   'u agent \<Rightarrow> (string \<times> 16 word \<times> ('u agent, unit) tcp_client) res" where
  "report_client_thread evfd this buffers ans net A =
     queue_client ''reporter'' new_report_request evfd this buffers ans net A"

section \<open>Forwarding requests\<close>

lemma reply_bytes_whole: "reply_bytes (s, int (length s), i) = frame_bytes (i, s)"
  by (simp add: reply_bytes_def frame_bytes_def)

lemma dns_requests_sent:
  assumes "out_ok (k_obuf K)" and "k_connected K" and "lw_dns (ag_world A) = Some q"
    and "int (length (concat (map (\<lambda>r. frame_bytes (ID_GetRouteRequest, GetRouteRequest_serialize w r)) (tq_queue q)))) \<le> room (k_obuf K)"
  shows "\<exists>A' K' q'. new_dns_request_cb w (A, K) = Inr (A', K') \<and> lw_dns (ag_world A') = Some q' \<and> tq_queue q' = [] \<and>
    out_ok (k_obuf K') \<and> same_input K K' \<and>
    bytes (k_obuf K') = bytes (k_obuf K) @
      concat (map (\<lambda>r. frame_bytes (ID_GetRouteRequest, GetRouteRequest_serialize w r)) (tq_queue q))"
proof -
  let ?reqs = "map (\<lambda>r. (GetRouteRequest_serialize w r, int (length (GetRouteRequest_serialize w r)), ID_GetRouteRequest)) (tq_queue q)"
  have m: "map reply_bytes ?reqs = map (\<lambda>r. frame_bytes (ID_GetRouteRequest, GetRouteRequest_serialize w r)) (tq_queue q)"
    by (simp add: reply_bytes_whole)
  have "\<forall>req \<in> set ?reqs. client_req_ok req" by (auto simp: client_req_ok_def)
  from client_send_all_out[OF assms(1,2) this] assms(4) obtain K' where
    "client_send_all K ?reqs = Inr K'" "out_ok (k_obuf K')" "same_input K K'" "bytes (k_obuf K') = bytes (k_obuf K) @
      concat (map (\<lambda>r. frame_bytes (ID_GetRouteRequest, GetRouteRequest_serialize w r)) (tq_queue q))"
    unfolding m by blast
  then show ?thesis using assms(3) by (simp add: new_dns_request_cb_def tq_recv_def Let_def)
qed

lemma reports_sent:
  assumes "out_ok (k_obuf K)" and "k_connected K" and "ag_reports A = Some q"
    and "int (length (concat (map (\<lambda>r. frame_bytes (ID_ReportStatusRequest, ReportStatusRequest_serialize w r)) (tq_queue q)))) \<le> room (k_obuf K)"
  shows "\<exists>A' K' q'. new_report_request_cb w (A, K) = Inr (A', K') \<and> ag_reports A' = Some q' \<and> tq_queue q' = [] \<and>
    out_ok (k_obuf K') \<and> same_input K K' \<and>
    bytes (k_obuf K') = bytes (k_obuf K) @
      concat (map (\<lambda>r. frame_bytes (ID_ReportStatusRequest, ReportStatusRequest_serialize w r)) (tq_queue q))"
proof -
  let ?reqs = "map (\<lambda>r. (ReportStatusRequest_serialize w r, int (length (ReportStatusRequest_serialize w r)), ID_ReportStatusRequest)) (tq_queue q)"
  have m: "map reply_bytes ?reqs = map (\<lambda>r. frame_bytes (ID_ReportStatusRequest, ReportStatusRequest_serialize w r)) (tq_queue q)"
    by (simp add: reply_bytes_whole)
  have "\<forall>req \<in> set ?reqs. client_req_ok req" by (auto simp: client_req_ok_def)
  from client_send_all_out[OF assms(1,2) this] assms(4) obtain K' where
    "client_send_all K ?reqs = Inr K'" "out_ok (k_obuf K')" "same_input K K'" "bytes (k_obuf K') = bytes (k_obuf K) @
      concat (map (\<lambda>r. frame_bytes (ID_ReportStatusRequest, ReportStatusRequest_serialize w r)) (tq_queue q))"
    unfolding m by blast
  then show ?thesis using assms(3) by (simp add: new_report_request_cb_def tq_recv_def Let_def)
qed

definition small_agent :: "'u GetRouteRequest list \<Rightarrow> 'u agent" where
  "small_agent reqs = create_route_lb (agent_globals\<lparr>ag_world := \<lparr>lw_store = \<lparr>hs_hosts = Map.empty, hs_next = 0\<rparr>,
     lw_dns = Some (foldl tq_send thread_queue_new reqs)\<rparr>\<rparr>)"

section \<open>What reaches the balancers\<close>

lemma dns_client_router:
  assumes "dns_client_thread w evfd this buffers ans ((Some fd, Connect_EINPROGRESS) # net) A = Inr (ip, port, K)"
  shows "k_router K = snd (register_msg_router router_new ID_GetHostResponse (deal_recv_route w) ())"
  using assms
  by (auto simp: dns_client_thread_def queue_client_def res_bind_Inr_iff Let_def tcp_client_new_def do_connect_def
      client_add_msg_router_def)

lemma serve_unregistered:
  "\<forall>m \<in> set ms. router_call router (fst m) = None \<Longrightarrow> client_serve router fd a ms = Inr (a, [])"
  by (induction ms) auto

lemma responses_dropped:
  assumes n: "router_call (k_router K) ID_GetRouteResponse = None"
    and "client_ok K" and "k_connected K" and "b_head (k_ibuf K) = 0" and "bytes (k_ibuf K) = []" and "bodies \<noteq> []"
    and "\<forall>b \<in> set bodies. int (length b) \<le> MESSAGE_LENGTH_LIMIT"
    and "input = concat (map (\<lambda>b. frame_bytes (ID_GetRouteResponse, b)) bodies)" and "int (length input) \<le> room (k_ibuf K)"
    and "length bodies < fuel"
  shows "\<exists>K'. client_do_read fuel K (Some (length input), [Rd input]) = Inr (0, K') \<and>
    k_app K' = k_app K \<and> bytes (k_ibuf K') = [] \<and> bytes (k_obuf K') = bytes (k_obuf K)"
proof -
  let ?ms = "map (Pair ID_GetRouteResponse) bodies"
  have ne: "input \<noteq> []" using assms(6,8) by (cases bodies) (auto simp: frame_bytes_def)
  have sv: "client_serve (k_router K) (k_fd K) (k_app K) ?ms = Inr (k_app K, [])" using n by (intro serve_unregistered) auto
  have ms: "\<forall>m \<in> set ?ms. client_handler_ok (k_router K) (fst m)" "\<forall>m \<in> set ?ms. frame_ok m"
      "bytes (k_ibuf K) @ input = concat (map frame_bytes ?ms)"
    using n assms(5,7,8) by (auto simp: client_handler_ok_def frame_ok_def id_defs in_int_def comp_def)
  have "0 \<le> room (k_obuf K)" using assms(2) by (auto simp: client_ok_def buf_ok_def room_def)
  then have "int (length (concat (map reply_bytes []))) \<le> room (k_obuf K)" by simp
  moreover have "length ?ms < fuel" using assms(10) by simp
  ultimately show ?thesis using client_do_read_all[OF ms(1) assms(2-4) ms(2,3) ne assms(9) sv] by auto
qed

section \<open>Host requests\<close>

text \<open>
  \<open>main\<close> starts the UDP threads before it creates the queues: a thread can find the agent without
  them, and only the last state has both.
\<close>

lemma agent_main_states:
  assumes "agent_main contents rets = Inr (A0, A1, A2)"
  shows "lw_dns (ag_world A0) = None \<and> lw_dns (ag_world A1) = None \<and> lw_dns (ag_world A2) \<noteq> None \<and>
    ag_reports A2 \<noteq> None \<and> length (ag_lbs A2) = 3 \<and> (\<forall>p \<in> set (ag_lbs A2). p \<noteq> None) \<and> ag_config A2 \<noteq> None"
  using assms
  by (auto simp: agent_main_def init_lb_agent_def set_path_def create_route_lb_def agent_globals_def res_bind_Inr_iff Let_def)

lemma agent_router_call:
  "router_call (agent_router w g) i = (if i = ID_GetHostRequest then Some (get_host_cb w g, Some None) else None)"
  by (simp add: agent_router_def udp_server_add_msg_router_def router_call_register)

text \<open>
  C40: a host request ends the agent. The UDP threads register their handler without the pointer to
  the balancers it expects: a well-formed datagram with the id of a host request, whatever its
  body and whatever follows it, makes the thread dereference the null pointer.
\<close>

theorem host_request_ends_agent:
  assumes "udp_ok U" and "frame_ok (ID_GetHostRequest, b)"
    and "int (length (frame_bytes (ID_GetHostRequest, b))) \<le> MESSAGE_LENGTH_LIMIT"
  shows "udp_server_do_read net (agent_router w g) U (Packet (frame_bytes (ID_GetHostRequest, b)) c # rest) = Inl Null_deref"
proof -
  let ?p = "frame_bytes (ID_GetHostRequest, b)"
  have rh: "read_head (?p @ xs) = \<lparr>h_id = ID_GetHostRequest, h_length = int (length b)\<rparr>" for xs
    using assms(2) by (simp add: frame_bytes_def frame_ok_def in_int_def message_limits)
  have nb: "\<not> udp_bad_head \<lparr>h_id = ID_GetHostRequest, h_length = int (length b)\<rparr> (int (length ?p))"
    using assms(2) by (simp add: udp_bad_head_def frame_ok_def frame_bytes_def message_limits)
  show ?thesis
    using udp_store_ok(1)[OF assms(1,3), of c] nb
    by (simp add: rh udp_call_def agent_router_call get_host_cb_def Let_def)
qed

theorem host_request_ends_agent_witness:
  "udp_server_do_read (\<lambda>_. True) (agent_router pb_wire (NEW, 0))
     \<lparr>us_fd = 3, us_read = replicate 65527 0, us_write = replicate 65527 0, us_peer = (), us_out = [],
      us_app = small_agent ([] :: byte list GetRouteRequest list)\<rparr>
     [Packet (frame_bytes (ID_GetHostRequest, [16, 1, 24, 2])) (), Rcv_EAGAIN] = Inl Null_deref"
  by (rule host_request_ends_agent) (simp_all add: udp_ok_def frame_ok_def in_int_def id_defs frame_bytes_def message_limits)

text \<open>
  With a valid pointer the handler would answer, under the id of the request. Before \<open>main\<close> has
  created the queue to the DNS client, the first request for a route ends the agent as well.
\<close>

lemma get_host_cb_answers:
  assumes "get_host_cb w g A fd data len msgid u = Inr (A', reqs)"
  shows "\<exists>resp. reqs = [(GetHostResponse_serialize w resp, int (length (GetHostResponse_serialize w resp)), msgid)]"
  using assms by (auto simp: get_host_cb_def Let_def res_bind_Inr_iff split: option.splits)

lemma request_before_queue:
  assumes "lw_dns (ag_world A) = None" and "i < length (ag_lbs A)" and "ag_lbs A ! i = Some R" and "rl_map R = Map.empty"
  shows "get_host_cb w g A fd data len msgid (Some (Some i)) = Inl Null_deref"
  using assms by (simp add: get_host_cb_def lb_pointer_def rl_get_host_def pull_def Let_def)

text \<open>The index of a route is one of the array exactly when the sum is not negative, or a multiple of 3.\<close>

lemma route_index_in_array:
  assumes "route_index modid cmdid = Inr i"
  shows "0 \<le> i \<and> i < 3 \<longleftrightarrow> 0 \<le> sint modid + sint cmdid \<or> 3 dvd sint modid + sint cmdid"
proof -
  let ?s = "sint modid + sint cmdid"
  have i: "i = ?s smod 3" using assms by (auto simp: route_index_def res_bind_Inr_iff)
  show ?thesis
  proof (cases "0 \<le> ?s")
    case True
    then show ?thesis using smod_int_compares(1,2)[of ?s 3] i by simp
  next
    case False
    then have "i = - ((- ?s) mod 3)" unfolding i smod_int_alt_def by simp
    then show ?thesis using False by presburger
  qed
qed

section \<open>Requests that come too early\<close>

text \<open>
  While its client is not connected, a woken thread of the agent takes the requests out of its queue
  and drops them: \<open>send_message\<close> refuses, and nothing looks at its result. The balancer of a dropped
  route request waits for the answer for ever, since it asks only once.
\<close>

lemma client_send_all_unconnected:
  assumes "\<not> k_connected K"
  shows "client_send_all K reqs = Inr K"
  using assms by (induction reqs) (auto simp: client_send_all_def client_send_message_def)

lemma requests_lost_before_connect:
  assumes "\<not> k_connected K" and "lw_dns (ag_world A) = Some q" and "ag_reports A = Some q2"
  shows "\<exists>A' q'. new_dns_request_cb w (A, K) = Inr (A', K) \<and> lw_dns (ag_world A') = Some q' \<and> tq_queue q' = []"
    and "\<exists>A' q'. new_report_request_cb w (A, K) = Inr (A', K) \<and> ag_reports A' = Some q' \<and> tq_queue q' = []"
  using assms by (simp_all add: new_dns_request_cb_def new_report_request_cb_def tq_recv_def client_send_all_unconnected)

end
