(* ===== verification/Agent_Threads.thy ===== *)
theory Agent_Threads
  imports Client_Loop Lb_Agent
begin

text \<open>
  The two client threads of the load balance agent in their event loops (dns\_client.cc and
  report\_client.cc): one loop serves the TCP client and the descriptor of the queue through which the
  other threads of the agent hand over requests. The callback of the queue sends on the
  client, and so changes an entry of the table that is not its own: the loop's contract is
  \<open>loop_dispatch\<close> here, not the stronger \<open>loop_callbacks\<close> of a client alone.
\<close>

section \<open>Callbacks\<close>

definition queue_cb :: "'u wire \<Rightarrow> io_callback \<Rightarrow> 'u agent \<times> ('a, 'v) tcp_client \<Rightarrow> ('u agent \<times> ('a, 'v) tcp_client) res" where
  "queue_cb w cb = (if cb = new_dns_request then new_dns_request_cb w else new_report_request_cb w)"

text \<open>The agent is the client's \<open>k_app\<close>: the handlers of the client and the callback of the queue share it.\<close>

definition agent_invoke :: "'u wire \<Rightarrow> ('u agent, unit) client_world invoker" where
  "agent_invoke w cb f args s =
     (if cb = new_dns_request \<or> cb = new_report_request then
        (let W = snd s; K = (cw_client W)\<lparr>k_loop := fst s\<rparr> in
         case args of None \<Rightarrow> Inl Null_deref | Some a \<Rightarrow>
         res_bind (check Dangling (a = k_this K)) (\<lambda>_.
         res_bind (queue_cb w cb (k_app K, K)) (\<lambda>(A', K'). Inr (put_client W [] (K'\<lparr>k_app := A'\<rparr>)))))
      else client_invoke cb f args s)"

text \<open>The requests that wait in the queue of a thread, as messages.\<close>

definition queued_frames :: "'u wire \<Rightarrow> io_callback \<Rightarrow> 'u agent \<Rightarrow> byte list list option" where
  "queued_frames w cb A = (if cb = new_dns_request
     then map_option (\<lambda>q. map (\<lambda>r. frame_bytes (ID_GetRouteRequest, GetRouteRequest_serialize w r)) (tq_queue q)) (lw_dns (ag_world A))
     else map_option (\<lambda>q. map (\<lambda>r. frame_bytes (ID_ReportStatusRequest, ReportStatusRequest_serialize w r)) (tq_queue q)) (ag_reports A))"

text \<open>What a wake-up does, whichever queue it is for.\<close>

lemma queue_cb_sends:
  assumes "out_ok (k_obuf K)" and "queue_cb w cb (A, K) = Inr (A', K')"
  shows "client_sends K K'"
  using assms client_send_all_sends[OF assms(1)]
  by (auto simp: queue_cb_def new_dns_request_cb_def new_report_request_cb_def tq_recv_def Let_def
      elim!: res_bindE split: if_splits option.splits)

lemma queue_cb_outcome:
  assumes "out_ok (k_obuf K)" and "queued_frames w cb A = Some fs" and "int (length (concat fs)) \<le> room (k_obuf K)"
  shows "\<exists>A' K'. queue_cb w cb (A, K) = Inr (A', K') \<and> queued_frames w cb A' = Some [] \<and>
    bytes (k_obuf K') = bytes (k_obuf K) @ (if k_connected K then concat fs else [])"
proof (cases "k_connected K")
  case True
  then show ?thesis
    using dns_requests_sent[OF assms(1), of A _ w] reports_sent[OF assms(1), of A _ w] assms(2,3)
    by (fastforce simp: queued_frames_def queue_cb_def split: if_splits)
next
  case False
  then show ?thesis
    using assms(2) by (auto simp: queued_frames_def queue_cb_def new_dns_request_cb_def new_report_request_cb_def tq_recv_def
        Let_def client_send_all_unconnected split: if_splits)
qed

section \<open>The states of a thread\<close>

definition agent_good :: "fd \<Rightarrow> io_callback \<Rightarrow> event_loop \<times> ('u agent, unit) client_world \<Rightarrow> bool" where
  "agent_good evfd cb s \<longleftrightarrow> (cb = new_dns_request \<or> cb = new_report_request) \<and> (let K = (cw_client (snd s))\<lparr>k_loop := fst s\<rparr> in
     client_state K \<and> evfd \<noteq> k_fd K \<and> evfd \<notin> net_fds K \<and> dom (io_evs (fst s)) \<subseteq> {k_fd K, evfd} \<and>
     io_evs (fst s) evfd = Some (registered None cb EPOLLIN (Some (k_this K))))"

lemma agent_good_put:
  assumes g: "agent_good evfd cb (l, W)" and S: "client_state K'" and f: "client_frame ((cw_client W)\<lparr>k_loop := l\<rparr>) K'"
  shows "agent_good evfd cb (put_client W sent K')"
proof -
  let ?K = "(cw_client W)\<lparr>k_loop := l\<rparr>"
  have e: "evfd \<noteq> k_fd K'" "evfd \<notin> net_fds K'" "k_this K' = k_this ?K"
    using g f by (auto simp: agent_good_def client_frame_def Let_def)
  have l: "io_evs l evfd = Some (registered None cb EPOLLIN (Some (k_this ?K)))" "evfd \<noteq> k_fd ?K" "dom (io_evs l) \<subseteq> {k_fd ?K, evfd}"
    and q: "cb = new_dns_request \<or> cb = new_report_request" using g by (simp_all add: agent_good_def Let_def)
  have k: "io_evs (k_loop K') g = (if g = k_fd ?K then None else io_evs l g)" if "g \<noteq> k_fd K'" for g
    using f that by (simp add: client_frame_def)
  have "g = k_fd K' \<or> g = evfd" if "io_evs (k_loop K') g \<noteq> None" for g
    using that k[of g] l(3) by (cases "g = k_fd K'") (auto split: if_splits)
  then have "dom (io_evs (k_loop K')) \<subseteq> {k_fd K', evfd}" by blast
  moreover have "io_evs (k_loop K') evfd = Some (registered None cb EPOLLIN (Some (k_this K')))" using k[of evfd] l(1,2) e by simp
  moreover have "K'\<lparr>k_loop := k_loop K'\<rparr> = K'" by (cases K') simp
  ultimately show ?thesis using S e q by (simp add: agent_good_def put_client_def Let_def net_fds_def)
qed

text \<open>The entries of the table: that of the queue, and those of the client.\<close>

lemma agent_entry:
  assumes g: "agent_good evfd qcb (l, W)" and e: "entry l cb f args"
  shows "args = Some (k_this (cw_client W)) \<and>
    (f = evfd \<and> cb = qcb \<or> f = k_fd (cw_client W) \<and> entry l cb (k_fd (cw_client W)) args)"
proof -
  from e obtain ev where "io_evs l f = Some ev" by (auto simp: entry_def)
  then consider "f = evfd" | "f = k_fd (cw_client W)" using g by (auto simp: agent_good_def Let_def)
  then show ?thesis
  proof cases
    case 1
    then show ?thesis using g e by (auto simp: agent_good_def Let_def entry_def registered_def io_event_new_def)
  next
    case 2
    have "client_state ((cw_client W)\<lparr>k_loop := l\<rparr>)" using g by (simp add: agent_good_def Let_def)
    from client_entry[OF this, of cb args] 2 e show ?thesis by simp
  qed
qed

lemma client_state_app: "client_state (K\<lparr>k_app := a\<rparr>) = client_state K"
  by (simp add: client_state_def client_live_def client_base_def client_armed_def client_waiting_def net_fds_def)

lemma client_frame_app: "client_frame K (K'\<lparr>k_app := a\<rparr>) = client_frame K K'"
  by (simp add: client_frame_def net_fds_def)

lemma sends_keeps_interest:
  assumes "client_sends K K'" and "loop_inv (k_loop K)"
  shows "keeps_interest (k_loop K) (k_loop K') g"
  unfolding keeps_interest_def client_sends_fields(7)[OF assms(1)] armed_for_spec(2)[OF assms(2)]
  by (auto simp: registered_def Let_def bit_or_iff)

text \<open>Each callback of a thread leads from a state of the client to another; that of the queue takes no interest away.\<close>

lemma agent_invoke_state:
  assumes g: "agent_good evfd qcb (l, W)" and e: "entry l cb f args" and i: "agent_invoke w cb f args (l, W) = Inr s'"
  shows "\<exists>sent K'. s' = put_client W sent K' \<and> client_state K' \<and> client_frame ((cw_client W)\<lparr>k_loop := l\<rparr>) K' \<and>
    (f = evfd \<longrightarrow> (\<forall>g. keeps_interest l (k_loop K') g))"
proof -
  let ?K = "(cw_client W)\<lparr>k_loop := l\<rparr>"
  have S: "client_state ?K" and q: "qcb = new_dns_request \<or> qcb = new_report_request" and d: "evfd \<noteq> k_fd ?K"
    using g by (simp_all add: agent_good_def Let_def)
  have B: "loop_inv l" "out_ok (k_obuf ?K)" using S by (auto simp: client_state_def client_live_def client_base_def)
  from agent_entry[OF g e] have a: "args = Some (k_this ?K)" and c: "f = evfd \<and> cb = qcb \<or> f = k_fd ?K" by auto
  from c show ?thesis
  proof (elim disjE conjE)
    assume "f = evfd" "cb = qcb"
    then obtain A' K1 where r: "queue_cb w cb (k_app ?K, ?K) = Inr (A', K1)" and s': "s' = put_client W [] (K1\<lparr>k_app := A'\<rparr>)"
      using i a q by (auto simp: agent_invoke_def Let_def elim!: res_bindE)
    note sn = queue_cb_sends[OF B(2) r]
    from client_state_sends[OF S sn] sends_keeps_interest[OF sn] B(1) show ?thesis
      using s' by (intro exI[of _ "[]"] exI[of _ "K1\<lparr>k_app := A'\<rparr>"]) (simp add: client_state_app client_frame_app)
  next
    assume f: "f = k_fd ?K"
    have "cb \<noteq> new_dns_request \<and> cb \<noteq> new_report_request" using client_entry[OF S, of cb args] e f by auto
    then have "client_invoke cb f args (l, W) = Inr s'" using i by (simp add: agent_invoke_def)
    from client_invoke_state[OF S _ this] e f d show ?thesis by auto
  qed
qed

interpretation ag: loop_dispatch "agent_invoke w :: ('u agent, unit) client_world invoker" "agent_good evfd qcb" for w evfd qcb
proof
  show "loop_inv (fst s)" if "agent_good evfd qcb s" for s :: "event_loop \<times> ('u agent, unit) client_world"
    using that by (auto simp: agent_good_def Let_def client_state_def client_live_def client_base_def)
  show "agent_good evfd qcb s' \<and> (\<forall>g. g \<noteq> f \<longrightarrow> keeps_interest (fst s) (fst s') g)"
    if h: "agent_good evfd qcb s" "entry (fst s) cb f a" "agent_invoke w cb f a s = Inr s'"
    for s s' :: "event_loop \<times> ('u agent, unit) client_world" and cb f a
  proof -
    obtain l W where s: "s = (l, W)" by (cases s)
    from agent_invoke_state[of evfd qcb l W cb f a w s'] h obtain sent K' where
      K': "s' = put_client W sent K'" "client_state K'" "client_frame ((cw_client W)\<lparr>k_loop := l\<rparr>) K'"
        "f = evfd \<longrightarrow> (\<forall>g. keeps_interest l (k_loop K') g)" unfolding s fst_conv by blast
    have good: "agent_good evfd qcb s'" unfolding K'(1) using agent_good_put[OF h(1)[unfolded s] K'(2,3)] .
    have "keeps_interest l (k_loop K') g" if "g \<noteq> f" for g
    proof (cases "f = evfd \<or> io_evs l g = None")
      case False
      then have "g = evfd" using agent_entry[OF h(1)[unfolded s] h(2)[unfolded s fst_conv]] h(1) that
        by (auto simp: s agent_good_def Let_def)
      then show ?thesis using good h(1) K'(1,3) by (auto simp: s agent_good_def Let_def keeps_interest_def put_client_def client_frame_def)
    qed (use K'(4) in \<open>auto simp: keeps_interest_def\<close>)
    then show ?thesis using good by (simp add: s K'(1) put_client_def)
  qed
qed

section \<open>Runs\<close>

text \<open>
  Batches of events that the kernel may report, in any order, and in between anything that the
  other threads do to the agent's balancers and queues.
\<close>

inductive agent_run :: "'u wire \<Rightarrow> event_loop \<times> ('u agent, unit) client_world \<Rightarrow> event_loop \<times> ('u agent, unit) client_world \<Rightarrow> bool"
  for w s where
  start: "agent_run w s s"
| batch: "agent_run w s t \<Longrightarrow> distinct (map fst evs) \<Longrightarrow> \<forall>fe \<in> set evs. reported (fst t) fe \<Longrightarrow>
    run (dispatch_one (agent_invoke w)) t evs = Inr t' \<Longrightarrow> agent_run w s t'"
| others: "agent_run w s (l, W) \<Longrightarrow> agent_run w s (l, W\<lparr>cw_client := (cw_client W)\<lparr>k_app := A\<rparr>\<rparr>)"

lemma agent_run_good: "agent_run w s t \<Longrightarrow> agent_good evfd qcb s \<Longrightarrow> agent_good evfd qcb t"
proof (induction rule: agent_run.induct)
  case (batch t evs t')
  from ag.batch_safe[OF batch.IH[OF batch.prems] batch.hyps(2,3), of w] batch.hyps(4) show ?case by auto
next
  case (others l W A)
  have "client_state ((cw_client W)\<lparr>k_app := A, k_loop := l\<rparr>) = client_state ((cw_client W)\<lparr>k_loop := l\<rparr>)"
    using client_state_app[where K = "(cw_client W)\<lparr>k_loop := l\<rparr>" and a = A] by (cases "cw_client W") simp
  with others show ?case by (simp add: agent_good_def Let_def net_fds_def)
qed

text \<open>A thread that has been started while the connection of its client is under way.\<close>

lemma queue_client_good:
  assumes n: "queue_client sec cb evfd this buffers (\<lambda>_. True) ((Some fd, Connect_EINPROGRESS) # net) A = Inr (ip, port, K)"
    and cb: "cb = new_dns_request \<or> cb = new_report_request"
    and fds: "fd \<noteq> -1" "evfd \<noteq> fd" "\<forall>s c. (Some s, c) \<in> set net \<longrightarrow> s \<noteq> -1 \<and> s \<noteq> evfd"
    and W: "cw_client W = K\<lparr>k_start := st, k_close := cl, k_router := router\<rparr>"
  shows "agent_good evfd cb (k_loop K, W)"
proof -
  from n obtain K1 where new: "tcp_client_new this buffers A (event_loop_new (\<lambda>_. True)) ((Some fd, Connect_EINPROGRESS) # net) = Inr K1"
    and K: "K = K1\<lparr>k_loop := add_io_event (k_loop K1) evfd cb EPOLLIN (Some this)\<rparr>"
    by (auto simp: queue_client_def set_callback_def Let_def elim!: res_bindE)
  have F: "k_fd K1 = fd" "k_net K1 = net" "k_this K1 = this" using new by (auto simp: tcp_client_new_def do_connect_def)
  have "\<forall>s c. (Some s, c) \<in> set net \<longrightarrow> s \<noteq> -1" using fds(3) by blast
  from client_new_good[OF new fds(1) this, where W = "W\<lparr>cw_client := K1\<lparr>k_start := st, k_close := cl, k_router := router\<rparr>\<rparr>"]
  have S: "client_state (K1\<lparr>k_start := st, k_close := cl, k_router := router\<rparr>)" and d: "dom (io_evs (k_loop K1)) \<subseteq> {fd}"
    by (auto simp: client_good_def F)
  have L: "loop_inv (k_loop K1)" using S by (auto simp: client_state_def client_live_def client_base_def)
  have no: "io_evs (k_loop K1) evfd = None" using d fds(2) by auto
  note l = add_io_event_spec[OF L, of EPOLLIN evfd cb "Some this"]
  have "client_state (K1\<lparr>k_start := st, k_close := cl, k_router := router, k_loop := k_loop K\<rparr>)"
    using S l fds(2,3) no F unfolding client_state_def client_live_def client_base_def client_armed_def client_waiting_def
    by (auto simp: K rw_mask_def net_fds_def)
  moreover have "dom (io_evs (k_loop K)) \<subseteq> {fd, evfd}" using d l(2) by (auto simp: K rw_mask_def)
  moreover have "io_evs (k_loop K) evfd = Some (registered None cb EPOLLIN (Some this))" using l(2) no by (simp add: K rw_mask_def)
  ultimately show ?thesis using cb fds F by (auto simp: agent_good_def Let_def W K net_fds_def)
qed

text \<open>
  C11: the client threads of the agent in their loops. Start from a thread of dns\_client.cc or
  report\_client.cc whose connection is under way, with any contents of the members the constructor
  does not set, and let the kernel report any batches of events it can, with any answers of the sockets, while
  other threads change balancers and queues between the batches. As long as no callback fails:
  every batch is dispatched without a null pointer being called, and can fail only in a
  callback; the queue's descriptor is listened to at all times, so that no wake-up is missed; each
  entry of the table belongs to the queue or to the client, in the state its callback
  is made for, and points to the client; and a wake-up takes every request off the
  queue and, if the output buffer has room for them, appends them to it, in order, when the client is
  connected; when it is not, the requests are lost.
\<close>

theorem agent_client_threads:
  assumes "queue_client sec qcb evfd this buffers (\<lambda>_. True) ((Some fd, Connect_EINPROGRESS) # net) A = Inr (ip, port, K0)"
    and "qcb = new_dns_request \<or> qcb = new_report_request"
    and "fd \<noteq> -1" and "evfd \<noteq> fd" and "\<forall>s c. (Some s, c) \<in> set net \<longrightarrow> s \<noteq> -1 \<and> s \<noteq> evfd"
    and "cw_client W0 = K0\<lparr>k_start := st, k_close := cl, k_router := router\<rparr>"
    and "agent_run w (k_loop K0, W0) (l, W)"
  shows "(\<forall>evs. distinct (map fst evs) \<and> (\<forall>fe \<in> set evs. reported l fe) \<longrightarrow>
      (\<exists>t. run (dispatch_one (agent_invoke w)) (l, W) evs = Inr t) \<or>
      (\<exists>cb f args t e. entry (fst t) cb f args \<and> agent_invoke w cb f args t = Inl e \<and> run (dispatch_one (agent_invoke w)) (l, W) evs = Inl e)) \<and>
    reported l (evfd, EPOLLIN) \<and>
    (\<forall>cb f args. entry l cb f args \<longrightarrow> args = Some (k_this (cw_client W)) \<and>
       (cb = qcb \<and> f = evfd \<or> f = k_fd (cw_client W) \<and>
        (cb = client_read_callback \<and> k_connected (cw_client W) \<or>
         cb = client_write_callback \<and> k_connected (cw_client W) \<and> b_length (k_obuf (cw_client W)) \<noteq> 0 \<or>
         cb = connection_delay \<and> \<not> k_connected (cw_client W)))) \<and>
    (\<forall>fs. queued_frames w qcb (k_app (cw_client W)) = Some fs \<and> int (length (concat fs)) \<le> room (k_obuf (cw_client W)) \<longrightarrow>
      (\<exists>t. dispatch_one (agent_invoke w) (l, W) (evfd, EPOLLIN) = Inr t \<and>
        queued_frames w qcb (k_app (cw_client (snd t))) = Some [] \<and>
        bytes (k_obuf (cw_client (snd t))) =
          bytes (k_obuf (cw_client W)) @ (if k_connected (cw_client W) then concat fs else [])))"
proof -
  let ?K = "(cw_client W)\<lparr>k_loop := l\<rparr>"
  have g: "agent_good evfd qcb (l, W)" using agent_run_good[OF assms(7) queue_client_good[OF assms(1-6)]] .
  then have S: "client_state ?K" and e: "io_evs l evfd = Some (registered None qcb EPOLLIN (Some (k_this ?K)))"
    by (simp_all add: agent_good_def Let_def)
  have L: "loop_inv l" and o: "out_ok (k_obuf ?K)" using S by (auto simp: client_state_def client_live_def client_base_def)
  have "reported l (evfd, EPOLLIN)" unfolding reported_iff[OF L] using e by (auto simp: registered_def io_event_new_def Let_def)
  moreover have "(\<exists>t. run (dispatch_one (agent_invoke w)) (l, W) evs = Inr t) \<or>
      (\<exists>cb f args t e. entry (fst t) cb f args \<and> agent_invoke w cb f args t = Inl e \<and> run (dispatch_one (agent_invoke w)) (l, W) evs = Inl e)"
    if "distinct (map fst evs) \<and> (\<forall>fe \<in> set evs. reported l fe)" for evs
    using ag.batch_safe[OF g, of evs w] that by auto
  moreover have "\<exists>t. dispatch_one (agent_invoke w) (l, W) (evfd, EPOLLIN) = Inr t \<and>
        queued_frames w qcb (k_app (cw_client (snd t))) = Some [] \<and>
        bytes (k_obuf (cw_client (snd t))) = bytes (k_obuf (cw_client W)) @ (if k_connected (cw_client W) then concat fs else [])"
    if "queued_frames w qcb (k_app (cw_client W)) = Some fs" "int (length (concat fs)) \<le> room (k_obuf (cw_client W))" for fs
  proof -
    from queue_cb_outcome[OF o, of w qcb "k_app ?K" fs] that obtain A' K' where
      "queue_cb w qcb (k_app ?K, ?K) = Inr (A', K')" "queued_frames w qcb A' = Some []"
      "bytes (k_obuf K') = bytes (k_obuf (cw_client W)) @ (if k_connected (cw_client W) then concat fs else [])" by auto
    then show ?thesis using e assms(2)
      by (auto simp: dispatch_one_def call_ptr_def in_mask out_mask bit_epoll registered_def io_event_new_def Let_def agent_invoke_def put_client_def)
  qed
  ultimately show ?thesis using agent_entry[OF g] client_entry[OF S] by fastforce
qed

theorem agent_client_threads_witness:
  "\<exists>ip port K0 W0 l W t r. queue_client ''dnsserver'' new_dns_request 6 3 (\<lambda>_. 0, \<lambda>_. 0) (\<lambda>_. True) [(Some 5, Connect_EINPROGRESS)]
      ((small_agent [r])\<lparr>ag_config := Some Map.empty\<rparr>) = Inr (ip, port, K0) \<and>
    agent_run pb_wire (k_loop K0, W0) (l, W) \<and> k_connected (cw_client W) \<and>
    dispatch_one (agent_invoke pb_wire) (l, W) (6, EPOLLIN) = Inr t \<and>
    bytes (k_obuf (cw_client (snd t))) = frame_bytes (ID_GetRouteRequest, GetRouteRequest_serialize pb_wire r)"
proof -
  let ?r = "\<lparr>unknown = [], rq_modid = 1, rq_cmdid = 2\<rparr> :: byte list GetRouteRequest"
  let ?A = "(small_agent [?r])\<lparr>ag_config := Some Map.empty\<rparr>" and ?new = "event_loop_new (\<lambda>_. True)"
  let ?lq = "add_io_event (add_io_event ?new 5 connection_delay EPOLLOUT (Some 3)) 6 new_dns_request EPOLLIN (Some 3)"
  obtain ip port K0 where n: "queue_client ''dnsserver'' new_dns_request 6 3 (\<lambda>_. 0, \<lambda>_. 0) (\<lambda>_. True) [(Some 5, Connect_EINPROGRESS)] ?A = Inr (ip, port, K0)"
    and K0: "k_loop K0 = ?lq" "k_fd K0 = 5" "k_this K0 = 3" "k_obuf K0 = io_buf_new (\<lambda>_. 0) 4194304" "k_app K0 = ?A"
    by (simp add: queue_client_def instance_of_def tcp_client_new_def do_connect_def set_callback_def Let_def)
  let ?K = "K0\<lparr>k_start := Null, k_close := Null, k_router := router_new\<rparr>"
  let ?init = "\<lparr>cw_client = ?K, cw_fuel = (\<lambda>_. 0), cw_rd = (\<lambda>_. (None, [])), cw_wr = (\<lambda>_. []), cw_error = (\<lambda>_. 0), cw_no = 0, cw_sent = []\<rparr>"
  let ?l = "add_io_event (del_io_event ?lq 5) 5 client_read_callback EPOLLIN (Some 3)"
  let ?W = "?init\<lparr>cw_client := ?K\<lparr>k_connected := True, k_loop := ?l\<rparr>, cw_no := 1\<rparr>"
  have L: "loop_inv ?lq" "io_evs ?lq 5 = Some (registered None connection_delay EPOLLOUT (Some 3))"
    by (simp_all add: add_io_event_spec loop_inv_new rw_mask_def) (simp add: event_loop_new_def)
  have b: "b_length (k_obuf K0) = 0" by (simp add: K0(4))
  have "reported ?lq (5, EPOLLOUT)" unfolding reported_iff[OF L(1)] using L(2) by (auto simp: registered_def io_event_new_def Let_def)
  moreover have "dispatch_one (agent_invoke pb_wire) (k_loop K0, ?init) (5, EPOLLOUT) = Inr (?l, ?W)"
    using L(2) K0(1-3) b by (simp add: dispatch_one_def call_ptr_def in_mask out_mask bit_epoll agent_invoke_def client_invoke_def registered_def io_event_new_def Let_def
        client_connection_delay_def connection_made_def call_slot_def put_client_def epoll_bits)
  ultimately have r: "agent_run pb_wire (k_loop K0, ?init) (?l, ?W)"
    using agent_run.batch[OF agent_run.start, of "[(5, EPOLLOUT)]" "(k_loop K0, ?init)" pb_wire "(?l, ?W)"] K0(1) by simp
  let ?f = "frame_bytes (ID_GetRouteRequest, GetRouteRequest_serialize pb_wire ?r)"
  have q: "queued_frames pb_wire new_dns_request (k_app (cw_client ?W)) = Some [?f]"
    by (simp add: queued_frames_def K0(5) small_agent_def create_route_lb_def tq_send_def thread_queue_new_def)
  have "int (length (concat [?f])) \<le> room (k_obuf (cw_client ?W))"
    using pb.GetRouteRequest_length[of ?r]
    by (simp add: K0(4) frame_bytes_def GetRouteRequest_size_def pb_wire_def varint.simps room_def)
  then have "\<exists>t. dispatch_one (agent_invoke pb_wire) (?l, ?W) (6, EPOLLIN) = Inr t \<and> bytes (k_obuf (cw_client (snd t))) = bytes (k_obuf K0) @ ?f"
    using agent_client_threads[OF n _ _ _ _ _ r, where st = Null and cl = Null and router = router_new] q by fastforce
  then obtain t where t: "dispatch_one (agent_invoke pb_wire) (?l, ?W) (6, EPOLLIN) = Inr t" "bytes (k_obuf (cw_client (snd t))) = ?f"
    by (auto simp: K0(4))
  show ?thesis
    using n r t by (intro exI[of _ ip] exI[of _ port] exI[of _ K0] exI[of _ ?init] exI[of _ ?l] exI[of _ ?W] exI[of _ t] exI[of _ ?r] conjI) simp_all
qed

section \<open>The members that the constructor leaves unset\<close>

text \<open>
  Neither thread sets the client's callbacks for the start and the end of a connection, and the
  constructor does not either: when the loop reports that the connection has been made, the
  first thing the client does is to read an uninitialised pointer to a function.
\<close>

lemma agent_connection_reads_unset:
  assumes n: "queue_client sec cb evfd this buffers (\<lambda>_. True) ((Some fd, Connect_EINPROGRESS) # net) A = Inr (ip, port, K)"
    and "evfd \<noteq> fd" and "cw_client W = K" and "cw_error W (cw_no W) = 0"
  shows "dispatch_one (agent_invoke w) (k_loop K, W) (fd, EPOLLOUT) = Inl Uninit_read"
proof -
  let ?l0 = "add_io_event (event_loop_new (\<lambda>_. True)) fd connection_delay EPOLLOUT (Some this)"
  have K: "k_loop K = add_io_event ?l0 evfd cb EPOLLIN (Some this)" "k_start K = Uninit" "k_this K = this"
    using n by (auto simp: queue_client_def tcp_client_new_def do_connect_def set_callback_def Let_def elim!: res_bindE)
  have "io_evs (k_loop K) fd = Some (registered None connection_delay EPOLLOUT (Some this))"
    using assms(2) by (simp add: K(1) add_io_event_spec loop_inv_new rw_mask_def) (simp add: event_loop_new_def)
  then show ?thesis using assms(3,4) K(2,3)
    by (simp add: dispatch_one_def call_ptr_def in_mask out_mask bit_epoll agent_invoke_def client_invoke_def registered_def io_event_new_def Let_def
        client_connection_delay_def connection_made_def call_slot_def epoll_bits)
qed

section \<open>The messages that a client thread handles\<close>

text \<open>No operation of a client changes its table of handlers.\<close>

lemma client_send_router: "client_send_message K req = Inr (r, K') \<Longrightarrow> k_router K' = k_router K"
  by (auto simp: client_send_message_def Let_def split: prod.splits if_splits elim!: res_bindE)

lemma client_send_all_router: "client_send_all K reqs = Inr K' \<Longrightarrow> k_router K' = k_router K"
proof (induction reqs arbitrary: K)
  case (Cons req reqs)
  then obtain r K1 where "client_send_message K req = Inr (r, K1)" "client_send_all K1 reqs = Inr K'"
    by (auto simp: client_send_all_def res_bind_Inr_iff)
  then show ?case using Cons.IH client_send_router by metis
qed (simp add: client_send_all_def)

lemma call_slot_router: "call_slot cb K = Inr K' \<Longrightarrow> k_router K' = k_router K"
  by (cases cb) (auto simp: call_slot_def elim!: res_bindE dest!: client_send_all_router)

lemma connection_made_router: "connection_made K = Inr K' \<Longrightarrow> k_router K' = k_router K"
  by (auto simp: connection_made_def Let_def elim!: res_bindE dest!: call_slot_router)

lemma do_connect_router: "do_connect K = Inr K' \<Longrightarrow> k_router K' = k_router K"
  by (auto simp: do_connect_def Let_def split: if_splits list.splits option.splits connect_answer.splits dest!: connection_made_router)

lemma clean_conn_router: "client_clean_conn K = Inr K' \<Longrightarrow> k_router K' = k_router K"
  by (auto simp: client_clean_conn_def Let_def split: if_splits elim!: res_bindE dest!: call_slot_router do_connect_router)

lemma client_dispatch_router: "client_dispatch K i n d = Inr K' \<Longrightarrow> k_router K' = k_router K"
  by (auto simp: client_dispatch_def split: option.splits elim!: res_bindE dest!: client_send_all_router)

lemma read_loop_router: "client_read_loop n K = Inr K' \<Longrightarrow> k_router K' = k_router K"
proof (induction n arbitrary: K)
  case (Suc n)
  then show ?case by (fastforce simp: Let_def split: if_splits elim!: res_bindE dest!: client_dispatch_router)
qed simp

lemma do_read_router: "client_do_read n K io = Inr (r, K') \<Longrightarrow> k_router K' = k_router K"
  by (auto simp: client_do_read_def split: option.splits rd.splits if_splits elim!: res_bindE dest!: read_loop_router clean_conn_router)

lemma write_loop_router: "client_write_loop K ws = Inr (sent, K') \<Longrightarrow> k_router K' = k_router K"
proof (induction ws arbitrary: K sent)
  case Nil
  then show ?case by (auto simp: client_write_loop.simps[of K "[]"] split: if_splits)
next
  case (Cons w ws)
  have IH: "k_router K' = k_router K1" if "client_write_loop K1 ws = Inr (t, K')" for K1 t using Cons.IH that .
  show ?case
  proof (cases w)
    case (Wr k)
    then show ?thesis using Cons.prems
      by (auto simp: client_write_loop.simps[of K "Wr k # ws"] Let_def split: if_splits elim!: res_bindE dest!: IH)
  next
    case (Wr_err e)
    then show ?thesis using Cons.prems
      by (cases e) (auto simp: client_write_loop.simps[of K "Wr_err e # ws" for e] split: if_splits elim!: res_bindE dest!: IH clean_conn_router)
  qed
qed

lemma client_invoke_router:
  assumes "client_invoke cb f args s = Inr s'"
  shows "k_router (cw_client (snd s')) = k_router (cw_client (snd s))"
  using assms
  by (auto simp: client_invoke_def client_do_write_def client_connection_delay_def put_client_def Let_def
      split: option.splits io_callback.splits if_splits elim!: res_bindE dest!: do_read_router write_loop_router connection_made_router)

lemma agent_invoke_router:
  assumes "agent_invoke w cb f args s = Inr s'"
  shows "k_router (cw_client (snd s')) = k_router (cw_client (snd s))"
  using assms client_invoke_router[of cb f args s s']
  by (auto simp: agent_invoke_def queue_cb_def new_dns_request_cb_def new_report_request_cb_def put_client_def Let_def tq_recv_def
      split: option.splits if_splits elim!: res_bindE dest!: client_send_all_router)

lemma dispatch_one_result: "dispatch_one invoke s fe = Inr s' \<Longrightarrow> snd s' = snd s \<or> (\<exists>cb f args. invoke cb f args s = Inr s')"
  by (auto simp: dispatch_one_def call_ptr_def split: option.splits if_splits prod.splits)

lemma agent_run_router: "agent_run w s t \<Longrightarrow> k_router (cw_client (snd t)) = k_router (cw_client (snd s))"
proof (induction rule: agent_run.induct)
  case (batch t evs t')
  have "k_router (cw_client (snd b)) = k_router (cw_client (snd a))" if "run (dispatch_one (agent_invoke w)) a evs = Inr b" for a b
    using that
  proof (induction evs arbitrary: a)
    case (Cons fe evs)
    then obtain c where "dispatch_one (agent_invoke w) a fe = Inr c" "run (dispatch_one (agent_invoke w)) c evs = Inr b"
      by (auto simp: res_bind_Inr_iff)
    then show ?case using Cons.IH[of c] dispatch_one_result[of "agent_invoke w" a fe c] agent_invoke_router[of w _ _ _ a c] by auto
  qed simp
  from this[OF batch.hyps(4)] batch.IH show ?case by simp
qed simp_all

text \<open>The DNS client thread: what it starts with.\<close>

lemma dns_thread_start:
  assumes "dns_client_thread w evfd this buffers ans ((Some fd, Connect_EINPROGRESS) # net) A = Inr (ip, port, K)"
  obtains K1 where "queue_client ''dnsserver'' new_dns_request evfd this buffers ans ((Some fd, Connect_EINPROGRESS) # net) A = Inr (ip, port, K1)"
    and "K = K1\<lparr>k_router := k_router K\<rparr>"
    and "\<forall>i. router_call (k_router K) i = (if i = ID_GetHostResponse then Some (deal_recv_route w, Some ()) else None)"
proof -
  from assms obtain K1 where q: "queue_client ''dnsserver'' new_dns_request evfd this buffers ans ((Some fd, Connect_EINPROGRESS) # net) A = Inr (ip, port, K1)"
    and K: "K = client_add_msg_router K1 ID_GetHostResponse (deal_recv_route w) ()"
    by (auto simp: dns_client_thread_def elim!: res_bindE)
  have "K = K1\<lparr>k_router := k_router K\<rparr>" by (cases K1) (simp add: K client_add_msg_router_def)
  moreover have "router_call (k_router K) i = (if i = ID_GetHostResponse then Some (deal_recv_route w, Some ()) else None)" for i
    using dns_client_router[OF assms] by (simp add: router_call_register)
  ultimately show thesis using that[OF q] by blast
qed

text \<open>
  C39: routes do not reach the agent's balancers. Start the thread of dns\_client.cc and let it run as long as
  no callback fails, with any events, answers of the sockets and changes by other threads in between: in
  every state in which its client is connected and has no input pending, whole route responses, of
  whatever contents, that arrive from the DNS service are read and dropped. The read event returns, the input buffer
  is empty again, nothing is sent, and balancers and queues of the agent are as they were, because the thread has
  registered its handler under the id of host responses.
\<close>

theorem routes_are_dropped:
  assumes "dns_client_thread w evfd this buffers (\<lambda>_. True) ((Some fd, Connect_EINPROGRESS) # net) A = Inr (ip, port, K0)"
    and "fd \<noteq> -1" and "evfd \<noteq> fd" and "\<forall>s c. (Some s, c) \<in> set net \<longrightarrow> s \<noteq> -1 \<and> s \<noteq> evfd"
    and "cw_client W0 = K0\<lparr>k_start := st, k_close := cl\<rparr>" and "agent_run w (k_loop K0, W0) (l, W)" and "K = cw_client W"
    and "k_connected K" and "buf_ok (k_ibuf K)" and "b_head (k_ibuf K) = 0" and "bytes (k_ibuf K) = []"
    and "bodies \<noteq> []" and "\<forall>b \<in> set bodies. int (length b) \<le> MESSAGE_LENGTH_LIMIT"
    and "input = concat (map (\<lambda>b. frame_bytes (ID_GetRouteResponse, b)) bodies)" and "int (length input) \<le> room (k_ibuf K)"
    and "cw_rd W (cw_no W) = (Some (length input), [Rd input])" and "length bodies < cw_fuel W (cw_no W)"
  shows "\<exists>l' W'. dispatch_one (agent_invoke w) (l, W) (k_fd K, EPOLLIN) = Inr (l', W') \<and> k_app (cw_client W') = k_app K \<and>
    bytes (k_ibuf (cw_client W')) = [] \<and> bytes (k_obuf (cw_client W')) = bytes (k_obuf K)"
proof -
  let ?K = "K\<lparr>k_loop := l\<rparr>"
  obtain K1 where q: "queue_client ''dnsserver'' new_dns_request evfd this buffers (\<lambda>_. True) ((Some fd, Connect_EINPROGRESS) # net) A = Inr (ip, port, K1)"
    and K0: "K0 = K1\<lparr>k_router := k_router K0\<rparr>"
    and rt: "\<forall>i. router_call (k_router K0) i = (if i = ID_GetHostResponse then Some (deal_recv_route w, Some ()) else None)"
    using dns_thread_start[OF assms(1)] by metis
  have "cw_client W0 = K1\<lparr>k_start := st, k_close := cl, k_router := k_router K0\<rparr>" using assms(5) by (subst (asm) K0) simp
  from queue_client_good[OF q _ assms(2-4) this] have "agent_good evfd new_dns_request (k_loop K0, W0)" by (subst K0) simp
  from agent_run_good[OF assms(6) this] have S: "client_state ?K" by (simp add: agent_good_def Let_def assms(7))
  have B: "out_ok (k_obuf K)" using S by (auto simp: client_state_def client_live_def client_base_def)
  from S assms(8) obtain ev where ev: "io_evs l (k_fd K) = Some ev" "read_callback ev = Some client_read_callback" "rcb_args ev = Some (k_this K)"
    by (auto simp: client_state_def client_live_def client_armed_def)
  have "k_router K = k_router K0" using agent_run_router[OF assms(6)] assms(5,7) by simp
  then have n: "router_call (k_router ?K) ID_GetRouteResponse = None" by (simp add: rt id_defs)
  have c: "client_ok ?K" using B assms(9) by (simp add: client_ok_out)
  from responses_dropped[OF n c _ _ _ assms(12-14) _ assms(17)] assms(8,10,11,15) obtain K' where
    "client_do_read (cw_fuel W (cw_no W)) ?K (Some (length input), [Rd input]) = Inr (0, K')"
    "k_app K' = k_app K" "bytes (k_ibuf K') = []" "bytes (k_obuf K') = bytes (k_obuf K)" by auto
  then show ?thesis using ev assms(16)
    by (simp add: dispatch_one_def call_ptr_def agent_invoke_def client_invoke_def assms(7)[symmetric] put_client_def Let_def epoll_bits)
qed

text \<open>The connection is made, and a route response of two bytes comes in.\<close>

theorem routes_are_dropped_witness:
  "\<exists>ip port K0 W0 l W l' W'. dns_client_thread pb_wire 6 3 (\<lambda>_. 0, \<lambda>_. 0) (\<lambda>_. True) [(Some 5, Connect_EINPROGRESS)]
      ((small_agent ([] :: byte list GetRouteRequest list))\<lparr>ag_config := Some Map.empty\<rparr>) = Inr (ip, port, K0) \<and>
    agent_run pb_wire (k_loop K0, W0) (l, W) \<and> k_connected (cw_client W) \<and>
    cw_rd W (cw_no W) = (Some 10, [Rd (frame_bytes (ID_GetRouteResponse, [8, 1]))]) \<and>
    dispatch_one (agent_invoke pb_wire) (l, W) (5, EPOLLIN) = Inr (l', W') \<and> k_app (cw_client W') = k_app (cw_client W)"
proof -
  let ?A = "(small_agent ([] :: byte list GetRouteRequest list))\<lparr>ag_config := Some Map.empty\<rparr>" and ?new = "event_loop_new (\<lambda>_. True)"
  let ?lq = "add_io_event (add_io_event ?new 5 connection_delay EPOLLOUT (Some 3)) 6 new_dns_request EPOLLIN (Some 3)"
  obtain ip port K0 where n: "dns_client_thread pb_wire 6 3 (\<lambda>_. 0, \<lambda>_. 0) (\<lambda>_. True) [(Some 5, Connect_EINPROGRESS)] ?A = Inr (ip, port, K0)"
    and K0: "k_loop K0 = ?lq" "k_fd K0 = 5" "k_this K0 = 3" "k_obuf K0 = io_buf_new (\<lambda>_. 0) 4194304" "k_ibuf K0 = io_buf_new (\<lambda>_. 0) 4194304"
    by (simp add: dns_client_thread_def queue_client_def instance_of_def tcp_client_new_def do_connect_def set_callback_def client_add_msg_router_def Let_def)
  let ?K = "K0\<lparr>k_start := Null, k_close := Null\<rparr>" and ?m = "frame_bytes (ID_GetRouteResponse, [8, 1])"
  let ?init = "\<lparr>cw_client = ?K, cw_fuel = (\<lambda>_. 2), cw_rd = (\<lambda>_. (Some 10, [Rd ?m])), cw_wr = (\<lambda>_. []), cw_error = (\<lambda>_. 0), cw_no = 0, cw_sent = []\<rparr>"
  let ?l = "add_io_event (del_io_event ?lq 5) 5 client_read_callback EPOLLIN (Some 3)"
  let ?W = "?init\<lparr>cw_client := ?K\<lparr>k_connected := True, k_loop := ?l\<rparr>, cw_no := 1\<rparr>"
  have L: "loop_inv ?lq" "io_evs ?lq 5 = Some (registered None connection_delay EPOLLOUT (Some 3))"
    by (simp_all add: add_io_event_spec loop_inv_new rw_mask_def) (simp add: event_loop_new_def)
  have b: "b_length (k_obuf K0) = 0" by (simp add: K0(4))
  have "reported ?lq (5, EPOLLOUT)" unfolding reported_iff[OF L(1)] using L(2) by (auto simp: registered_def io_event_new_def Let_def)
  moreover have "dispatch_one (agent_invoke pb_wire) (k_loop K0, ?init) (5, EPOLLOUT) = Inr (?l, ?W)"
    using L(2) K0(1-3) b by (simp add: dispatch_one_def call_ptr_def in_mask out_mask bit_epoll agent_invoke_def client_invoke_def registered_def io_event_new_def Let_def
        client_connection_delay_def connection_made_def call_slot_def put_client_def epoll_bits)
  ultimately have r: "agent_run pb_wire (k_loop K0, ?init) (?l, ?W)"
    using agent_run.batch[OF agent_run.start, of "[(5, EPOLLOUT)]" "(k_loop K0, ?init)" pb_wire "(?l, ?W)"] K0(1) by simp
  have len: "length ?m = 10" by (simp add: frame_bytes_def)
  have i: "buf_ok (k_ibuf (cw_client ?W))" "b_head (k_ibuf (cw_client ?W)) = 0" "bytes (k_ibuf (cw_client ?W)) = []" "10 \<le> room (k_ibuf (cw_client ?W))"
    by (simp_all add: K0(5) room_def)
  have fd: "(5 :: int) \<noteq> -1" "(6 :: int) \<noteq> 5" "\<forall>s c. (Some s, c) \<in> set [] \<longrightarrow> s \<noteq> -1 \<and> s \<noteq> (6 :: int)" by simp_all
  have w: "cw_client ?init = K0\<lparr>k_start := Null, k_close := Null\<rparr>" "k_connected (cw_client ?W)"
    "cw_rd ?W (cw_no ?W) = (Some (length ?m), [Rd ?m])" "length [[8, 1] :: byte list] < cw_fuel ?W (cw_no ?W)"
    using len by simp_all
  have m: "[[8, 1] :: byte list] \<noteq> []" "\<forall>b \<in> set [[8, 1] :: byte list]. int (length b) \<le> MESSAGE_LENGTH_LIMIT"
    "?m = concat (map (\<lambda>b. frame_bytes (ID_GetRouteResponse, b)) [[8, 1]])" "int (length ?m) \<le> room (k_ibuf (cw_client ?W))"
    using i(4) len by (simp_all add: message_limits)
  from routes_are_dropped[OF n fd w(1) r refl w(2) i(1-3) m w(3,4)]
  have "\<exists>l' W'. dispatch_one (agent_invoke pb_wire) (?l, ?W) (k_fd (cw_client ?W), EPOLLIN) = Inr (l', W') \<and> k_app (cw_client W') = k_app (cw_client ?W)"
    by blast
  then obtain l' W' where "dispatch_one (agent_invoke pb_wire) (?l, ?W) (5, EPOLLIN) = Inr (l', W')" "k_app (cw_client W') = k_app (cw_client ?W)"
    by (auto simp: K0(2))
  then show ?thesis using n r
    by (intro exI[of _ ip] exI[of _ port] exI[of _ K0] exI[of _ ?init] exI[of _ ?l] exI[of _ ?W] exI[of _ l'] exI[of _ W'] conjI) simp_all
qed

end
