(* ===== verification/Tcp_Server.thy ===== *)
theory Tcp_Server
  imports Tcp_Conn Thread_Pool
begin

text \<open>
  The accepting side of \<open>tcp_server\<close> (reactor/src/tcp_server.cc): construction and \<open>do_accept\<close>,
  which hands accepted descriptors to the workers; and a worker thread
  (reactor/src/thread_pool.cc): its event loop with the connections it serves and the mailbox it
  gets new descriptors from.

  \<open>thread_inv\<close> is the invariant of a worker: every open connection of the thread satisfies
  \<open>conn_inv\<close>, their buffers are disjoint, and the loop listens to exactly these connections and the
  mailbox. The theory interprets \<open>loop_callbacks\<close> on the worker's callbacks, so whole batches of
  events keep the invariant and never reach an unknown descriptor or a null callback.
\<close>

section \<open>The server object\<close>

text \<open>
  \<open>_thread_pool\<close> is not initialised when no thread is configured: \<open>None\<close>. A null pointer, which
  \<open>do_accept\<close> tests for, would be \<open>Some None\<close>.
\<close>

record tcp_server =
  sv_fd :: int
  sv_threads :: "thread_pool option option"

text \<open>
  The constructor, after \<open>socket\<close>, \<open>bind\<close> and \<open>listen\<close> answered; the two numbers come from the
  configuration file as \<open>unsigned int\<close>. A negative array size ends the process.
\<close>

definition tcp_server_new ::
  "int option \<Rightarrow> bool \<Rightarrow> bool \<Rightarrow> u32 \<Rightarrow> u32 \<Rightarrow> (nat \<Rightarrow> nat option) \<Rightarrow> nat \<Rightarrow> 'a env \<Rightarrow> (tcp_server \<times> 'a env) res" where
  "tcp_server_new sock bind_ok listen_ok maxConn threadNum garbage this E =
     (case sock of None \<Rightarrow> Inl Exit_failure | Some sfd \<Rightarrow>
      res_bind (check Exit_failure bind_ok) (\<lambda>_.
      res_bind (check Exit_failure listen_ok) (\<lambda>_.
      let mx = sint maxConn in
      res_bind (check Int_overflow (in_int (mx + 3))) (\<lambda>_.
      res_bind (check Exit_failure (0 \<le> mx + 3)) (\<lambda>_.
      let n = sint threadNum in
      res_bind (if 0 < n then res_bind (thread_pool_new n) (\<lambda>tp. Inr (Some (Some tp))) else Inr None) (\<lambda>tp.
        Inr (\<lparr>sv_fd = sfd, sv_threads = tp\<rparr>,
             E\<lparr>e_reg := registry_new garbage mx,
               e_loop := add_io_event (e_loop E) sfd accept_callback EPOLLIN (Some this)\<rparr>)))))))"

text \<open>The destructor closes the socket; the loop keeps its entry.\<close>

definition tcp_server_delete :: "tcp_server \<Rightarrow> event_loop \<Rightarrow> event_loop" where
  "tcp_server_delete sv loop = close_fd loop (sv_fd sv)"

datatype accept_errno = ACC_EINTR | ACC_EMFILE | ACC_EAGAIN | ACC_OTHER

datatype accept_answer = Accepted int | Accept_err accept_errno

datatype accept_outcome = Idle | Refused int | Queued nat int | Opened tcp_conn

text \<open>
  \<open>do_accept\<close>: interrupted calls, but also running out of descriptors and unknown errors, are
  retried at once; after one descriptor the function returns.
\<close>

fun do_accept ::
  "('a, 'u) server_cfg \<Rightarrow> nat \<Rightarrow> accept_answer list \<Rightarrow> tcp_server \<times> 'a env \<Rightarrow>
   (accept_outcome \<times> tcp_server \<times> 'a env) res" where
  "do_accept cfg this [] s = Inl No_return"
| "do_accept cfg this (Accept_err e # as) s =
     (if e = ACC_EAGAIN then Inr (Idle, s) else do_accept cfg this as s)"
| "do_accept cfg this (Accepted connfd # as) s =
     (let (sv, E) = s in
      if max_conns (e_reg E) \<le> get_conn_num (e_reg E) then Inr (Refused connfd, s)
      else case sv_threads sv of
        None \<Rightarrow> Inl Uninit_read
      | Some None \<Rightarrow> res_bind (tcp_conn_new cfg this connfd E) (\<lambda>(c, E'). Inr (Opened c, sv, E'))
      | Some (Some tp) \<Rightarrow>
          res_bind (get_thread tp) (\<lambda>(i, tp1).
          res_bind (tp_send tp1 i (NEW_CONN connfd)) (\<lambda>tp2.
            Inr (Queued i connfd, sv\<lparr>sv_threads := Some (Some tp2)\<rparr>, E))))"

definition add_msg_router :: "('a, 'u) server_cfg \<Rightarrow> int \<Rightarrow> ('a, 'u) handler \<Rightarrow> 'u \<Rightarrow> ('a, 'u) server_cfg" where
  "add_msg_router cfg msgid cb user_data =
     cfg\<lparr>s_router := snd (register_msg_router (s_router cfg) msgid cb user_data)\<rparr>"

definition set_conn_start :: "('a, 'u) server_cfg \<Rightarrow> 'a conn_callback \<Rightarrow> ('a, 'u) server_cfg" where
  "set_conn_start cfg cb = cfg\<lparr>conn_start_cb := Some cb\<rparr>"

definition set_conn_close :: "('a, 'u) server_cfg \<Rightarrow> 'a conn_callback \<Rightarrow> ('a, 'u) server_cfg" where
  "set_conn_close cfg cb = cfg\<lparr>conn_close_cb := Some cb\<rparr>"

text \<open>
  For handlers of applications: the bytes of a message body, and a handler that can fault. Handlers
  of the reactor model return no fault; one that faults is mapped to no effect, and the application
  shows that on the states that can occur it does not fault.
\<close>

definition body :: "byte list option \<Rightarrow> u32 \<Rightarrow> byte list" where
  "body data len = take (unat len) (case data of None \<Rightarrow> [] | Some d \<Rightarrow> d)"

definition quiet :: "'a \<Rightarrow> ('a \<times> send_req list) res \<Rightarrow> 'a \<times> send_req list" where
  "quiet a r = (case r of Inl _ \<Rightarrow> (a, []) | Inr x \<Rightarrow> x)"

text \<open>
  C25: what \<open>do_accept\<close> does with a new descriptor, after any number of failed calls that it
  retries. At or above the connection limit the descriptor is refused and nothing changes;
  below it, the descriptor goes to the mailbox of exactly one worker, the next in round-robin
  order, behind what is queued there, and the worker is woken.
\<close>

theorem do_accept_dispatches:
  assumes "sv_threads sv = Some (Some tp)" and "tp_inv tp" and "\<forall>e \<in> set errs. e \<noteq> ACC_EAGAIN"
  shows "if max_conns (e_reg E) \<le> get_conn_num (e_reg E)
    then do_accept cfg this (map Accept_err errs @ Accepted connfd # as) (sv, E) = Inr (Refused connfd, sv, E)
    else \<exists>i tp'. do_accept cfg this (map Accept_err errs @ Accepted connfd # as) (sv, E) =
        Inr (Queued i connfd, sv\<lparr>sv_threads := Some (Some tp')\<rparr>, E) \<and>
      i = nat (tp_index tp) mod nat (thread_cnt tp) \<and> i < length (tp_queues tp) \<and> tp_inv tp' \<and>
      map tq_queue (tp_queues tp') =
        (map tq_queue (tp_queues tp))[i := tq_queue (tp_queues tp ! i) @ [NEW_CONN connfd]] \<and>
      tq_ready (tp_queues tp' ! i)"
proof -
  have retry: "do_accept cfg this (map Accept_err errs @ rest) s = do_accept cfg this rest s" for rest and s :: "tcp_server \<times> 'a env"
    using assms(3) by (induction errs) auto
  from get_thread_spec[OF assms(2)] obtain tp1 where tp1: "tp_inv tp1" "tp_queues tp1 = tp_queues tp"
    and g: "get_thread tp = Inr (nat (tp_index tp) mod nat (thread_cnt tp), tp1)" by blast
  let ?i = "nat (tp_index tp) mod nat (thread_cnt tp)"
  have i: "?i < length (tp_queues tp)" using tp_inv_length[OF assms(2)] by simp
  from tp_send_spec[OF tp1(1), of ?i "NEW_CONN connfd"] i tp1(2) obtain tp2 where
    tp2: "tp_send tp1 ?i (NEW_CONN connfd) = Inr tp2" "tp_inv tp2"
      "map tq_queue (tp_queues tp2) = (map tq_queue (tp_queues tp))[?i := tq_queue (tp_queues tp ! ?i) @ [NEW_CONN connfd]]"
    by auto
  have l2: "length (tp_queues tp2) = length (tp_queues tp)"
    using arg_cong[OF tp2(3), of length] by simp
  have "map tq_queue (tp_queues tp2) ! ?i \<noteq> []" unfolding tp2(3) using i by simp
  then have "tq_queue (tp_queues tp2 ! ?i) \<noteq> []" using i l2 by simp
  moreover have "tq_inv (tp_queues tp2 ! ?i)" using tp2(2) i l2 by (simp add: tp_inv_def)
  ultimately have "tq_ready (tp_queues tp2 ! ?i)" using tq.ready_law by blast
  then show ?thesis using retry assms(1) g tp2 i by (auto simp: Let_def)
qed

theorem do_accept_dispatches_witness:
  "\<exists>sv E sv'. tcp_server_new (Some 4) True True 10 3 (\<lambda>_. None) 0 (env_new 0 ()) = Inr (sv, E) \<and>
     do_accept echo_cfg 1 [Accept_err ACC_EMFILE, Accepted 20] (sv, E) = Inr (Queued 0 20, sv', E)"
proof -
  let ?tp = "\<lparr>tp_queues = replicate 3 thread_queue_new, thread_cnt = 3, tp_index = 0\<rparr>"
  let ?sv = "\<lparr>sv_fd = 4, sv_threads = Some (Some ?tp)\<rparr>"
  have tp: "thread_pool_new 3 = Inr ?tp" by (simp add: thread_pool_new_def)
  obtain E where n: "tcp_server_new (Some 4) True True 10 3 (\<lambda>_. None) 0 (env_new 0 ()) = Inr (?sv, E)"
    and r: "e_reg E = registry_new (\<lambda>_. None) 10"
    using tp by (simp add: tcp_server_new_def in_int_def)
  from do_accept_dispatches[of ?sv ?tp "[ACC_EMFILE]" E echo_cfg 1 20 "[]"] tp_inv_new[OF tp] r
  show ?thesis using n by (auto simp: registry_new_def get_conn_num_def)
qed

lemma reg_inv_room:
  assumes R: "reg_inv R M" and K: "K \<subseteq> {0..<max_conns R + 3} - dom M" "4 \<le> card K"
  shows "get_conn_num R < max_conns R"
proof -
  have f: "finite (dom M)" and l: "length (conns R) = nat (max_conns R + 3)" using R by (simp_all add: reg_inv_def)
  have m: "dom M \<subseteq> {0..<max_conns R + 3}"
  proof
    fix x assume "x \<in> dom M"
    then have "0 \<le> x" "x < int (nat (max_conns R + 3))" using R l by (auto simp: reg_inv_def in_range_def)
    then show "x \<in> {0..<max_conns R + 3}" by (auto split: if_splits)
  qed
  have fK: "finite K" using K(1) by (meson finite_Diff finite_atLeastLessThan_int finite_subset)
  have "card (dom M \<union> K) \<le> card {0..<max_conns R + 3}" using m K(1) by (intro card_mono) auto
  moreover have "card (dom M \<union> K) = card (dom M) + card K" using K(1) f fK by (intro card_Un_disjoint) auto
  ultimately show ?thesis using R K(2) by (simp add: reg_inv_def get_conn_num_def)
qed

text \<open>
  C37: the limit on connections cannot be reached, shown for a server without a start callback, as
  the reporter is (the DNS service has one). The array of connections has \<open>maxConn + 3\<close> slots
  and is indexed by descriptor, but a server needs descriptors for itself: the standard streams,
  the listening socket, two for every loop. With at least four descriptors in the range of the
  array in use for something else, fewer than \<open>maxConn\<close> connections are open whatever happened
  before, so that \<open>do_accept\<close> never refuses a descriptor but always hands it to a worker; and when
  the descriptor is beyond the array, the worker writes outside it.
\<close>

theorem connection_limit_ineffective:
  assumes "reg_inv (e_reg E) M" and "K \<subseteq> {0..<max_conns (e_reg E) + 3} - dom M" and "4 \<le> card K"
    and "sv_threads sv = Some (Some tp)" and "tp_inv tp" and "conn_start_cb cfg = None"
  shows "\<exists>i tp'. do_accept cfg this [Accepted connfd] (sv, E) =
      Inr (Queued i connfd, sv\<lparr>sv_threads := Some (Some tp')\<rparr>, E) \<and> i < length (tp_queues tp) \<and>
    (max_conns (e_reg E) + 3 \<le> connfd \<longrightarrow> tcp_conn_new cfg a connfd E = Inl Out_of_bounds)"
proof -
  from get_thread_spec[OF assms(5)] obtain i tp1 where g: "get_thread tp = Inr (i, tp1)" "tp_inv tp1"
    "tp_queues tp1 = tp_queues tp" "i = nat (tp_index tp) mod nat (thread_cnt tp)" by blast
  have i: "i < length (tp_queues tp)" using tp_inv_length[OF assms(5)] g(4) by simp
  with tp_send_spec[OF g(2), of i "NEW_CONN connfd"] g(3) obtain tp2 where "tp_send tp1 i (NEW_CONN connfd) = Inr tp2" by auto
  moreover have "\<not> max_conns (e_reg E) \<le> get_conn_num (e_reg E)" using reg_inv_room[OF assms(1-3)] by simp
  moreover have "tcp_conn_new cfg a connfd E = Inl Out_of_bounds" if "max_conns (e_reg E) + 3 \<le> connfd"
    using that assms(1,6) by (simp add: tcp_conn_new_def Let_def call_conn_cb_def increase_conn_out_of_range
        in_range_def reg_inv_def)
  ultimately show ?thesis using assms(4) g(1) i by (auto simp: Let_def)
qed

theorem connection_limit_ineffective_witness:
  "\<exists>sv E i sv'. tcp_server_new (Some 3) True True 10 3 (\<lambda>_. None) 0 (env_new 0 ()) = Inr (sv, E) \<and>
     do_accept echo_cfg 1 [Accepted 13] (sv, E) = Inr (Queued i 13, sv', E) \<and> i < 3 \<and>
     tcp_conn_new echo_cfg 1 13 E = Inl Out_of_bounds"
proof -
  let ?tp = "\<lparr>tp_queues = replicate 3 thread_queue_new, thread_cnt = 3, tp_index = 0\<rparr>"
  let ?sv = "\<lparr>sv_fd = 3, sv_threads = Some (Some ?tp)\<rparr>"
  have tp: "thread_pool_new 3 = Inr ?tp" by (simp add: thread_pool_new_def)
  obtain E where n: "tcp_server_new (Some 3) True True 10 3 (\<lambda>_. None) 0 (env_new 0 ()) = Inr (?sv, E)"
    and r: "e_reg E = registry_new (\<lambda>_. None) 10"
    using tp by (simp add: tcp_server_new_def in_int_def)
  have R: "reg_inv (e_reg E) Map.empty" unfolding r by (simp add: reg_inv_new)
  have mx: "max_conns (e_reg E) = 10" unfolding r by (simp add: registry_new_def)
  from connection_limit_ineffective[OF R, of "{0, 1, 2, 3}" ?sv ?tp echo_cfg 1 13 1] tp_inv_new[OF tp] mx
  show ?thesis using n by (auto simp: echo_cfg_def)
qed

section \<open>A worker thread\<close>

text \<open>
  What a worker's callbacks work on besides its loop: the shared pool, registry and application
  data, the connection objects by address (they are never deleted), the mailbox, the bytes each
  connection handed to its socket, and the answers of the sockets, one per callback.
\<close>

record 'a world =
  w_pool :: pool
  w_reg :: registry
  w_app :: 'a
  w_conns :: "nat \<rightharpoonup> tcp_conn"
  w_fresh :: nat
  w_queue :: "task_msg thread_queue"
  w_sent :: "nat \<Rightarrow> byte list"
  w_rd :: "nat \<Rightarrow> nat option \<times> rd list"
  w_wr :: "nat \<Rightarrow> wr list"
  w_no :: nat

definition env_of :: "event_loop \<times> 'a world \<Rightarrow> 'a env" where
  "env_of s = \<lparr>e_pool = w_pool (snd s), e_loop = fst s, e_reg = w_reg (snd s), e_app = w_app (snd s)\<rparr>"

definition put_conn :: "event_loop \<times> 'a world \<Rightarrow> nat \<Rightarrow> tcp_conn \<times> 'a env \<Rightarrow> event_loop \<times> 'a world" where
  "put_conn s a r =
     (e_loop (snd r), (snd s)\<lparr>w_pool := e_pool (snd r), w_reg := e_reg (snd r), w_app := e_app (snd r),
        w_conns := (w_conns (snd s))(a \<mapsto> fst r)\<rparr>)"

definition deal_one ::
  "('a, 'u) server_cfg \<Rightarrow> event_loop \<times> 'a world \<Rightarrow> task_msg \<Rightarrow> (event_loop \<times> 'a world) res" where
  "deal_one cfg s task =
     (case task of
        NEW_CONN connfd \<Rightarrow>
          (let a = w_fresh (snd s) in
           res_bind (tcp_conn_new cfg a connfd (env_of s)) (\<lambda>r.
             Inr (fst (put_conn s a r), (snd (put_conn s a r))\<lparr>w_fresh := Suc a\<rparr>)))
      | NEW_TASK func args \<Rightarrow> Inr (add_task (fst s) func args, snd s))"

definition deal_tasks ::
  "('a, 'u) server_cfg \<Rightarrow> event_loop \<times> 'a world \<Rightarrow> (event_loop \<times> 'a world) res" where
  "deal_tasks cfg s =
     (case tq_recv (w_queue (snd s)) [] of (tasks, q) \<Rightarrow>
        run (deal_one cfg) (fst s, (snd s)\<lparr>w_queue := q\<rparr>) tasks)"

text \<open>The callbacks a worker's loop can hold, by name; the other names belong to other loops.\<close>

definition worker_invoke :: "('a, 'u) server_cfg \<Rightarrow> 'a world invoker" where
  "worker_invoke cfg cb f args s =
     (let W = (snd s)\<lparr>w_no := Suc (w_no (snd s))\<rparr>; n = w_no (snd s) in
      case cb of
        conn_rd_callback \<Rightarrow>
          (case args of None \<Rightarrow> Inl Null_deref | Some a \<Rightarrow>
           res_bind (deref (w_conns W) a) (\<lambda>c.
           res_bind (do_read cfg a (c, env_of (fst s, W)) (w_rd W n)) (\<lambda>r.
             Inr (put_conn (fst s, W) a r))))
      | conn_wt_callback \<Rightarrow>
          (case args of None \<Rightarrow> Inl Null_deref | Some a \<Rightarrow>
           res_bind (deref (w_conns W) a) (\<lambda>c.
           res_bind (do_write cfg a (c, env_of (fst s, W)) (w_wr W n)) (\<lambda>(sent, r).
             Inr (fst (put_conn (fst s, W) a r),
                  (snd (put_conn (fst s, W) a r))\<lparr>w_sent := (w_sent W)(a := w_sent W a @ sent)\<rparr>))))
      | deal_task_message \<Rightarrow> deal_tasks cfg (fst s, W)
      | _ \<Rightarrow> Inl Null_deref)"

section \<open>Disjoint connections\<close>

definition conn_bufs :: "tcp_conn \<Rightarrow> nat set" where
  "conn_bufs c = set_option (c_ibuf c) \<union> set_option (c_obuf c)"

definition others_of :: "nat set \<Rightarrow> (nat \<rightharpoonup> tcp_conn) \<Rightarrow> nat \<Rightarrow> nat set" where
  "others_of F C a = F \<union> (\<Union>b \<in> dom C - {a}. conn_bufs (the (C b)))"

definition all_ok :: "pool \<Rightarrow> nat set \<Rightarrow> (nat \<rightharpoonup> tcp_conn) \<Rightarrow> bool" where
  "all_ok P F C \<longleftrightarrow> pool_inv P (F \<union> (\<Union>b \<in> dom C. conn_bufs (the (C b)))) \<and>
     (\<forall>a c. C a = Some c \<longrightarrow> F \<inter> conn_bufs c = {} \<and> set_option (c_ibuf c) \<inter> set_option (c_obuf c) = {}) \<and>
     (\<forall>a b c d. a \<noteq> b \<longrightarrow> C a = Some c \<longrightarrow> C b = Some d \<longrightarrow> conn_bufs c \<inter> conn_bufs d = {})"

lemma others_Un: "C a = Some c \<Longrightarrow> others_of F C a \<union> conn_bufs c = F \<union> (\<Union>b \<in> dom C. conn_bufs (the (C b)))"
  by (auto simp: others_of_def)

lemma others_upd [simp]: "others_of F (C(a := x)) a = others_of F C a"
  by (auto simp: others_of_def split: if_splits)

lemma others_other: "a \<noteq> b \<Longrightarrow> C b = Some d \<Longrightarrow> conn_bufs d \<subseteq> others_of F C a"
  by (auto simp: others_of_def)

lemma others_F: "F \<subseteq> others_of F C a"
  by (auto simp: others_of_def)

lemma all_ok_bufs: "all_ok P F C \<Longrightarrow> C a = Some c \<Longrightarrow> bufs_ok P (others_of F C a) c"
proof -
  assume A: "all_ok P F C" and c: "C a = Some c"
  have d: "conn_bufs c \<inter> conn_bufs (the (C b)) = {}" if "b \<in> dom C - {a}" for b
    using A c that unfolding all_ok_def by fastforce
  have "F \<inter> conn_bufs c = {}" using A c unfolding all_ok_def by blast
  then have "others_of F C a \<inter> conn_bufs c = {}" using d unfolding others_of_def by blast
  moreover have "pool_inv P (others_of F C a \<union> conn_bufs c)" using A others_Un[of C a c F, OF c] by (simp add: all_ok_def)
  ultimately show ?thesis
    using A c by (intro bufs_okI[of _ _ "c_ibuf c" "c_obuf c"]) (auto simp: conn_bufs_def Un_assoc all_ok_def)
qed

lemma all_ok_step:
  assumes A: "all_ok P F C" and b: "bufs_ok P' (others_of F C a) c'"
  shows "all_ok P' F (C(a \<mapsto> c'))"
proof -
  from b have p: "pool_inv P' (others_of F C a \<union> conn_bufs c')" and d: "others_of F C a \<inter> conn_bufs c' = {}"
    and io: "set_option (c_ibuf c') \<inter> set_option (c_obuf c') = {}"
    by (auto simp: bufs_ok_def rb_inv_def conn_bufs_def Un_ac)
  have "pool_inv P' (F \<union> (\<Union>b \<in> dom (C(a \<mapsto> c')). conn_bufs (the ((C(a \<mapsto> c')) b))))"
    using p others_Un[of "C(a \<mapsto> c')" a c' F] by simp
  moreover have "conn_bufs e \<inter> conn_bufs c' = {}" if "C b = Some e" "b \<noteq> a" for b e
    using that d others_other[of a b C e F] by blast
  ultimately show ?thesis
    using A io d others_F[of F C a] unfolding all_ok_def by (auto split: if_splits)
qed

lemma all_ok_close:
  assumes A: "all_ok P F C" and p: "pool_inv P' (others_of F C a)"
  shows "all_ok P' F (C(a := None))"
proof -
  have "F \<union> (\<Union>b \<in> dom (C(a := None)). conn_bufs (the ((C(a := None)) b))) = others_of F C a"
    by (auto simp: others_of_def split: if_splits)
  then show ?thesis using A p by (auto simp: all_ok_def split: if_splits)
qed

section \<open>The invariant of a worker\<close>

text \<open>
  \<open>own\<close> maps the descriptors of the open connections of this thread to the connection objects;
  \<open>F\<close> and \<open>S0\<close> are the buffers and registrations of everybody else. Descriptors waiting in the
  mailbox are in use by nobody: the kernel does not hand out a descriptor twice.
\<close>

definition mail_fds :: "task_msg list \<Rightarrow> int list" where
  "mail_fds ts = concat (map (\<lambda>t. case t of NEW_CONN f \<Rightarrow> [f] | NEW_TASK g a \<Rightarrow> []) ts)"

definition mail_entry :: "event_loop \<Rightarrow> fd \<Rightarrow> nat \<Rightarrow> bool" where
  "mail_entry l evfd qid \<longleftrightarrow> (\<exists>ev. io_evs l evfd = Some ev \<and> ev_mask ev = EPOLLIN \<and>
     read_callback ev = Some deal_task_message \<and> rcb_args ev = Some qid)"

definition open_conns :: "'a world \<Rightarrow> (int \<rightharpoonup> nat) \<Rightarrow> (nat \<rightharpoonup> tcp_conn)" where
  "open_conns W own = w_conns W |` ran own"

definition threads_ok ::
  "fd \<Rightarrow> nat \<Rightarrow> nat set \<Rightarrow> (int \<rightharpoonup> nat) \<Rightarrow> (int \<rightharpoonup> nat) \<Rightarrow> task_msg list \<Rightarrow> event_loop \<times> 'a world \<Rightarrow> bool" where
  "threads_ok evfd qid F S0 own ts s \<longleftrightarrow>
     loop_inv (fst s) \<and> dom (io_evs (fst s)) = insert evfd (dom own) \<and> evfd \<notin> dom own \<and>
     mail_entry (fst s) evfd qid \<and>
     reg_inv (w_reg (snd s)) (S0 ++ own) \<and> dom S0 \<inter> dom own = {} \<and>
     inj_on own (dom own) \<and> (\<forall>a \<in> ran own. a < w_fresh (snd s)) \<and>
     all_ok (w_pool (snd s)) F (open_conns (snd s) own) \<and>
     (\<forall>f a. own f = Some a \<longrightarrow> (\<exists>c. w_conns (snd s) a = Some c \<and> c_fd c = f \<and>
        conn_inv a (others_of F (open_conns (snd s) own) a) (c, env_of s))) \<and>
     tq_inv (w_queue (snd s)) \<and>
     distinct (mail_fds ts) \<and> set (mail_fds ts) \<inter> (insert evfd (dom S0 \<union> dom own)) = {}"

definition thread_inv :: "fd \<Rightarrow> nat \<Rightarrow> nat set \<Rightarrow> (int \<rightharpoonup> nat) \<Rightarrow> event_loop \<times> 'a world \<Rightarrow> bool" where
  "thread_inv evfd qid F S0 s \<longleftrightarrow> (\<exists>own. threads_ok evfd qid F S0 own (tq_queue (w_queue (snd s))) s)"

text \<open>
  What a step of one thread leaves to the others: the contents of their buffers, their connection
  objects; new connections have new addresses and descriptors that were in the mailbox.
\<close>

definition thread_frame ::
  "nat set \<Rightarrow> int set \<Rightarrow> (int \<rightharpoonup> nat) \<Rightarrow> (int \<rightharpoonup> nat) \<Rightarrow> 'a world \<Rightarrow> 'a world \<Rightarrow> bool" where
  "thread_frame F new own own' W W' \<longleftrightarrow> same_on F (w_pool W) (w_pool W') \<and> w_fresh W \<le> w_fresh W' \<and>
     (\<forall>b. b \<notin> ran own \<longrightarrow> b < w_fresh W \<longrightarrow> w_conns W' b = w_conns W b) \<and>
     dom own' \<subseteq> dom own \<union> new \<and> ran own' \<subseteq> ran own \<union> {w_fresh W..<w_fresh W'}"

lemma thread_frame_same:
  "w_pool W' = w_pool W \<Longrightarrow> w_conns W' = w_conns W \<Longrightarrow> w_fresh W' = w_fresh W \<Longrightarrow> thread_frame F new own own W W'"
  by (simp add: thread_frame_def)

lemma thread_frame_trans:
  assumes "thread_frame F new own own1 W W1" and "thread_frame F new own1 own2 W1 W2"
  shows "thread_frame F new own own2 W W2"
proof -
  have r: "ran own1 \<subseteq> ran own \<union> {w_fresh W..<w_fresh W1}" "ran own2 \<subseteq> ran own1 \<union> {w_fresh W1..<w_fresh W2}"
    and f: "w_fresh W \<le> w_fresh W1" "w_fresh W1 \<le> w_fresh W2" using assms by (simp_all add: thread_frame_def)
  have "w_conns W2 b = w_conns W b" if b: "b \<notin> ran own" "b < w_fresh W" for b
  proof -
    have "b \<notin> ran own1" using r(1) b by auto
    then show ?thesis using assms b f unfolding thread_frame_def by (metis less_le_trans)
  qed
  moreover have "ran own2 \<subseteq> ran own \<union> {w_fresh W..<w_fresh W2}" using r f by fastforce
  moreover have "dom own2 \<subseteq> dom own \<union> new" using assms unfolding thread_frame_def by blast
  moreover have "same_on F (w_pool W) (w_pool W2)" using assms by (auto simp: thread_frame_def elim: same_on_trans)
  ultimately show ?thesis using f by (simp add: thread_frame_def)
qed

lemma thread_frame_mono: "thread_frame F new own own' W W' \<Longrightarrow> new \<subseteq> new' \<Longrightarrow> thread_frame F new' own own' W W'"
  by (auto simp: thread_frame_def)

lemma restrict_ran_upd:
  assumes i: "inj_on own (dom own)" and f: "own f = Some a"
  shows "ran (own(f := None)) = ran own - {a}"
proof (intro equalityI subsetI)
  fix x assume "x \<in> ran (own(f := None))"
  then obtain g where g: "g \<noteq> f" "own g = Some x" by (auto simp: ran_def split: if_splits)
  then have "own g \<noteq> own f" using i f by (metis domI inj_on_def)
  then show "x \<in> ran own - {a}" using g f by (auto simp: ran_def)
next
  fix x assume "x \<in> ran own - {a}"
  then obtain g where "own g = Some x" "x \<noteq> a" by (auto simp: ran_def)
  then show "x \<in> ran (own(f := None))" using f by (auto simp: ran_def intro!: exI[of _ g])
qed

lemma open_conns_own: "own f = Some a \<Longrightarrow> open_conns W own a = w_conns W a"
  by (simp add: open_conns_def ranI)

lemma threads_conn:
  assumes "threads_ok evfd qid F S0 own ts (l, W)" and "own f = Some a"
  shows "\<exists>c. w_conns W a = Some c \<and> c_fd c = f \<and>
    conn_inv a (others_of F (open_conns W own) a) (c, env_of (l, W))"
  using assms by (simp add: threads_ok_def)

text \<open>The view of a connection depends on the environment only through the pool and the loop.\<close>

lemma conn_inv_env:
  assumes C: "conn_inv a X (c, E)" and so: "same_on (conn_bufs c) (e_pool E) (e_pool E')"
    and b: "bufs_ok (e_pool E') X' c" and l: "loop_inv (e_loop E')"
    and e: "io_evs (e_loop E') (c_fd c) = io_evs (e_loop E) (c_fd c)"
  shows "conn_inv a X' (c, E')"
proof -
  have i: "rb_front (e_pool E') (c_ibuf c) = rb_front (e_pool E) (c_ibuf c)"
    and o1: "rb_front (e_pool E') (c_obuf c) = rb_front (e_pool E) (c_obuf c)"
    and o2: "rb_bytes (e_pool E') (c_obuf c) = rb_bytes (e_pool E) (c_obuf c)"
    using rb_front_same[OF _ so] rb_bytes_same[OF _ so] by (auto simp: conn_bufs_def)
  have "armed (e_loop E') a (c_fd c) (rb_bytes (e_pool E) (c_obuf c) \<noteq> [])"
    using C l e by (simp add: conn_inv_def mid_inv_def armed_def out_bytes_def)
  then show ?thesis using C b i o1 o2 by (simp add: conn_inv_def mid_inv_def out_bytes_def)
qed

lemma handled_loop:
  assumes "handled a X S (c, E) (c', E')"
  shows "loop_inv (e_loop E')" and "frame_rel X (c_fd c) E E'"
  using assms by (auto simp: handled_def conn_inv_def mid_inv_def armed_def closed_rel_def)

text \<open>One event of one connection, seen from the whole thread.\<close>

text \<open>A callback on one connection leaves the others alone.\<close>

lemma other_conn_kept:
  assumes T: "threads_ok evfd qid F S0 own ts (l, W)" and ba: "b \<noteq> a" and g: "own g = Some b" "g \<noteq> f"
    and L: "loop_inv (e_loop E')" and fr: "frame_rel (others_of F (open_conns W own) a) f (env_of (l, W)) E'"
    and C': "all_ok (e_pool E') F C'" "C' b = open_conns W own b"
  shows "\<exists>d. w_conns W b = Some d \<and> c_fd d = g \<and> conn_inv b (others_of F C' b) (d, E')"
proof -
  let ?C = "open_conns W own"
  obtain d where d: "w_conns W b = Some d" "c_fd d = g" and ci: "conn_inv b (others_of F ?C b) (d, env_of (l, W))"
    using threads_conn[OF T g(1)] by auto
  have Cb: "?C b = Some d" using g d by (simp add: open_conns_own)
  have "conn_bufs d \<subseteq> others_of F ?C a" using others_other[of a b ?C d F] ba Cb by auto
  then have "same_on (conn_bufs d) (e_pool (env_of (l, W))) (e_pool E')"
    using fr same_on_subset by (auto simp: frame_rel_def)
  moreover have "io_evs (e_loop E') g = io_evs l g" using fr g(2) by (simp add: frame_rel_def env_of_def)
  ultimately show ?thesis
    using conn_inv_env[OF ci _ all_ok_bufs[OF C'(1)] L] C'(2) Cb d ba by (simp add: env_of_def)
qed

lemma threads_frame:
  assumes T: "threads_ok evfd qid F S0 own ts (l, W)" and o: "own f = Some a"
    and fr: "frame_rel X f (env_of (l, W)) E'"
  shows "evfd \<noteq> f \<and> mail_entry (e_loop E') evfd qid \<and> (\<forall>g. g \<noteq> f \<longrightarrow> io_evs (e_loop E') g = io_evs l g)"
proof -
  have ef: "evfd \<noteq> f" using T o by (auto simp: threads_ok_def)
  have e: "io_evs (e_loop E') g = io_evs l g" if "g \<noteq> f" for g using fr that by (simp add: frame_rel_def env_of_def)
  then show ?thesis using T ef e[OF ef] by (simp add: threads_ok_def mail_entry_def)
qed

lemma handled_open:
  assumes T: "threads_ok evfd qid F S0 own ts (l, W)" and o: "own f = Some a" and L: "loop_inv (e_loop E')"
    and fr: "frame_rel (others_of F (open_conns W own) a) f (env_of (l, W)) E'"
    and c': "conn_inv a (others_of F (open_conns W own) a) (c', E')" "c_fd c' = f" "e_reg E' = w_reg W"
    and W': "w_pool W' = e_pool E'" "w_reg W' = e_reg E'" "w_conns W' = (w_conns W)(a \<mapsto> c')"
      "w_fresh W' = w_fresh W" "w_queue W' = w_queue W" "w_app W' = e_app E'"
  shows "threads_ok evfd qid F S0 own ts (e_loop E', W')"
proof -
  let ?C = "open_conns W own"
  let ?C' = "?C(a \<mapsto> c')"
  have ef: "evfd \<noteq> f" and mail: "mail_entry (e_loop E') evfd qid" using threads_frame[OF T o fr] by simp_all
  have fe: "io_evs (e_loop E') g = io_evs l g" if "g \<noteq> f" for g using threads_frame[OF T o fr] that by simp
  have E': "env_of (e_loop E', W') = E'" using W' by (simp add: env_of_def)
  have oc: "open_conns W' own = ?C'"
    using W'(3) ranI[of own f a, OF o] by (auto simp: open_conns_def restrict_map_def)
  have A': "all_ok (e_pool E') F ?C'" using T all_ok_step[of "w_pool W" F ?C] c' by (simp add: threads_ok_def conn_inv_def mid_inv_def)
  have "f \<in> dom (io_evs (e_loop E'))" using c'(1,2) by (auto simp: conn_inv_def mid_inv_def armed_def)
  moreover have "f \<in> dom (io_evs l)" using T o by (auto simp: threads_ok_def)
  ultimately have "g \<in> dom (io_evs (e_loop E')) \<longleftrightarrow> g \<in> dom (io_evs l)" for g
    using fe[of g] by (cases "g = f") (simp_all add: domIff)
  then have "dom (io_evs (e_loop E')) = dom (io_evs l)" by blast
  then have dm: "dom (io_evs (e_loop E')) = insert evfd (dom own)" using T by (simp add: threads_ok_def)
  have "\<exists>d. w_conns W' b = Some d \<and> c_fd d = g \<and> conn_inv b (others_of F ?C' b) (d, E')" if b: "own g = Some b" for g b
  proof (cases "g = f")
    case True
    then show ?thesis using c' W'(3) o b by auto
  next
    case False
    then have ba: "b \<noteq> a" using T o b by (metis domI inj_on_def threads_ok_def)
    then have "?C' b = ?C b" "w_conns W' b = w_conns W b" using W'(3) by simp_all
    then show ?thesis using other_conn_kept[OF T ba b False L fr A'] by (simp only: simp_thms)
  qed
  then show ?thesis using T c'(3) L dm mail A' oc W' E' by (auto simp: threads_ok_def)
qed

lemma handled_closed:
  assumes T: "threads_ok evfd qid F S0 own ts (l, W)" and o: "own f = Some a" and L: "loop_inv (e_loop E')"
    and fr: "frame_rel (others_of F (open_conns W own) a) f (env_of (l, W)) E'" and cf: "c_fd c = f"
    and cl: "closed_rel (others_of F (open_conns W own) a) (S0 ++ own) (c, env_of (l, W)) (c', E')"
    and W': "w_pool W' = e_pool E'" "w_reg W' = e_reg E'" "w_conns W' = (w_conns W)(a \<mapsto> c')"
      "w_fresh W' = w_fresh W" "w_queue W' = w_queue W" "w_app W' = e_app E'"
  shows "threads_ok evfd qid F S0 (own(f := None)) ts (e_loop E', W')"
proof -
  let ?C = "open_conns W own" and ?own = "own(f := None)"
  let ?C' = "?C(a := None)"
  have ef: "evfd \<noteq> f" and mail: "mail_entry (e_loop E') evfd qid" using threads_frame[OF T o fr] by simp_all
  have fe: "io_evs (e_loop E') g = io_evs l g" if "g \<noteq> f" for g using threads_frame[OF T o fr] that by simp
  have inj: "inj_on own (dom own)" and A: "all_ok (w_pool W) F ?C" using T by (simp_all add: threads_ok_def)
  have E': "env_of (e_loop E', W') = E'" using W' by (simp add: env_of_def)
  have rn: "ran ?own = ran own - {a}" by (rule restrict_ran_upd[OF inj o])
  have oc: "open_conns W' ?own = ?C'" unfolding open_conns_def rn using W'(3) by (auto simp: restrict_map_def)
  have A': "all_ok (e_pool E') F ?C'" using all_ok_close[OF A] cl by (simp add: closed_rel_def)
  have "io_evs (e_loop E') f = None" using cl cf by (simp add: closed_rel_def)
  then have "g \<in> dom (io_evs (e_loop E')) \<longleftrightarrow> g \<in> dom (io_evs l) - {f}" for g
    using fe[of g] by (cases "g = f") (simp_all add: domIff)
  then have "dom (io_evs (e_loop E')) = dom (io_evs l) - {f}" by blast
  then have dm: "dom (io_evs (e_loop E')) = insert evfd (dom ?own)" using T ef by (auto simp: threads_ok_def)
  have "S0 f = None" using T o by (auto simp: threads_ok_def)
  then have "(S0 ++ own)(f := None) = S0 ++ ?own" by (auto simp: map_add_def split: option.splits)
  then have rg: "reg_inv (e_reg E') (S0 ++ ?own)" using cl cf by (simp add: closed_rel_def)
  have "\<exists>d. w_conns W' b = Some d \<and> c_fd d = g \<and> conn_inv b (others_of F ?C' b) (d, E')" if b: "?own g = Some b" for g b
  proof -
    have gb: "own g = Some b" "g \<noteq> f" using b by (auto split: if_splits)
    then have ba: "b \<noteq> a" using inj o by (metis domI inj_on_def)
    then have "?C' b = ?C b" "w_conns W' b = w_conns W b" using W'(3) by simp_all
    then show ?thesis using other_conn_kept[OF T ba gb L fr A'] by (simp only: simp_thms)
  qed
  moreover have "inj_on ?own (dom ?own)" using inj by (auto simp: inj_on_def split: if_splits)
  moreover have "\<forall>x \<in> ran ?own. x < w_fresh W'" using T W'(4) rn by (auto simp: threads_ok_def)
  ultimately show ?thesis using T L dm mail ef A' oc W' E' rg by (auto simp: threads_ok_def)
qed

lemma handled_thread:
  assumes T: "threads_ok evfd qid F S0 own ts (l, W)" and o: "own f = Some a" and c: "w_conns W a = Some c"
    and h: "handled a (others_of F (open_conns W own) a) (S0 ++ own) (c, env_of (l, W)) (c', E')"
    and W': "w_pool W' = e_pool E'" "w_reg W' = e_reg E'" "w_conns W' = (w_conns W)(a \<mapsto> c')"
      "w_fresh W' = w_fresh W" "w_queue W' = w_queue W" "w_app W' = e_app E'"
  shows "\<exists>own'. threads_ok evfd qid F S0 own' ts (e_loop E', W') \<and> thread_frame F {} own own' W W' \<and>
    (\<forall>g. g \<noteq> f \<longrightarrow> io_evs (e_loop E') g = io_evs l g)"
proof -
  let ?X = "others_of F (open_conns W own) a"
  have cf: "c_fd c = f" using threads_conn[OF T o] c by simp
  have L: "loop_inv (e_loop E')" and fr: "frame_rel ?X f (env_of (l, W)) E'" using handled_loop[OF h] cf by simp_all
  have "same_on F (w_pool W) (e_pool E')"
    using fr same_on_subset[OF _ others_F] by (auto simp: frame_rel_def env_of_def)
  moreover have "a \<in> ran own" using o by (rule ranI)
  moreover have "inj_on own (dom own)" using T by (simp add: threads_ok_def)
  ultimately have tf: "thread_frame F {} own own W W'" "thread_frame F {} own (own(f := None)) W W'"
    using W' restrict_ran_upd[of own f a] o by (auto simp: thread_frame_def)
  have "\<exists>own'. threads_ok evfd qid F S0 own' ts (e_loop E', W') \<and> thread_frame F {} own own' W W'"
  proof (cases "conn_inv a ?X (c', E') \<and> c_fd c' = f \<and> e_reg E' = w_reg W")
    case True
    then show ?thesis using handled_open[OF T o L fr _ _ _ W'] tf by blast
  next
    case False
    then have "closed_rel ?X (S0 ++ own) (c, env_of (l, W)) (c', E')"
      using h cf unfolding handled_def by (auto simp: env_of_def)
    then show ?thesis using handled_closed[OF T o L fr cf _ W'] tf by blast
  qed
  then show ?thesis using threads_frame[OF T o fr] by blast
qed

section \<open>The mailbox\<close>

lemma mail_fds_simps [simp]:
  "mail_fds [] = []"
  "mail_fds (NEW_CONN f # ts) = f # mail_fds ts"
  "mail_fds (NEW_TASK g a # ts) = mail_fds ts"
  by (simp_all add: mail_fds_def)

lemma add_task_fields [simp]:
  "io_evs (add_task l g a) = io_evs l" "loop_inv (add_task l g a) = loop_inv l"
  by (simp_all add: add_task_def loop_inv_def)

text \<open>Changing only what no connection looks at keeps the invariant.\<close>

lemma threads_ok_cong:
  assumes T: "threads_ok evfd qid F S0 own ts (l, W)"
    and l: "io_evs l' = io_evs l" "loop_inv l'"
    and w: "w_pool W' = w_pool W" "w_reg W' = w_reg W" "w_conns W' = w_conns W" "w_fresh W' = w_fresh W"
    and q: "tq_inv (w_queue W')" and ts: "distinct (mail_fds ts')" "set (mail_fds ts') \<subseteq> set (mail_fds ts)"
  shows "threads_ok evfd qid F S0 own ts' (l', W')"
proof -
  have A: "all_ok (w_pool W) F (open_conns W own)" using T by (simp add: threads_ok_def)
  have oc: "open_conns W' own = open_conns W own" using w(3) by (simp add: open_conns_def)
  have "conn_inv a (others_of F (open_conns W own) a) (c, env_of (l', W'))"
    if "own f = Some a" "w_conns W a = Some c" for f a c
  proof -
    have "conn_inv a (others_of F (open_conns W own) a) (c, env_of (l, W))"
      using threads_conn[OF T that(1)] that(2) by simp
    moreover have "bufs_ok (w_pool W) (others_of F (open_conns W own) a) c"
      using all_ok_bufs[OF A] that by (simp add: open_conns_own)
    ultimately show ?thesis
      using conn_inv_env[of a _ c "env_of (l, W)" "env_of (l', W')"] l w by (simp add: env_of_def)
  qed
  then have c: "\<exists>c. w_conns W' a = Some c \<and> c_fd c = f \<and>
      conn_inv a (others_of F (open_conns W' own) a) (c, env_of (l', W'))" if "own f = Some a" for f a
    using threads_conn[OF T that] that w(3) oc by auto
  have m: "set (mail_fds ts') \<inter> insert evfd (dom S0 \<union> dom own) = {}"
    using T ts(2) unfolding threads_ok_def by blast
  show ?thesis using T l w oc q ts(1) c m by (simp add: threads_ok_def mail_entry_def)
qed

lemma deal_conn:
  assumes cfg: "cfg_ok cfg" and T: "threads_ok evfd qid F S0 own (NEW_CONN f # ts) s"
    and d: "deal_one cfg s (NEW_CONN f) = Inr s'"
  shows "\<exists>own'. threads_ok evfd qid F S0 own' ts s' \<and> thread_frame F {f} own own' (snd s) (snd s') \<and>
    dom own' = insert f (dom own) \<and> max_conns (w_reg (snd s')) = max_conns (w_reg (snd s)) \<and>
    (\<forall>g \<in> dom (io_evs (fst s)). io_evs (fst s') g = io_evs (fst s) g) \<and> w_queue (snd s') = w_queue (snd s)"
proof -
  obtain l W where s: "s = (l, W)" by (cases s)
  let ?a = "w_fresh W" and ?E = "env_of (l, W)" and ?C = "open_conns W own"
  note T' = T[unfolded s threads_ok_def fst_conv snd_conv]
  have A: "all_ok (w_pool W) F ?C" and R: "reg_inv (w_reg W) (S0 ++ own)" and L: "loop_inv l" using T' by auto
  have an: "?a \<notin> ran own" using T' by auto
  then have Ca: "?C ?a = None" by (simp add: open_conns_def)
  have X: "others_of F ?C ?a = F \<union> (\<Union>b \<in> dom ?C. conn_bufs (the (?C b)))" using Ca by (auto simp: others_of_def)
  have fn: "f \<noteq> evfd" "f \<notin> dom own" "f \<notin> dom S0" using T' by auto
  then have io: "io_evs l f = None" and Sf: "(S0 ++ own) f = None" using T' by (auto simp: domIff)
  from d s obtain c E' where t: "tcp_conn_new cfg ?a f ?E = Inr (c, E')"
    and s': "s' = (e_loop E', W\<lparr>w_pool := e_pool E', w_reg := e_reg E', w_app := e_app E',
        w_conns := (w_conns W)(?a \<mapsto> c), w_fresh := Suc ?a\<rparr>)"
    by (auto simp: deal_one_def Let_def res_bind_Inr_iff put_conn_def)
  have P: "pool_inv (e_pool ?E) (others_of F ?C ?a)" using A X by (simp add: all_ok_def env_of_def)
  have env: "loop_inv (e_loop ?E)" "io_evs (e_loop ?E) f = None" "reg_inv (e_reg ?E) (S0 ++ own)"
    using L io R by (simp_all add: env_of_def)
  have N: "conn_inv ?a (others_of F ?C ?a) (c, E')" "c_fd c = f" "reg_inv (e_reg E') ((S0 ++ own)(f \<mapsto> ?a))"
    and fr: "frame_rel (others_of F ?C ?a) f ?E E'" and mx: "max_conns (e_reg E') = max_conns (w_reg W)"
    using tcp_conn_new_spec[OF cfg P env Sf t] by (simp_all add: env_of_def)
  let ?own = "own(f \<mapsto> ?a)" and ?C' = "?C(?a \<mapsto> c)" and ?W' = "snd s'"
  have rn: "ran ?own = insert ?a (ran own)" using fn(2) by (simp add: domIff)
  have oc: "open_conns ?W' ?own = ?C'"
    unfolding open_conns_def rn using s' an by (auto simp: restrict_map_def)
  have A': "all_ok (e_pool E') F ?C'" using all_ok_step[OF A] N(1) by (simp add: conn_inv_def mid_inv_def)
  have L': "loop_inv (e_loop E')" and f': "f \<in> dom (io_evs (e_loop E'))"
    using N(1,2) by (auto simp: conn_inv_def mid_inv_def armed_def)
  have ev: "io_evs (e_loop E') g = io_evs l g" if "g \<noteq> f" for g using fr that by (simp add: frame_rel_def env_of_def)
  have "g \<in> dom (io_evs (e_loop E')) \<longleftrightarrow> g \<in> insert f (dom (io_evs l))" for g
    using f' ev[of g] by (cases "g = f") (simp_all add: domIff)
  then have "dom (io_evs (e_loop E')) = insert f (dom (io_evs l))" by blast
  then have dm: "dom (io_evs (e_loop E')) = insert evfd (dom ?own)" using T' by auto
  have E': "env_of (e_loop E', ?W') = E'" using s' by (simp add: env_of_def)
  have cn: "\<exists>d. w_conns ?W' b = Some d \<and> c_fd d = g \<and> conn_inv b (others_of F ?C' b) (d, E')" if b: "?own g = Some b" for g b
  proof (cases "g = f")
    case True
    then show ?thesis using b N s' by auto
  next
    case False
    then have ob: "own g = Some b" using b by simp
    then have ba: "b \<noteq> ?a" using an by (auto simp: ran_def)
    have "?C' b = ?C b" using ba by simp
    then show ?thesis using other_conn_kept[OF T[unfolded s] ba ob False L' fr A'] ba s' by simp
  qed
  have "inj_on ?own (dom ?own)" using T' an by (auto simp: inj_on_def ran_def split: if_splits)
  moreover have "(S0 ++ own)(f \<mapsto> ?a) = S0 ++ ?own" by simp
  moreover have "mail_entry (e_loop E') evfd qid" using T' ev[of evfd] fn(1) by (simp add: mail_entry_def)
  ultimately have "threads_ok evfd qid F S0 ?own ts (e_loop E', ?W')"
    using T' L' dm A' oc N(3) cn fn E' s' unfolding threads_ok_def fst_conv snd_conv by (auto simp: less_Suc_eq)
  moreover have "io_evs (e_loop E') g = io_evs l g" if "g \<in> dom (io_evs l)" for g
    using ev[of g] io that by (cases "g = f") auto
  moreover have "thread_frame F {f} own ?own W ?W'"
    using fr same_on_subset[OF _ others_F] rn s' by (auto simp: thread_frame_def frame_rel_def env_of_def)
  ultimately show ?thesis using s' s mx by (intro exI[of _ ?own]) simp
qed

lemma deal_run:
  assumes "cfg_ok cfg" and "threads_ok evfd qid F S0 own ts s" and "run (deal_one cfg) s ts = Inr s'"
  shows "\<exists>own'. threads_ok evfd qid F S0 own' [] s' \<and> thread_frame F (set (mail_fds ts)) own own' (snd s) (snd s') \<and>
    dom own' = set (mail_fds ts) \<union> dom own \<and>
    (\<forall>g \<in> dom (io_evs (fst s)). io_evs (fst s') g = io_evs (fst s) g) \<and> w_queue (snd s') = w_queue (snd s)"
  using assms(2,3)
proof (induction ts arbitrary: s own)
  case Nil
  then show ?case by (auto intro!: exI[of _ own] thread_frame_same)
next
  case (Cons t ts)
  let ?N = "set (mail_fds (t # ts))"
  from Cons.prems(2) obtain s1 where d: "deal_one cfg s t = Inr s1" and r: "run (deal_one cfg) s1 ts = Inr s'"
    by (auto simp: res_bind_Inr_iff)
  have "\<exists>own1. threads_ok evfd qid F S0 own1 ts s1 \<and> thread_frame F ?N own own1 (snd s) (snd s1) \<and>
      set (mail_fds ts) \<union> dom own1 = ?N \<union> dom own \<and>
      (\<forall>g \<in> dom (io_evs (fst s)). io_evs (fst s1) g = io_evs (fst s) g) \<and> w_queue (snd s1) = w_queue (snd s)"
  proof (cases t)
    case (NEW_CONN f)
    then have "{f} \<subseteq> ?N" by simp
    moreover from deal_conn[OF assms(1), of evfd qid F S0 own f ts s s1] Cons.prems(1) d NEW_CONN
    obtain own1 where "threads_ok evfd qid F S0 own1 ts s1" "thread_frame F {f} own own1 (snd s) (snd s1)"
      "dom own1 = insert f (dom own)" "\<forall>g \<in> dom (io_evs (fst s)). io_evs (fst s1) g = io_evs (fst s) g"
      "w_queue (snd s1) = w_queue (snd s)" by blast
    ultimately show ?thesis using NEW_CONN by (intro exI[of _ own1]) (auto intro: thread_frame_mono)
  next
    case (NEW_TASK h a)
    obtain l W where s: "s = (l, W)" by (cases s)
    have s1: "s1 = (add_task l h a, W)" using d NEW_TASK s by (simp add: deal_one_def)
    have "loop_inv l" "tq_inv (w_queue W)" "distinct (mail_fds ts)"
      using Cons.prems(1) s NEW_TASK by (simp_all add: threads_ok_def)
    then have "threads_ok evfd qid F S0 own ts (add_task l h a, W)"
      using threads_ok_cong[OF Cons.prems(1)[unfolded s], of "add_task l h a" W ts] NEW_TASK by simp
    then show ?thesis using s s1 NEW_TASK by (auto intro!: exI[of _ own] thread_frame_same)
  qed
  then obtain own1 where o1: "threads_ok evfd qid F S0 own1 ts s1"
    "\<forall>g \<in> dom (io_evs (fst s)). io_evs (fst s1) g = io_evs (fst s) g" "w_queue (snd s1) = w_queue (snd s)"
    "thread_frame F ?N own own1 (snd s) (snd s1)" "set (mail_fds ts) \<union> dom own1 = ?N \<union> dom own" by blast
  from Cons.IH[OF o1(1) r] obtain own' where "threads_ok evfd qid F S0 own' [] s'"
    and tf: "thread_frame F (set (mail_fds ts)) own1 own' (snd s1) (snd s')" and "dom own' = set (mail_fds ts) \<union> dom own1" and
    "\<forall>g \<in> dom (io_evs (fst s1)). io_evs (fst s') g = io_evs (fst s1) g" "w_queue (snd s') = w_queue (snd s1)" by blast
  moreover have "thread_frame F ?N own own' (snd s) (snd s')"
    by (rule thread_frame_trans[OF o1(4) thread_frame_mono[OF tf]]) (auto simp: mail_fds_def)
  moreover from o1(2) have "dom (io_evs (fst s)) \<subseteq> dom (io_evs (fst s1))" by (auto simp: domIff)
  ultimately show ?case using o1 by (metis subsetD)
qed

lemma deal_tasks_inv:
  assumes cfg: "cfg_ok cfg" and T: "threads_ok evfd qid F S0 own (tq_queue (w_queue (snd s))) s"
    and d: "deal_tasks cfg s = Inr s'"
  shows "\<exists>own'. threads_ok evfd qid F S0 own' (tq_queue (w_queue (snd s'))) s' \<and>
    thread_frame F (set (mail_fds (tq_queue (w_queue (snd s))))) own own' (snd s) (snd s') \<and>
    dom own' = set (mail_fds (tq_queue (w_queue (snd s)))) \<union> dom own \<and>
    tq_queue (w_queue (snd s')) = [] \<and> (\<forall>g \<in> dom (io_evs (fst s)). io_evs (fst s') g = io_evs (fst s) g)"
proof -
  obtain l W where s: "s = (l, W)" by (cases s)
  note own = T[unfolded s snd_conv]
  let ?q = "snd (tq_recv (w_queue W) [])" and ?ts = "tq_queue (w_queue W)"
  have q: "tq_inv ?q" "tq_queue ?q = []" using tq.recv_law[of "w_queue W"] own by (simp_all add: threads_ok_def)
  have "threads_ok evfd qid F S0 own ?ts (l, W\<lparr>w_queue := ?q\<rparr>)"
    using threads_ok_cong[OF own, of l "W\<lparr>w_queue := ?q\<rparr>" ?ts] q own by (simp add: threads_ok_def)
  moreover have "run (deal_one cfg) (l, W\<lparr>w_queue := ?q\<rparr>) ?ts = Inr s'"
    using d s by (simp add: deal_tasks_def tq_recv_def)
  ultimately obtain own' where o': "threads_ok evfd qid F S0 own' [] s'"
    "\<forall>g \<in> dom (io_evs l). io_evs (fst s') g = io_evs l g" "w_queue (snd s') = ?q"
    "thread_frame F (set (mail_fds ?ts)) own own' (W\<lparr>w_queue := ?q\<rparr>) (snd s')" "dom own' = set (mail_fds ?ts) \<union> dom own"
    using deal_run[OF cfg, of evfd qid F S0 own ?ts "(l, W\<lparr>w_queue := ?q\<rparr>)" s'] by auto
  moreover have "thread_frame F (set (mail_fds ?ts)) own own' W (snd s')"
    using o'(4) by (simp add: thread_frame_def)
  ultimately show ?thesis using q(2) s by auto
qed

text \<open>
  If the start callback sends nothing, opening the connections in the mailbox can only fail at the
  array of connections.
\<close>

definition silent_start :: "('a, 'u) server_cfg \<Rightarrow> bool" where
  "silent_start cfg \<longleftrightarrow> (\<forall>f a connfd. conn_start_cb cfg = Some f \<longrightarrow> snd (f a connfd) = [])"

lemma silent_start_call:
  "silent_start cfg \<Longrightarrow> \<exists>a. call_conn_cb (conn_start_cb cfg) this (c, E) = Inr (c, E\<lparr>e_app := a\<rparr>)"
proof (cases "conn_start_cb cfg")
  case (Some f)
  assume "silent_start cfg"
  then have "snd (f (e_app E) (c_fd c)) = []" using Some by (simp add: silent_start_def)
  then show ?thesis using Some by (cases "f (e_app E) (c_fd c)") (auto simp: call_conn_cb_def send_all_def)
qed (simp add: call_conn_cb_def exI[of _ "e_app E"])

lemma deal_run_total:
  assumes cfg: "cfg_ok cfg" "silent_start cfg" and "threads_ok evfd qid F S0 own ts s"
    and "\<forall>f \<in> set (mail_fds ts). in_range (w_reg (snd s)) f"
  shows "\<exists>s'. run (deal_one cfg) s ts = Inr s'"
  using assms(3,4)
proof (induction ts arbitrary: s own)
  case (Cons t ts)
  obtain l W where s: "s = (l, W)" by (cases s)
  show ?case
  proof (cases t)
    case (NEW_CONN f)
    have R: "reg_inv (w_reg W) (S0 ++ own)" and Sf: "(S0 ++ own) f = None"
      using Cons.prems(1) s NEW_CONN by (auto simp: threads_ok_def domIff)
    obtain R' where "increase_conn (w_reg W) f (w_fresh W) = Inr R'"
      using increase_conn_spec[OF R _ Sf] Cons.prems(2) s NEW_CONN by auto
    then obtain s1 where s1: "deal_one cfg s (NEW_CONN f) = Inr s1"
      using s silent_start_call[OF cfg(2), of "w_fresh W" "\<lparr>c_fd = f, c_obuf = None, c_ibuf = None\<rparr>"
          "(env_of (l, W))\<lparr>e_loop := add_io_event l f conn_rd_callback EPOLLIN (Some (w_fresh W))\<rparr>"]
      by (auto simp: deal_one_def Let_def tcp_conn_new_def env_of_def)
    from deal_conn[OF cfg(1) Cons.prems(1)[unfolded NEW_CONN] s1] obtain own1 where
      o1: "threads_ok evfd qid F S0 own1 ts s1" "max_conns (w_reg (snd s1)) = max_conns (w_reg (snd s))" by blast
    then have "length (conns (w_reg (snd s1))) = length (conns (w_reg (snd s)))"
      using R s by (simp add: threads_ok_def reg_inv_def)
    then have "\<forall>f \<in> set (mail_fds ts). in_range (w_reg (snd s1)) f"
      using Cons.prems(2) NEW_CONN by (simp add: in_range_def)
    from Cons.IH[OF o1(1) this] s1 NEW_CONN show ?thesis by simp
  next
    case (NEW_TASK h a)
    have "loop_inv l" "tq_inv (w_queue W)" "distinct (mail_fds ts)"
      using Cons.prems(1) s NEW_TASK by (simp_all add: threads_ok_def)
    then have "threads_ok evfd qid F S0 own ts (add_task l h a, W)"
      using threads_ok_cong[OF Cons.prems(1)[unfolded s], of "add_task l h a" W ts] NEW_TASK by simp
    from Cons.IH[OF this] show ?thesis using Cons.prems(2) NEW_TASK s by (simp add: deal_one_def)
  qed
qed simp

section \<open>All callbacks of a worker\<close>

lemma mail_only:
  assumes "threads_ok evfd qid F S0 own ts s" and "entry (fst s) cb evfd a"
  shows "cb = deal_task_message"
  using assms by (auto simp: threads_ok_def mail_entry_def entry_def bit_epoll)

lemma conn_only:
  assumes T: "threads_ok evfd qid F S0 own ts (l, W)" and o: "own f = Some a" and e: "entry l cb f args"
  shows "args = Some a \<and> (cb = conn_rd_callback \<or> cb = conn_wt_callback)"
proof -
  from threads_conn[OF T o] obtain c where "c_fd c = f" "conn_inv a (others_of F (open_conns W own) a) (c, env_of (l, W))"
    by auto
  then have "armed l a f (out_bytes (c, env_of (l, W)) \<noteq> [])" by (simp add: conn_inv_def mid_inv_def env_of_def)
  then show ?thesis using e by (auto simp: armed_def entry_def)
qed

lemma worker_step:
  assumes cfg: "cfg_ok cfg" and T: "threads_ok evfd qid F S0 own (tq_queue (w_queue (snd s))) s"
    and e: "entry (fst s) cb f args" and i: "worker_invoke cfg cb f args s = Inr s'"
  shows "\<exists>own'. threads_ok evfd qid F S0 own' (tq_queue (w_queue (snd s'))) s' \<and>
    thread_frame F (set (mail_fds (tq_queue (w_queue (snd s))))) own own' (snd s) (snd s') \<and>
    (tq_queue (w_queue (snd s')) = [] \<or> tq_queue (w_queue (snd s')) = tq_queue (w_queue (snd s)) \<and> dom own' \<subseteq> dom own) \<and>
    (\<forall>g. g \<noteq> f \<longrightarrow> g \<in> dom (io_evs (fst s)) \<longrightarrow> io_evs (fst s') g = io_evs (fst s) g)"
proof -
  obtain l W0 where s: "s = (l, W0)" by (cases s)
  let ?W = "W0\<lparr>w_no := Suc (w_no W0)\<rparr>"
  have T0: "threads_ok evfd qid F S0 own (tq_queue (w_queue W0)) (l, W0)" using T s by simp
  have T1: "threads_ok evfd qid F S0 own (tq_queue (w_queue W0)) (l, ?W)"
    using threads_ok_cong[OF T0, of l ?W "tq_queue (w_queue W0)"] T0 by (simp add: threads_ok_def)
  have "f \<in> dom (io_evs l)" using e s by (auto simp: entry_def)
  then consider (mail) "f = evfd" | (conn) a where "own f = Some a" using T0 by (auto simp: threads_ok_def)
  then show ?thesis
  proof cases
    case mail
    then have cb: "cb = deal_task_message" using mail_only[OF T0] e s by simp
    have "deal_tasks cfg (l, ?W) = Inr s'" using i cb s by (simp add: worker_invoke_def Let_def)
    then obtain own' where "threads_ok evfd qid F S0 own' (tq_queue (w_queue (snd s'))) s'"
      "thread_frame F (set (mail_fds (tq_queue (w_queue W0)))) own own' ?W (snd s')"
      "tq_queue (w_queue (snd s')) = []" "\<forall>g \<in> dom (io_evs l). io_evs (fst s') g = io_evs l g"
      using deal_tasks_inv[OF cfg, of evfd qid F S0 own "(l, ?W)" s'] T1 by auto
    then show ?thesis using s by (intro exI[of _ own']) (auto simp: thread_frame_def)
  next
    case (conn a)
    have cb: "args = Some a" "cb = conn_rd_callback \<or> cb = conn_wt_callback"
      using conn_only[OF T0 conn] e s by simp_all
    from threads_conn[OF T1 conn] obtain c where c: "w_conns ?W a = Some c" "c_fd c = f"
      "conn_inv a (others_of F (open_conns ?W own) a) (c, env_of (l, ?W))" by blast
    have R: "reg_inv (e_reg (env_of (l, ?W))) (S0 ++ own)" and Sf: "(S0 ++ own) (c_fd c) = Some a"
      using T1 conn c(2) by (simp_all add: threads_ok_def env_of_def)
    have fin: ?thesis if h: "handled a (others_of F (open_conns ?W own) a) (S0 ++ own) (c, env_of (l, ?W)) (c', E')"
      and s': "fst s' = e_loop E'" "w_pool (snd s') = e_pool E'" "w_reg (snd s') = e_reg E'"
        "w_conns (snd s') = (w_conns ?W)(a \<mapsto> c')" "w_fresh (snd s') = w_fresh ?W" "w_queue (snd s') = w_queue ?W"
        "w_app (snd s') = e_app E'" for c' E'
    proof -
      obtain own' where "threads_ok evfd qid F S0 own' (tq_queue (w_queue W0)) s'" "thread_frame F {} own own' ?W (snd s')"
        "\<forall>g. g \<noteq> f \<longrightarrow> io_evs (fst s') g = io_evs l g"
        using handled_thread[OF T1 conn c(1) h s'(2-7)] s'(1) by (cases s') auto
      then show ?thesis using s'(6) s by (intro exI[of _ own']) (auto simp: thread_frame_def)
    qed
    show ?thesis
    proof (cases "cb = conn_rd_callback")
      case True
      with i cb(1) c(1) s obtain c' E' where
        d: "do_read cfg a (c, env_of (l, ?W)) (w_rd W0 (w_no W0)) = Inr (c', E')"
        and s': "s' = put_conn (l, ?W) a (c', E')"
        by (auto simp: worker_invoke_def Let_def res_bind_Inr_iff)
      show ?thesis using do_read_handled[OF cfg c(3) _ _ d] R Sf s' by (intro fin) (simp_all add: put_conn_def)
    next
      case False
      with i cb c(1) s obtain sent c' E' where
        d: "do_write cfg a (c, env_of (l, ?W)) (w_wr W0 (w_no W0)) = Inr (sent, c', E')"
        and s': "s' = (fst (put_conn (l, ?W) a (c', E')),
          (snd (put_conn (l, ?W) a (c', E')))\<lparr>w_sent := (w_sent ?W)(a := w_sent ?W a @ sent)\<rparr>)"
        by (auto simp: worker_invoke_def Let_def res_bind_Inr_iff)
      show ?thesis using do_write_handled[OF cfg c(3) _ _ d] R Sf s' by (intro fin) (simp_all add: put_conn_def)
    qed
  qed
qed

lemma worker_law:
  assumes "cfg_ok cfg" and "thread_inv evfd qid F S0 s" and "entry (fst s) cb f args"
    and "worker_invoke cfg cb f args s = Inr s'"
  shows "thread_inv evfd qid F S0 s' \<and>
    (\<forall>g. g \<noteq> f \<longrightarrow> g \<in> dom (io_evs (fst s)) \<longrightarrow> io_evs (fst s') g = io_evs (fst s) g)"
  using assms(2) worker_step[OF assms(1) _ assms(3,4)] unfolding thread_inv_def by blast

interpretation wk: loop_callbacks "worker_invoke cfg" "\<lambda>s. cfg_ok cfg \<and> thread_inv evfd qid F S0 s"
  for cfg :: "('a, 'u) server_cfg" and evfd qid F S0
proof
  show "loop_inv (fst s)" if "cfg_ok cfg \<and> thread_inv evfd qid F S0 s" for s :: "event_loop \<times> 'a world"
    using that by (auto simp: thread_inv_def threads_ok_def)
  show "(cfg_ok cfg \<and> thread_inv evfd qid F S0 s') \<and>
      (\<forall>g. g \<noteq> f \<longrightarrow> g \<in> dom (io_evs (fst s)) \<longrightarrow> io_evs (fst s') g = io_evs (fst s) g)"
    if "cfg_ok cfg \<and> thread_inv evfd qid F S0 s" "entry (fst s) cb f a" "worker_invoke cfg cb f a s = Inr s'"
    for s s' :: "event_loop \<times> 'a world" and cb f a
    using worker_law[of cfg evfd qid F S0 s cb f a s'] that by blast
qed

section \<open>A worker that starts\<close>

definition world_new :: "(nat \<Rightarrow> nat option \<times> rd list) \<Rightarrow> (nat \<Rightarrow> wr list) \<Rightarrow> task_msg thread_queue \<Rightarrow> 'a env \<Rightarrow> 'a world" where
  "world_new rds wrs q E =
     \<lparr>w_pool = e_pool E, w_reg = e_reg E, w_app = e_app E, w_conns = Map.empty, w_fresh = 0, w_queue = q,
      w_sent = (\<lambda>_. []), w_rd = rds, w_wr = wrs, w_no = 0\<rparr>"

lemma thread_main_spec:
  assumes "thread_main (\<lambda>_. True) evfd qid = Some l"
  shows "io_evs l = [evfd \<mapsto> registered None deal_task_message EPOLLIN (Some qid)]" and "loop_inv l"
proof -
  let ?l0 = "event_loop_new (\<lambda>_. True)"
  have l: "l = add_io_event ?l0 evfd deal_task_message EPOLLIN (Some qid)"
    using assms by (simp add: thread_main_def set_callback_def)
  have L0: "loop_inv ?l0" by (simp add: loop_inv_new)
  show "io_evs l = [evfd \<mapsto> registered None deal_task_message EPOLLIN (Some qid)]" and "loop_inv l"
    using add_io_event_spec[OF L0, of EPOLLIN evfd deal_task_message "Some qid"]
    by (simp_all add: l rw_mask_def) (simp add: event_loop_new_def)
qed

lemma thread_inv_new:
  assumes m: "thread_main (\<lambda>_. True) evfd qid = Some l" and q: "tq_inv q"
    and P: "pool_inv (e_pool E) F" and R: "reg_inv (e_reg E) S0"
    and f: "distinct (mail_fds (tq_queue q))" "set (mail_fds (tq_queue q)) \<inter> insert evfd (dom S0) = {}"
  shows "thread_inv evfd qid F S0 (l, world_new rds wrs q E)"
proof -
  let ?W = "world_new rds wrs q E"
  note ev = thread_main_spec(1)[OF m] and L = thread_main_spec(2)[OF m]
  have oc: "open_conns ?W Map.empty = Map.empty" by (simp add: open_conns_def world_new_def)
  have "all_ok (e_pool E) F Map.empty" using P by (simp add: all_ok_def)
  then have "threads_ok evfd qid F S0 Map.empty (tq_queue q) (l, ?W)"
    using L ev q R f oc
    by (simp add: threads_ok_def mail_entry_def registered_def io_event_new_def world_new_def Let_def)
  moreover have "w_queue ?W = q" by (simp add: world_new_def)
  ultimately show ?thesis unfolding thread_inv_def by auto
qed

text \<open>
  A worker thread serves any batch of events that epoll can report, for any number of
  connections at once and whatever the sockets answer. The batch is processed to its end with
  every connection, the loop table, the registry and the pool in order, or it ends in a fault
  that a registered callback itself produced on a state that was in order; the dispatcher never
  meets a descriptor that is not in its table and never calls a null pointer, even when earlier
  events of the batch closed connections or opened new ones.
\<close>

theorem worker_batch_safe:
  assumes "cfg_ok cfg" and "thread_inv evfd qid F S0 s" and "distinct (map fst evs)"
    and "\<forall>fe \<in> set evs. reported (fst s) fe"
  shows "(\<exists>s'. run (dispatch_one (worker_invoke cfg)) s evs = Inr s' \<and> thread_inv evfd qid F S0 s') \<or>
    (\<exists>cb f a t e. thread_inv evfd qid F S0 t \<and> entry (fst t) cb f a \<and>
       worker_invoke cfg cb f a t = Inl e \<and> run (dispatch_one (worker_invoke cfg)) s evs = Inl e)"
  using wk.batch_safe[of cfg evfd qid F S0 s evs] assms by blast

theorem worker_batch_safe_witness:
  "\<exists>(s :: event_loop \<times> unit world) s'. thread_inv 9 0 {} Map.empty s \<and> tq_queue (w_queue (snd s)) = [NEW_CONN 5] \<and>
     run (dispatch_one (worker_invoke echo_cfg)) s [(9, EPOLLIN)] = Inr s' \<and> thread_inv 9 0 {} Map.empty s'"
proof -
  let ?E = "env_new 10 ()" and ?q = "tq_send thread_queue_new (NEW_CONN 5)"
  obtain l where l: "thread_main (\<lambda>_. True) 9 0 = Some l" by (simp add: thread_main_def set_callback_def)
  let ?s = "(l, world_new (\<lambda>_. (None, [])) (\<lambda>_. []) ?q ?E) :: event_loop \<times> unit world"
  have q: "tq_inv ?q" "tq_queue ?q = [NEW_CONN 5]"
    using tq.send_law[OF tq_inv_new, of "NEW_CONN 5"] by (simp_all add: thread_queue_new_def)
  have P: "pool_inv (e_pool ?E) {}" and R: "reg_inv (e_reg ?E) Map.empty"
    unfolding env_new_def by (simp_all add: buf_pool_new_inv reg_inv_new)
  have T: "thread_inv 9 0 {} Map.empty ?s" using thread_inv_new[OF l q(1) P R] q(2) by simp
  have ev: "io_evs l 9 = Some (registered None deal_task_message EPOLLIN (Some 0))" "loop_inv l"
    using thread_main_spec[OF l] by simp_all
  then have "reported l (9, EPOLLIN)"
    by (auto simp: reported_def loop_inv_def registered_def io_event_new_def Let_def epoll_bits)
  then have res: "(\<exists>s'. run (dispatch_one (worker_invoke echo_cfg)) ?s [(9, EPOLLIN)] = Inr s' \<and> thread_inv 9 0 {} Map.empty s') \<or>
    (\<exists>cb f a t e. thread_inv 9 0 {} Map.empty t \<and> entry (fst t) cb f a \<and>
       worker_invoke echo_cfg cb f a t = Inl e \<and> run (dispatch_one (worker_invoke echo_cfg)) ?s [(9, EPOLLIN)] = Inl e)"
    by (intro worker_batch_safe[OF cfg_ok_echo T]) simp_all
  have in_r: "in_range (e_reg ?E) 5" by (simp add: env_new_def in_range_def registry_new_def)
  obtain R' where R': "increase_conn (e_reg ?E) 5 0 = Inr R'"
    using increase_conn_spec[OF R in_r, of 0] by auto
  have "\<exists>s'. run (dispatch_one (worker_invoke echo_cfg)) ?s [(9, EPOLLIN)] = Inr s'"
    using ev(1) q(2) R'
    by (simp add: dispatch_one_def call_ptr_def worker_invoke_def deal_tasks_def deal_one_def tq_recv_def
        world_new_def env_of_def tcp_conn_new_def call_conn_cb_def echo_cfg_def registered_def io_event_new_def
        Let_def in_mask bit_epoll)
  with res obtain s' where "run (dispatch_one (worker_invoke echo_cfg)) ?s [(9, EPOLLIN)] = Inr s'"
    "thread_inv 9 0 {} Map.empty s'"
    by (metis sum.distinct(1))
  moreover have "tq_queue (w_queue (snd ?s)) = [NEW_CONN 5]" using q(2) by (simp add: world_new_def)
  ultimately show ?thesis using T by (intro exI[of _ ?s] exI[of _ s']) blast
qed

section \<open>Two configurations that do not work\<close>

text \<open>
  With \<open>threadNum\<close> not positive no pool is made and the member keeps whatever memory held: the first
  connection reads it.
\<close>

lemma no_threads_uninitialised:
  assumes "tcp_server_new (Some sfd) True True maxConn threadNum garbage this E0 = Inr (sv, E)"
    and "sint threadNum \<le> 0" and "0 < sint maxConn"
  shows "do_accept cfg this' [Accepted f] (sv, E) = Inl Uninit_read"
  using assms by (auto simp: tcp_server_new_def Let_def res_bind_Inr_iff check_Inr_iff registry_new_def get_conn_num_def)

text \<open>While the process has no descriptor left, accepting is tried again and again and never gives the loop a turn.\<close>

lemma no_descriptors_spins:
  "do_accept cfg this (replicate n (Accept_err ACC_EMFILE)) s = Inl No_return"
  by (induction n) simp_all

end
