(* ===== verification/Server_System.thy ===== *)
theory Server_System
  imports Tcp_Server Tcp_Conn_Props
begin

text \<open>
  The threads of a TCP server together: the thread that accepts (reactor/src/tcp_server.cc) and
  the workers of its pool (reactor/src/thread_pool.cc), each with a loop of its own, which share
  the buffer pool, the registry of connections, the connection objects, the application's data
  and the mailboxes. A step is what one thread does for one event: an accepted connection, a
  task handed to all workers, one reported event of a worker's loop, or the tasks a worker runs
  after a batch. The steps interleave in any order.

  \<open>sys_ok\<close> is the invariant of the whole: every worker satisfies \<open>threads_ok\<close> with the buffers and
  registrations of all others as its surroundings.
\<close>

section \<open>The state of all threads\<close>

record 'a server_sys =
  y_fd :: int
  y_main :: event_loop
  y_tp :: thread_pool
  y_evfds :: "fd list"
  y_loops :: "event_loop list"
  y_world :: "'a world"

text \<open>What worker \<open>i\<close> works on, and the state after it did.\<close>

definition thread_view :: "'a server_sys \<Rightarrow> nat \<Rightarrow> event_loop \<times> 'a world" where
  "thread_view S i = (y_loops S ! i, (y_world S)\<lparr>w_queue := tp_queues (y_tp S) ! i\<rparr>)"

definition put_thread :: "'a server_sys \<Rightarrow> nat \<Rightarrow> event_loop \<times> 'a world \<Rightarrow> 'a server_sys" where
  "put_thread S i s = S\<lparr>y_loops := (y_loops S)[i := fst s], y_world := snd s,
     y_tp := (y_tp S)\<lparr>tp_queues := (tp_queues (y_tp S))[i := w_queue (snd s)]\<rparr>\<rparr>"

definition mails :: "'a server_sys \<Rightarrow> int list" where
  "mails S = concat (map (\<lambda>q. mail_fds (tq_queue q)) (tp_queues (y_tp S)))"

text \<open>Descriptors that the server has open: those its loops listen to and those under way to a worker.\<close>

definition open_fds :: "'a server_sys \<Rightarrow> int set" where
  "open_fds S = dom (io_evs (y_main S)) \<union> (\<Union>l \<in> set (y_loops S). dom (io_evs l)) \<union> set (mails S)"

text \<open>The object after its constructor, with the workers that have entered their loops.\<close>

definition server_start ::
  "fd list \<Rightarrow> (nat \<Rightarrow> nat option \<times> rd list) \<Rightarrow> (nat \<Rightarrow> wr list) \<Rightarrow> tcp_server \<times> 'a env \<Rightarrow> 'a server_sys res" where
  "server_start evfds rds wrs s =
     (case sv_threads (fst s) of
        Some (Some tp) \<Rightarrow>
          (let loops = map (\<lambda>i. thread_main (\<lambda>_. True) (evfds ! i) i) [0..<length (tp_queues tp)]
           in res_bind (check Null_deref (None \<notin> set loops)) (\<lambda>_.
             Inr \<lparr>y_fd = sv_fd (fst s), y_main = e_loop (snd s), y_tp = tp, y_evfds = evfds, y_loops = map the loops,
                  y_world = world_new rds wrs thread_queue_new (snd s)\<rparr>))
      | _ \<Rightarrow> Inl Null_deref)"

text \<open>A new loop is not null, so every worker enters one.\<close>

lemma server_start_eq:
  "server_start evfds rds wrs s =
     (case sv_threads (fst s) of
        Some (Some tp) \<Rightarrow>
          Inr \<lparr>y_fd = sv_fd (fst s), y_main = e_loop (snd s), y_tp = tp, y_evfds = evfds,
               y_loops = map (\<lambda>i. the (thread_main (\<lambda>_. True) (evfds ! i) i)) [0..<length (tp_queues tp)],
               y_world = world_new rds wrs thread_queue_new (snd s)\<rparr>
      | _ \<Rightarrow> Inl Null_deref)"
  by (auto simp: server_start_def thread_main_def set_callback_def check_def comp_def split: option.splits)

inductive server_step ::
  "('a, 'u) server_cfg \<Rightarrow> (task_func \<Rightarrow> nat \<Rightarrow> event_loop \<times> 'a world \<Rightarrow> (event_loop \<times> 'a world) res) \<Rightarrow>
   'a server_sys \<Rightarrow> 'a server_sys \<Rightarrow> bool" for cfg task where
  accept: "do_accept cfg this as (\<lparr>sv_fd = y_fd S, sv_threads = Some (Some (y_tp S))\<rparr>, env_of (y_main S, y_world S)) =
      Inr (r, \<lparr>sv_fd = fd, sv_threads = Some (Some tp)\<rparr>, E) \<Longrightarrow>
    \<forall>f. Accepted f \<in> set as \<longrightarrow> f \<notin> open_fds S \<Longrightarrow>
    server_step cfg task S (S\<lparr>y_tp := tp\<rparr>)"
| send: "send_task (y_tp S) func args = Inr tp \<Longrightarrow> server_step cfg task S (S\<lparr>y_tp := tp\<rparr>)"
| event: "i < length (y_loops S) \<Longrightarrow> reported (y_loops S ! i) fe \<Longrightarrow>
    dispatch_one (worker_invoke cfg) (thread_view S i) fe = Inr s \<Longrightarrow>
    server_step cfg task S (put_thread S i s)"
| tasks: "i < length (y_loops S) \<Longrightarrow> execute_ready_task task (thread_view S i) = Inr s \<Longrightarrow>
    server_step cfg task S (put_thread S i s)"

inductive_cases server_stepE: "server_step cfg task S S'"

section \<open>Who serves what\<close>

text \<open>\<open>G\<close> maps each open connection's descriptor to the worker that serves it and to its object.\<close>

definition own_of :: "(int \<rightharpoonup> nat \<times> nat) \<Rightarrow> nat \<Rightarrow> (int \<rightharpoonup> nat)" where
  "own_of G i f = (case G f of Some (j, a) \<Rightarrow> if j = i then Some a else None | None \<Rightarrow> None)"

definition other_of :: "(int \<rightharpoonup> nat \<times> nat) \<Rightarrow> nat \<Rightarrow> (int \<rightharpoonup> nat)" where
  "other_of G i f = (case G f of Some (j, a) \<Rightarrow> if j = i then None else Some a | None \<Rightarrow> None)"

definition regs :: "(int \<rightharpoonup> nat \<times> nat) \<Rightarrow> (int \<rightharpoonup> nat)" where
  "regs G f = map_option snd (G f)"

definition upd_own :: "(int \<rightharpoonup> nat \<times> nat) \<Rightarrow> nat \<Rightarrow> (int \<rightharpoonup> nat) \<Rightarrow> (int \<rightharpoonup> nat \<times> nat)" where
  "upd_own G i own' f = (case own' f of Some a \<Rightarrow> Some (i, a)
     | None \<Rightarrow> (case G f of Some (j, a) \<Rightarrow> if j = i then None else Some (j, a) | None \<Rightarrow> None))"

lemmas own_defs = own_of_def other_of_def regs_def upd_own_def

lemma own_of_Some: "own_of G i f = Some a \<longleftrightarrow> G f = Some (i, a)"
  by (auto simp: own_of_def split: option.splits)

lemma other_of_Some: "other_of G i f = Some a \<longleftrightarrow> (\<exists>j. j \<noteq> i \<and> G f = Some (j, a))"
  by (auto simp: other_of_def split: option.splits)

lemma regs_Some: "regs G f = Some a \<longleftrightarrow> (\<exists>j. G f = Some (j, a))"
  by (auto simp: regs_def)

lemma upd_own_Some:
  "upd_own G i own' f = Some (j, a) \<longleftrightarrow> (if j = i then own' f = Some a else own' f = None \<and> G f = Some (j, a))"
  by (auto simp: upd_own_def split: option.splits)

lemmas own_Some = own_of_Some other_of_Some regs_Some upd_own_Some

lemma map_eqI: "(\<And>x y. m x = Some y \<longleftrightarrow> m' x = Some y) \<Longrightarrow> m = m'"
  by (rule ext) (metis not_Some_eq)

lemma other_own: "other_of G i ++ own_of G i = regs G"
  by (rule map_eqI) (auto simp: map_add_Some_iff own_Some own_of_def split: option.splits)

lemma dom_other_own: "dom (other_of G i) \<union> dom (own_of G i) = dom G" "dom (other_of G i) \<inter> dom (own_of G i) = {}"
  by (auto simp: own_of_def other_of_def split: option.splits if_splits)

lemma ran_other_own: "ran (other_of G i) \<union> ran (own_of G i) = ran (regs G)"
proof -
  have "(\<exists>f. other_of G i f = Some x) \<or> (\<exists>f. own_of G i f = Some x) \<longleftrightarrow> (\<exists>f. regs G f = Some x)" for x
    unfolding own_Some by metis
  then show ?thesis unfolding ran_def by blast
qed

text \<open>Replacing what one worker serves changes only that.\<close>

lemma upd_own:
  assumes "dom (other_of G i) \<inter> dom own' = {}"
  shows "own_of (upd_own G i own') i = own'" and "other_of (upd_own G i own') i = other_of G i"
    and "j \<noteq> i \<Longrightarrow> own_of (upd_own G i own') j = own_of G j"
proof -
  have n: "own' f = None" if "j \<noteq> i" "G f = Some (j, a)" for f j a
    using assms that by (fastforce simp: dom_def other_of_Some)
  show "own_of (upd_own G i own') i = own'" by (rule map_eqI) (simp add: own_Some)
  show "other_of (upd_own G i own') i = other_of G i" using n by (intro map_eqI) (auto simp: own_Some)
  show "own_of (upd_own G i own') j = own_of G j" if "j \<noteq> i" using n that by (intro map_eqI) (auto simp: own_Some)
qed

lemma upd_own_same: "upd_own G i (own_of G i) = G"
  by (rule ext) (auto simp: upd_own_def own_of_def split: option.splits)

section \<open>Buffers of some and of all connections\<close>

lemma dom_bufs: "(\<Union>b \<in> dom C. conn_bufs (the (C b))) = \<Union> (conn_bufs ` ran C)"
  by (force simp: ran_def)

lemma all_ok_pool: "all_ok P F C \<Longrightarrow> pool_inv P (F \<union> \<Union> (conn_bufs ` ran C))"
  unfolding all_ok_def dom_bufs by blast

lemma all_ok_frame: "all_ok P F C \<Longrightarrow> C a = Some c \<Longrightarrow> F \<inter> conn_bufs c = {}"
  and all_ok_io: "all_ok P F C \<Longrightarrow> C a = Some c \<Longrightarrow> set_option (c_ibuf c) \<inter> set_option (c_obuf c) = {}"
  and all_ok_disj: "all_ok P F C \<Longrightarrow> a \<noteq> b \<Longrightarrow> C a = Some c \<Longrightarrow> C b = Some d \<Longrightarrow> conn_bufs c \<inter> conn_bufs d = {}"
  by (simp_all add: all_ok_def)

lemma all_okI:
  assumes "pool_inv P (F \<union> \<Union> (conn_bufs ` ran C))" and "\<And>a c. C a = Some c \<Longrightarrow> F \<inter> conn_bufs c = {}"
    and "\<And>a c. C a = Some c \<Longrightarrow> set_option (c_ibuf c) \<inter> set_option (c_obuf c) = {}"
    and "\<And>a b c d. a \<noteq> b \<Longrightarrow> C a = Some c \<Longrightarrow> C b = Some d \<Longrightarrow> conn_bufs c \<inter> conn_bufs d = {}"
  shows "all_ok P F C"
  using assms unfolding all_ok_def dom_bufs by blast

lemma all_ok_split:
  assumes A: "all_ok P {} (D ++ C)" and d: "dom D \<inter> dom C = {}"
  shows "all_ok P (\<Union> (conn_bufs ` ran D)) C"
proof -
  have r: "ran (D ++ C) = ran D \<union> ran C" by (rule ran_map_add[OF d])
  have DC: "(D ++ C) b = Some c" if "C b = Some c" for b c using that by simp
  have DD: "(D ++ C) b = Some c" if "D b = Some c" for b c using that d by (auto simp: map_add_Some_iff)
  have "conn_bufs e \<inter> conn_bufs c = {}" if c: "C b = Some c" and e: "D b' = Some e" for b b' c e
  proof -
    have "b' \<noteq> b" using c e d by blast
    then show ?thesis by (rule all_ok_disj[OF A _ DD[OF e] DC[OF c]])
  qed
  then have "\<Union> (conn_bufs ` ran D) \<inter> conn_bufs c = {}" if "C b = Some c" for b c
    using that by (fastforce simp: ran_def)
  moreover have "pool_inv P (\<Union> (conn_bufs ` ran D) \<union> \<Union> (conn_bufs ` ran C))"
    using all_ok_pool[OF A] r by simp
  ultimately show ?thesis using all_ok_io[OF A DC] all_ok_disj[OF A _ DC DC] by (intro all_okI)
qed

lemma all_ok_join:
  assumes A: "all_ok P (\<Union> (conn_bufs ` ran D)) C" and d: "dom D \<inter> dom C = {}" and D: "all_ok P0 F0 D"
  shows "all_ok P {} (D ++ C)"
proof -
  have r: "ran (D ++ C) = ran D \<union> ran C" by (rule ran_map_add[OF d])
  have DC: "(D ++ C) b = Some c \<longleftrightarrow> C b = Some c \<or> D b = Some c" for b c
    using d by (auto simp: map_add_Some_iff domIff)
  have x: "conn_bufs e \<inter> conn_bufs c = {}" if c: "C b = Some c" and e: "D b' = Some e" for b b' c e
  proof -
    have "conn_bufs e \<subseteq> \<Union> (conn_bufs ` ran D)" using ranI[of D, OF e] by blast
    moreover have "\<Union> (conn_bufs ` ran D) \<inter> conn_bufs c = {}" by (rule all_ok_frame[OF A c])
    ultimately show ?thesis by blast
  qed
  have "conn_bufs c \<inter> conn_bufs e = {}" if "a \<noteq> b" "(D ++ C) a = Some c" "(D ++ C) b = Some e" for a b c e
  proof -
    have "C a = Some c \<or> D a = Some c" "C b = Some e \<or> D b = Some e" using that(2,3) by (simp_all only: DC)
    then show ?thesis
      using all_ok_disj[OF A that(1)] all_ok_disj[OF D that(1)] x[of a c b e] x[of b e a c] by (elim disjE) (simp_all add: Int_commute)
  qed
  moreover have "set_option (c_ibuf c) \<inter> set_option (c_obuf c) = {}" if "(D ++ C) a = Some c" for a c
    using that all_ok_io[OF A] all_ok_io[OF D] DC by blast
  moreover have "pool_inv P (\<Union> (conn_bufs ` ran (D ++ C)))"
    using all_ok_pool[OF A] r by simp
  ultimately show ?thesis by (intro all_okI) simp_all
qed

definition bufs_of :: "'a world \<Rightarrow> (int \<rightharpoonup> nat) \<Rightarrow> nat set" where
  "bufs_of W M = \<Union> (conn_bufs ` ran (open_conns W M))"

lemma open_conns_add:
  "ran M \<union> ran N = ran K \<Longrightarrow> open_conns W M ++ open_conns W N = open_conns W K"
  by (rule ext) (auto simp: open_conns_def restrict_map_def map_add_def split: option.splits)

lemma open_conns_disjoint: "ran M \<inter> ran N = {} \<Longrightarrow> dom (open_conns W M) \<inter> dom (open_conns W N) = {}"
  by (auto simp: open_conns_def restrict_map_def split: if_splits)

section \<open>The invariant of the whole server\<close>

definition worker_ok :: "(int \<rightharpoonup> nat \<times> nat) \<Rightarrow> 'a server_sys \<Rightarrow> nat \<Rightarrow> bool" where
  "worker_ok G S i \<longleftrightarrow>
     threads_ok (y_evfds S ! i) i (bufs_of (y_world S) (other_of G i)) (other_of G i) (own_of G i)
       (tq_queue (tp_queues (y_tp S) ! i)) (thread_view S i)"

definition sys_ok :: "(int \<rightharpoonup> nat \<times> nat) \<Rightarrow> 'a server_sys \<Rightarrow> bool" where
  "sys_ok G S \<longleftrightarrow> tp_inv (y_tp S) \<and> length (tp_queues (y_tp S)) = length (y_loops S) \<and>
     length (y_evfds S) = length (y_loops S) \<and> distinct (y_evfds S) \<and>
     (\<forall>f i a. G f = Some (i, a) \<longrightarrow> i < length (y_loops S)) \<and>
     inj_on (regs G) (dom G) \<and> all_ok (w_pool (y_world S)) {} (open_conns (y_world S) (regs G)) \<and>
     distinct (mails S) \<and> set (mails S) \<inter> set (y_evfds S) = {} \<and> dom G \<inter> set (y_evfds S) = {} \<and>
     (\<forall>i < length (y_loops S). worker_ok G S i)"

text \<open>What a worker needs of a change that another thread made.\<close>

lemma threads_kept:
  assumes T: "threads_ok evfd qid F S0 own ts (l, W)"
    and p: "same_on (bufs_of W own) (w_pool W) (w_pool W')"
    and c: "\<And>b. b \<in> ran own \<Longrightarrow> w_conns W' b = w_conns W b" and f: "w_fresh W \<le> w_fresh W'"
    and r: "reg_inv (w_reg W') (S0' ++ own)" and d: "dom S0' \<inter> dom own = {}"
    and a: "all_ok (w_pool W') F' (open_conns W' own)" and q: "w_queue W' = w_queue W"
    and m: "set (mail_fds ts) \<inter> dom S0' = {}"
  shows "threads_ok evfd qid F' S0' own ts (l, W')"
proof -
  have oc: "open_conns W' own = open_conns W own"
    using c by (auto simp: open_conns_def restrict_map_def)
  have "\<exists>e. w_conns W' b = Some e \<and> c_fd e = g \<and> conn_inv b (others_of F' (open_conns W' own) b) (e, env_of (l, W'))"
    if o: "own g = Some b" for g b
  proof -
    from threads_conn[OF T o] obtain e where e: "w_conns W b = Some e" "c_fd e = g"
      "conn_inv b (others_of F (open_conns W own) b) (e, env_of (l, W))" by blast
    have W'b: "w_conns W' b = Some e" using c[OF ranI[of own, OF o]] e(1) by simp
    have eo: "open_conns W own b = Some e" using e(1) o by (simp add: open_conns_own)
    then have "conn_bufs e \<subseteq> bufs_of W own" unfolding bufs_of_def by (blast intro: ranI)
    then have "same_on (conn_bufs e) (w_pool W) (w_pool W')" by (rule same_on_subset[OF p])
    moreover have "bufs_ok (w_pool W') (others_of F' (open_conns W' own) b) e"
      using all_ok_bufs[OF a] eo oc by simp
    moreover have "loop_inv l" using T by (simp add: threads_ok_def)
    ultimately have "conn_inv b (others_of F' (open_conns W' own) b) (e, env_of (l, W'))"
      using conn_inv_env[OF e(3), of "env_of (l, W')"] by (simp add: env_of_def)
    then show ?thesis using W'b e(2) by blast
  qed
  moreover have "\<forall>x \<in> ran own. x < w_fresh W'" using T f by (auto simp: threads_ok_def)
  moreover have "set (mail_fds ts) \<inter> insert evfd (dom S0' \<union> dom own) = {}"
    using T m unfolding threads_ok_def by blast
  ultimately show ?thesis using T r d a q by (simp add: threads_ok_def)
qed

text \<open>A new mailbox for a worker that is otherwise as before.\<close>

lemma threads_mail:
  assumes "threads_ok evfd qid F S0 own ts (l, W)" and "tq_inv q"
    and "distinct (mail_fds ts')" and "set (mail_fds ts') \<inter> insert evfd (dom S0 \<union> dom own) = {}"
  shows "threads_ok evfd qid F S0 own ts' (l, W\<lparr>w_queue := q\<rparr>)"
proof -
  have "env_of (l, W\<lparr>w_queue := q\<rparr>) = env_of (l, W)" by (simp add: env_of_def)
  moreover have "open_conns (W\<lparr>w_queue := q\<rparr>) own = open_conns W own" by (simp add: open_conns_def)
  ultimately show ?thesis using assms by (simp add: threads_ok_def)
qed

section \<open>One thread moves\<close>

lemma concat_update:
  assumes "i < length xs" and "distinct (concat xs)" and "y = [] \<or> y = xs ! i"
  shows "distinct (concat (xs[i := y])) \<and> set (concat (xs[i := y])) \<subseteq> set (concat xs)"
proof -
  have xs: "xs = take i xs @ xs ! i # drop (Suc i) xs" using assms(1) by (rule id_take_nth_drop)
  have u: "xs[i := y] = take i xs @ y # drop (Suc i) xs" by (rule upd_conv_take_nth_drop[OF assms(1)])
  have "concat xs = concat (take i xs) @ xs ! i @ concat (drop (Suc i) xs)" by (subst xs) simp
  then show ?thesis using assms(2,3) unfolding u by auto
qed

lemma concat_disjoint:
  "distinct (concat xs) \<Longrightarrow> i < j \<Longrightarrow> j < length xs \<Longrightarrow> set (xs ! i) \<inter> set (xs ! j) = {}"
proof (induction xs arbitrary: i j)
  case (Cons x xs)
  then obtain k where k: "j = Suc k" "k < length xs" by (cases j) auto
  show ?case
  proof (cases i)
    case 0
    have "set (xs ! k) \<subseteq> set (concat xs)" using k(2) by force
    then show ?thesis using Cons.prems(1) 0 k by auto
  next
    case (Suc m)
    then show ?thesis using Cons k by simp
  qed
qed simp

lemma nth_mails: "i < length (tp_queues (y_tp S)) \<Longrightarrow> set (mail_fds (tq_queue (tp_queues (y_tp S) ! i))) \<subseteq> set (mails S)"
  by (force simp: mails_def)

lemma mails_disjoint:
  assumes "distinct (mails S)" and "i < length (tp_queues (y_tp S))" and "j < length (tp_queues (y_tp S))" and "i \<noteq> j"
  shows "set (mail_fds (tq_queue (tp_queues (y_tp S) ! i))) \<inter> set (mail_fds (tq_queue (tp_queues (y_tp S) ! j))) = {}"
  using assms concat_disjoint[of "map (\<lambda>q. mail_fds (tq_queue q)) (tp_queues (y_tp S))" i j]
    concat_disjoint[of "map (\<lambda>q. mail_fds (tq_queue q)) (tp_queues (y_tp S))" j i]
  by (cases "i < j") (auto simp: mails_def)

lemma sys_worker: "sys_ok G S \<Longrightarrow> i < length (y_loops S) \<Longrightarrow> worker_ok G S i"
  by (simp add: sys_ok_def)

lemma sys_fresh:
  assumes "sys_ok G S" and "a \<in> ran (regs G)"
  shows "a < w_fresh (y_world S)"
proof -
  from assms(2) obtain f i where f: "G f = Some (i, a)" by (auto simp: ran_def regs_Some)
  then have "i < length (y_loops S)" using assms(1) unfolding sys_ok_def by blast
  then have "worker_ok G S i" by (rule sys_worker[OF assms(1)])
  moreover have "a \<in> ran (own_of G i)" using f by (auto simp: ran_def own_of_Some)
  ultimately show ?thesis by (simp add: worker_ok_def threads_ok_def thread_view_def)
qed

lemma inj_ran_disjoint:
  assumes "inj_on (regs G) (dom G)"
  shows "ran (other_of G i) \<inter> ran (own_of G i) = {}"
proof -
  have False if "other_of G i f = Some a" "own_of G i g = Some a" for f g a
  proof -
    from that obtain j where j: "j \<noteq> i" "G f = Some (j, a)" "G g = Some (i, a)" by (auto simp: own_Some)
    then have "regs G f = regs G g" by (simp add: regs_def)
    then have "f = g" using assms j by (meson domI inj_onD)
    then show False using j by simp
  qed
  then show ?thesis by (fastforce simp: ran_def)
qed

lemma own_in_other: "j \<noteq> i \<Longrightarrow> ran (own_of G j) \<subseteq> ran (other_of G i)"
  unfolding ran_def own_Some by blast

lemma inj_upd_own:
  assumes i: "inj_on (regs G) (dom G)" and o: "inj_on own' (dom own')"
    and d: "ran (other_of G i) \<inter> ran own' = {}"
  shows "inj_on (regs (upd_own G i own')) (dom (upd_own G i own'))"
proof (rule inj_onI)
  fix f g assume f: "f \<in> dom (upd_own G i own')" and g: "g \<in> dom (upd_own G i own')"
    and e: "regs (upd_own G i own') f = regs (upd_own G i own') g"
  from f obtain j a where j: "upd_own G i own' f = Some (j, a)" by auto
  with g e obtain k where k: "upd_own G i own' g = Some (k, a)" by (auto simp: regs_def)
  have x: False if "own' p = Some a" "m \<noteq> i" "G r = Some (m, a)" for p m r
    using d that by (auto simp: ran_def own_Some)
  show "f = g"
  proof (cases "j = i \<longleftrightarrow> k = i")
    case True
    then show ?thesis using j k i o by (auto simp: upd_own_Some regs_def inj_on_def split: if_splits) (metis domI option.map(2) snd_conv)+
  next
    case False
    then show ?thesis using j k x by (auto simp: upd_own_Some split: if_splits)
  qed
qed

lemma put_thread_fields [simp]:
  "y_loops (put_thread S i s) = (y_loops S)[i := fst s]" "y_world (put_thread S i s) = snd s"
  "y_evfds (put_thread S i s) = y_evfds S" "y_main (put_thread S i s) = y_main S"
  "tp_queues (y_tp (put_thread S i s)) = (tp_queues (y_tp S))[i := w_queue (snd s)]"
  by (simp_all add: put_thread_def)

lemma ran_restrict_mono: "A \<subseteq> B \<Longrightarrow> ran (m |` A) \<subseteq> ran (m |` B)"
  by (fastforce simp: ran_def restrict_map_def split: if_splits)

lemma bufs_of_mono: "ran M \<subseteq> ran N \<Longrightarrow> bufs_of W M \<subseteq> bufs_of W N"
  using ran_restrict_mono[of "ran M" "ran N" "w_conns W"] unfolding bufs_of_def open_conns_def by blast

lemma bufs_of_queue [simp]: "bufs_of (W\<lparr>w_queue := q\<rparr>) M = bufs_of W M"
  "open_conns (W\<lparr>w_queue := q\<rparr>) M = open_conns W M"
  by (simp_all add: bufs_of_def open_conns_def)

lemma open_conns_cong: "(\<And>b. b \<in> ran M \<Longrightarrow> w_conns W' b = w_conns W b) \<Longrightarrow> open_conns W' M = open_conns W M"
  by (auto simp: open_conns_def restrict_map_def)

text \<open>The buffers of all connections after one worker changed its own.\<close>

lemma all_bufs_moved:
  assumes A: "all_ok P {} (open_conns W (regs G))" and i: "inj_on (regs G) (dom G)"
    and A': "all_ok P' (bufs_of W (other_of G i)) (open_conns W' own')"
    and o: "open_conns W' (other_of G i) = open_conns W (other_of G i)"
    and d: "dom (other_of G i) \<inter> dom own' = {}" "ran (other_of G i) \<inter> ran own' = {}"
  shows "all_ok P' {} (open_conns W' (regs (upd_own G i own')))"
proof -
  let ?D = "open_conns W (other_of G i)"
  have "open_conns W (own_of G i) ++ ?D = open_conns W (regs G)"
    using ran_other_own[of G i] by (intro open_conns_add) blast
  moreover have "dom (open_conns W (own_of G i)) \<inter> dom ?D = {}"
    using open_conns_disjoint[of "own_of G i" "other_of G i" W] inj_ran_disjoint[OF i, of i] by blast
  ultimately have D: "all_ok P (\<Union> (conn_bufs ` ran (open_conns W (own_of G i)))) ?D"
    using all_ok_split[of P "open_conns W (own_of G i)" ?D] A by simp
  have "ran (other_of G i) \<union> ran own' = ran (regs (upd_own G i own'))"
    using ran_other_own[of "upd_own G i own'" i] upd_own[OF d(1)] by simp
  then have "open_conns W' (other_of G i) ++ open_conns W' own' = open_conns W' (regs (upd_own G i own'))"
    by (rule open_conns_add)
  then show ?thesis
    using all_ok_join[OF A'[unfolded bufs_of_def] _ D] open_conns_disjoint[OF d(2), of W'] o by simp
qed

text \<open>
  A worker \<open>i\<close> takes a step that keeps its own invariant and leaves the surroundings alone:
  then every other worker is in order as well.
\<close>

lemma other_workers:
  assumes S: "sys_ok G S" and j: "j < length (y_loops S)" "j \<noteq> i" and i: "i < length (y_loops S)"
    and T: "threads_ok (y_evfds S ! i) i (bufs_of (y_world S) (other_of G i)) (other_of G i) own'
      (tq_queue (w_queue (snd s))) s"
    and tf: "thread_frame (bufs_of (y_world S) (other_of G i)) (set (mail_fds (tq_queue (tp_queues (y_tp S) ! i))))
      (own_of G i) own' (y_world S) (snd s)"
    and o: "\<And>b. b \<in> ran (other_of G i) \<Longrightarrow> w_conns (snd s) b = w_conns (y_world S) b"
    and A: "all_ok (w_pool (snd s)) {} (open_conns (snd s) (regs (upd_own G i own')))"
    and inj: "inj_on (regs (upd_own G i own')) (dom (upd_own G i own'))"
  shows "worker_ok (upd_own G i own') (put_thread S i s) j"
proof -
  let ?G = "upd_own G i own'" and ?W = "y_world S" and ?W' = "snd s" and ?q = "tp_queues (y_tp S) ! j"
  have d: "dom (other_of G i) \<inter> dom own' = {}" using T by (simp add: threads_ok_def)
  have own: "own_of ?G j = own_of G j" "own_of ?G i = own'" "other_of ?G i = other_of G i"
    using upd_own[OF d] j(2) by simp_all
  have Tj: "threads_ok (y_evfds S ! j) j (bufs_of ?W (other_of G j)) (other_of G j) (own_of G j) (tq_queue ?q)
      (y_loops S ! j, ?W\<lparr>w_queue := ?q\<rparr>)"
    using sys_worker[OF S j(1)] by (simp add: worker_ok_def thread_view_def)
  have r: "reg_inv (w_reg ?W') (other_of ?G j ++ own_of G j)"
    using T other_own[of ?G i] other_own[of ?G j] own by (simp add: threads_ok_def)
  have sub: "ran (own_of G j) \<subseteq> ran (other_of G i)" using j(2) by (rule own_in_other)
  have "ran (other_of ?G j) \<inter> ran (own_of G j) = {}" using inj_ran_disjoint[OF inj, of j] own by simp
  moreover have "open_conns ?W' (other_of ?G j) ++ open_conns ?W' (own_of G j) = open_conns ?W' (regs ?G)"
    using ran_other_own[of ?G j] own by (intro open_conns_add) simp
  ultimately have Aj: "all_ok (w_pool ?W') (bufs_of ?W' (other_of ?G j)) (open_conns ?W' (own_of G j))"
    using all_ok_split[of "w_pool ?W'" "open_conns ?W' (other_of ?G j)" "open_conns ?W' (own_of G j)"]
      open_conns_disjoint[of "other_of ?G j" "own_of G j" ?W'] A unfolding bufs_of_def by simp
  have "dom (other_of ?G j) \<subseteq> dom ?G" "dom ?G = dom (other_of G i) \<union> dom own'"
    using dom_other_own[of ?G j] dom_other_own[of ?G i] own by auto
  moreover have "dom own' \<subseteq> dom (own_of G i) \<union> set (mail_fds (tq_queue (tp_queues (y_tp S) ! i)))"
    using tf by (simp add: thread_frame_def)
  ultimately have "dom (other_of ?G j) \<subseteq> dom G \<union> set (mail_fds (tq_queue (tp_queues (y_tp S) ! i)))"
    using dom_other_own(1)[of G i] by blast
  moreover have "set (mail_fds (tq_queue ?q)) \<inter> dom G = {}"
    using Tj dom_other_own(1)[of G j] unfolding threads_ok_def by blast
  moreover have "set (mail_fds (tq_queue (tp_queues (y_tp S) ! i))) \<inter> set (mail_fds (tq_queue ?q)) = {}"
    using S i j by (intro mails_disjoint) (auto simp: sys_ok_def)
  ultimately have m: "set (mail_fds (tq_queue ?q)) \<inter> dom (other_of ?G j) = {}" by blast
  have "same_on (bufs_of ?W (own_of G j)) (w_pool ?W) (w_pool ?W')"
    using tf same_on_subset[OF _ bufs_of_mono[OF sub]] by (auto simp: thread_frame_def)
  then have "threads_ok (y_evfds S ! j) j (bufs_of ?W' (other_of ?G j)) (other_of ?G j) (own_of G j) (tq_queue ?q)
      (y_loops S ! j, ?W'\<lparr>w_queue := ?q\<rparr>)"
    using r Aj m sub o dom_other_own(2)[of ?G j] own tf
    by (intro threads_kept[OF Tj]) (auto simp: thread_frame_def)
  then show ?thesis using j own by (simp add: worker_ok_def thread_view_def)
qed

lemma mails_put:
  assumes S: "sys_ok G S" and i: "i < length (y_loops S)"
    and q: "tq_queue (w_queue (snd s)) = [] \<or> tq_queue (w_queue (snd s)) = tq_queue (tp_queues (y_tp S) ! i)"
  shows "distinct (mails (put_thread S i s)) \<and> set (mails (put_thread S i s)) \<subseteq> set (mails S)"
proof -
  let ?xs = "map (\<lambda>q. mail_fds (tq_queue q)) (tp_queues (y_tp S))"
  have "mails (put_thread S i s) = concat (?xs[i := mail_fds (tq_queue (w_queue (snd s)))])"
    by (simp add: mails_def map_update)
  moreover have "distinct (concat ?xs)" "i < length ?xs" using S i by (simp_all add: sys_ok_def mails_def)
  moreover have "mail_fds (tq_queue (w_queue (snd s))) = [] \<or> mail_fds (tq_queue (w_queue (snd s))) = ?xs ! i"
    using q calculation(3) by auto
  ultimately show ?thesis using concat_update[of i ?xs] by (simp add: mails_def)
qed

lemma thread_moves:
  assumes S: "sys_ok G S" and i: "i < length (y_loops S)"
    and T: "threads_ok (y_evfds S ! i) i (bufs_of (y_world S) (other_of G i)) (other_of G i) own'
      (tq_queue (w_queue (snd s))) s"
    and tf: "thread_frame (bufs_of (y_world S) (other_of G i)) (set (mail_fds (tq_queue (tp_queues (y_tp S) ! i))))
      (own_of G i) own' (y_world S) (snd s)"
    and q: "tq_queue (w_queue (snd s)) = [] \<or> tq_queue (w_queue (snd s)) = tq_queue (tp_queues (y_tp S) ! i)"
  shows "sys_ok (upd_own G i own') (put_thread S i s)"
proof -
  let ?G = "upd_own G i own'" and ?W = "y_world S" and ?W' = "snd s"
  have d: "dom (other_of G i) \<inter> dom own' = {}" and A: "all_ok (w_pool ?W') (bufs_of ?W (other_of G i)) (open_conns ?W' own')"
    and io: "inj_on own' (dom own')" and tq: "tq_inv (w_queue ?W')" using T by (simp_all add: threads_ok_def)
  have ij: "inj_on (regs G) (dom G)" and A0: "all_ok (w_pool ?W) {} (open_conns ?W (regs G))"
    using S by (simp_all add: sys_ok_def)
  note own = upd_own[OF d]
  have lt: "a < w_fresh ?W" and no: "a \<notin> ran (own_of G i)" if "a \<in> ran (other_of G i)" for a
    using sys_fresh[OF S, of a] ran_other_own[of G i] inj_ran_disjoint[OF ij, of i] that by blast+
  then have o: "w_conns ?W' b = w_conns ?W b" if "b \<in> ran (other_of G i)" for b
    using tf that by (simp add: thread_frame_def)
  have "ran own' \<subseteq> ran (own_of G i) \<union> {w_fresh ?W..<w_fresh ?W'}" using tf by (simp add: thread_frame_def)
  then have rd: "ran (other_of G i) \<inter> ran own' = {}" using lt no by fastforce
  have inj: "inj_on (regs ?G) (dom ?G)" by (rule inj_upd_own[OF ij io rd])
  have oc: "open_conns ?W' (other_of G i) = open_conns ?W (other_of G i)" using o by (rule open_conns_cong)
  have A': "all_ok (w_pool ?W') {} (open_conns ?W' (regs ?G))" by (rule all_bufs_moved[OF A0 ij A oc d rd])
  have "worker_ok ?G (put_thread S i s) i"
    using T i own oc S by (simp add: worker_ok_def thread_view_def sys_ok_def bufs_of_def)
  then have w: "worker_ok ?G (put_thread S i s) j" if "j < length (y_loops S)" for j
    using other_workers[OF S that _ i T tf o A' inj] by (cases "j = i") auto
  have tp: "tp_inv (y_tp (put_thread S i s))"
    using S tq by (auto simp: sys_ok_def tp_inv_def put_thread_def dest!: set_update_subset_insert[THEN subsetD])
  have G': "j < length (y_loops S)" if "?G f = Some (j, a)" for f j a
    using that S i unfolding sys_ok_def upd_own_Some by (auto split: if_splits)
  have "set (mail_fds (tq_queue (tp_queues (y_tp S) ! i))) \<subseteq> set (mails S)" using S i by (intro nth_mails) (simp add: sys_ok_def)
  moreover have "dom own' \<subseteq> dom (own_of G i) \<union> set (mail_fds (tq_queue (tp_queues (y_tp S) ! i)))"
    using tf by (simp add: thread_frame_def)
  moreover have "dom ?G = dom (other_of G i) \<union> dom own'" using dom_other_own(1)[of ?G i] own by simp
  ultimately have "dom ?G \<subseteq> dom G \<union> set (mails S)" using dom_other_own(1)[of G i] by blast
  then have "dom ?G \<inter> set (y_evfds S) = {}" using S unfolding sys_ok_def by blast
  moreover note mails_put[OF S i q]
  moreover have "set (mails S) \<inter> set (y_evfds S) = {}" using S by (simp add: sys_ok_def)
  ultimately show ?thesis using S A' inj w tp G' unfolding sys_ok_def by auto
qed

text \<open>Every event of a worker's loop, whatever the sockets answer.\<close>

lemma event_step:
  assumes cfg: "cfg_ok cfg" and S: "sys_ok G S" and i: "i < length (y_loops S)"
    and r: "reported (y_loops S ! i) fe" and d: "dispatch_one (worker_invoke cfg) (thread_view S i) fe = Inr s"
  shows "\<exists>own'. sys_ok (upd_own G i own') (put_thread S i s) \<and>
    threads_ok (y_evfds S ! i) i (bufs_of (y_world S) (other_of G i)) (other_of G i) own' (tq_queue (w_queue (snd s))) s \<and>
    (s = thread_view S i \<or> (\<exists>cb a. entry (y_loops S ! i) cb (fst fe) a \<and> worker_invoke cfg cb (fst fe) a (thread_view S i) = Inr s))"
proof -
  let ?F = "bufs_of (y_world S) (other_of G i)" and ?O = "other_of G i"
  have T: "threads_ok (y_evfds S ! i) i ?F ?O (own_of G i) (tq_queue (w_queue (snd (thread_view S i)))) (thread_view S i)"
    using sys_worker[OF S i] by (simp add: worker_ok_def thread_view_def)
  then have ti: "cfg_ok cfg \<and> thread_inv (y_evfds S ! i) i ?F ?O (thread_view S i)"
    using cfg by (auto simp: thread_inv_def)
  obtain f ev where fe: "fe = (f, ev)" by (cases fe)
  have "reported (fst (thread_view S i)) (f, ev)" using r fe by (simp add: thread_view_def)
  from wk.dispatch_one_safe[OF ti this] d fe
  consider (same) "s = thread_view S i"
    | (cb) cb a where "entry (fst (thread_view S i)) cb f a" "worker_invoke cfg cb f a (thread_view S i) = Inr s" by auto
  then show ?thesis
  proof cases
    case same
    have "thread_frame ?F (set (mail_fds (tq_queue (tp_queues (y_tp S) ! i)))) (own_of G i) (own_of G i)
        (y_world S) (snd s)" using same by (intro thread_frame_same) (simp_all add: thread_view_def)
    then have "sys_ok (upd_own G i (own_of G i)) (put_thread S i s)"
      using T same by (intro thread_moves[OF S i]) (simp_all add: thread_view_def)
    then show ?thesis using T same by blast
  next
    case cb
    from worker_step[OF cfg T cb] obtain own' where
      T': "threads_ok (y_evfds S ! i) i ?F ?O own' (tq_queue (w_queue (snd s))) s"
      and tf: "thread_frame ?F (set (mail_fds (tq_queue (w_queue (snd (thread_view S i)))))) (own_of G i) own'
        (snd (thread_view S i)) (snd s)"
      and q: "tq_queue (w_queue (snd s)) = [] \<or> tq_queue (w_queue (snd s)) = tq_queue (w_queue (snd (thread_view S i)))"
      by blast
    have "thread_frame ?F (set (mail_fds (tq_queue (tp_queues (y_tp S) ! i)))) (own_of G i) own'
        (y_world S) (snd s)" using tf by (simp add: thread_frame_def thread_view_def)
    then have "sys_ok (upd_own G i own') (put_thread S i s)"
      using T' q by (intro thread_moves[OF S i]) (simp_all add: thread_view_def)
    moreover have "fst (thread_view S i) = y_loops S ! i" "fst fe = f" using fe by (simp_all add: thread_view_def)
    ultimately show ?thesis using T' cb by auto
  qed
qed

text \<open>
  What the server relies on when a worker runs its tasks: a task works on the connections of its
  own thread, opens and closes none, and does not touch the mailbox. A task may rely on a property
  \<open>J\<close> of the application's data that it keeps.
\<close>

definition task_keeps ::
  "(fd \<Rightarrow> 'a \<Rightarrow> bool) \<Rightarrow> (task_func \<Rightarrow> nat \<Rightarrow> event_loop \<times> 'a world \<Rightarrow> (event_loop \<times> 'a world) res) \<Rightarrow> bool" where
  "task_keeps J task \<longleftrightarrow> (\<forall>evfd qid F S0 own ts s s' func args.
     J evfd (w_app (snd s)) \<longrightarrow> threads_ok evfd qid F S0 own ts s \<longrightarrow> task func args s = Inr s' \<longrightarrow>
     threads_ok evfd qid F S0 own ts s' \<and> thread_frame F {} own own (snd s) (snd s') \<and>
     w_queue (snd s') = w_queue (snd s) \<and> J evfd (w_app (snd s')))"

definition task_ok :: "(task_func \<Rightarrow> nat \<Rightarrow> event_loop \<times> 'a world \<Rightarrow> (event_loop \<times> 'a world) res) \<Rightarrow> bool" where
  "task_ok task \<longleftrightarrow> task_keeps (\<lambda>_ _. True) task"

lemma execute_tasks_ok:
  assumes ok: "task_keeps J task" and "J evfd (w_app (snd s))" and "threads_ok evfd qid F S0 own ts s"
    and "execute_tasks task fs s = Inr s'"
  shows "threads_ok evfd qid F S0 own ts s' \<and> thread_frame F {} own own (snd s) (snd s') \<and>
    w_queue (snd s') = w_queue (snd s) \<and> J evfd (w_app (snd s'))"
  using assms
proof (induction task fs s rule: execute_tasks.induct)
  case (1 task s)
  then show ?case by (auto intro: thread_frame_same)
next
  case (2 task func args fs s)
  from "2.prems"(4) obtain s1 where s1: "task func args s = Inr s1" "execute_tasks task fs s1 = Inr s'"
    "ready_tasks (fst s1) = ready_tasks (fst s)" by (auto simp: res_bind_Inr_iff check_Inr_iff)
  from "2.prems"(1-3) s1(1) have o1: "threads_ok evfd qid F S0 own ts s1" "thread_frame F {} own own (snd s) (snd s1)"
    "w_queue (snd s1) = w_queue (snd s)" "J evfd (w_app (snd s1))" unfolding task_keeps_def by blast+
  from "2.IH"[OF "2.prems"(1) o1(4,1) s1(2)] show ?case using o1 thread_frame_trans[OF o1(2)] by simp
qed

lemma task_step:
  assumes ok: "task_keeps J task" and J: "J (y_evfds S ! i) (w_app (y_world S))"
    and S: "sys_ok G S" and i: "i < length (y_loops S)"
    and d: "execute_ready_task task (thread_view S i) = Inr s"
  shows "sys_ok G (put_thread S i s) \<and> J (y_evfds S ! i) (w_app (y_world (put_thread S i s)))"
proof -
  let ?F = "bufs_of (y_world S) (other_of G i)" and ?O = "other_of G i" and ?q = "tp_queues (y_tp S) ! i"
  have T: "threads_ok (y_evfds S ! i) i ?F ?O (own_of G i) (tq_queue ?q) (thread_view S i)"
    using sys_worker[OF S i] by (simp add: worker_ok_def)
  from d obtain l W where e: "execute_tasks task (ready_tasks (y_loops S ! i)) (thread_view S i) = Inr (l, W)"
    and s: "s = (l\<lparr>ready_tasks := []\<rparr>, W)"
    by (auto simp: execute_ready_task_def res_bind_Inr_iff thread_view_def)
  have "J (y_evfds S ! i) (w_app (snd (thread_view S i)))" using J by (simp add: thread_view_def)
  from execute_tasks_ok[OF ok this T e] have T': "threads_ok (y_evfds S ! i) i ?F ?O (own_of G i) (tq_queue ?q) (l, W)"
    and tf: "thread_frame ?F {} (own_of G i) (own_of G i) (snd (thread_view S i)) W" and q: "w_queue W = ?q"
    and J': "J (y_evfds S ! i) (w_app W)" by (simp_all add: thread_view_def)
  have "loop_inv (l\<lparr>ready_tasks := []\<rparr>)" using T' by (simp add: threads_ok_def loop_inv_def)
  then have "threads_ok (y_evfds S ! i) i ?F ?O (own_of G i) (tq_queue (w_queue W)) s"
    using threads_ok_cong[OF T', of "l\<lparr>ready_tasks := []\<rparr>" W "tq_queue ?q"] T' q s by (simp add: threads_ok_def)
  moreover have "thread_frame ?F (set (mail_fds (tq_queue ?q))) (own_of G i) (own_of G i) (y_world S) (snd s)"
    using tf s by (auto simp: thread_frame_def thread_view_def)
  ultimately have "sys_ok (upd_own G i (own_of G i)) (put_thread S i s)"
    using s q by (intro thread_moves[OF S i]) simp_all
  then show ?thesis using J' s by (simp add: upd_own_same)
qed

text \<open>New mail for the workers.\<close>

lemma mail_step:
  assumes S: "sys_ok G S" and tp: "tp_inv tp" "length (tp_queues tp) = length (y_loops S)"
    and d: "distinct (mails (S\<lparr>y_tp := tp\<rparr>))"
    and n: "\<forall>f \<in> set (mails (S\<lparr>y_tp := tp\<rparr>)). f \<in> set (mails S) \<or> f \<notin> set (y_evfds S) \<union> dom G"
  shows "sys_ok G (S\<lparr>y_tp := tp\<rparr>)"
proof -
  let ?S = "S\<lparr>y_tp := tp\<rparr>"
  have mG: "set (mails S) \<inter> dom G = {}"
  proof -
    have "set (mail_fds (tq_queue (tp_queues (y_tp S) ! i))) \<inter> dom G = {}" if "i < length (y_loops S)" for i
      using sys_worker[OF S that] dom_other_own(1)[of G i] unfolding worker_ok_def threads_ok_def by blast
    moreover have "length (tp_queues (y_tp S)) = length (y_loops S)" using S by (simp add: sys_ok_def)
    ultimately show ?thesis by (fastforce simp: mails_def in_set_conv_nth)
  qed
  have ev: "set (mails S) \<inter> set (y_evfds S) = {}" using S by (simp add: sys_ok_def)
  have "worker_ok G ?S i" if i: "i < length (y_loops S)" for i
  proof -
    let ?q = "tp_queues tp ! i"
    have q: "?q \<in> set (tp_queues tp)" using i tp(2) by simp
    have "set (mail_fds (tq_queue ?q)) \<subseteq> set (mails ?S)" using nth_mails[of i ?S] i tp(2) by simp
    moreover have "set (mails ?S) \<inter> (set (y_evfds S) \<union> dom G) = {}" using n mG ev by blast
    moreover have "y_evfds S ! i \<in> set (y_evfds S)" using S i by (simp add: sys_ok_def)
    ultimately have m: "set (mail_fds (tq_queue ?q)) \<inter> insert (y_evfds S ! i) (dom (other_of G i) \<union> dom (own_of G i)) = {}"
      unfolding dom_other_own(1)[of G i] by blast
    have "distinct (mail_fds (tq_queue ?q))" using d q by (auto simp: mails_def distinct_concat_iff)
    moreover have "tq_inv ?q" using tp(1) q by (simp add: tp_inv_def)
    ultimately have "threads_ok (y_evfds S ! i) i (bufs_of (y_world S) (other_of G i)) (other_of G i) (own_of G i)
        (tq_queue ?q) (y_loops S ! i, (y_world S)\<lparr>w_queue := tp_queues (y_tp S) ! i\<rparr>\<lparr>w_queue := ?q\<rparr>)"
      by (rule threads_mail[OF sys_worker[OF S i, unfolded worker_ok_def thread_view_def] _ _ m, rotated])
    then show ?thesis by (simp add: worker_ok_def thread_view_def)
  qed
  moreover have "set (mails ?S) \<inter> set (y_evfds S) = {}" using n ev by blast
  ultimately show ?thesis using S tp d by (simp add: sys_ok_def)
qed

lemma mail_fds_append [simp]: "mail_fds (xs @ ys) = mail_fds xs @ mail_fds ys"
  by (simp add: mail_fds_def)

lemma mails_map: "mails S = concat (map mail_fds (map tq_queue (tp_queues (y_tp S))))"
  by (simp add: mails_def comp_def)

lemma send_step:
  assumes S: "sys_ok G S" and s: "send_task (y_tp S) func args = Inr tp"
  shows "sys_ok G (S\<lparr>y_tp := tp\<rparr>)"
proof -
  have I: "tp_inv (y_tp S)" using S by (simp add: sys_ok_def)
  from send_task_all[OF I, of func args] s have tp: "tp_inv tp"
    and q: "map tq_queue (tp_queues tp) = map (\<lambda>q. tq_queue q @ [NEW_TASK func args]) (tp_queues (y_tp S))" by auto
  have "length (tp_queues tp) = length (y_loops S)"
    using arg_cong[OF q, of length] S by (simp add: sys_ok_def)
  moreover have "mails (S\<lparr>y_tp := tp\<rparr>) = mails S"
    by (simp add: mails_map q comp_def del: map_map) (simp add: comp_def)
  ultimately show ?thesis using S tp by (intro mail_step) (simp_all add: sys_ok_def)
qed

lemma do_accept_tp:
  assumes "do_accept cfg this as (\<lparr>sv_fd = fd0, sv_threads = Some (Some tp)\<rparr>, E) =
      Inr (r, \<lparr>sv_fd = fd1, sv_threads = Some (Some tp')\<rparr>, E')" and "tp_inv tp"
  shows "tp_inv tp' \<and> (tp_queues tp' = tp_queues tp \<or>
    (\<exists>f i. Accepted f \<in> set as \<and> i < length (tp_queues tp) \<and>
       map tq_queue (tp_queues tp') = (map tq_queue (tp_queues tp))[i := tq_queue (tp_queues tp ! i) @ [NEW_CONN f]]))"
  using assms(1)
proof (induction as)
  case Nil
  then show ?case by simp
next
  case (Cons a as)
  show ?case
  proof (cases a)
    case (Accept_err e)
    then show ?thesis using Cons assms(2) by (auto split: if_splits)
  next
    case (Accepted f)
    show ?thesis
    proof (cases "max_conns (e_reg E) \<le> get_conn_num (e_reg E)")
      case True
      then show ?thesis using Cons.prems Accepted assms(2) by simp
    next
      case False
      from get_thread_spec[OF assms(2)] obtain i tp1 where g: "get_thread tp = Inr (i, tp1)" "tp_inv tp1"
        "tp_queues tp1 = tp_queues tp" "i = nat (tp_index tp) mod nat (thread_cnt tp)" by blast
      have i: "i < length (tp_queues tp)" using tp_inv_length[OF assms(2)] g(4) by simp
      with tp_send_spec[OF g(2), of i "NEW_CONN f"] g(3) obtain tp2 where tp2: "tp_send tp1 i (NEW_CONN f) = Inr tp2" "tp_inv tp2"
        "map tq_queue (tp_queues tp2) = (map tq_queue (tp_queues tp))[i := tq_queue (tp_queues tp ! i) @ [NEW_CONN f]]" by auto
      have "tp' = tp2" using Cons.prems Accepted False g(1) tp2(1) by (simp add: Let_def)
      then show ?thesis using tp2 i Accepted by auto
    qed
  qed
qed

lemma concat_snoc_at:
  assumes "i < length xs"
  shows "set (concat (xs[i := xs ! i @ [y]])) = insert y (set (concat xs))"
    and "distinct (concat xs) \<Longrightarrow> y \<notin> set (concat xs) \<Longrightarrow> distinct (concat (xs[i := xs ! i @ [y]]))"
proof -
  have xs: "xs = take i xs @ xs ! i # drop (Suc i) xs" using assms by (rule id_take_nth_drop)
  have c: "concat xs = concat (take i xs) @ xs ! i @ concat (drop (Suc i) xs)" by (subst xs) simp
  have u: "concat (xs[i := xs ! i @ [y]]) = concat (take i xs) @ (xs ! i @ [y]) @ concat (drop (Suc i) xs)"
    by (simp add: upd_conv_take_nth_drop[OF assms])
  show "set (concat (xs[i := xs ! i @ [y]])) = insert y (set (concat xs))" unfolding u c by auto
  show "distinct (concat (xs[i := xs ! i @ [y]]))" if "distinct (concat xs)" "y \<notin> set (concat xs)"
    using that unfolding u c by auto
qed

lemma sys_dom_G:
  assumes S: "sys_ok G S"
  shows "dom G \<union> set (y_evfds S) \<subseteq> (\<Union>l \<in> set (y_loops S). dom (io_evs l))"
proof
  fix f assume f: "f \<in> dom G \<union> set (y_evfds S)"
  have "\<exists>i < length (y_loops S). f = y_evfds S ! i \<or> f \<in> dom (own_of G i)"
  proof (cases "f \<in> dom G")
    case True
    then obtain i a where g: "G f = Some (i, a)" by auto
    then have "i < length (y_loops S)" using S unfolding sys_ok_def by blast
    then show ?thesis using g by (auto simp: dom_def own_of_Some)
  next
    case False
    then show ?thesis using f S by (auto simp: in_set_conv_nth sys_ok_def)
  qed
  then obtain i where i: "i < length (y_loops S)" "f = y_evfds S ! i \<or> f \<in> dom (own_of G i)" by blast
  then have "f \<in> dom (io_evs (y_loops S ! i))"
    using sys_worker[OF S i(1)] by (auto simp: worker_ok_def threads_ok_def thread_view_def)
  then show "f \<in> (\<Union>l \<in> set (y_loops S). dom (io_evs l))" using i(1) by (metis UN_I nth_mem)
qed

lemma accept_step:
  assumes S: "sys_ok G S"
    and a: "do_accept cfg this as (\<lparr>sv_fd = y_fd S, sv_threads = Some (Some (y_tp S))\<rparr>, E) =
      Inr (r, \<lparr>sv_fd = fd, sv_threads = Some (Some tp)\<rparr>, E')"
    and n: "\<forall>f. Accepted f \<in> set as \<longrightarrow> f \<notin> open_fds S"
  shows "sys_ok G (S\<lparr>y_tp := tp\<rparr>)"
proof -
  let ?S = "S\<lparr>y_tp := tp\<rparr>" and ?xs = "map mail_fds (map tq_queue (tp_queues (y_tp S)))"
  have I: "tp_inv (y_tp S)" and l: "length (tp_queues (y_tp S)) = length (y_loops S)" and d: "distinct (mails S)"
    using S by (simp_all add: sys_ok_def)
  from do_accept_tp[OF a I] have tp: "tp_inv tp" and
    "tp_queues tp = tp_queues (y_tp S) \<or> (\<exists>f i. Accepted f \<in> set as \<and> i < length (tp_queues (y_tp S)) \<and>
      map tq_queue (tp_queues tp) = (map tq_queue (tp_queues (y_tp S)))[i := tq_queue (tp_queues (y_tp S) ! i) @ [NEW_CONN f]])"
    by simp_all
  then consider (same) "tp_queues tp = tp_queues (y_tp S)"
    | (conn) f i where "f \<notin> open_fds S" "i < length (tp_queues (y_tp S))"
      "map tq_queue (tp_queues tp) = (map tq_queue (tp_queues (y_tp S)))[i := tq_queue (tp_queues (y_tp S) ! i) @ [NEW_CONN f]]"
    using n by blast
  then show ?thesis
  proof cases
    case same
    then show ?thesis using S tp by (intro mail_step) (simp_all add: sys_ok_def mails_def)
  next
    case conn
    have "length (tp_queues tp) = length (y_loops S)" using arg_cong[OF conn(3), of length] l by simp
    moreover have m: "mails ?S = concat (?xs[i := ?xs ! i @ [f]])"
      using conn(2) by (simp add: mails_map conn(3) map_update)
    have i: "i < length ?xs" using conn(2) by simp
    have f: "f \<notin> set (mails S)" "f \<notin> set (y_evfds S) \<union> dom G"
      using conn(1) sys_dom_G[OF S] unfolding open_fds_def by blast+
    have "distinct (mails ?S)" "set (mails ?S) = insert f (set (mails S))"
      using concat_snoc_at[OF i, of f] d f(1) unfolding m by (simp_all add: mails_map)
    ultimately show ?thesis using tp f by (intro mail_step[OF S]) auto
  qed
qed

lemma step_ok:
  assumes "cfg_ok cfg" and "task_ok task" and "server_step cfg task S S'" and "\<exists>G. sys_ok G S"
  shows "\<exists>G. sys_ok G S'"
  using assms(3,4)
proof (cases rule: server_step.cases)
  case (accept this as r fd tp E)
  then show ?thesis using accept_step assms(4) by blast
next
  case (send func args tp)
  then show ?thesis using send_step assms(4) by blast
next
  case (event i fe s)
  then show ?thesis using event_step[OF assms(1)] assms(4) by blast
next
  case (tasks i s)
  then show ?thesis using task_step[OF assms(2)[unfolded task_ok_def]] assms(4) by blast
qed

section \<open>A server that starts\<close>

lemma start_loops:
  assumes "server_start evfds rds wrs (sv, E) = Inr S" and "i < length (y_loops S)"
  shows "thread_main (\<lambda>_. True) (evfds ! i) i = Some (y_loops S ! i)"
  using assms by (auto simp: server_start_eq thread_main_def set_callback_def split: option.splits)

lemma server_start_ok:
  assumes s: "server_start evfds rds wrs (sv, E) = Inr S" and t: "sv_threads sv = Some (Some tp)" "thread_pool_new n = Inr tp"
    and P: "pool_inv (e_pool E) {}" and R: "reg_inv (e_reg E) Map.empty"
    and e: "distinct evfds" "length evfds = nat n"
  shows "sys_ok Map.empty S"
proof -
  have tp: "tp_queues tp = replicate (nat n) thread_queue_new" using t(2) by (auto simp: thread_pool_new_def split: if_splits)
  have f: "y_tp S = tp" "y_evfds S = evfds" "length (y_loops S) = nat n" "y_world S = world_new rds wrs thread_queue_new E"
    using s t(1) tp by (auto simp: server_start_eq)
  have m: "mails S = []" using f tp by (simp add: mails_def thread_queue_new_def)
  have own: "own_of Map.empty i = Map.empty" "other_of Map.empty i = Map.empty" "regs Map.empty = Map.empty" for i
    by (rule map_eqI, simp add: own_Some)+
  have bo: "bufs_of W Map.empty = {}" "open_conns W Map.empty = Map.empty" for W :: "'a world"
    by (simp_all add: bufs_of_def open_conns_def)
  have "worker_ok Map.empty S i" if i: "i < length (y_loops S)" for i
  proof -
    note ev = thread_main_spec[OF start_loops[OF s i]]
    have q: "tp_queues tp ! i = thread_queue_new" using i f tp by simp
    have "all_ok (e_pool E) {} Map.empty" using P by (simp add: all_ok_def)
    then have "threads_ok (evfds ! i) i {} Map.empty Map.empty [] (y_loops S ! i, (world_new rds wrs thread_queue_new E)\<lparr>w_queue := thread_queue_new\<rparr>)"
      using ev R tq_inv_new by (simp add: threads_ok_def mail_entry_def registered_def io_event_new_def world_new_def bo Let_def)
    then show ?thesis using own bo f q by (simp add: worker_ok_def thread_view_def thread_queue_new_def)
  qed
  moreover have "all_ok (w_pool (y_world S)) {} (open_conns (y_world S) (regs Map.empty))"
    using P f own bo by (simp add: all_ok_def world_new_def)
  ultimately show ?thesis using f tp tp_inv_new[OF t(2)] e m by (simp add: sys_ok_def)
qed

text \<open>A connection that worker \<open>i\<close> serves on descriptor \<open>f\<close>: the loop listens to it, the registry points to its object.\<close>

definition open_conn :: "'a server_sys \<Rightarrow> nat \<Rightarrow> int \<Rightarrow> nat \<Rightarrow> tcp_conn \<Rightarrow> bool" where
  "open_conn S i f a c \<longleftrightarrow> i < length (y_loops S) \<and> f \<in> dom (io_evs (y_loops S ! i)) \<and> f \<noteq> y_evfds S ! i \<and>
     in_range (w_reg (y_world S)) f \<and> conns (w_reg (y_world S)) ! nat f = Some a \<and>
     w_conns (y_world S) a = Some c \<and> c_fd c = f"

lemma sys_reg: "sys_ok G S \<Longrightarrow> i < length (y_loops S) \<Longrightarrow> reg_inv (w_reg (y_world S)) (regs G)"
  using sys_worker[of G S i] other_own[of G i] by (simp add: worker_ok_def threads_ok_def thread_view_def)

lemma sys_dom:
  "sys_ok G S \<Longrightarrow> i < length (y_loops S) \<Longrightarrow>
   dom (io_evs (y_loops S ! i)) = insert (y_evfds S ! i) (dom (own_of G i)) \<and> y_evfds S ! i \<notin> dom (own_of G i)"
  using sys_worker[of G S i] by (simp add: worker_ok_def threads_ok_def thread_view_def)

lemma sys_conn:
  assumes "sys_ok G S" and "G f = Some (i, a)"
  shows "\<exists>c. open_conn S i f a c"
proof -
  have i: "i < length (y_loops S)" using assms unfolding sys_ok_def by blast
  have o: "own_of G i f = Some a" "regs G f = Some a" using assms(2) by (simp_all add: own_Some)
  have "in_range (w_reg (y_world S)) f" "conns (w_reg (y_world S)) ! nat f = Some a"
    using sys_reg[OF assms(1) i] o(2) by (auto simp: reg_inv_def)
  moreover obtain c where "w_conns (y_world S) a = Some c" "c_fd c = f"
    using threads_conn[OF sys_worker[OF assms(1) i, unfolded worker_ok_def thread_view_def] o(1)] by auto
  moreover have "f \<noteq> y_evfds S ! i" "f \<in> dom (io_evs (y_loops S ! i))"
    using sys_dom[OF assms(1) i] domI[of "own_of G i" f a, OF o(1)] by (metis, simp)
  ultimately have "open_conn S i f a c" using i unfolding open_conn_def by (intro conjI)
  then show ?thesis ..
qed

lemma open_conn_iff:
  assumes "sys_ok G S"
  shows "open_conn S i f a c \<longleftrightarrow> G f = Some (i, a) \<and> w_conns (y_world S) a = Some c"
proof
  assume o: "open_conn S i f a c"
  then have i: "i < length (y_loops S)" by (simp add: open_conn_def)
  have "f \<in> dom (own_of G i)" using sys_dom[OF assms i] o unfolding open_conn_def by blast
  then obtain b where b: "G f = Some (i, b)" by (auto simp: dom_def own_of_Some)
  from sys_conn[OF assms b] have "conns (w_reg (y_world S)) ! nat f = Some b" by (auto simp: open_conn_def)
  then show "G f = Some (i, a) \<and> w_conns (y_world S) a = Some c" using o b by (simp add: open_conn_def)
next
  assume "G f = Some (i, a) \<and> w_conns (y_world S) a = Some c"
  then show "open_conn S i f a c" using sys_conn[OF assms, of f i a] by (auto simp: open_conn_def)
qed

section \<open>Properties of the whole server\<close>

lemma reachable_ok:
  assumes "cfg_ok cfg" and "task_ok task" and "(server_step cfg task)\<^sup>*\<^sup>* S S'" and "sys_ok G S"
  shows "\<exists>G. sys_ok G S'"
  using assms(3)
proof (induction rule: rtranclp_induct)
  case base
  then show ?case using assms(4) by blast
next
  case (step S1 S2)
  then show ?case using step_ok[OF assms(1,2)] by blast
qed

lemma server_new_ok:
  assumes n: "tcp_server_new (Some sfd) True True maxConn threadNum garbage this E0 = Inr (sv, E)"
    and mx: "sint maxConn < INT_MAX - 3" and P: "pool_inv (e_pool E0) {}"
    and s: "server_start evfds rds wrs (sv, E) = Inr S" and e: "distinct evfds" "length evfds = nat (sint threadNum)"
  shows "sys_ok Map.empty S"
proof -
  from n s obtain tp where t: "sv_threads sv = Some (Some tp)" "thread_pool_new (sint threadNum) = Inr tp"
    by (auto simp: tcp_server_new_def server_start_eq Let_def res_bind_Inr_iff check_Inr_iff split: if_splits)
  have E: "e_pool E = e_pool E0" "e_reg E = registry_new garbage (sint maxConn)"
    using n by (auto simp: tcp_server_new_def Let_def res_bind_Inr_iff check_Inr_iff split: if_splits)
  show ?thesis using server_start_ok[OF s t _ _ e] P reg_inv_new[OF mx] E by simp
qed

text \<open>The application's data may change between the constructor and the loop, and while the server runs.\<close>

lemma server_new_start:
  assumes n: "tcp_server_new sock bind_ok listen_ok maxConn threadNum garbage this E0 = Inr (sv, E1)"
    and E: "e_pool E = e_pool E1" "e_reg E = e_reg E1" and P: "pool_inv (e_pool E0) {}" and mx: "max_conns (e_reg E) < INT_MAX - 3"
    and s: "server_start evfds rds wrs (sv, E) = Inr S" and e: "distinct evfds" "length evfds = length (y_loops S)"
  shows "sys_ok Map.empty S \<and> y_evfds S = evfds \<and> w_app (y_world S) = e_app E"
proof -
  from n s obtain tp where t: "sv_threads sv = Some (Some tp)" "thread_pool_new (sint threadNum) = Inr tp"
    by (auto simp: tcp_server_new_def server_start_eq Let_def res_bind_Inr_iff check_Inr_iff split: if_splits option.splits)
  have E1: "e_pool E1 = e_pool E0" "e_reg E1 = registry_new garbage (sint maxConn)"
    using n by (auto simp: tcp_server_new_def Let_def res_bind_Inr_iff check_Inr_iff split: if_splits option.splits)
  have "reg_inv (e_reg E) Map.empty" using mx E E1(2) reg_inv_new[of "sint maxConn" garbage] by (simp add: registry_new_def)
  moreover have "length (y_loops S) = length (tp_queues tp)" using s t by (auto simp: server_start_eq)
  moreover have "length (tp_queues tp) = nat (sint threadNum)" using t(2) by (auto simp: thread_pool_new_def split: if_splits)
  ultimately have "sys_ok Map.empty S" using server_start_ok[OF s t _ _ e(1)] P E E1(1) e(2) by simp
  moreover have "y_evfds S = evfds" "w_app (y_world S) = e_app E" using s t by (auto simp: server_start_eq world_new_def)
  ultimately show ?thesis by simp
qed

lemma threads_app:
  assumes "threads_ok evfd qid B S0 own ts (l, W)"
  shows "threads_ok evfd qid B S0 own ts (l, W\<lparr>w_app := D\<rparr>)"
proof -
  have "loop_inv l" "tq_inv (w_queue W)" "distinct (mail_fds ts)" using assms by (simp_all add: threads_ok_def)
  then show ?thesis using threads_ok_cong[OF assms, of l "W\<lparr>w_app := D\<rparr>" ts] by simp
qed

lemma sys_ok_app:
  assumes "sys_ok G S"
  shows "sys_ok G (S\<lparr>y_world := (y_world S)\<lparr>w_app := D\<rparr>\<rparr>)"
proof -
  let ?S = "S\<lparr>y_world := (y_world S)\<lparr>w_app := D\<rparr>\<rparr>"
  have b: "bufs_of (W\<lparr>w_app := D\<rparr>) M = bufs_of W M" "open_conns (W\<lparr>w_app := D\<rparr>) M = open_conns W M" for W :: "'a world" and M
    by (simp_all add: bufs_of_def open_conns_def)
  have "worker_ok G ?S i" if "i < length (y_loops S)" for i
  proof -
    let ?q = "tp_queues (y_tp S) ! i"
    have "(y_world S)\<lparr>w_queue := ?q\<rparr>\<lparr>w_app := D\<rparr> = (y_world S)\<lparr>w_app := D\<rparr>\<lparr>w_queue := ?q\<rparr>" by simp
    with threads_app[OF sys_worker[OF assms that, unfolded worker_ok_def thread_view_def], of D]
    have "threads_ok (y_evfds S ! i) i (bufs_of (y_world S) (other_of G i)) (other_of G i) (own_of G i) (tq_queue ?q)
        (y_loops S ! i, (y_world S)\<lparr>w_app := D\<rparr>\<lparr>w_queue := ?q\<rparr>)" by (simp only:)
    then show ?thesis by (simp add: worker_ok_def thread_view_def b)
  qed
  then show ?thesis using assms b by (simp add: sys_ok_def mails_def)
qed

lemma sys_loops_disjoint:
  assumes S: "sys_ok G S" and ij: "i < length (y_loops S)" "j < length (y_loops S)" "i \<noteq> j"
  shows "dom (io_evs (y_loops S ! i)) \<inter> dom (io_evs (y_loops S ! j)) = {}"
proof -
  have "dom (own_of G i) \<inter> dom (own_of G j) = {}" using ij(3) by (auto simp: own_of_def split: option.splits if_splits)
  moreover have "y_evfds S ! i \<noteq> y_evfds S ! j" "y_evfds S ! i \<in> set (y_evfds S)" "y_evfds S ! j \<in> set (y_evfds S)"
    using S ij by (simp_all add: sys_ok_def nth_eq_iff_index_eq)
  moreover have "dom G \<inter> set (y_evfds S) = {}" using S by (simp add: sys_ok_def)
  moreover have "dom (own_of G i) \<subseteq> dom G" "dom (own_of G j) \<subseteq> dom G"
    using dom_other_own(1)[of G i] dom_other_own(1)[of G j] by blast+
  ultimately show ?thesis
    unfolding conjunct1[OF sys_dom[OF S ij(1)]] conjunct1[OF sys_dom[OF S ij(2)]] by blast
qed

lemma sys_open_fds:
  assumes S: "sys_ok G S"
  shows "{f. \<exists>i a c. open_conn S i f a c} = dom (regs G)"
proof (intro set_eqI iffI)
  fix f assume "f \<in> {f. \<exists>i a c. open_conn S i f a c}"
  then show "f \<in> dom (regs G)" by (auto simp: open_conn_iff[OF S] regs_def)
next
  fix f assume "f \<in> dom (regs G)"
  then obtain i a where "G f = Some (i, a)" by (auto simp: regs_def)
  then show "f \<in> {f. \<exists>i a c. open_conn S i f a c}" using sys_conn[OF S] by blast
qed

lemma sys_dispatch:
  assumes cfg: "cfg_ok cfg" and S: "sys_ok G S" and i: "i < length (y_loops S)" and r: "reported (y_loops S ! i) fe"
  shows "dispatch_one (worker_invoke cfg) (thread_view S i) fe = Inr (thread_view S i) \<or>
     (\<exists>cb a. entry (y_loops S ! i) cb (fst fe) a \<and>
        dispatch_one (worker_invoke cfg) (thread_view S i) fe = worker_invoke cfg cb (fst fe) a (thread_view S i))"
proof -
  have "thread_inv (y_evfds S ! i) i (bufs_of (y_world S) (other_of G i)) (other_of G i) (thread_view S i)"
    using sys_worker[OF S i] by (auto simp: worker_ok_def thread_inv_def thread_view_def)
  with cfg have T: "cfg_ok cfg \<and> thread_inv (y_evfds S ! i) i (bufs_of (y_world S) (other_of G i)) (other_of G i) (thread_view S i)" ..
  have v: "fst (thread_view S i) = y_loops S ! i" by (simp add: thread_view_def)
  show ?thesis using wk.dispatch_one_safe[OF T, of "fst fe" "snd fe"] r v by auto
qed

text \<open>
  C7: the threads of a server never get in each other's way. The handlers and tasks keep their
  contracts (\<open>cfg_ok\<close>: well-formed replies that depend only on the body of the message; \<open>task_ok\<close>: a task keeps
  the invariant of its thread) and \<open>epoll_ctl\<close> succeeds. Whatever the order in which the
  accepting thread, tasks and the events of the workers interleave, and whatever the sockets
  answer, in every state the server reaches: no descriptor is in the loops of two workers; every
  descriptor a worker listens to, besides that of its mailbox, has exactly the connection object
  that the registry holds for it; different connections have no buffer in common and the free
  lists none of theirs; the counter of connections is the number of open ones; and an event that
  epoll can report to a worker is handed to a callback that is registered, never to a null
  pointer or an unknown descriptor.
\<close>

theorem server_threads_safe:
  assumes "cfg_ok cfg" and "task_ok task"
    and "tcp_server_new (Some sfd) True True maxConn threadNum garbage this E0 = Inr (sv, E)"
    and "sint maxConn < INT_MAX - 3" and "pool_inv (e_pool E0) {}"
    and "server_start evfds rds wrs (sv, E) = Inr S0" and "distinct evfds" and "length evfds = nat (sint threadNum)"
    and "(server_step cfg task)\<^sup>*\<^sup>* S0 S"
  shows "(\<forall>i < length (y_loops S). \<forall>j < length (y_loops S). i \<noteq> j \<longrightarrow>
        dom (io_evs (y_loops S ! i)) \<inter> dom (io_evs (y_loops S ! j)) = {}) \<and>
    (\<forall>i < length (y_loops S). \<forall>f \<in> dom (io_evs (y_loops S ! i)) - {y_evfds S ! i}. \<exists>a c. open_conn S i f a c) \<and>
    (\<forall>i f a c j g b d. open_conn S i f a c \<longrightarrow> open_conn S j g b d \<longrightarrow> f \<noteq> g \<longrightarrow> conn_bufs c \<inter> conn_bufs d = {}) \<and>
    pool_inv (w_pool (y_world S)) (\<Union> {conn_bufs c | c. \<exists>i f a. open_conn S i f a c}) \<and>
    get_conn_num (w_reg (y_world S)) = int (card {f. \<exists>i a c. open_conn S i f a c}) \<and>
    (\<forall>i < length (y_loops S). \<forall>fe. reported (y_loops S ! i) fe \<longrightarrow>
       dispatch_one (worker_invoke cfg) (thread_view S i) fe = Inr (thread_view S i) \<or>
       (\<exists>cb a. entry (y_loops S ! i) cb (fst fe) a \<and>
          dispatch_one (worker_invoke cfg) (thread_view S i) fe = worker_invoke cfg cb (fst fe) a (thread_view S i)))"
proof -
  from reachable_ok[OF assms(1,2,9) server_new_ok[OF assms(3-8)]] obtain G where S: "sys_ok G S" by blast
  let ?W = "y_world S"
  note oc = open_conn_iff[OF S]
  have loops: "dom (io_evs (y_loops S ! i)) \<inter> dom (io_evs (y_loops S ! j)) = {}"
    if "i < length (y_loops S)" "j < length (y_loops S)" "i \<noteq> j" for i j
    by (rule sys_loops_disjoint[OF S that])
  have conns: "\<exists>a c. open_conn S i f a c"
    if i: "i < length (y_loops S)" and f: "f \<in> dom (io_evs (y_loops S ! i)) - {y_evfds S ! i}" for i f
  proof -
    have "f \<in> dom (own_of G i)" using f unfolding conjunct1[OF sys_dom[OF S i]] by blast
    then show ?thesis using sys_conn[OF S, of f i] by (auto simp: dom_def own_of_Some)
  qed
  have A: "all_ok (w_pool ?W) {} (open_conns ?W (regs G))" using S by (simp add: sys_ok_def)
  have C: "open_conns ?W (regs G) a = Some c \<longleftrightarrow> (\<exists>i f. open_conn S i f a c)" for a c
    unfolding oc by (auto simp: open_conns_def restrict_map_def ran_def regs_Some)
  have bufs: "conn_bufs c \<inter> conn_bufs d = {}" if c: "open_conn S i f a c" and d: "open_conn S j g b d" and "f \<noteq> g" for i f a c j g b d
  proof -
    have "regs G f = Some a" "regs G g = Some b" using c d by (auto simp: oc regs_Some)
    moreover have "inj_on (regs G) (dom G)" using S by (simp add: sys_ok_def)
    ultimately have "a \<noteq> b" using \<open>f \<noteq> g\<close> c d by (metis domI inj_onD oc)
    then show ?thesis using all_ok_disj[OF A] C c d by blast
  qed
  have "ran (open_conns ?W (regs G)) = {c. \<exists>i f a. open_conn S i f a c}" unfolding ran_def C by blast
  then have "\<Union> {conn_bufs c | c. \<exists>i f a. open_conn S i f a c} = \<Union> (conn_bufs ` ran (open_conns ?W (regs G)))"
    by (simp only: setcompr_eq_image)
  then have pool: "pool_inv (w_pool ?W) (\<Union> {conn_bufs c | c. \<exists>i f a. open_conn S i f a c})" using all_ok_pool[OF A] by simp
  have "0 < length (y_loops S)" using S tp_inv_length[of "y_tp S"] by (simp add: sys_ok_def)
  from sys_reg[OF S this] have num: "get_conn_num (w_reg ?W) = int (card {f. \<exists>i a c. open_conn S i f a c})"
    unfolding sys_open_fds[OF S] by (simp add: reg_inv_def get_conn_num_def)
  have disp: "dispatch_one (worker_invoke cfg) (thread_view S i) fe = Inr (thread_view S i) \<or>
     (\<exists>cb a. entry (y_loops S ! i) cb (fst fe) a \<and>
        dispatch_one (worker_invoke cfg) (thread_view S i) fe = worker_invoke cfg cb (fst fe) a (thread_view S i))"
    if "i < length (y_loops S)" "reported (y_loops S ! i) fe" for i fe
    by (rule sys_dispatch[OF assms(1) S that])
  show ?thesis using loops conns bufs pool num disp by (intro conjI allI impI ballI)
qed

text \<open>An echo server with two workers that has accepted one connection.\<close>

lemma demo_server:
  obtains sv E S0 S where "tcp_server_new (Some 4) True True 10 2 (\<lambda>_. None) 0 (env_new 0 ()) = Inr (sv, E)"
    and "server_start [7, 8] (\<lambda>_. (None, [])) (\<lambda>_. []) (sv, E) = Inr S0"
    and "(server_step echo_cfg (\<lambda>_ _. Inr))\<^sup>*\<^sup>* S0 S" and "length (y_loops S) = 2"
    and "map tq_queue (tp_queues (y_tp S)) = [[NEW_CONN 9], []]" and "in_range (w_reg (y_world S)) 9"
proof -
  let ?E0 = "env_new 0 ()" and ?tp = "\<lparr>tp_queues = replicate 2 thread_queue_new, thread_cnt = 2, tp_index = 0\<rparr>"
  let ?sv = "\<lparr>sv_fd = 4, sv_threads = Some (Some ?tp)\<rparr>" and ?task = "\<lambda>_ _. Inr"
  have tp: "thread_pool_new 2 = Inr ?tp" by (simp add: thread_pool_new_def)
  obtain E where n: "tcp_server_new (Some 4) True True 10 2 (\<lambda>_. None) 0 ?E0 = Inr (?sv, E)"
    and r: "e_reg E = registry_new (\<lambda>_. None) 10" and l: "e_loop E = add_io_event (event_loop_new (\<lambda>_. True)) 4 accept_callback EPOLLIN (Some 0)"
    using tp by (simp add: tcp_server_new_def in_int_def env_new_def)
  obtain S0 where s: "server_start [7, 8] (\<lambda>_. (None, [])) (\<lambda>_. []) (?sv, E) = Inr S0"
    by (simp add: server_start_eq)
  let ?tp' = "\<lparr>tp_queues = [tq_send thread_queue_new (NEW_CONN 9), thread_queue_new], thread_cnt = 2, tp_index = 1\<rparr>"
  have f: "y_fd S0 = 4" "y_tp S0 = ?tp" "w_reg (y_world S0) = registry_new (\<lambda>_. None) 10" "y_main S0 = e_loop E"
    "length (y_loops S0) = 2"
    using s r by (auto simp: server_start_eq world_new_def)
  have q: "replicate 2 (thread_queue_new :: task_msg thread_queue) = [thread_queue_new, thread_queue_new]"
    by (simp add: numeral_2_eq_2)
  have a: "do_accept echo_cfg 1 [Accepted 9] (\<lparr>sv_fd = y_fd S0, sv_threads = Some (Some (y_tp S0))\<rparr>, env_of (y_main S0, y_world S0)) =
      Inr (Queued 0 9, \<lparr>sv_fd = 4, sv_threads = Some (Some ?tp')\<rparr>, env_of (y_main S0, y_world S0))"
    using f q by (simp add: env_of_def registry_new_def get_conn_num_def get_thread_def tp_send_def Let_def)
  have L0: "loop_inv (event_loop_new (\<lambda>_. True))" by (simp add: loop_inv_new)
  have m: "dom (io_evs (y_main S0)) = {4}"
    using add_io_event_spec(2)[OF L0, of EPOLLIN 4 accept_callback "Some 0"] f(4) l
    by (simp add: rw_mask_def) (simp add: event_loop_new_def)
  have ev: "io_evs (y_loops S0 ! i) = [[7, 8] ! i \<mapsto> registered None deal_task_message EPOLLIN (Some i)]" if "i < 2" for i
    using thread_main_spec(1)[OF start_loops[OF s]] that f(5) by simp
  have "dom (io_evs (y_loops S0 ! i)) \<subseteq> {7, 8}" if "i < 2" for i using ev[OF that] that by (auto simp: less_2_cases_iff)
  then have "(\<Union>l \<in> set (y_loops S0). dom (io_evs l)) \<subseteq> {7, 8}" using f(5) by (fastforce simp: in_set_conv_nth)
  moreover have "mails S0 = []" using f q by (simp add: mails_def thread_queue_new_def)
  ultimately have "open_fds S0 \<subseteq> {4, 7, 8}" unfolding open_fds_def m by auto
  then have "\<forall>f. Accepted f \<in> set [Accepted 9] \<longrightarrow> f \<notin> open_fds S0" by auto
  from server_step.accept[OF a this] have "(server_step echo_cfg ?task)\<^sup>*\<^sup>* S0 (S0\<lparr>y_tp := ?tp'\<rparr>)" by blast
  from that[OF n s this] f(3,5) show thesis
    by (simp add: tq_send_def thread_queue_new_def in_range_def registry_new_def)
qed

lemma task_ok_skip: "task_ok (\<lambda>_ _. Inr)"
  by (auto simp: task_ok_def task_keeps_def intro: thread_frame_same)

theorem server_threads_safe_witness:
  "\<exists>sv E S0 S. tcp_server_new (Some 4) True True 10 2 (\<lambda>_. None) 0 (env_new 0 ()) = Inr (sv, E) \<and>
     server_start [7, 8] (\<lambda>_. (None, [])) (\<lambda>_. []) (sv, E) = Inr S0 \<and>
     (server_step echo_cfg (\<lambda>_ _. Inr))\<^sup>*\<^sup>* S0 S \<and> map tq_queue (tp_queues (y_tp S)) = [[NEW_CONN 9], []] \<and>
     dom (io_evs (y_loops S ! 0)) \<inter> dom (io_evs (y_loops S ! 1)) = {}"
proof -
  obtain sv E S0 S where n: "tcp_server_new (Some 4) True True 10 2 (\<lambda>_. None) 0 (env_new 0 ()) = Inr (sv, E)"
    and s: "server_start [7, 8] (\<lambda>_. (None, [])) (\<lambda>_. []) (sv, E) = Inr S0"
    and step: "(server_step echo_cfg (\<lambda>_ _. Inr))\<^sup>*\<^sup>* S0 S" and l: "length (y_loops S) = 2"
    and q: "map tq_queue (tp_queues (y_tp S)) = [[NEW_CONN 9], []]" by (rule demo_server)
  have P: "pool_inv (e_pool (env_new 0 ())) {}" unfolding env_new_def by (simp add: buf_pool_new_inv)
  from server_threads_safe[OF cfg_ok_echo task_ok_skip n _ P s _ _ step] l
  have "dom (io_evs (y_loops S ! 0)) \<inter> dom (io_evs (y_loops S ! 1)) = {}" by simp
  then show ?thesis using n s step q by (intro exI[of _ sv] exI[of _ E] exI[of _ S0] exI[of _ S] conjI)
qed

text \<open>The mailbox event of a worker, seen from the whole server.\<close>

lemma mailbox_event:
  assumes cfg: "cfg_ok cfg" "silent_start cfg" and S: "sys_ok G S" and i: "i < length (y_loops S)"
    and r: "\<forall>f \<in> set (mail_fds (tq_queue (tp_queues (y_tp S) ! i))). in_range (w_reg (y_world S)) f"
  shows "\<exists>s G'. dispatch_one (worker_invoke cfg) (thread_view S i) (y_evfds S ! i, EPOLLIN) = Inr s \<and>
    sys_ok G' (put_thread S i s) \<and> tq_queue (w_queue (snd s)) = [] \<and>
    dom (own_of G' i) = set (mail_fds (tq_queue (tp_queues (y_tp S) ! i))) \<union> dom (own_of G i)"
proof -
  let ?F = "bufs_of (y_world S) (other_of G i)" and ?O = "other_of G i" and ?q = "tp_queues (y_tp S) ! i"
  let ?W = "(y_world S)\<lparr>w_queue := ?q, w_no := Suc (w_no (y_world S))\<rparr>" and ?l = "y_loops S ! i"
  let ?q' = "snd (tq_recv ?q [])"
  have T0: "threads_ok (y_evfds S ! i) i ?F ?O (own_of G i) (tq_queue ?q) (?l, (y_world S)\<lparr>w_queue := ?q\<rparr>)"
    using sys_worker[OF S i] by (simp add: worker_ok_def thread_view_def)
  then have li: "loop_inv ?l" "tq_inv ?q" "distinct (mail_fds (tq_queue ?q))" by (simp_all add: threads_ok_def)
  have T: "threads_ok (y_evfds S ! i) i ?F ?O (own_of G i) (tq_queue ?q) (?l, ?W)"
    using threads_ok_cong[OF T0, of ?l ?W "tq_queue ?q"] li by simp
  have q': "tq_inv ?q'" using tq.recv_law[OF li(2)] by simp
  have T1: "threads_ok (y_evfds S ! i) i ?F ?O (own_of G i) (tq_queue ?q) (?l, ?W\<lparr>w_queue := ?q'\<rparr>)"
    using threads_ok_cong[OF T, of ?l "?W\<lparr>w_queue := ?q'\<rparr>" "tq_queue ?q"] li q' by simp
  obtain s where "run (deal_one cfg) (?l, ?W\<lparr>w_queue := ?q'\<rparr>) (tq_queue ?q) = Inr s"
    using deal_run_total[OF cfg T1] r by auto
  then have d: "deal_tasks cfg (?l, ?W) = Inr s" by (simp add: deal_tasks_def tq_recv_def)
  from T0 obtain ev where ev: "io_evs ?l (y_evfds S ! i) = Some ev" "read_callback ev = Some deal_task_message" "rcb_args ev = Some i"
    by (auto simp: threads_ok_def mail_entry_def)
  have dis: "dispatch_one (worker_invoke cfg) (thread_view S i) (y_evfds S ! i, EPOLLIN) = Inr s"
    using ev d by (simp add: dispatch_one_def call_ptr_def thread_view_def worker_invoke_def Let_def in_mask bit_epoll)
  from deal_tasks_inv[OF cfg(1) _ d, of "y_evfds S ! i" i ?F ?O "own_of G i"] T obtain own' where
    o: "threads_ok (y_evfds S ! i) i ?F ?O own' (tq_queue (w_queue (snd s))) s"
      "thread_frame ?F (set (mail_fds (tq_queue ?q))) (own_of G i) own' ?W (snd s)"
      "dom own' = set (mail_fds (tq_queue ?q)) \<union> dom (own_of G i)" "tq_queue (w_queue (snd s)) = []" by auto
  have "thread_frame ?F (set (mail_fds (tq_queue ?q))) (own_of G i) own' (y_world S) (snd s)"
    using o(2) by (simp add: thread_frame_def)
  then have "sys_ok (upd_own G i own') (put_thread S i s)" using thread_moves[OF S i o(1)] o(4) by simp
  moreover have "own_of (upd_own G i own') i = own'" using upd_own(1) o(1) by (simp add: threads_ok_def)
  ultimately show ?thesis using dis o(3,4) by metis
qed

text \<open>
  C8: an accepted connection is opened. In every state the server reaches, a worker whose
  mailbox holds descriptors is woken, since its eventfd is readable and registered; the callback
  for it returns, empties the mailbox and has then an open connection for every one of the
  descriptors, in addition to those it had. Assumed are a start callback, if there is one, that sends
  nothing, as that of the DNS service, and descriptors inside the array of connections.
\<close>

theorem accepted_connections_opened:
  assumes "cfg_ok cfg" and "silent_start cfg" and "task_ok task"
    and "tcp_server_new (Some sfd) True True maxConn threadNum garbage this E0 = Inr (sv, E)"
    and "sint maxConn < INT_MAX - 3" and "pool_inv (e_pool E0) {}"
    and "server_start evfds rds wrs (sv, E) = Inr S0" and "distinct evfds" and "length evfds = nat (sint threadNum)"
    and "(server_step cfg task)\<^sup>*\<^sup>* S0 S" and "i < length (y_loops S)"
    and "tq_queue (tp_queues (y_tp S) ! i) \<noteq> []"
    and "\<forall>f \<in> set (mail_fds (tq_queue (tp_queues (y_tp S) ! i))). in_range (w_reg (y_world S)) f"
  shows "tq_ready (tp_queues (y_tp S) ! i) \<and> reported (y_loops S ! i) (y_evfds S ! i, EPOLLIN) \<and>
    (\<exists>s. dispatch_one (worker_invoke cfg) (thread_view S i) (y_evfds S ! i, EPOLLIN) = Inr s \<and>
       tq_queue (tp_queues (y_tp (put_thread S i s)) ! i) = [] \<and>
       (\<forall>f. (\<exists>a c. open_conn (put_thread S i s) i f a c) \<longleftrightarrow>
          f \<in> set (mail_fds (tq_queue (tp_queues (y_tp S) ! i))) \<or> (\<exists>a c. open_conn S i f a c)))"
proof -
  from reachable_ok[OF assms(1,3,10) server_new_ok[OF assms(4-9)]] obtain G where S: "sys_ok G S" by blast
  note i = assms(11)
  have T: "threads_ok (y_evfds S ! i) i (bufs_of (y_world S) (other_of G i)) (other_of G i) (own_of G i)
      (tq_queue (tp_queues (y_tp S) ! i)) (thread_view S i)" using sys_worker[OF S i] by (simp add: worker_ok_def)
  have "tq_inv (tp_queues (y_tp S) ! i)" using T by (simp add: threads_ok_def thread_view_def)
  then have "tq_ready (tp_queues (y_tp S) ! i)" using tq.ready_law assms(12) by blast
  moreover have "reported (y_loops S ! i) (y_evfds S ! i, EPOLLIN)"
    using T by (auto simp: threads_ok_def mail_entry_def thread_view_def reported_def loop_inv_def epoll_bits)
  moreover obtain s G' where s: "dispatch_one (worker_invoke cfg) (thread_view S i) (y_evfds S ! i, EPOLLIN) = Inr s"
    "tq_queue (w_queue (snd s)) = []" and S': "sys_ok G' (put_thread S i s)"
    and d: "dom (own_of G' i) = set (mail_fds (tq_queue (tp_queues (y_tp S) ! i))) \<union> dom (own_of G i)"
    using mailbox_event[OF assms(1,2) S i assms(13)] by blast
  have o: "(\<exists>a c. open_conn Z j f a c) \<longleftrightarrow> f \<in> dom (own_of H j)" if "sys_ok H Z" for Z H j f
    using sys_conn[OF that, of f j] open_conn_iff[OF that, of j f] by (auto simp: dom_def own_of_Some)
  have "i < length (tp_queues (y_tp S))" using S i by (simp add: sys_ok_def)
  then have "tq_queue (tp_queues (y_tp (put_thread S i s)) ! i) = []" using s(2) by simp
  moreover have "\<forall>f. (\<exists>a c. open_conn (put_thread S i s) i f a c) \<longleftrightarrow>
      f \<in> set (mail_fds (tq_queue (tp_queues (y_tp S) ! i))) \<or> (\<exists>a c. open_conn S i f a c)"
    by (simp only: o[OF S] o[OF S'] d Un_iff) simp
  ultimately show ?thesis using s(1) by (intro conjI exI[of _ s])
qed

theorem accepted_connections_opened_witness:
  "\<exists>(S :: unit server_sys) s. tq_queue (tp_queues (y_tp S) ! 0) = [NEW_CONN 9] \<and>
     dispatch_one (worker_invoke echo_cfg) (thread_view S 0) (y_evfds S ! 0, EPOLLIN) = Inr s \<and>
     (\<exists>a c. open_conn (put_thread S 0 s) 0 9 a c)"
proof -
  obtain sv E S0 S where n: "tcp_server_new (Some 4) True True 10 2 (\<lambda>_. None) 0 (env_new 0 ()) = Inr (sv, E)"
    and s: "server_start [7, 8] (\<lambda>_. (None, [])) (\<lambda>_. []) (sv, E) = Inr S0"
    and step: "(server_step echo_cfg (\<lambda>_ _. Inr))\<^sup>*\<^sup>* S0 S" and l: "length (y_loops S) = 2"
    and q: "map tq_queue (tp_queues (y_tp S)) = [[NEW_CONN 9], []]" and r: "in_range (w_reg (y_world S)) 9" by (rule demo_server)
  have P: "pool_inv (e_pool (env_new 0 ())) {}" unfolding env_new_def by (simp add: buf_pool_new_inv)
  have q0: "tq_queue (tp_queues (y_tp S) ! 0) = [NEW_CONN 9]" using q by (auto simp: Cons_eq_map_conv map_eq_Cons_conv)
  have c: "silent_start echo_cfg" by (simp add: silent_start_def echo_cfg_def)
  from accepted_connections_opened[OF cfg_ok_echo c task_ok_skip n _ P s _ _ step, of 0] l q0 r
  obtain t where "dispatch_one (worker_invoke echo_cfg) (thread_view S 0) (y_evfds S ! 0, EPOLLIN) = Inr t"
    "\<exists>a c. open_conn (put_thread S 0 t) 0 9 a c" by auto
  then show ?thesis using q0 by blast
qed

section \<open>A read event of a running server\<close>

text \<open>
  The messages of one read reach their handlers on whichever worker serves the connection: with the
  rules of a single connection, seen from the whole server.
\<close>

lemma read_event:
  assumes cfg: "cfg_ok cfg" and S: "sys_ok G S" and o: "open_conn S i f a c"
    and n: "in_bytes (c, env_of (thread_view S i)) = []"
    and ms: "\<forall>m \<in> set ms. frame_ok m \<and> snd m \<noteq> []" "ms \<noteq> []" and ch: "ch = concat (map frame_bytes ms)" "int (length ch) \<le> cap_of m8M"
    and rd: "w_rd (y_world S) (w_no (y_world S)) = (Some (length ch), [Rd ch])"
    and ft: "fits Bd (w_pool (y_world S)) (c_obuf c) (length (replies cfg f (w_app (y_world S)) ms))" "Bd + 8192 < EXTRA_MEM_LIMIT"
  shows "reported (y_loops S ! i) (f, EPOLLIN) \<and>
    (\<exists>s. dispatch_one (worker_invoke cfg) (thread_view S i) (f, EPOLLIN) = Inr s \<and>
       w_app (snd s) = fst (serve cfg f (w_app (y_world S)) ms))"
proof -
  let ?q = "tp_queues (y_tp S) ! i" and ?l = "y_loops S ! i" and ?F = "bufs_of (y_world S) (other_of G i)"
  let ?W = "(y_world S)\<lparr>w_queue := ?q\<rparr>"
  have i: "i < length (y_loops S)" using o by (simp add: open_conn_def)
  have own: "own_of G i f = Some a" and c: "w_conns (y_world S) a = Some c"
    using o open_conn_iff[OF S] by (simp_all add: own_of_Some)
  have T: "threads_ok (y_evfds S ! i) i ?F (other_of G i) (own_of G i) (tq_queue ?q) (?l, ?W)"
    using sys_worker[OF S i] by (simp add: worker_ok_def thread_view_def)
  from threads_conn[OF T own] c have fd: "c_fd c = f"
    and I: "conn_inv a (others_of ?F (open_conns ?W (own_of G i)) a) (c, env_of (?l, ?W))" by auto
  obtain m ms' where mm: "ms = m # ms'" using ms(2) by (cases ms) auto
  have ne: "ch \<noteq> []" using ms(1) unfolding ch(1) mm by (simp add: frame_bytes_def)
  from chunks_served[OF cfg I n[unfolded thread_view_def] ms(1), of "[ch]" Bd] ch ne ft fd
  obtain s' where r: "do_read cfg a (c, env_of (?l, ?W)) (Some (length ch), [Rd ch]) = Inr s'"
    and app: "e_app (snd s') = fst (serve cfg f (w_app (y_world S)) ms)"
    by (auto simp: read_chunks_def env_of_def res_bind_Inr_iff)
  have "armed ?l a f (out_bytes (c, env_of (?l, ?W)) \<noteq> [])" using I fd by (simp add: conn_inv_def mid_inv_def env_of_def)
  then obtain ev where ev: "io_evs ?l f = Some ev" "bit (ev_mask ev) 0" "read_callback ev = Some conn_rd_callback" "rcb_args ev = Some a"
    by (auto simp: armed_def)
  have "loop_inv ?l" using T by (simp add: threads_ok_def)
  moreover have "EPOLLIN AND NOT (ev_mask ev OR EPOLLERR OR EPOLLHUP) = 0" unfolding and_not_zero bit_or_iff bit_epoll using ev(2) by simp
  ultimately have "reported ?l (f, EPOLLIN)" using ev(1) unfolding reported_def loop_inv_def by simp
  moreover have "dispatch_one (worker_invoke cfg) (thread_view S i) (f, EPOLLIN) =
      Inr (put_conn (?l, ?W\<lparr>w_no := Suc (w_no (y_world S))\<rparr>) a s')"
    using ev c r rd by (simp add: dispatch_one_def call_ptr_def in_mask bit_epoll worker_invoke_def thread_view_def Let_def env_of_def deref_def)
  ultimately show ?thesis using app by (auto simp: put_conn_def)
qed

end
