(* ===== verification/Server_App.thy ===== *)
theory Server_App
  imports Server_System
begin

text \<open>
  What the application of a server can count on. A connection's start callback is called once when
  it is opened (reactor/src/tcp_conn.cc, the constructor), its messages come in between and the
  close callback is called once when it is cleaned up, whichever thread serves the connection and
  however the threads interleave. The locale states this as a rule for invariants: a property \<open>J\<close>
  of the application's data and of the set of open descriptors that the callbacks keep is kept by
  every step of the server.
\<close>

section \<open>The callbacks as changes of the data\<close>

definition start_app :: "('a, 'u) server_cfg \<Rightarrow> 'a \<Rightarrow> int \<Rightarrow> 'a" where
  "start_app cfg a f = (case conn_start_cb cfg of None \<Rightarrow> a | Some cb \<Rightarrow> fst (cb a f))"

definition stop_app :: "('a, 'u) server_cfg \<Rightarrow> 'a \<Rightarrow> int \<Rightarrow> 'a" where
  "stop_app cfg a f = (case conn_close_cb cfg of None \<Rightarrow> a | Some cb \<Rightarrow> fst (cb a f))"

text \<open>Sending leaves the data and the descriptor alone, whether it succeeds or not.\<close>

lemma send_message_app:
  "send_message this s req = Inr (r, s') \<Longrightarrow> e_app (snd s') = e_app (snd s) \<and> c_fd (fst s') = c_fd (fst s)"
  by (auto simp: send_message_def Let_def res_bind_Inr_iff split: prod.splits if_splits)

lemma send_all_app:
  "send_all this s reqs = Inr s' \<Longrightarrow> e_app (snd s') = e_app (snd s) \<and> c_fd (fst s') = c_fd (fst s)"
proof (induction reqs arbitrary: s)
  case (Cons req reqs)
  then obtain r s1 where "send_message this s req = Inr (r, s1)" "send_all this s1 reqs = Inr s'"
    by (auto simp: send_all_def res_bind_Inr_iff)
  then show ?case using Cons.IH send_message_app by metis
qed (simp add: send_all_def)

lemma call_conn_cb_app:
  assumes "call_conn_cb cb this s = Inr s'"
  shows "e_app (snd s') = (case cb of None \<Rightarrow> e_app (snd s) | Some f \<Rightarrow> fst (f (e_app (snd s)) (c_fd (fst s)))) \<and>
    c_fd (fst s') = c_fd (fst s)"
  using assms by (auto simp: call_conn_cb_def split: option.splits prod.splits dest!: send_all_app)

lemma clean_conn_app:
  "clean_conn cfg this s = Inr s' \<Longrightarrow>
     e_app (snd s') = stop_app cfg (e_app (snd s)) (c_fd (fst s)) \<and> c_fd (fst s') = -1"
  by (auto simp: clean_conn_def Let_def res_bind_Inr_iff stop_app_def dest!: call_conn_cb_app)

lemma tcp_conn_new_app:
  "tcp_conn_new cfg this f E = Inr (c, E') \<Longrightarrow> e_app E' = start_app cfg (e_app E) f"
  by (auto simp: tcp_conn_new_def Let_def res_bind_Inr_iff start_app_def split: option.splits dest!: call_conn_cb_app)

lemma router_dispatch_app:
  assumes "router_dispatch cfg this s i len data = Inr s'"
  shows "c_fd (fst s') = c_fd (fst s) \<and> (e_app (snd s') = e_app (snd s) \<or>
    (\<exists>h u. router_call (s_router cfg) i = Some (h, u) \<and> e_app (snd s') = fst (h (e_app (snd s)) (c_fd (fst s)) data len i u)))"
  using assms by (auto simp: router_dispatch_def split: option.splits prod.splits dest!: send_all_app)

section \<open>Invariants of the application\<close>

locale server_app =
  fixes cfg :: "('a, 'u) server_cfg"
    and task :: "task_func \<Rightarrow> nat \<Rightarrow> event_loop \<times> 'a world \<Rightarrow> (event_loop \<times> 'a world) res"
    and J :: "int set \<Rightarrow> int set \<Rightarrow> 'a \<Rightarrow> bool"
  assumes cfg_law: "J E F a \<Longrightarrow> cfg_ok cfg"
    and start_law: "J E F a \<Longrightarrow> f \<notin> F \<Longrightarrow> f \<notin> E \<Longrightarrow> J E (insert f F) (start_app cfg a f)"
    and msg_law: "J E F a \<Longrightarrow> f \<in> F \<Longrightarrow> router_call (s_router cfg) i = Some (h, u) \<Longrightarrow> J E F (fst (h a f data len i u))"
    and stop_law: "J E F a \<Longrightarrow> f \<in> F \<Longrightarrow> J E (F - {f}) (stop_app cfg a f)"
    and task_law: "task_keeps (\<lambda>evfd a. evfd \<in> E \<and> J E F a) task"
begin

text \<open>One connection: it is still open and the property holds, or it was closed.\<close>

definition conn_result :: "int set \<Rightarrow> int set \<Rightarrow> int \<Rightarrow> tcp_conn \<times> 'a env \<Rightarrow> bool" where
  "conn_result E F f s \<longleftrightarrow> c_fd (fst s) = f \<and> J E F (e_app (snd s)) \<or> c_fd (fst s) = -1 \<and> J E (F - {f}) (e_app (snd s))"

lemma clean_result:
  "clean_conn cfg this s = Inr s' \<Longrightarrow> J E F (e_app (snd s)) \<Longrightarrow> c_fd (fst s) \<in> F \<Longrightarrow> conn_result E F (c_fd (fst s)) s'"
  using clean_conn_app[of cfg this s s'] stop_law by (simp add: conn_result_def)

lemma read_loop_result:
  "read_loop n cfg this s = Inr s' \<Longrightarrow> J E F (e_app (snd s)) \<Longrightarrow> c_fd (fst s) \<in> F \<Longrightarrow> conn_result E F (c_fd (fst s)) s'"
proof (induction n arbitrary: s)
  case (Suc n)
  obtain c Ev where s: "s = (c, Ev)" by (cases s)
  from Suc.prems(1) s obtain len where len: "rb_length (e_pool Ev) (c_ibuf c) = Inr len" by (auto simp: res_bind_Inr_iff)
  show ?case
  proof (cases "len < int MESSAGE_HEAD_LEN")
    case True
    then show ?thesis using Suc.prems s len by (simp add: conn_result_def)
  next
    case False
    with Suc.prems(1) s len obtain mem where d: "rb_data (e_pool Ev) (c_ibuf c) = Inr (Some mem)"
      by (auto simp: res_bind_Inr_iff split: option.splits)
    let ?h = "read_head mem"
    consider (bad) "MESSAGE_LENGTH_LIMIT < h_length ?h \<or> h_length ?h < 0"
      | (part) "\<not> (MESSAGE_LENGTH_LIMIT < h_length ?h \<or> h_length ?h < 0)" "len < int MESSAGE_HEAD_LEN + h_length ?h"
      | (msg) "\<not> (MESSAGE_LENGTH_LIMIT < h_length ?h \<or> h_length ?h < 0)" "\<not> len < int MESSAGE_HEAD_LEN + h_length ?h" by blast
    then show ?thesis
    proof cases
      case bad
      then have "clean_conn cfg this s = Inr s'" using Suc.prems(1) s len d False by (simp add: Let_def)
      then show ?thesis using Suc.prems(2,3) by (rule clean_result)
    next
      case part
      then show ?thesis using Suc.prems s len d False by (simp add: Let_def conn_result_def)
    next
      case msg
      with Suc.prems(1) s len d False obtain q1 P1 bd c2 E2 q3 P3 where
        r: "router_dispatch cfg this (c\<lparr>c_ibuf := q1\<rparr>, Ev\<lparr>e_pool := P1\<rparr>) (h_id ?h) (word_of_int (h_length ?h)) bd = Inr (c2, E2)"
        and l: "read_loop n cfg this (c2\<lparr>c_ibuf := q3\<rparr>, E2\<lparr>e_pool := P3\<rparr>) = Inr s'"
        by (auto simp: Let_def res_bind_Inr_iff)
      from router_dispatch_app[OF r] have "c_fd c2 = c_fd c" "J E F (e_app E2)"
        using Suc.prems(2,3) s msg_law by auto
      then show ?thesis using Suc.IH[OF l] Suc.prems(3) s by simp
    qed
  qed
qed simp

lemma do_read_result:
  assumes "do_read cfg this s io = Inr s'" and "J E F (e_app (snd s))" and "c_fd (fst s) \<in> F"
  shows "conn_result E F (c_fd (fst s)) s'"
proof -
  obtain c Ev where s: "s = (c, Ev)" by (cases s)
  from assms(1) s obtain ret q P where "read_data (e_pool Ev) (c_ibuf c) (fst io) (snd io) = Inr (ret, q, P)"
    and b: "(if ret = -1 \<or> ret = 0 then clean_conn cfg this (c\<lparr>c_ibuf := q\<rparr>, Ev\<lparr>e_pool := P\<rparr>)
      else res_bind (rb_length P q) (\<lambda>len. res_bind (read_loop (Suc (nat len)) cfg this (c\<lparr>c_ibuf := q\<rparr>, Ev\<lparr>e_pool := P\<rparr>)) (\<lambda>(c2, E2).
        res_bind (rb_adjust (e_pool E2) (c_ibuf c2)) (\<lambda>P2. Inr (c2, E2\<lparr>e_pool := P2\<rparr>))))) = Inr s'"
    unfolding do_read_def Let_def by (auto simp: res_bind_Inr_iff)
  show ?thesis
  proof (cases "ret = -1 \<or> ret = 0")
    case True
    then show ?thesis using b clean_result[of this "(c\<lparr>c_ibuf := q\<rparr>, Ev\<lparr>e_pool := P\<rparr>)" s' E F] assms(2,3) s by simp
  next
    case False
    with b obtain n c2 E2 P2 where "read_loop n cfg this (c\<lparr>c_ibuf := q\<rparr>, Ev\<lparr>e_pool := P\<rparr>) = Inr (c2, E2)"
      and "s' = (c2, E2\<lparr>e_pool := P2\<rparr>)" by (auto simp: res_bind_Inr_iff simp del: read_loop.simps)
    then show ?thesis using read_loop_result[of n this "(c\<lparr>c_ibuf := q\<rparr>, Ev\<lparr>e_pool := P\<rparr>)" "(c2, E2)" E F] assms(2,3) s
      by (simp add: conn_result_def)
  qed
qed

lemma write_loop_result:
  "write_loop n cfg this s ws = Inr (closed, sent, s') \<Longrightarrow> J E F (e_app (snd s)) \<Longrightarrow> c_fd (fst s) \<in> F \<Longrightarrow>
   conn_result E F (c_fd (fst s)) s'"
proof (induction n arbitrary: s ws sent)
  case (Suc n)
  obtain c Ev where s: "s = (c, Ev)" by (cases s)
  from Suc.prems(1) s obtain len where len: "rb_length (e_pool Ev) (c_obuf c) = Inr len" by (auto simp: res_bind_Inr_iff)
  show ?case
  proof (cases "len = 0")
    case True
    then show ?thesis using Suc.prems s len by (simp add: conn_result_def)
  next
    case False
    with Suc.prems(1) s len obtain ret snt ws' P where w: "write2fd (e_pool Ev) (c_obuf c) ws = Inr (ret, snt, ws', P)"
      by (auto simp: res_bind_Inr_iff)
    let ?s1 = "(c, Ev\<lparr>e_pool := P\<rparr>)"
    consider (err) "ret = -1" | (stop) "ret = 0" | (more) "ret \<noteq> -1" "ret \<noteq> 0" by blast
    then show ?thesis
    proof cases
      case err
      then have "clean_conn cfg this ?s1 = Inr s'" using Suc.prems(1) s len w False by (auto simp: Let_def res_bind_Inr_iff)
      from clean_result[OF this, of E F] show ?thesis using Suc.prems(2,3) s by simp
    next
      case stop
      then show ?thesis using Suc.prems s len w False by (auto simp: Let_def conn_result_def)
    next
      case more
      then obtain rest where "write_loop n cfg this ?s1 ws' = Inr (closed, rest, s')"
        using Suc.prems(1) s len w False by (auto simp: Let_def res_bind_Inr_iff)
      from Suc.IH[OF this] show ?thesis using Suc.prems(2,3) s by simp
    qed
  qed
qed simp

lemma do_write_result:
  assumes "do_write cfg this s ws = Inr (sent, s')" and "J E F (e_app (snd s))" and "c_fd (fst s) \<in> F"
  shows "conn_result E F (c_fd (fst s)) s'"
proof -
  from assms(1) obtain n closed c E2 where w: "write_loop n cfg this s ws = Inr (closed, sent, c, E2)"
    and r: "fst s' = c" "e_app (snd s') = e_app E2"
    by (auto simp: do_write_def res_bind_Inr_iff simp del: write_loop.simps split: if_splits)
  from write_loop_result[OF w assms(2,3)] r show ?thesis by (simp add: conn_result_def)
qed

end

section \<open>One worker\<close>

lemma handled_dom:
  assumes h: "handled this X S (c, Ev) (c', E')" and f: "c_fd c \<noteq> -1"
  shows "dom (io_evs (e_loop E')) = (if c_fd c' = -1 then dom (io_evs (e_loop Ev)) - {c_fd c} else insert (c_fd c) (dom (io_evs (e_loop Ev))))"
proof -
  have fr: "frame_rel X (c_fd c) Ev E'" using h by (auto simp: handled_def closed_rel_def)
  have g: "io_evs (e_loop E') g = io_evs (e_loop Ev) g" if "g \<noteq> c_fd c" for g using fr that by (simp add: frame_rel_def)
  show ?thesis
  proof (cases "c_fd c' = -1")
    case True
    then have "closed_rel X S (c, Ev) (c', E')" using h f by (auto simp: handled_def)
    then have "io_evs (e_loop E') (c_fd c) = None" by (simp add: closed_rel_def)
    then have "x \<in> dom (io_evs (e_loop E')) \<longleftrightarrow> x \<in> dom (io_evs (e_loop Ev)) - {c_fd c}" for x
      using g by (cases "x = c_fd c") (simp_all add: domIff)
    then show ?thesis using True by auto
  next
    case False
    then have "conn_inv this X (c', E')" "c_fd c' = c_fd c" using h by (auto simp: handled_def closed_rel_def)
    then have "c_fd c \<in> dom (io_evs (e_loop E'))" by (auto simp: conn_inv_def mid_inv_def armed_def)
    then have "x \<in> dom (io_evs (e_loop E')) \<longleftrightarrow> x \<in> insert (c_fd c) (dom (io_evs (e_loop Ev)))" for x
      using g by (cases "x = c_fd c") (simp_all add: domIff)
    then show ?thesis using False by auto
  qed
qed

context server_app
begin

lemma deal_run_result:
  assumes "threads_ok evfd qid B S0 own ts s" and "run (deal_one cfg) s ts = Inr s'"
    and "J E (dom S0 \<union> dom own) (w_app (snd s))" and "set (mail_fds ts) \<inter> E = {}"
  shows "J E (dom S0 \<union> (set (mail_fds ts) \<union> dom own)) (w_app (snd s'))"
  using assms
proof (induction ts arbitrary: s own)
  case (Cons t ts)
  note cfg = cfg_law[OF Cons.prems(3)]
  from Cons.prems(2) obtain s1 where d: "deal_one cfg s t = Inr s1" and r: "run (deal_one cfg) s1 ts = Inr s'"
    by (auto simp: res_bind_Inr_iff)
  obtain l W where s: "s = (l, W)" by (cases s)
  show ?case
  proof (cases t)
    case (NEW_CONN f)
    from deal_conn[OF cfg Cons.prems(1)[unfolded NEW_CONN] d[unfolded NEW_CONN]] obtain own1 where
      o1: "threads_ok evfd qid B S0 own1 ts s1" "dom own1 = insert f (dom own)" by blast
    from d NEW_CONN s obtain c E' where "tcp_conn_new cfg (w_fresh W) f (env_of (l, W)) = Inr (c, E')" "w_app (snd s1) = e_app E'"
      by (auto simp: deal_one_def Let_def res_bind_Inr_iff put_conn_def)
    then have "w_app (snd s1) = start_app cfg (w_app W) f" using tcp_conn_new_app by (fastforce simp: env_of_def)
    moreover have "f \<notin> dom S0 \<union> dom own" using Cons.prems(1) NEW_CONN by (simp add: threads_ok_def)
    moreover have "f \<notin> E" using Cons.prems(4) NEW_CONN by simp
    ultimately have "J E (dom S0 \<union> dom own1) (w_app (snd s1))" using start_law Cons.prems(3) s o1(2) by simp
    from Cons.IH[OF o1(1) r this] show ?thesis using Cons.prems(4) o1(2) NEW_CONN by simp
  next
    case (NEW_TASK h a)
    have s1: "s1 = (add_task l h a, W)" using d NEW_TASK s by (simp add: deal_one_def)
    have "loop_inv l" "tq_inv (w_queue W)" "distinct (mail_fds ts)"
      using Cons.prems(1) s NEW_TASK by (simp_all add: threads_ok_def)
    then have "threads_ok evfd qid B S0 own ts s1"
      using threads_ok_cong[OF Cons.prems(1)[unfolded s], of "add_task l h a" W ts] NEW_TASK s1 by simp
    from Cons.IH[OF this r] show ?thesis using Cons.prems(3,4) s s1 NEW_TASK by simp
  qed
qed simp

lemma mail_result:
  assumes T: "threads_ok evfd qid B S0 own (tq_queue (w_queue W)) (l, W)" and d: "deal_tasks cfg (l, W) = Inr s'"
    and J: "J E (dom S0 \<union> dom own) (w_app W)" and m: "set (mail_fds (tq_queue (w_queue W))) \<inter> E = {}"
  shows "J E (dom S0 \<union> (dom (io_evs (fst s')) - {evfd})) (w_app (snd s'))"
proof -
  let ?q = "snd (tq_recv (w_queue W) [])" and ?ts = "tq_queue (w_queue W)"
  have "tq_inv ?q" using tq.recv_law[of "w_queue W"] T by (simp add: threads_ok_def)
  then have T2: "threads_ok evfd qid B S0 own ?ts (l, W\<lparr>w_queue := ?q\<rparr>)"
    using threads_ok_cong[OF T, of l "W\<lparr>w_queue := ?q\<rparr>" ?ts] T by (simp add: threads_ok_def)
  have r: "run (deal_one cfg) (l, W\<lparr>w_queue := ?q\<rparr>) ?ts = Inr s'" using d by (simp add: deal_tasks_def tq_recv_def)
  from deal_run[OF cfg_law[OF J] T2 r] obtain own' where "threads_ok evfd qid B S0 own' [] s'" "dom own' = set (mail_fds ?ts) \<union> dom own" by blast
  then have "dom (io_evs (fst s')) - {evfd} = set (mail_fds ?ts) \<union> dom own" by (auto simp: threads_ok_def)
  then show ?thesis using deal_run_result[OF T2 r] J m by simp
qed

text \<open>An event of a connection, after which it is open or closed.\<close>

lemma conn_event_result:
  assumes T: "threads_ok evfd qid B S0 own ts (l, W)" and o: "own f = Some a" and c: "w_conns W a = Some c" "c_fd c = f"
    and h: "handled a (others_of B (open_conns W own) a) (S0 ++ own) (c, env_of (l, W)) (c', E')"
    and r: "conn_result E (dom S0 \<union> dom own) f (c', E')"
  shows "J E (dom S0 \<union> (dom (io_evs (e_loop E')) - {evfd})) (e_app E')"
proof -
  have "reg_inv (w_reg W) (S0 ++ own)" "(S0 ++ own) f = Some a" using T o by (simp_all add: threads_ok_def)
  then have "in_range (w_reg W) f" by (simp add: reg_inv_def del: map_add_Some_iff)
  then have f: "f \<noteq> -1" by (auto simp: in_range_def)
  have "dom (io_evs (e_loop E')) = (if c_fd c' = -1 then dom (io_evs l) - {f} else insert f (dom (io_evs l)))"
    using handled_dom[OF h] c(2) f by (simp add: env_of_def)
  moreover have "dom (io_evs l) = insert evfd (dom own)" "evfd \<notin> dom own" "f \<noteq> evfd" "f \<in> dom own" "f \<notin> dom S0"
    using T o by (auto simp: threads_ok_def)
  ultimately have "dom S0 \<union> (dom (io_evs (e_loop E')) - {evfd}) =
      (if c_fd c' = -1 then dom S0 \<union> dom own - {f} else dom S0 \<union> dom own)" by auto
  then show ?thesis using r f by (auto simp: conn_result_def)
qed

lemma worker_result:
  assumes T: "threads_ok evfd qid B S0 own (tq_queue (w_queue (snd s))) s"
    and e: "entry (fst s) cb f args" and i: "worker_invoke cfg cb f args s = Inr s'"
    and J: "J E (dom S0 \<union> dom own) (w_app (snd s))" and m: "set (mail_fds (tq_queue (w_queue (snd s)))) \<inter> E = {}"
  shows "J E (dom S0 \<union> (dom (io_evs (fst s')) - {evfd})) (w_app (snd s'))"
proof -
  note cfg = cfg_law[OF J]
  obtain l W0 where s: "s = (l, W0)" by (cases s)
  let ?W = "W0\<lparr>w_no := Suc (w_no W0)\<rparr>" and ?ts = "tq_queue (w_queue W0)"
  have T0: "threads_ok evfd qid B S0 own ?ts (l, W0)" using T s by simp
  have T1: "threads_ok evfd qid B S0 own ?ts (l, ?W)"
    using threads_ok_cong[OF T0, of l ?W ?ts] T0 by (simp add: threads_ok_def)
  have "dom (io_evs l) = insert evfd (dom own)" using T0 by (simp add: threads_ok_def)
  moreover have "f \<in> dom (io_evs l)" using e s by (auto simp: entry_def)
  ultimately consider (mail) "f = evfd" | (conn) a where "own f = Some a" by auto
  then show ?thesis
  proof cases
    case mail
    then have "cb = deal_task_message" using mail_only[OF T0] e s by simp
    then have "deal_tasks cfg (l, ?W) = Inr s'" using i s by (simp add: worker_invoke_def Let_def)
    from mail_result[OF _ this] T1 J m s show ?thesis by simp
  next
    case (conn a)
    have cb: "args = Some a" "cb = conn_rd_callback \<or> cb = conn_wt_callback"
      using conn_only[OF T0 conn] e s by simp_all
    from threads_conn[OF T1 conn] obtain c where c: "w_conns ?W a = Some c" "c_fd c = f"
      "conn_inv a (others_of B (open_conns ?W own) a) (c, env_of (l, ?W))" by blast
    have R: "reg_inv (e_reg (env_of (l, ?W))) (S0 ++ own)" and Sf: "(S0 ++ own) (c_fd c) = Some a"
      using T1 conn c(2) by (simp_all add: threads_ok_def env_of_def)
    have Je: "J E (dom S0 \<union> dom own) (e_app (env_of (l, ?W)))" "c_fd c \<in> dom S0 \<union> dom own"
      using J s conn c(2) by (auto simp: env_of_def)
    note fin = conn_event_result[OF T1 conn c(1,2)]
    show ?thesis
    proof (cases "cb = conn_rd_callback")
      case True
      with i cb(1) c(1) s obtain c' E' where
        d: "do_read cfg a (c, env_of (l, ?W)) (w_rd W0 (w_no W0)) = Inr (c', E')" and s': "s' = put_conn (l, ?W) a (c', E')"
        by (auto simp: worker_invoke_def Let_def res_bind_Inr_iff)
      from fin[of c' E' E] do_read_handled[OF cfg c(3) _ _ d] do_read_result[OF d, of E "dom S0 \<union> dom own"] R Sf Je c(2)
      show ?thesis by (simp add: s' put_conn_def)
    next
      case False
      with i cb c(1) s obtain sent c' E' where
        d: "do_write cfg a (c, env_of (l, ?W)) (w_wr W0 (w_no W0)) = Inr (sent, c', E')"
        and s': "fst s' = e_loop E'" "w_app (snd s') = e_app E'"
        by (auto simp: worker_invoke_def Let_def res_bind_Inr_iff put_conn_def)
      from fin[of c' E' E] do_write_handled[OF cfg c(3) _ _ d] do_write_result[OF d, of E "dom S0 \<union> dom own"] R Sf Je c(2)
      show ?thesis by (simp add: s')
    qed
  qed
qed

end

section \<open>All threads\<close>

text \<open>The descriptors of open connections, as the loops of the workers have them.\<close>

definition conn_fds :: "'a server_sys \<Rightarrow> int set" where
  "conn_fds S = {f. \<exists>i a c. open_conn S i f a c}"

lemma conn_fds_dom: "sys_ok G S \<Longrightarrow> conn_fds S = dom G"
  using sys_open_fds[of G S] by (auto simp: conn_fds_def regs_def)

context server_app
begin

lemma step_result:
  assumes S: "sys_ok G S" and J: "J (set (y_evfds S)) (dom G) (w_app (y_world S))" and st: "server_step cfg task S S'"
  shows "\<exists>G'. sys_ok G' S' \<and> y_evfds S' = y_evfds S \<and> J (set (y_evfds S)) (dom G') (w_app (y_world S'))"
  using st
proof (cases rule: server_step.cases)
  case (accept this as r fd tp Ev)
  from accept_step[OF S accept(2,3)] show ?thesis using accept(1) J by auto
next
  case (send func args tp)
  from send_step[OF S send(2)] show ?thesis using send(1) J by auto
next
  case (event i fe s)
  from event_step[OF cfg_law[OF J] S event(2-4)] obtain own' where S': "sys_ok (upd_own G i own') S'"
    and T': "threads_ok (y_evfds S ! i) i (bufs_of (y_world S) (other_of G i)) (other_of G i) own' (tq_queue (w_queue (snd s))) s"
    and c: "s = thread_view S i \<or> (\<exists>cb a. entry (y_loops S ! i) cb (fst fe) a \<and> worker_invoke cfg cb (fst fe) a (thread_view S i) = Inr s)"
    unfolding event(1) by blast
  have T: "threads_ok (y_evfds S ! i) i (bufs_of (y_world S) (other_of G i)) (other_of G i) (own_of G i)
      (tq_queue (w_queue (snd (thread_view S i)))) (thread_view S i)"
    using sys_worker[OF S event(2)] by (simp add: worker_ok_def thread_view_def)
  have dG: "dom (other_of G i) \<union> dom (own_of G i) = dom G" by (rule dom_other_own)
  have d: "dom (other_of G i) \<inter> dom own' = {}" using T' by (simp add: threads_ok_def)
  have dG': "dom (upd_own G i own') = dom (other_of G i) \<union> dom own'"
    using dom_other_own(1)[of "upd_own G i own'" i] upd_own[OF d] by simp
  have own': "dom own' = dom (io_evs (fst s)) - {y_evfds S ! i}" using T' by (auto simp: threads_ok_def)
  have "set (mail_fds (tq_queue (tp_queues (y_tp S) ! i))) \<inter> set (y_evfds S) = {}"
    using S nth_mails[of i S] event(2) unfolding sys_ok_def by auto
  then have m: "set (mail_fds (tq_queue (w_queue (snd (thread_view S i))))) \<inter> set (y_evfds S) = {}" by (simp add: thread_view_def)
  have Ji: "J (set (y_evfds S)) (dom (other_of G i) \<union> dom (own_of G i)) (w_app (snd (thread_view S i)))"
    using J dG by (simp add: thread_view_def)
  have "J (set (y_evfds S)) (dom (upd_own G i own')) (w_app (snd s))"
    using c
  proof (elim disjE exE conjE)
    assume s: "s = thread_view S i"
    have "dom own' = dom (own_of G i)" using own' T s by (auto simp: threads_ok_def)
    then show ?thesis using Ji dG' s by simp
  next
    fix cb a assume "entry (y_loops S ! i) cb (fst fe) a" and w: "worker_invoke cfg cb (fst fe) a (thread_view S i) = Inr s"
    then have "entry (fst (thread_view S i)) cb (fst fe) a" by (simp add: thread_view_def)
    from worker_result[OF T this w Ji m] show ?thesis using dG' own' by simp
  qed
  then show ?thesis using S' event(1) by (intro exI[of _ "upd_own G i own'"]) simp
next
  case (tasks i s)
  have "y_evfds S ! i \<in> set (y_evfds S)" using S tasks(2) by (simp add: sys_ok_def)
  from task_step[OF task_law conjI[OF this J] S tasks(2,3)] show ?thesis using tasks(1) by auto
qed

text \<open>So the property holds in every state that the server reaches.\<close>

lemma reachable_result:
  assumes "(server_step cfg task)\<^sup>*\<^sup>* S S'" and "sys_ok G S" and "J (set (y_evfds S)) (dom G) (w_app (y_world S))"
  shows "\<exists>G'. sys_ok G' S' \<and> y_evfds S' = y_evfds S \<and> J (set (y_evfds S)) (dom G') (w_app (y_world S'))"
  using assms
proof (induction rule: rtranclp_induct)
  case (step S1 S2)
  then obtain G1 where "sys_ok G1 S1" "y_evfds S1 = y_evfds S" "J (set (y_evfds S)) (dom G1) (w_app (y_world S1))" by blast
  then show ?case using step_result[of G1 S1 S2] step.hyps(2) by simp
qed blast

end

section \<open>A small server\<close>

text \<open>Three workers; one connection is accepted and opened by the first of them.\<close>

abbreviation small_pool :: thread_pool where
  "small_pool \<equiv> \<lparr>tp_queues = replicate 3 thread_queue_new, thread_cnt = 3, tp_index = 0\<rparr>"

abbreviation small_env :: "'a \<Rightarrow> 'a env" where
  "small_env a \<equiv> \<lparr>e_pool = buf_pool_new (\<lambda>_ _. 0), e_loop = add_io_event (event_loop_new (\<lambda>_. True)) 4 accept_callback EPOLLIN (Some 0),
     e_reg = registry_new (\<lambda>_. None) 1024, e_app = a\<rparr>"

lemma silent_start_app:
  assumes "silent_start cfg"
  shows "call_conn_cb (conn_start_cb cfg) this (c, E) = Inr (c, E\<lparr>e_app := start_app cfg (e_app E) (c_fd c)\<rparr>)"
proof -
  from silent_start_call[OF assms] obtain a where a: "call_conn_cb (conn_start_cb cfg) this (c, E) = Inr (c, E\<lparr>e_app := a\<rparr>)" by blast
  from call_conn_cb_app[OF a] have "a = start_app cfg (e_app E) (c_fd c)" by (simp add: start_app_def split: option.splits)
  then show ?thesis using a by simp
qed

lemma small_start:
  obtains S0 where "server_start [7, 8, 10] rds wrs (\<lparr>sv_fd = 4, sv_threads = Some (Some small_pool)\<rparr>, small_env a) = Inr S0"
    and "y_fd S0 = 4" and "y_tp S0 = small_pool" and "length (y_loops S0) = 3" and "y_evfds S0 = [7, 8, 10]"
    and "y_world S0 = world_new rds wrs thread_queue_new (small_env a)" and "open_fds S0 \<subseteq> {4, 7, 8, 10}"
    and "\<forall>i < 3. io_evs (y_loops S0 ! i) = [[7, 8, 10] ! i \<mapsto> registered None deal_task_message EPOLLIN (Some i)] \<and> loop_inv (y_loops S0 ! i)"
proof -
  let ?sv = "\<lparr>sv_fd = 4, sv_threads = Some (Some small_pool)\<rparr>" and ?E = "small_env a"
  obtain S0 where s: "server_start [7, 8, 10] rds wrs (?sv, ?E) = Inr S0" by (simp add: server_start_eq)
  have f: "y_fd S0 = 4" "y_tp S0 = small_pool" "y_main S0 = e_loop ?E" "length (y_loops S0) = 3" "y_evfds S0 = [7, 8, 10]"
    "y_world S0 = world_new rds wrs thread_queue_new ?E"
    using s by (auto simp: server_start_eq)
  have L0: "loop_inv (event_loop_new (\<lambda>_. True))" by (simp add: loop_inv_new)
  have "dom (io_evs (y_main S0)) = {4}"
    using add_io_event_spec(2)[OF L0, of EPOLLIN 4 accept_callback "Some 0"] f(3)
    by (simp add: rw_mask_def) (simp add: event_loop_new_def)
  moreover have ev: "io_evs (y_loops S0 ! i) = [[7, 8, 10] ! i \<mapsto> registered None deal_task_message EPOLLIN (Some i)] \<and> loop_inv (y_loops S0 ! i)"
    if "i < 3" for i
    using thread_main_spec[OF start_loops[OF s]] that f(4) by simp
  have "dom (io_evs (y_loops S0 ! i)) \<subseteq> {7, 8, 10}" if "i < 3" for i
    using ev[OF that] that by (auto simp: numeral_3_eq_3 less_Suc_eq)
  then have "(\<Union>l \<in> set (y_loops S0). dom (io_evs l)) \<subseteq> {7, 8, 10}" using f(4) by (fastforce simp: in_set_conv_nth)
  moreover have "mails S0 = []" using f(2) by (simp add: mails_def thread_queue_new_def)
  ultimately have "open_fds S0 \<subseteq> {4, 7, 8, 10}" unfolding open_fds_def by auto
  then show thesis using that[OF s f(1,2,4-6)] ev by blast
qed

lemma small_server:
  assumes c: "silent_start cfg"
  obtains S0 S k where "server_start [7, 8, 10] rds wrs (\<lparr>sv_fd = 4, sv_threads = Some (Some small_pool)\<rparr>, small_env a) = Inr S0"
    and "length (y_loops S0) = 3" and "(server_step cfg task)\<^sup>*\<^sup>* S0 S" and "open_conn S 0 9 0 k" and "c_obuf k = None" and "c_ibuf k = None"
    and "w_app (y_world S) = start_app cfg a 9" and "w_rd (y_world S) = rds" and "w_no (y_world S) = 1"
    and "w_pool (y_world S) = buf_pool_new (\<lambda>_ _. 0)" and "length (y_loops S) = 3" and "y_evfds S = [7, 8, 10]"
proof -
  obtain S0 where s: "server_start [7, 8, 10] rds wrs (\<lparr>sv_fd = 4, sv_threads = Some (Some small_pool)\<rparr>, small_env a) = Inr S0"
    and f: "y_fd S0 = 4" "y_tp S0 = small_pool" "length (y_loops S0) = 3" "y_evfds S0 = [7, 8, 10]"
      "y_world S0 = world_new rds wrs thread_queue_new (small_env a)" and o: "open_fds S0 \<subseteq> {4, 7, 8, 10}"
    and ev: "\<forall>i < 3. io_evs (y_loops S0 ! i) = [[7, 8, 10] ! i \<mapsto> registered None deal_task_message EPOLLIN (Some i)] \<and> loop_inv (y_loops S0 ! i)"
    by (rule small_start)
  let ?tp' = "\<lparr>tp_queues = [tq_send thread_queue_new (NEW_CONN 9), thread_queue_new, thread_queue_new], thread_cnt = 3, tp_index = 1\<rparr>"
  have q: "replicate 3 (thread_queue_new :: task_msg thread_queue) = [thread_queue_new, thread_queue_new, thread_queue_new]"
    by (simp add: numeral_3_eq_3)
  have a: "do_accept cfg 1 [Accepted 9] (\<lparr>sv_fd = y_fd S0, sv_threads = Some (Some (y_tp S0))\<rparr>, env_of (y_main S0, y_world S0)) =
      Inr (Queued 0 9, \<lparr>sv_fd = 4, sv_threads = Some (Some ?tp')\<rparr>, env_of (y_main S0, y_world S0))"
    using f q by (simp add: env_of_def world_new_def registry_new_def get_conn_num_def get_thread_def tp_send_def Let_def)
  from o have "\<forall>f. Accepted f \<in> set [Accepted 9] \<longrightarrow> f \<notin> open_fds S0" by auto
  from server_step.accept[OF a this] have r1: "server_step cfg task S0 (S0\<lparr>y_tp := ?tp'\<rparr>)" .
  let ?S1 = "S0\<lparr>y_tp := ?tp'\<rparr>" and ?l = "y_loops S0 ! 0" and ?k = "\<lparr>c_fd = 9, c_obuf = None, c_ibuf = None\<rparr>"
  let ?W = "(y_world S0)\<lparr>w_queue := snd (tq_recv (tq_send thread_queue_new (NEW_CONN 9)) []), w_no := 1\<rparr>"
  let ?l' = "add_io_event ?l 9 conn_rd_callback EPOLLIN (Some 0)"
  from increase_conn_spec[of "registry_new (\<lambda>_. None) 1024" Map.empty 9 0] reg_inv_new[of 1024 "\<lambda>_. None"]
  obtain R' where R': "increase_conn (registry_new (\<lambda>_. None) 1024) 9 0 = Inr R'" "reg_inv R' [9 \<mapsto> 0]"
    by (auto simp: in_range_def registry_new_def)
  let ?s = "(?l', ?W\<lparr>w_reg := R', w_app := start_app cfg a 9, w_conns := [0 \<mapsto> ?k], w_fresh := 1\<rparr>)"
  have ev0: "io_evs ?l = [7 \<mapsto> registered None deal_task_message EPOLLIN (Some 0)]" and ll: "loop_inv ?l" using ev by simp_all
  have dis: "dispatch_one (worker_invoke cfg) (thread_view ?S1 0) (7, EPOLLIN) = Inr ?s"
    using ev0 f R'(1) by (simp add: silent_start_app[OF c] dispatch_one_def call_ptr_def thread_view_def worker_invoke_def Let_def in_mask bit_epoll
        registered_def io_event_new_def epoll_bits deal_tasks_def tq_recv_def tq_send_def thread_queue_new_def deal_one_def
        tcp_conn_new_def env_of_def world_new_def put_conn_def)
  from ll have "reported (y_loops ?S1 ! 0) (7, EPOLLIN)"
    using ev0 by (simp add: reported_def loop_inv_def registered_def io_event_new_def Let_def epoll_bits)
  from server_step.event[OF _ this dis, where task = task] f(3)
  have r2: "server_step cfg task ?S1 (put_thread ?S1 0 ?s)" by simp
  have "\<forall>g b. [9 \<mapsto> 0] g = Some b \<longrightarrow> in_range R' g \<and> conns R' ! nat g = Some b"
    using R'(2) unfolding reg_inv_def by (elim conjE)
  from this[rule_format, of 9 0] have "in_range R' 9" "conns R' ! 9 = Some 0" by simp_all
  then have "open_conn (put_thread ?S1 0 ?s) 0 9 0 ?k"
    using add_io_event_spec(2)[OF ll, of EPOLLIN 9 conn_rd_callback "Some 0"] f(3,4)
    by (simp add: open_conn_def rw_mask_def)
  moreover have "(server_step cfg task)\<^sup>*\<^sup>* S0 (put_thread ?S1 0 ?s)" by (rule rtranclp.rtrancl_into_rtrancl[of "server_step cfg task" S0 ?S1, OF _ r2])
    (rule r_into_rtranclp[of "server_step cfg task", OF r1])
  ultimately show thesis using that[OF s f(3), of "put_thread ?S1 0 ?s" ?k] f(3-5) by (simp add: world_new_def)
qed

end
