(* ===== verification/Subscribe.thy ===== *)
theory Subscribe
  imports Dns_Route Rins_Proto Tcp_Server
begin

text \<open>
  dns/include/subscribe.h and dns/src/subscribe.cc: which connections subscribed to which routes
  (\<open>_book_list\<close>), which changes wait to be pushed to which connection (\<open>_push_list\<close>), and the task
  that pushes them from the worker threads. A locked region is one step. Iteration orders of the
  unordered containers are parameters: \<open>iter\<close> enumerates a set, \<open>fds\<close> the keys of a map over
  descriptors.
\<close>

section \<open>Subscriptions\<close>

record subscribe_list =
  book_list :: "u64 \<rightharpoonup> int set"
  push_list :: "int \<rightharpoonup> u64 set"

definition subscribe_list_new :: subscribe_list where
  "subscribe_list_new = \<lparr>book_list = Map.empty, push_list = Map.empty\<rparr>"

definition subscribe_instance :: "subscribe_list option \<Rightarrow> (subscribe_list \<times> subscribe_list option) res" where
  "subscribe_instance inst = pthread_once inst (Inr subscribe_list_new)"

definition subscribe :: "subscribe_list \<Rightarrow> u64 \<Rightarrow> int \<Rightarrow> subscribe_list" where
  "subscribe S md fd = S\<lparr>book_list := (book_list S)(md \<mapsto> insert fd (lookup (book_list S) md))\<rparr>"

definition unsubscribe :: "subscribe_list \<Rightarrow> u64 \<Rightarrow> int \<Rightarrow> subscribe_list" where
  "unsubscribe S md fd =
     (case book_list S md of
        None \<Rightarrow> S
      | Some fds \<Rightarrow>
          (let fds' = fds - {fd}
           in S\<lparr>book_list := (book_list S)(md := (if fds' = {} then None else Some fds'))\<rparr>))"

text \<open>
  The loop of \<open>publish\<close> over the subscribers of one changed route: it inserts into independent
  entries, so the order of the subscribers does not matter.
\<close>

definition push_change :: "(u64 \<rightharpoonup> int set) \<Rightarrow> u64 \<Rightarrow> (int \<rightharpoonup> u64 set) \<Rightarrow> (int \<rightharpoonup> u64 set)" where
  "push_change book md P =
     (case book md of
        None \<Rightarrow> P
      | Some fds \<Rightarrow> (\<lambda>fd. if fd \<in> fds then Some (insert md (lookup P fd)) else P fd))"

definition publish :: "subscribe_list \<Rightarrow> thread_pool option \<Rightarrow> nat \<Rightarrow> u64 list \<Rightarrow> (subscribe_list \<times> thread_pool) res" where
  "publish S tp this change_mods =
     (let S' = S\<lparr>push_list := fold (push_change (book_list S)) change_mods (push_list S)\<rparr> in
      case tp of
        None \<Rightarrow> Inl Null_deref
      | Some pool \<Rightarrow> res_bind (send_task pool push_change_task this) (\<lambda>pool'. Inr (S', pool')))"

text \<open>
  The loop of \<open>make_publish_map\<close> erases the element its iterator denotes, which invalidates the
  iterator, and then increments it: the increment of an invalid iterator is a fault.
\<close>

fun publish_scan ::
  "int set \<Rightarrow> (int \<rightharpoonup> u64 set) \<times> (int \<rightharpoonup> u64 set) \<Rightarrow> int list \<Rightarrow> ((int \<rightharpoonup> u64 set) \<times> (int \<rightharpoonup> u64 set)) res" where
  "publish_scan online (push, need) [] = Inr (push, need)"
| "publish_scan online (push, need) (fd # fds) =
     (let (push', need', valid) =
        (if fd \<in> online then (push(fd := None), need(fd := push fd), False) else (push, need, True))
      in res_bind (check Invalid_iterator valid) (\<lambda>_. publish_scan online (push', need') fds))"

definition make_publish_map ::
  "int list \<Rightarrow> subscribe_list \<Rightarrow> int set \<Rightarrow> (subscribe_list \<times> (int \<rightharpoonup> u64 set)) res" where
  "make_publish_map order S online_fds =
     res_bind (publish_scan online_fds (push_list S, Map.empty) order) (\<lambda>(push, need).
       Inr (S\<lparr>push_list := push\<rparr>, need))"

section \<open>Route responses\<close>

text \<open>The response for a route; \<open>get_route\<close> and \<open>push_change_task\<close> build it with the same loop.\<close>

definition host_of :: "'u wire \<Rightarrow> u64 \<Rightarrow> 'u HostInfo" where
  "host_of w ip_port = HostInfo_copy w ((HostInfo_clear w)\<lparr>hi_ip := high_half ip_port, hi_port := low_half ip_port\<rparr>)"

definition route_response :: "'u wire \<Rightarrow> (u64 set \<Rightarrow> u64 list) \<Rightarrow> route \<Rightarrow> i32 \<Rightarrow> i32 \<Rightarrow> 'u GetRouteResponse" where
  "route_response w iter R modid cmdid =
     (GetRouteResponse_clear w)\<lparr>rr_modid := modid, rr_cmdid := cmdid,
       rr_host := map (host_of w) (iter (get_hosts R modid cmdid))\<rparr>"

definition response_req :: "'u wire \<Rightarrow> 'u GetRouteResponse \<Rightarrow> send_req" where
  "response_req w resp =
     (let response_string = GetRouteResponse_serialize w resp
      in (response_string, int (length response_string), ID_GetRouteResponse))"

section \<open>The push task\<close>

record dns =
  d_route :: route
  d_subs :: subscribe_list
  d_param :: "int \<rightharpoonup> u64 set"

text \<open>
  One response to one connection: \<open>tcp_server::conns[fd]\<close> is read, and if it is not null the
  connection object it points to sends.
\<close>

definition push_one ::
  "'u wire \<Rightarrow> (u64 set \<Rightarrow> u64 list) \<Rightarrow> event_loop \<times> dns world \<Rightarrow> int \<times> u64 \<Rightarrow> (event_loop \<times> dns world) res" where
  "push_one w iter s job =
     (let (fd, st) = job;
          resp = route_response w iter (d_route (w_app (snd s))) (high_half st) (low_half st);
          R = w_reg (snd s) in
      res_bind (check Out_of_bounds (in_range R fd)) (\<lambda>_.
      case conns R ! nat fd of
        None \<Rightarrow> Inr s
      | Some a \<Rightarrow>
          res_bind (deref (w_conns (snd s)) a) (\<lambda>c.
          res_bind (send_message a (c, env_of s) (response_req w resp)) (\<lambda>(_, r).
            Inr (put_conn s a r)))))"

definition push_jobs :: "(u64 set \<Rightarrow> u64 list) \<Rightarrow> int list \<Rightarrow> (int \<rightharpoonup> u64 set) \<Rightarrow> (int \<times> u64) list" where
  "push_jobs iter order need = concat (map (\<lambda>fd. map (Pair fd) (iter (lookup need fd))) order)"

text \<open>The loops of \<open>push_change_task\<close> over the map that \<open>make_publish_map\<close> filled.\<close>

definition send_changes ::
  "'u wire \<Rightarrow> (u64 set \<Rightarrow> u64 list) \<Rightarrow> (u64 set \<Rightarrow> u64 list) \<Rightarrow> int list \<Rightarrow> (int \<rightharpoonup> u64 set) \<Rightarrow> event_loop \<times> dns world \<Rightarrow>
   (event_loop \<times> dns world) res" where
  "send_changes w iter subs order need s = run (push_one w iter) s (push_jobs subs order need)"

definition run_push_change_task ::
  "'u wire \<Rightarrow> (u64 set \<Rightarrow> u64 list) \<Rightarrow> (u64 set \<Rightarrow> u64 list) \<Rightarrow> (int set \<Rightarrow> int list) \<Rightarrow> event_loop \<times> dns world \<Rightarrow>
   (event_loop \<times> dns world) res" where
  "run_push_change_task w iter subs fds s =
     (let D = w_app (snd s) in
      res_bind (make_publish_map (fds (dom (push_list (d_subs D)))) (d_subs D) (get_listen_fds (fst s))) (\<lambda>(S', need).
        send_changes w iter subs (fds (dom need)) need (fst s, (snd s)\<lparr>w_app := D\<lparr>d_subs := S'\<rparr>\<rparr>)))"

section \<open>Subscriptions as a relation\<close>

text \<open>The contract of the book: subscribing adds one pair, unsubscribing removes it.\<close>

definition subscribed :: "subscribe_list \<Rightarrow> u64 \<Rightarrow> int \<Rightarrow> bool" where
  "subscribed S md fd \<longleftrightarrow> fd \<in> lookup (book_list S) md"

definition book_inv :: "subscribe_list \<Rightarrow> bool" where
  "book_inv S \<longleftrightarrow> (\<forall>md. book_list S md \<noteq> Some {})"

locale subscriptions =
  fixes sub :: "'s \<Rightarrow> 'm \<Rightarrow> 'c \<Rightarrow> 's"
    and unsub :: "'s \<Rightarrow> 'm \<Rightarrow> 'c \<Rightarrow> 's"
    and isub :: "'s \<Rightarrow> 'm \<Rightarrow> 'c \<Rightarrow> bool"
    and ok :: "'s \<Rightarrow> bool"
  assumes sub_iff: "isub (sub s m c) m' c' \<longleftrightarrow> m' = m \<and> c' = c \<or> isub s m' c'"
    and unsub_iff: "isub (unsub s m c) m' c' \<longleftrightarrow> isub s m' c' \<and> \<not> (m' = m \<and> c' = c)"
    and ok_sub: "ok s \<Longrightarrow> ok (sub s m c)"
    and ok_unsub: "ok s \<Longrightarrow> ok (unsub s m c)"
begin

lemma unsub_all_iff: "isub (fold (\<lambda>m s. unsub s m c) ms s) m' c' \<longleftrightarrow> isub s m' c' \<and> \<not> (m' \<in> set ms \<and> c' = c)"
  by (induction ms arbitrary: s) (auto simp: unsub_iff)

lemma ok_unsub_all: "ok s \<Longrightarrow> ok (fold (\<lambda>m s. unsub s m c) ms s)"
  by (induction ms arbitrary: s) (auto simp: ok_unsub)

end

lemma lookup_fun_upd: "lookup (m(k := x)) j = (if j = k then (case x of None \<Rightarrow> {} | Some s \<Rightarrow> s) else lookup m j)"
  by (simp add: lookup_def)

interpretation book: subscriptions subscribe unsubscribe subscribed book_inv
proof unfold_locales
  fix S md fd md' fd'
  show "subscribed (subscribe S md fd) md' fd' \<longleftrightarrow> md' = md \<and> fd' = fd \<or> subscribed S md' fd'"
    by (auto simp: subscribed_def subscribe_def lookup_fun_upd)
  show "subscribed (unsubscribe S md fd) md' fd' \<longleftrightarrow> subscribed S md' fd' \<and> \<not> (md' = md \<and> fd' = fd)"
    by (auto simp: subscribed_def unsubscribe_def lookup_def Let_def split: option.splits)
  show "book_inv S \<Longrightarrow> book_inv (subscribe S md fd)"
    by (auto simp: book_inv_def subscribe_def)
  show "book_inv S \<Longrightarrow> book_inv (unsubscribe S md fd)"
    by (auto simp: book_inv_def unsubscribe_def Let_def split: option.splits)
qed

section \<open>Publishing\<close>

lemma lookup_push_change: "lookup (push_change book md P) fd = lookup P fd \<union> (if fd \<in> lookup book md then {md} else {})"
  by (auto simp: push_change_def lookup_def split: option.splits)

lemma lookup_push_changes:
  "lookup (fold (push_change book) mods P) fd = lookup P fd \<union> {md \<in> set mods. fd \<in> lookup book md}"
  by (induction mods arbitrary: P) (auto simp: lookup_push_change)

lemma publish_scan_eq:
  "publish_scan online pn order = (if \<exists>fd \<in> set order. fd \<in> online then Inl Invalid_iterator else Inr pn)"
  by (induction online pn order rule: publish_scan.induct) auto

lemma publish_all:
  assumes "tp_inv tp"
  shows "\<exists>S' tp'. publish S (Some tp) this mods = Inr (S', tp') \<and> tp_inv tp' \<and> book_list S' = book_list S \<and>
    (\<forall>md fd. md \<in> lookup (push_list S') fd \<longleftrightarrow> md \<in> lookup (push_list S) fd \<or> md \<in> set mods \<and> subscribed S md fd) \<and>
    map tq_queue (tp_queues tp') = map (\<lambda>q. tq_queue q @ [NEW_TASK push_change_task this]) (tp_queues tp)"
proof -
  from send_task_all[OF assms, of push_change_task this] obtain tp' where "send_task tp push_change_task this = Inr tp'"
    "tp_inv tp'" "map tq_queue (tp_queues tp') = map (\<lambda>q. tq_queue q @ [NEW_TASK push_change_task this]) (tp_queues tp)"
    by blast
  then show ?thesis by (auto simp: publish_def Let_def lookup_push_changes subscribed_def)
qed

text \<open>
  \<open>publish\<close> queues every change for every subscriber. Afterwards a route waits for a connection
  exactly if it did before, or if it is among the changes and the connection is subscribed to it;
  subscriptions are unchanged, and every worker thread has one more push task in its mailbox and
  an eventfd that is readable.
\<close>

theorem publish_queues_changes:
  assumes "tp_inv tp"
  shows "\<exists>S' tp'. publish S (Some tp) this mods = Inr (S', tp') \<and> tp_inv tp' \<and> book_list S' = book_list S \<and>
    (\<forall>md fd. md \<in> lookup (push_list S') fd \<longleftrightarrow> md \<in> lookup (push_list S) fd \<or> md \<in> set mods \<and> subscribed S md fd) \<and>
    map tq_queue (tp_queues tp') = map (\<lambda>q. tq_queue q @ [NEW_TASK push_change_task this]) (tp_queues tp)"
  by (rule publish_all[OF assms])

theorem publish_queues_changes_witness:
  "\<exists>tp S' tp'. thread_pool_new 2 = Inr tp \<and>
     publish (subscribe (subscribe subscribe_list_new 5 7) 6 8) (Some tp) 1 [5, 9] = Inr (S', tp') \<and>
     5 \<in> lookup (push_list S') 7 \<and> 6 \<notin> lookup (push_list S') 8"
proof -
  let ?S = "subscribe (subscribe subscribe_list_new 5 7) 6 8"
  let ?tp = "\<lparr>tp_queues = replicate 2 thread_queue_new, thread_cnt = 2, tp_index = 0\<rparr>"
  have tp: "thread_pool_new 2 = Inr ?tp" by (simp add: thread_pool_new_def)
  from publish_queues_changes[OF tp_inv_new[OF tp], of ?S 1 "[5, 9]"] obtain S' tp' where
    p: "publish ?S (Some ?tp) 1 [5, 9] = Inr (S', tp')" and
    l: "\<forall>md fd. md \<in> lookup (push_list S') fd \<longleftrightarrow>
      md \<in> lookup (push_list ?S) fd \<or> md \<in> set [5, 9] \<and> subscribed ?S md fd" by blast
  have "5 \<in> lookup (push_list S') 7" "6 \<notin> lookup (push_list S') 8"
    unfolding l[rule_format] by (auto simp: subscribe_def subscribe_list_new_def subscribed_def lookup_def)
  with tp p show ?thesis by blast
qed

lemma make_publish_map_eq:
  assumes "set order = dom (push_list S)"
  shows "make_publish_map order S online =
    (if dom (push_list S) \<inter> online = {} then Inr (S, Map.empty) else Inl Invalid_iterator)"
  using assms by (auto simp: make_publish_map_def publish_scan_eq)

text \<open>
  C34: \<open>make_publish_map\<close> never hands a change over. In whatever order it visits the waiting
  connections, the call increments an invalid iterator exactly if a change waits for one that is online.
  Otherwise it returns with the push list as it was and an empty result.
\<close>

theorem make_publish_map_outcome:
  assumes "set order = dom (push_list S)"
  shows "(make_publish_map order S online = Inl Invalid_iterator \<longleftrightarrow> dom (push_list S) \<inter> online \<noteq> {}) \<and>
    (dom (push_list S) \<inter> online = {} \<longrightarrow> make_publish_map order S online = Inr (S, Map.empty))"
  using make_publish_map_eq[OF assms, of online] by auto

theorem make_publish_map_outcome_witness:
  "make_publish_map [7] \<lparr>book_list = Map.empty, push_list = [7 \<mapsto> {5}]\<rparr> {7} = Inl Invalid_iterator"
  using make_publish_map_outcome[of "[7]" "\<lparr>book_list = Map.empty, push_list = [7 \<mapsto> {5}]\<rparr>" "{7}"]
  by simp

end
