(* ===== verification/Dns_Service.thy ===== *)
theory Dns_Service
  imports Subscribe
begin

text \<open>
  dns/src/dns_service.cc: the handler that answers route requests and records the subscription of
  the connection, the connection callbacks that keep the per-connection list of routes, and the
  background loop that follows the database. The service's state is the record \<open>dns\<close> of Subscribe;
  \<open>d_param\<close> is the \<open>param\<close> pointer of the connection with that descriptor, null when undefined.
  \<open>sub_inv\<close> relates it to the subscriptions; Dns\_System shows that the running service keeps it.
\<close>

section \<open>Operations\<close>

definition get_route ::
  "'u wire \<Rightarrow> (u64 set \<Rightarrow> u64 list) \<Rightarrow> dns \<Rightarrow> int \<Rightarrow> byte list option \<Rightarrow> u32 \<Rightarrow> (dns \<times> send_req list) res" where
  "get_route w iter D fd data len =
     (let req = fst (GetRouteRequest_parse w (body data len));
          modid = rq_modid req; cmdid = rq_cmdid req;
          md = mod_key modid cmdid in
      case d_param D fd of
        None \<Rightarrow> Inl Null_deref
      | Some sub_list \<Rightarrow>
          let D' = (if md \<in> sub_list then D
                    else D\<lparr>d_param := (d_param D)(fd \<mapsto> insert md sub_list),
                           d_subs := subscribe (d_subs D) md fd\<rparr>)
          in Inr (D', [response_req w (route_response w iter (d_route D) modid cmdid)]))"

definition create_subscribe :: "dns \<Rightarrow> int \<Rightarrow> dns" where
  "create_subscribe D fd = D\<lparr>d_param := (d_param D)(fd \<mapsto> {})\<rparr>"

definition clear_subscribe :: "(u64 set \<Rightarrow> u64 list) \<Rightarrow> dns \<Rightarrow> int \<Rightarrow> dns res" where
  "clear_subscribe iter D fd =
     (case d_param D fd of
        None \<Rightarrow> Inl Null_deref
      | Some sub_list \<Rightarrow>
          Inr (D\<lparr>d_subs := fold (\<lambda>md S. unsubscribe S md fd) (iter sub_list) (d_subs D),
                 d_param := (d_param D)(fd := None)\<rparr>))"

text \<open>
  What the database answers in one round of the background thread. The thread's own state is the
  time of the last load; a round returns the statement with which it deletes old changes, if any.
\<close>

record db =
  q_version :: answer
  q_data :: answer
  q_changes :: "int \<Rightarrow> answer"

definition wait_time :: int where
  "wait_time = 10"

definition reload :: "route \<Rightarrow> answer \<Rightarrow> int \<Rightarrow> int \<Rightarrow> (route \<times> int) res" where
  "reload R data current_time last_load_time =
     res_bind (load_route_data R data) (\<lambda>(ret, R').
       Inr (if ret = 0 then (swap R', current_time) else (R', last_load_time)))"

definition check_round ::
  "nat \<Rightarrow> dns \<times> thread_pool option \<times> int \<Rightarrow> db \<times> int \<Rightarrow> ((dns \<times> thread_pool option \<times> int) \<times> sql list) res" where
  "check_round subs_addr s obs =
     (let (D, tp, last_load_time) = s; (q, current_time) = obs in
      res_bind (load_version (d_route D) (q_version q)) (\<lambda>(ret, R1).
      if ret = 1 then
        res_bind (reload R1 (q_data q) current_time last_load_time) (\<lambda>(R2, last').
        res_bind (load_changes R2 (q_changes q) []) (\<lambda>changes.
        res_bind (publish (d_subs D) tp subs_addr changes) (\<lambda>(S', tp').
          Inr ((D\<lparr>d_route := R2, d_subs := S'\<rparr>, Some tp', last'), [remove_changes R2 False]))))
      else if wait_time \<le> current_time - last_load_time then
        res_bind (reload R1 (q_data q) current_time last_load_time) (\<lambda>(R2, last').
          Inr ((D\<lparr>d_route := R2\<rparr>, tp, last'), []))
      else Inr ((D\<lparr>d_route := R1\<rparr>, tp, last_load_time), [])))"

definition check_route_changes ::
  "nat \<Rightarrow> dns \<times> thread_pool option \<Rightarrow> int \<Rightarrow> (db \<times> int) list \<Rightarrow> ((dns \<times> thread_pool option \<times> int) \<times> sql list) res" where
  "check_route_changes subs_addr s now obs =
     run (\<lambda>(s, sqls) ob. res_bind (check_round subs_addr s ob) (\<lambda>(s', new). Inr (s', sqls @ new)))
       ((fst s, snd s, now), [remove_changes (d_route (fst s)) True]) obs"

text \<open>
  \<open>main\<close>: the configuration of the server. Dns\_System shows that on the states that can occur no
  handler faults. \<open>iter\<close> and \<open>subs\<close> are the orders in which a set of hosts and a set of
  subscriptions are traversed.
\<close>

definition dns_cfg :: "'u wire \<Rightarrow> (u64 set \<Rightarrow> u64 list) \<Rightarrow> (u64 set \<Rightarrow> u64 list) \<Rightarrow> (dns, unit) server_cfg" where
  "dns_cfg w iter subs =
     (let cfg0 = \<lparr>s_router = router_new, conn_start_cb = None, conn_close_cb = None\<rparr>;
          cfg1 = set_conn_start cfg0 (\<lambda>D fd. (create_subscribe D fd, []));
          cfg2 = set_conn_close cfg1 (\<lambda>D fd. quiet D (res_bind (clear_subscribe subs D fd) (\<lambda>D'. Inr (D', []))))
      in add_msg_router cfg2 ID_GetRouteRequest (\<lambda>D fd data len msgid u. quiet D (get_route w iter D fd data len)) ())"

section \<open>Subscriptions and connections agree\<close>

definition enumerates :: "('a set \<Rightarrow> 'a list) \<Rightarrow> bool" where
  "enumerates iter \<longleftrightarrow> (\<forall>s. finite s \<longrightarrow> set (iter s) = s \<and> distinct (iter s))"

definition sub_inv :: "dns \<Rightarrow> bool" where
  "sub_inv D \<longleftrightarrow> book_inv (d_subs D) \<and>
     (\<forall>md fd. subscribed (d_subs D) md fd \<longleftrightarrow> md \<in> lookup (d_param D) fd) \<and>
     (\<forall>fd s. d_param D fd = Some s \<longrightarrow> finite s)"

lemma sub_inv_get_route:
  assumes "sub_inv D" and "get_route w iter D fd data len = Inr (D', out)"
  shows "sub_inv D'"
  using assms
  by (auto simp: get_route_def sub_inv_def book.sub_iff book.ok_sub lookup_fun_upd Let_def
      split: option.splits if_splits) (auto simp: lookup_def)

text \<open>What a request adds to the book, in a state in which book and lists agree.\<close>

lemma get_route_subscribes:
  fixes w :: "'u wire"
  assumes "sub_inv D" and "get_route w iter D fd data len = Inr (D', out)"
  defines "q \<equiv> fst (GetRouteRequest_parse w (body data len))"
  shows "sub_inv D' \<and> mod_key (rq_modid q) (rq_cmdid q) \<in> lookup (d_param D') fd \<and>
    (\<forall>md f. subscribed (d_subs D') md f \<longleftrightarrow> subscribed (d_subs D) md f \<or> md = mod_key (rq_modid q) (rq_cmdid q) \<and> f = fd)"
proof -
  let ?md = "mod_key (rq_modid q) (rq_cmdid q)"
  from assms(2) obtain subs where d: "d_param D fd = Some subs"
    and D': "D' = (if ?md \<in> subs then D else D\<lparr>d_param := (d_param D)(fd \<mapsto> insert ?md subs), d_subs := subscribe (d_subs D) ?md fd\<rparr>)"
    by (auto simp: get_route_def q_def Let_def split: option.splits)
  have "subscribed (d_subs D) ?md fd" if "?md \<in> subs" using assms(1) d that by (simp add: sub_inv_def lookup_def)
  then show ?thesis using sub_inv_get_route[OF assms(1,2)] d by (auto simp: D' lookup_def book.sub_iff)
qed

lemma sub_inv_create: "sub_inv D \<Longrightarrow> d_param D fd = None \<Longrightarrow> sub_inv (create_subscribe D fd)"
  by (auto simp: create_subscribe_def sub_inv_def lookup_fun_upd) (auto simp: lookup_def)

lemma clear_subscribe_spec:
  assumes "sub_inv D" and "enumerates iter" and "clear_subscribe iter D fd = Inr D'"
  shows "sub_inv D' \<and> (\<forall>md. \<not> subscribed (d_subs D') md fd) \<and>
    (\<forall>md fd'. fd' \<noteq> fd \<longrightarrow> subscribed (d_subs D') md fd' = subscribed (d_subs D) md fd')"
proof -
  obtain s where s: "d_param D fd = Some s" and D': "D' = D\<lparr>d_subs := fold (\<lambda>md S. unsubscribe S md fd) (iter s) (d_subs D),
      d_param := (d_param D)(fd := None)\<rparr>"
    using assms(3) by (auto simp: clear_subscribe_def split: option.splits)
  have i: "set (iter s) = s" using assms(1,2) s by (auto simp: sub_inv_def enumerates_def)
  have l: "lookup (d_param D) fd = s" by (simp add: lookup_def s)
  have p: "subscribed (d_subs D) md fd' \<longleftrightarrow> md \<in> lookup (d_param D) fd'" for md fd'
    using assms(1) by (simp add: sub_inv_def)
  have "book_inv (d_subs D')" using assms(1) by (simp add: D' sub_inv_def book.ok_unsub_all)
  moreover have "subscribed (d_subs D') md fd' \<longleftrightarrow> md \<in> lookup (d_param D') fd'" for md fd'
    using p l by (auto simp: D' book.unsub_all_iff i lookup_fun_upd)
  moreover have "\<forall>fd s. d_param D' fd = Some s \<longrightarrow> finite s" using assms(1) by (auto simp: D' sub_inv_def)
  ultimately show ?thesis using p l by (auto simp: D' sub_inv_def book.unsub_all_iff i)
qed

lemma sub_inv_subs: "sub_inv D \<Longrightarrow> book_list S' = book_list (d_subs D) \<Longrightarrow> sub_inv (D\<lparr>d_route := R, d_subs := S'\<rparr>)"
  by (auto simp: sub_inv_def subscribed_def book_inv_def)

lemma publish_book: "publish S tp a mods = Inr (S', tp') \<Longrightarrow> book_list S' = book_list S"
  by (auto simp: publish_def Let_def res_bind_Inr_iff split: option.splits)

lemma check_round_book:
  assumes "check_round a (D, tp, t) ob = Inr ((D', tp', t'), sqls)"
  shows "book_list (d_subs D') = book_list (d_subs D) \<and> d_param D' = d_param D"
  using assms
  by (auto simp: check_round_def Let_def res_bind_Inr_iff split: prod.splits if_splits dest: publish_book)

definition sorted_iter :: "'a :: linorder set \<Rightarrow> 'a list" where
  "sorted_iter s = sorted_list_of_set s"

lemma enumerates_sorted [simp]: "enumerates sorted_iter"
  by (simp add: enumerates_def sorted_iter_def)

section \<open>Answering a request\<close>

lemma host_of_plain:
  assumes "wire_format w"
  shows "host_of w v = \<lparr>unknown = no_unknown w, hi_ip = high_half v, hi_port = low_half v\<rparr>"
  unfolding host_of_def
  by (subst wire_format.HostInfo_copy_same[OF assms]) (simp_all add: HostInfo_clear_def)

lemma dns_router:
  "router_call (s_router (dns_cfg w iter subs)) i =
     (if i = ID_GetRouteRequest then Some (\<lambda>D fd data len msgid u. quiet D (get_route w iter D fd data len), Some ()) else None)"
  by (simp add: dns_cfg_def add_msg_router_def set_conn_start_def set_conn_close_def router_call_register Let_def)

lemma dns_callbacks:
  "conn_start_cb (dns_cfg w iter subs) = Some (\<lambda>D fd. (create_subscribe D fd, []))"
  "conn_close_cb (dns_cfg w iter subs) = Some (\<lambda>D fd. quiet D (res_bind (clear_subscribe subs D fd) (\<lambda>D'. Inr (D', []))))"
  by (simp_all add: dns_cfg_def add_msg_router_def set_conn_start_def set_conn_close_def Let_def)

text \<open>A response with at most 200000 hosts fits the largest buffer class.\<close>

lemma route_response_size:
  assumes "wire_format w" and "length (iter (get_hosts R m c)) \<le> 200000"
  shows "length (GetRouteResponse_serialize w (route_response w iter R m c)) \<le> 6000000"
proof -
  let ?r = "route_response w iter R m c"
  have h: "message_size w (HostInfo_size w h) \<le> 27" if "h \<in> set (rr_host ?r)" for h
  proof -
    have "HostInfo_size w h \<le> 22"
      using that wire_format.int32_size[OF assms(1), of "hi_ip h"] wire_format.int32_size[OF assms(1), of "hi_port h"]
      by (auto simp: route_response_def host_of_plain[OF assms(1)] HostInfo_size_def no_unknown_size[OF assms(1)])
    then show ?thesis using wire_format.message_overhead[OF assms(1), of "HostInfo_size w h"] by simp
  qed
  have "(\<Sum>h \<leftarrow> rr_host ?r. message_size w (HostInfo_size w h)) \<le> (\<Sum>h \<leftarrow> rr_host ?r. 27)"
    using h by (intro sum_list_mono) simp
  moreover have "length (rr_host ?r) \<le> 200000" "unknown ?r = no_unknown w"
    using assms(2) by (simp_all add: route_response_def GetRouteResponse_clear_def)
  ultimately show ?thesis
    using wire_format.GetRouteResponse_length[OF assms(1), of ?r] no_unknown_size[OF assms(1)]
      wire_format.int32_size[OF assms(1), of "rr_modid ?r"] wire_format.int32_size[OF assms(1), of "rr_cmdid ?r"]
    by (simp add: GetRouteResponse_size_def sum_list_triv)
qed

lemma route_req_ok:
  assumes "wire_format w" and "\<forall>hs. length (iter hs) \<le> 200000"
  shows "req_ok (response_req w (route_response w iter R m c))"
  using route_response_size[OF assms(1), of iter R m c] assms(2)
  by (simp add: req_ok_def response_req_def Let_def id_defs in_int_def)

text \<open>The configuration of the DNS service keeps the contract that the reactor's theorems ask for.\<close>

lemma dns_cfg_ok:
  assumes "wire_format w" and "\<forall>hs. length (iter hs) \<le> 200000"
  shows "cfg_ok (dns_cfg w iter subs)"
proof -
  note s = route_req_ok[OF assms]
  have "req_ok req" if "req \<in> set (snd (quiet D (get_route w iter D fd data len)))" for req D fd data len
    using that s by (auto simp: quiet_def get_route_def Let_def split: option.splits sum.splits)
  moreover have "get_route w iter D fd (Some d) len = get_route w iter D fd (Some (take (unat len) d)) len" for D fd d len
    by (simp add: get_route_def body_def)
  ultimately show ?thesis
    by (auto simp: cfg_ok_def dns_router cb_ok_def dns_callbacks quiet_def res_bind_def split: if_splits sum.splits)
qed

lemma request_roundtrip:
  assumes "wire_format w" and "unknown q = no_unknown w"
  shows "fst (GetRouteRequest_parse w (GetRouteRequest_serialize w q)) = q"
  using wire_format.GetRouteRequest_parse_serialize[OF assms, of "GetRouteRequest_clear w"]
    wire_format.GetRouteRequest_copy_same[OF assms]
  by (simp add: GetRouteRequest_parse_def parse_from_array_def GetRouteRequest_copy_def)

text \<open>
  C18: the answer to a route request. On the serialised request for a module and command,
  \<open>get_route\<close> sends one message, a \<open>GetRouteResponse\<close> that a client parses back to the ids it asked
  for and exactly the hosts the routing table has for them, each with its address taken apart;
  and the connection is subscribed to that route afterwards, in its own list and in the book from which
  changes are published, where nothing else has changed. The state is one in which book and lists
  agree, as they do whenever the service runs.
\<close>

theorem get_route_answers:
  assumes "wire_format w" and "enumerates iter" and "d_param D fd = Some subs" and "sub_inv D"
    and "unknown q = no_unknown w" and "finite (get_hosts (d_route D) (rq_modid q) (rq_cmdid q))"
    and "length (GetRouteRequest_serialize w q) < 2 ^ 32"
  shows "\<exists>D' data. get_route w iter D fd (Some (GetRouteRequest_serialize w q @ rest))
        (of_nat (length (GetRouteRequest_serialize w q))) = Inr (D', [(data, int (length data), ID_GetRouteResponse)]) \<and>
    (\<exists>resp. GetRouteResponse_parse w data = (resp, True) \<and> rr_modid resp = rq_modid q \<and> rr_cmdid resp = rq_cmdid q \<and>
      (\<lambda>h. (hi_ip h, hi_port h)) ` set (rr_host resp) =
        (\<lambda>v. (high_half v, low_half v)) ` get_hosts (d_route D) (rq_modid q) (rq_cmdid q) \<and>
      length (rr_host resp) = card (get_hosts (d_route D) (rq_modid q) (rq_cmdid q))) \<and>
    mod_key (rq_modid q) (rq_cmdid q) \<in> lookup (d_param D') fd \<and> sub_inv D' \<and>
    (\<forall>md f. subscribed (d_subs D') md f \<longleftrightarrow> subscribed (d_subs D) md f \<or> md = mod_key (rq_modid q) (rq_cmdid q) \<and> f = fd)"
proof -
  let ?q = "GetRouteRequest_serialize w q" and ?H = "get_hosts (d_route D) (rq_modid q) (rq_cmdid q)"
  let ?resp = "route_response w iter (d_route D) (rq_modid q) (rq_cmdid q)"
  let ?data = "GetRouteResponse_serialize w ?resp"
  have b: "body (Some (?q @ rest)) (of_nat (length ?q)) = ?q" using assms(7) by (simp add: body_def unat_of_nat)
  have it: "set (iter ?H) = ?H" "length (iter ?H) = card ?H"
    using assms(2,6) distinct_card[of "iter ?H"] by (auto simp: enumerates_def)
  have "GetRouteResponse_parse w ?data = (?resp, True)"
    using route_response_parsed[OF assms(1), of ?resp]
    by (auto simp: route_response_def host_of_plain[OF assms(1)] GetRouteResponse_clear_def)
  moreover have "(\<lambda>h. (hi_ip h, hi_port h)) ` set (rr_host ?resp) = (\<lambda>v. (high_half v, low_half v)) ` ?H"
    by (simp add: route_response_def host_of_plain[OF assms(1)] image_image it)
  moreover have "length (rr_host ?resp) = card ?H" by (simp add: route_response_def it)
  moreover have "rr_modid ?resp = rq_modid q" "rr_cmdid ?resp = rq_cmdid q" by (simp_all add: route_response_def)
  moreover obtain D' where D': "get_route w iter D fd (Some (?q @ rest)) (of_nat (length ?q)) =
      Inr (D', [(?data, int (length ?data), ID_GetRouteResponse)])"
    using assms(3) by (simp add: get_route_def b request_roundtrip[OF assms(1,5)] response_req_def Let_def)
  moreover have "mod_key (rq_modid q) (rq_cmdid q) \<in> lookup (d_param D') fd" "sub_inv D'"
    "\<forall>md f. subscribed (d_subs D') md f \<longleftrightarrow> subscribed (d_subs D) md f \<or> md = mod_key (rq_modid q) (rq_cmdid q) \<and> f = fd"
    using get_route_subscribes[OF assms(4) D'] by (simp_all add: b request_roundtrip[OF assms(1,5)])
  ultimately show ?thesis by blast
qed


theorem get_route_answers_witness:
  "\<exists>D D' data resp. d_param D 7 = Some {} \<and>
     get_route pb_wire sorted_iter D 7 (Some (GetRouteRequest_serialize pb_wire \<lparr>unknown = [], rq_modid = 1, rq_cmdid = 2\<rparr> @ []))
       (of_nat (length (GetRouteRequest_serialize pb_wire \<lparr>unknown = [], rq_modid = 1, rq_cmdid = 2\<rparr>))) =
       Inr (D', [(data, int (length data), ID_GetRouteResponse)]) \<and>
     GetRouteResponse_parse pb_wire data = (resp, True) \<and> length (rr_host resp) = 1 \<and> subscribed (d_subs D') (mod_key 1 2) 7"
proof -
  let ?q = "\<lparr>unknown = [], rq_modid = 1, rq_cmdid = 2\<rparr> :: byte list GetRouteRequest"
  let ?D = "\<lparr>d_route = \<lparr>r_version = 0, r_data = [mod_key 1 2 \<mapsto> {host_value 7 80}], r_temp = Map.empty\<rparr>,
    d_subs = subscribe_list_new, d_param = [7 \<mapsto> {}]\<rparr>"
  have H: "get_hosts (d_route ?D) (rq_modid ?q) (rq_cmdid ?q) = {host_value 7 80}" by (simp add: get_hosts_def)
  have len: "length (GetRouteRequest_serialize pb_wire ?q) \<le> 22"
    using pb.int32_size[of 1] pb.int32_size[of 2]
    by (simp add: GetRouteRequest_serialize_def pb.written_length) (simp add: pb_wire_def)
  have sb: "sub_inv ?D" by (auto simp: sub_inv_def subscribe_list_new_def book_inv_def subscribed_def lookup_def)
  have "length (GetRouteRequest_serialize pb_wire ?q) < 2 ^ 32" using len by simp
  from get_route_answers[OF pb.wire_format_axioms enumerates_sorted, of ?D 7 "{}" ?q "[]", OF _ sb _ _ this]
  obtain D' data resp where "get_route pb_wire sorted_iter ?D 7 (Some (GetRouteRequest_serialize pb_wire ?q @ []))
        (of_nat (length (GetRouteRequest_serialize pb_wire ?q))) = Inr (D', [(data, int (length data), ID_GetRouteResponse)])"
      "GetRouteResponse_parse pb_wire data = (resp, True)" "length (rr_host resp) = 1" "subscribed (d_subs D') (mod_key 1 2) 7"
    unfolding H by (auto simp: pb_wire_def)
  moreover have "d_param ?D 7 = Some {}" by simp
  ultimately show ?thesis by blast
qed

section \<open>Following the database\<close>

lemma reload_rows:
  assumes "rows \<noteq> []" and "\<forall>r \<in> set rows. row_ok r"
  shows "\<exists>R'. reload R (Rows rows) now before = Inr (R', now) \<and> r_version R' = r_version R \<and>
    (\<forall>m c. get_hosts R' m c = table_hosts rows m c)"
  using reload_table[OF assms, of R] by (auto simp: reload_def swap_def)

text \<open>
  C19: a new version in the database reaches the subscribers. If the version row differs from the
  version held, and the tables are well-formed and not empty, the round returns; from then on
  \<open>get_hosts\<close> answers from the new table, every subscriber of a changed route has it in its push
  list, the workers have been told, and the changes up to this version are deleted.
\<close>

theorem new_version_published:
  assumes "q_version q = Rows [[v]]" and "atol v \<noteq> r_version (d_route D)"
    and "q_data q = Rows rows" and "rows \<noteq> []" and "\<forall>r \<in> set rows. row_ok r"
    and "q_changes q (sint (atol v)) = Rows changes" and "\<forall>r \<in> set changes. 2 \<le> length r"
    and "tp_inv tp"
  shows "\<exists>D' tp'. check_round a (D, Some tp, before) (q, now) = Inr ((D', Some tp', now), [Delete_upto (sint (atol v))]) \<and>
    (\<forall>m c. get_hosts (d_route D') m c = table_hosts rows m c) \<and>
    (\<forall>r fd. r \<in> set changes \<longrightarrow> subscribed (d_subs D) (mod_key (atoi (r ! 0)) (atoi (r ! 1))) fd \<longrightarrow>
       mod_key (atoi (r ! 0)) (atoi (r ! 1)) \<in> lookup (push_list (d_subs D')) fd) \<and>
    (\<forall>queue \<in> set (tp_queues tp'). NEW_TASK push_change_task a \<in> set (tq_queue queue))"
proof -
  let ?R1 = "(d_route D)\<lparr>r_version := atol v\<rparr>"
  let ?cs = "map (\<lambda>r. mod_key (atoi (r ! 0)) (atoi (r ! 1))) changes"
  obtain R2 where R2: "reload ?R1 (Rows rows) now before = Inr (R2, now)" "r_version R2 = atol v"
      "\<forall>m c. get_hosts R2 m c = table_hosts rows m c"
    using reload_rows[OF assms(4,5), of ?R1 now before] by auto
  have ch: "load_changes R2 (q_changes q) [] = Inr ?cs"
    using assms(6,7) R2(2) by (simp add: load_changes_def run_change_key)
  from publish_all[OF assms(8), of "d_subs D" a ?cs] obtain S' tp' where
    pb: "publish (d_subs D) (Some tp) a ?cs = Inr (S', tp')"
    and l: "\<forall>md fd. md \<in> lookup (push_list S') fd \<longleftrightarrow> md \<in> lookup (push_list (d_subs D)) fd \<or> md \<in> set ?cs \<and> subscribed (d_subs D) md fd"
    and m: "map tq_queue (tp_queues tp') = map (\<lambda>q. tq_queue q @ [NEW_TASK push_change_task a]) (tp_queues tp)" by blast
  have t: "NEW_TASK push_change_task a \<in> set (tq_queue queue)" if "queue \<in> set (tp_queues tp')" for queue
  proof -
    have "tq_queue queue \<in> set (map tq_queue (tp_queues tp'))" using that by simp
    then show ?thesis unfolding m by auto
  qed
  have "check_round a (D, Some tp, before) (q, now) =
      Inr ((D\<lparr>d_route := R2, d_subs := S'\<rparr>, Some tp', now), [Delete_upto (sint (atol v))])"
    using assms(1-3) R2 ch pb by (simp add: check_round_def load_version_def column_def remove_changes_def)
  with R2(3) l t show ?thesis by auto
qed

theorem new_version_published_witness:
  "\<exists>D D' tp tp' q. subscribed (d_subs D) (mod_key (atoi ''1'') (atoi ''2'')) 7 \<and>
     check_round 3 (D, Some tp, 0) (q, 5) = Inr ((D', Some tp', 5), [Delete_upto (sint (atol ''99''))]) \<and>
     mod_key (atoi ''1'') (atoi ''2'') \<in> lookup (push_list (d_subs D')) 7"
proof -
  let ?tp = "\<lparr>tp_queues = replicate 1 thread_queue_new, thread_cnt = 1, tp_index = 0\<rparr>"
  have tp: "thread_pool_new 1 = Inr ?tp" by (simp add: thread_pool_new_def)
  let ?k = "mod_key (atoi ''1'') (atoi ''2'')"
  let ?D = "\<lparr>d_route = \<lparr>r_version = atol ''99'' + 1, r_data = Map.empty, r_temp = Map.empty\<rparr>,
    d_subs = subscribe subscribe_list_new ?k 7, d_param = [7 \<mapsto> {?k}]\<rparr>"
  let ?q = "\<lparr>q_version = Rows [[''99'']], q_data = Rows [[''1'', ''1'', ''2'', ''3'', ''80'']],
    q_changes = (\<lambda>_. Rows [[''1'', ''2'']])\<rparr>"
  have s: "subscribed (d_subs ?D) ?k 7" by (simp add: book.sub_iff)
  from new_version_published[of ?q "''99''" ?D "[[''1'', ''1'', ''2'', ''3'', ''80'']]" "[[''1'', ''2'']]" ?tp 3 0 5]
  obtain D' tp' where c: "check_round 3 (?D, Some ?tp, 0) (?q, 5) = Inr ((D', Some tp', 5), [Delete_upto (sint (atol ''99''))])"
    and l: "\<forall>r fd. r \<in> set [[''1'', ''2'']] \<longrightarrow> subscribed (d_subs ?D) (mod_key (atoi (r ! 0)) (atoi (r ! 1))) fd \<longrightarrow>
       mod_key (atoi (r ! 0)) (atoi (r ! 1)) \<in> lookup (push_list (d_subs D')) fd"
    using tp_inv_new[OF tp] by (auto simp: row_ok_def)
  from l[rule_format, of "[''1'', ''2'']" 7] s have "?k \<in> lookup (push_list (d_subs D')) 7" by simp
  with c s show ?thesis by blast
qed

lemma reload_atomic:
  assumes "reload R ans now before = Inr (R', t)" and "\<forall>rows. ans = Rows rows \<longrightarrow> (\<forall>r \<in> set rows. row_ok r)"
  shows "(\<forall>m c. get_hosts R' m c = get_hosts R m c) \<or>
    (\<exists>rows. ans = Rows rows \<and> rows \<noteq> [] \<and> (\<forall>m c. get_hosts R' m c = table_hosts rows m c))"
proof (cases "\<exists>rows. ans = Rows rows \<and> rows \<noteq> []")
  case True
  then obtain rows where "ans = Rows rows" "rows \<noteq> []" by blast
  then show ?thesis using reload_rows[of rows R now before] assms by auto
next
  case False
  then have "R' = R\<lparr>r_temp := Map.empty\<rparr>"
    using assms(1) by (auto simp: reload_def load_route_data_def Let_def split: answer.splits list.splits)
  then show ?thesis by (simp add: get_hosts_def)
qed

lemma load_version_data: "load_version R ans = Inr (ret, R') \<Longrightarrow> get_hosts R' m c = get_hosts R m c"
  by (auto simp: load_version_def res_bind_Inr_iff get_hosts_def split: answer.splits list.splits if_splits)

text \<open>
  C20: clients never see a partly loaded table. Whatever a round finds in the database (errors,
  no version, an empty table, a timeout), if it returns then \<open>get_hosts\<close> answers as before for all
  routes, or as the complete table just read for all routes.
\<close>

theorem round_is_atomic:
  assumes "check_round a (D, tp, before) (q, now) = Inr ((D', tp', t'), sqls)"
    and "\<forall>rows. q_data q = Rows rows \<longrightarrow> (\<forall>r \<in> set rows. row_ok r)"
  shows "(\<forall>m c. get_hosts (d_route D') m c = get_hosts (d_route D) m c) \<or>
    (\<exists>rows. q_data q = Rows rows \<and> rows \<noteq> [] \<and> (\<forall>m c. get_hosts (d_route D') m c = table_hosts rows m c))"
proof -
  from assms(1) obtain ret R1 where v: "load_version (d_route D) (q_version q) = Inr (ret, R1)"
    by (auto simp: check_round_def res_bind_Inr_iff)
  note same = load_version_data[OF v]
  from assms(1) v have "d_route D' = R1 \<or> (\<exists>t. reload R1 (q_data q) now before = Inr (d_route D', t))"
    by (auto simp: check_round_def res_bind_Inr_iff split: if_splits prod.splits)
  then show ?thesis using reload_atomic[OF _ assms(2), of R1 now before "d_route D'"] same by auto
qed

theorem round_is_atomic_witness:
  "\<exists>D'. check_round 3 (\<lparr>d_route = \<lparr>r_version = 0, r_data = [mod_key 1 2 \<mapsto> {9}], r_temp = Map.empty\<rparr>,
       d_subs = subscribe_list_new, d_param = Map.empty\<rparr>, None, 0)
      (\<lparr>q_version = Query_failed, q_data = Rows [], q_changes = (\<lambda>_. Query_failed)\<rparr>, 11) = Inr ((D', None, 0), []) \<and>
     get_hosts (d_route D') 1 2 = {9}"
proof -
  let ?D = "\<lparr>d_route = \<lparr>r_version = 0, r_data = [mod_key 1 2 \<mapsto> {9}], r_temp = Map.empty\<rparr>,
       d_subs = subscribe_list_new, d_param = Map.empty\<rparr>"
  let ?q = "\<lparr>q_version = Query_failed, q_data = Rows [], q_changes = (\<lambda>_. Query_failed)\<rparr>"
  obtain D' where c: "check_round 3 (?D, None, 0) (?q, 11) = Inr ((D', None, 0), [])"
    by (simp add: check_round_def load_version_def reload_def load_route_data_def wait_time_def)
  from round_is_atomic[OF c] have "\<forall>m c. get_hosts (d_route D') m c = get_hosts (d_route ?D) m c" by simp
  with c show ?thesis by (intro exI[of _ D']) (simp add: get_hosts_def)
qed

end
