(* ===== verification/Dns_System.thy ===== *)
theory Dns_System
  imports Server_App Dns_Service
begin

text \<open>
  The DNS service as it runs: \<open>main\<close> of dns/src/dns_service.cc, the reactor's threads with the
  service's callbacks, the task that pushes changes to subscribers on every worker, and the
  background thread that follows the database. Steps of all of them interleave in any order; the
  granularity is one event, task or database round.
\<close>

section \<open>Sending from a task\<close>



section \<open>The push task\<close>











section \<open>The service on the reactor\<close>

text \<open>
  What a worker does for a task: the only one of the program is \<open>push_change_task\<close>. \<open>fds\<close> is the
  order in which a hash map over descriptors is traversed.
\<close>

definition dns_task ::
  "'u wire \<Rightarrow> (u64 set \<Rightarrow> u64 list) \<Rightarrow> (u64 set \<Rightarrow> u64 list) \<Rightarrow> (int set \<Rightarrow> int list) \<Rightarrow>
   task_func \<Rightarrow> nat \<Rightarrow> event_loop \<times> dns world \<Rightarrow> (event_loop \<times> dns world) res" where
  "dns_task w iter subs fds func args s = (case func of push_change_task \<Rightarrow> run_push_change_task w iter subs fds s)"

definition dns_params :: "'u wire \<Rightarrow> (u64 set \<Rightarrow> u64 list) \<Rightarrow> (u64 set \<Rightarrow> u64 list) \<Rightarrow> (int set \<Rightarrow> int list) \<Rightarrow> bool" where
  "dns_params w iter subs fds \<longleftrightarrow> wire_format w \<and> (\<forall>hs. length (iter hs) \<le> 200000) \<and> enumerates subs \<and> enumerates fds"

text \<open>Waiting changes are for connections, never for the descriptor of a mailbox.\<close>

definition push_ok :: "int set \<Rightarrow> subscribe_list \<Rightarrow> bool" where
  "push_ok E S \<longleftrightarrow> finite (dom (push_list S)) \<and> dom (push_list S) \<inter> E = {} \<and>
     (\<forall>f s. push_list S f = Some s \<longrightarrow> finite s)"

definition dns_inv ::
  "'u wire \<Rightarrow> (u64 set \<Rightarrow> u64 list) \<Rightarrow> (u64 set \<Rightarrow> u64 list) \<Rightarrow> (int set \<Rightarrow> int list) \<Rightarrow> int set \<Rightarrow> int set \<Rightarrow> dns \<Rightarrow> bool" where
  "dns_inv w iter subs fds E F D \<longleftrightarrow> dns_params w iter subs fds \<and> sub_inv D \<and> dom (d_param D) = F \<and> push_ok E (d_subs D)"

lemma subscribe_push [simp]: "push_list (subscribe S md f) = push_list S"
  by (simp add: subscribe_def)

lemma unsubscribe_push [simp]: "push_list (unsubscribe S md f) = push_list S"
  by (simp add: unsubscribe_def Let_def split: option.splits)

lemma unsubscribe_all_push [simp]: "push_list (fold (\<lambda>md S. unsubscribe S md f) mds S) = push_list S"
  by (induction mds arbitrary: S) simp_all

lemma dns_start_law:
  assumes "dns_inv w iter subs fds E F D" and "f \<notin> F"
  shows "dns_inv w iter subs fds E (insert f F) (start_app (dns_cfg w iter subs) D f)"
proof -
  have "d_param D f = None" using assms by (auto simp: dns_inv_def)
  then show ?thesis using assms(1) sub_inv_create[of D f]
    by (simp add: dns_inv_def start_app_def dns_callbacks) (simp add: create_subscribe_def)
qed

lemma get_route_defined:
  assumes "d_param D f \<noteq> None"
  shows "\<exists>D' out. get_route w iter D f data len = Inr (D', out)"
  using assms by (auto simp: get_route_def Let_def)

lemma get_route_keeps:
  assumes "get_route w iter D f data len = Inr (D', out)"
  shows "dom (d_param D') = dom (d_param D) \<and> push_list (d_subs D') = push_list (d_subs D)"
  using assms by (auto simp: get_route_def Let_def split: option.splits if_splits)

lemma dns_msg_law:
  assumes "dns_inv w iter subs fds E F D" and "f \<in> F" and "router_call (s_router (dns_cfg w iter subs)) i = Some (h, u)"
  shows "dns_inv w iter subs fds E F (fst (h D f data len i u))"
proof -
  have h: "h = (\<lambda>D fd data len msgid u. quiet D (get_route w iter D fd data len))"
    using assms(3) by (simp add: dns_router split: if_splits)
  have "d_param D f \<noteq> None" using assms(1,2) by (auto simp: dns_inv_def)
  from get_route_defined[OF this] obtain D' out where g: "get_route w iter D f data len = Inr (D', out)" by blast
  have "sub_inv D'" using sub_inv_get_route[OF _ g] assms(1) by (simp add: dns_inv_def)
  then show ?thesis using assms(1) g h get_route_keeps[OF g] by (simp add: dns_inv_def quiet_def push_ok_def)
qed

lemma clear_defined:
  assumes "d_param D f \<noteq> None"
  shows "\<exists>D'. clear_subscribe subs D f = Inr D' \<and> dom (d_param D') = dom (d_param D) - {f} \<and> push_list (d_subs D') = push_list (d_subs D)"
  using assms by (auto simp: clear_subscribe_def)

lemma dns_stop_law:
  assumes "dns_inv w iter subs fds E F D" and "f \<in> F"
  shows "dns_inv w iter subs fds E (F - {f}) (stop_app (dns_cfg w iter subs) D f)"
proof -
  have "d_param D f \<noteq> None" using assms by (auto simp: dns_inv_def)
  from clear_defined[OF this, of subs] obtain D' where D': "clear_subscribe subs D f = Inr D'"
    "dom (d_param D') = dom (d_param D) - {f}" "push_list (d_subs D') = push_list (d_subs D)" by blast
  have "sub_inv D'" using clear_subscribe_spec[OF _ _ D'(1)] assms(1) by (simp add: dns_inv_def dns_params_def)
  then show ?thesis using assms(1) D' by (simp add: dns_inv_def stop_app_def dns_callbacks quiet_def push_ok_def)
qed

text \<open>The push task, on a worker in order.\<close>

lemma dns_task_eq:
  assumes J: "dns_inv w iter subs fds E F D" and e: "evfd \<in> E" and T: "threads_ok evfd qid B S0 own ts (l, W)" and D: "w_app W = D"
  shows "dns_task w iter subs fds func args (l, W) =
    (if dom (push_list (d_subs D)) \<inter> dom own = {} then Inr (l, W) else Inl Invalid_iterator)"
proof -
  let ?p = "push_list (d_subs D)"
  have f: "finite (dom ?p)" and ev: "evfd \<notin> dom ?p" using J e by (auto simp: dns_inv_def push_ok_def)
  have en: "enumerates fds" using J by (simp add: dns_inv_def dns_params_def)
  have "get_listen_fds l = insert evfd (dom own)" using T by (simp add: get_listen_fds_def threads_ok_def loop_inv_def)
  then have o: "dom ?p \<inter> get_listen_fds l = dom ?p \<inter> dom own" using ev by auto
  have "set (fds (dom ?p)) = dom ?p" using en f by (simp add: enumerates_def)
  from make_publish_map_eq[OF this, of "get_listen_fds l"]
  have m: "make_publish_map (fds (dom ?p)) (d_subs D) (get_listen_fds l) =
    (if dom ?p \<inter> dom own = {} then Inr (d_subs D, Map.empty) else Inl Invalid_iterator)" unfolding o .
  have "set (fds {}) = {}" using en unfolding enumerates_def by blast
  then have "send_changes w iter subs (fds (dom Map.empty)) Map.empty t = Inr t" for t
    by (simp add: send_changes_def push_jobs_def)
  moreover have "W\<lparr>w_app := D\<rparr> = W" using D by (cases W) simp
  ultimately show ?thesis
    by (cases func) (simp add: dns_task_def run_push_change_task_def D m Let_def res_bind_def)
qed


lemma dns_task_law: "task_keeps (\<lambda>evfd D. evfd \<in> E \<and> dns_inv w iter subs fds E F D) (dns_task w iter subs fds)"
  unfolding task_keeps_def
proof (intro allI impI)
  fix evfd qid B S0 own ts and s s' :: "event_loop \<times> dns world" and func args
  assume J: "evfd \<in> E \<and> dns_inv w iter subs fds E F (w_app (snd s))" and T: "threads_ok evfd qid B S0 own ts s"
    and t: "dns_task w iter subs fds func args s = Inr s'"
  obtain l W where s: "s = (l, W)" by (cases s)
  have "dns_inv w iter subs fds E F (w_app W)" "evfd \<in> E" using J s by simp_all
  from dns_task_eq[OF this T[unfolded s] refl, of func args] t s have "s' = s" by (simp split: if_splits)
  moreover have "thread_frame B {} own own (snd s) (snd s)" by (rule thread_frame_same) simp_all
  ultimately show "threads_ok evfd qid B S0 own ts s' \<and> thread_frame B {} own own (snd s) (snd s') \<and>
      w_queue (snd s') = w_queue (snd s) \<and> evfd \<in> E \<and> dns_inv w iter subs fds E F (w_app (snd s'))"
    using J T by simp
qed

interpretation da: server_app "dns_cfg w iter subs" "dns_task w iter subs fds" "dns_inv w iter subs fds"
  for w :: "'u wire" and iter subs fds
proof (unfold_locales, goal_cases)
  case (1 E F a)
  then show ?case using dns_cfg_ok by (auto simp: dns_inv_def dns_params_def)
qed (rule dns_start_law dns_msg_law dns_stop_law dns_task_law; assumption)+

section \<open>Everything together\<close>

text \<open>
  \<open>main\<close>: the configuration, the server with its callbacks (\<open>dns_cfg\<close>), the background thread,
  then the loop. \<open>net\<close> says for an address whether there is a socket and whether \<open>bind\<close> and
  \<open>listen\<close> accept it. The routing table and the list of subscriptions are made on the first calls of
  their \<open>instance\<close>, whichever thread makes them; nothing looks at them before.
\<close>

definition dns_main ::
  "string option \<Rightarrow> (string \<Rightarrow> 16 word \<Rightarrow> int option \<times> bool \<times> bool) \<Rightarrow> (nat \<Rightarrow> nat option) \<Rightarrow> nat \<Rightarrow> int \<Rightarrow>
   u64 \<Rightarrow> (string \<Rightarrow> string \<Rightarrow> string \<Rightarrow> string \<Rightarrow> u32 \<Rightarrow> bool) \<Rightarrow> answer \<Rightarrow> unit env \<Rightarrow>
   (string \<times> 16 word \<times> tcp_server \<times> dns env) res" where
  "dns_main contents net garbage this ret version mysql rows E0 =
     res_bind (set_path None contents) (\<lambda>(_, config).
     res_bind (instance_of config) (\<lambda>m.
     let ip = get_string m ''reactor'' ''ip'' ''0.0.0.0'';
         port = ucast (get_number m ''reactor'' ''port'' 7778);
         (sock, bind_ok, listen_ok) = net ip port in
     res_bind (tcp_server_new sock bind_ok listen_ok (get_number m ''reactor'' ''maxConn'' 1024)
         (get_number m ''reactor'' ''threadNum'' 3) garbage this E0) (\<lambda>(server, E).
     res_bind (check Exit_failure (ret \<noteq> -1)) (\<lambda>_.
     res_bind (route_instance None version mysql config rows) (\<lambda>(R, _).
     res_bind (subscribe_instance None) (\<lambda>(L, _).
       Inr (ip, port, server, \<lparr>e_pool = e_pool E, e_loop = e_loop E, e_reg = e_reg E,
         e_app = \<lparr>d_route = R, d_subs = L, d_param = Map.empty\<rparr>\<rparr>)))))))"

inductive dns_step ::
  "'u wire \<Rightarrow> (u64 set \<Rightarrow> u64 list) \<Rightarrow> (u64 set \<Rightarrow> u64 list) \<Rightarrow> (int set \<Rightarrow> int list) \<Rightarrow> nat \<Rightarrow>
   dns server_sys \<times> int \<Rightarrow> dns server_sys \<times> int \<Rightarrow> bool" for w iter subs fds subs_addr where
  reactor: "server_step (dns_cfg w iter subs) (dns_task w iter subs fds) S S' \<Longrightarrow>
    dns_step w iter subs fds subs_addr (S, t) (S', t)"
| backend: "check_round subs_addr (w_app (y_world S), Some (y_tp S), t) ob = Inr ((D, Some tp, t'), sqls) \<Longrightarrow>
    dns_step w iter subs fds subs_addr (S, t) (S\<lparr>y_tp := tp, y_world := (y_world S)\<lparr>w_app := D\<rparr>\<rparr>, t')"

lemma push_changes_dom:
  "dom (fold (push_change book) mods P) \<subseteq> dom P \<union> {f. \<exists>md. f \<in> lookup book md}"
proof (induction mods arbitrary: P)
  case (Cons md mods)
  have "dom (push_change book md P) \<subseteq> dom P \<union> {f. \<exists>md. f \<in> lookup book md}"
    by (auto simp: push_change_def lookup_def split: option.splits if_splits)
  then show ?case using Cons.IH[of "push_change book md P"] by simp blast
qed simp

lemma push_changes_finite:
  "\<forall>f s. P f = Some s \<longrightarrow> finite s \<Longrightarrow> fold (push_change book) mods P f = Some s \<Longrightarrow> finite s"
proof (induction mods arbitrary: P)
  case (Cons md mods)
  have "finite s'" if "push_change book md P g = Some s'" for g s'
    using that Cons.prems(1) by (auto simp: push_change_def lookup_def split: option.splits if_splits)
  then show ?case using Cons.IH[of "push_change book md P"] Cons.prems(2) by auto
qed simp

lemma check_round_steps:
  assumes "check_round a (D, Some tp, t) ob = Inr ((D', Some tp', t'), sqls)"
  shows "tp' = tp \<and> push_list (d_subs D') = push_list (d_subs D) \<or>
    (\<exists>changes. send_task tp push_change_task a = Inr tp' \<and>
       push_list (d_subs D') = fold (push_change (book_list (d_subs D))) changes (push_list (d_subs D)))"
  using assms
  by (auto simp: check_round_def publish_def Let_def res_bind_Inr_iff split: prod.splits if_splits)

lemma dns_round_keeps:
  assumes J: "dns_inv w iter subs fds E F D" and FE: "finite F" "F \<inter> E = {}"
    and r: "check_round a (D, Some tp, t) ob = Inr ((D', Some tp', t'), sqls)"
  shows "dns_inv w iter subs fds E F D'"
proof -
  note b = check_round_book[OF r]
  have sb: "sub_inv D'" using J b by (auto simp: dns_inv_def sub_inv_def subscribed_def book_inv_def)
  have "{f. \<exists>md. f \<in> lookup (book_list (d_subs D)) md} \<subseteq> F"
    using J by (fastforce simp: dns_inv_def sub_inv_def subscribed_def lookup_def split: option.splits)
  then have d: "dom (fold (push_change (book_list (d_subs D))) ch (push_list (d_subs D))) \<subseteq> dom (push_list (d_subs D)) \<union> F" for ch
    using push_changes_dom[of "book_list (d_subs D)" ch "push_list (d_subs D)"] by blast
  have p: "push_ok E (d_subs D)" using J by (simp add: dns_inv_def)
  have "push_ok E (d_subs D')"
    using check_round_steps[OF r]
  proof (elim disjE exE conjE)
    fix ch assume e: "push_list (d_subs D') = fold (push_change (book_list (d_subs D))) ch (push_list (d_subs D))"
    have "dom (push_list (d_subs D')) \<subseteq> dom (push_list (d_subs D)) \<union> F" using d[of ch] e by simp
    moreover have "finite (dom (push_list (d_subs D)) \<union> F)" "(dom (push_list (d_subs D)) \<union> F) \<inter> E = {}"
      using p FE by (auto simp: push_ok_def)
    ultimately have "finite (dom (push_list (d_subs D')))" "dom (push_list (d_subs D')) \<inter> E = {}"
      using finite_subset by blast+
    moreover have "finite s" if "push_list (d_subs D') f = Some s" for f s
      using push_changes_finite[of "push_list (d_subs D)"] p that e by (auto simp: push_ok_def)
    ultimately show ?thesis by (simp add: push_ok_def)
  qed (use p in \<open>simp add: push_ok_def\<close>)
  then show ?thesis using J sb b by (simp add: dns_inv_def)
qed

text \<open>Every step of the running service keeps the invariants of the reactor and of the service.\<close>

lemma dns_step_keeps:
  assumes "dns_step w iter subs fds sa s s'" and "sys_ok G (fst s)"
    and "dns_inv w iter subs fds (set (y_evfds (fst s))) (dom G) (w_app (y_world (fst s)))"
  shows "\<exists>G'. sys_ok G' (fst s') \<and> y_evfds (fst s') = y_evfds (fst s) \<and>
    dns_inv w iter subs fds (set (y_evfds (fst s))) (dom G') (w_app (y_world (fst s')))"
  using assms(1)
proof cases
  case (reactor S S' t)
  then show ?thesis using da.step_result[of G S w iter subs fds S'] assms(2,3) by simp
next
  case (backend S t ob D tp t' sqls)
  have S: "sys_ok G S" using assms(2) backend by simp
  then have "0 < length (y_loops S)" using tp_inv_length[of "y_tp S"] by (simp add: sys_ok_def)
  from sys_reg[OF S this] have "finite (dom G)" by (simp add: reg_inv_def regs_def dom_def)
  moreover have "dom G \<inter> set (y_evfds S) = {}" using S by (simp add: sys_ok_def)
  ultimately have J: "dns_inv w iter subs fds (set (y_evfds S)) (dom G) D"
    using dns_round_keeps[OF _ _ _ backend(3)] assms(3) backend(1) by simp
  have "sys_ok G (S\<lparr>y_tp := tp\<rparr>)"
    using check_round_steps[OF backend(3)] send_step[OF S] S by auto
  from sys_ok_app[OF this, of D] show ?thesis using J backend by (intro exI[of _ G]) simp
qed

lemma dns_reachable:
  assumes "(dns_step w iter subs fds sa)\<^sup>*\<^sup>* s s'" and "sys_ok G (fst s)"
    and "dns_inv w iter subs fds (set (y_evfds (fst s))) (dom G) (w_app (y_world (fst s)))"
  shows "\<exists>G'. sys_ok G' (fst s') \<and> y_evfds (fst s') = y_evfds (fst s) \<and>
    dns_inv w iter subs fds (set (y_evfds (fst s))) (dom G') (w_app (y_world (fst s')))"
  using assms
proof (induction rule: rtranclp_induct)
  case (step s1 s2)
  then show ?case using dns_step_keeps[OF step.hyps(2)] by metis
qed blast

text \<open>The states of a service that was started and not stopped.\<close>

inductive dns_running ::
  "'u wire \<Rightarrow> (u64 set \<Rightarrow> u64 list) \<Rightarrow> (u64 set \<Rightarrow> u64 list) \<Rightarrow> (int set \<Rightarrow> int list) \<Rightarrow>
   dns server_sys \<times> int \<Rightarrow> bool" for w iter subs fds where
  started: "dns_main contents net garbage this ret version mysql rows E0 = Inr (ip, port, server, E) \<Longrightarrow>
    pool_inv (e_pool E0) {} \<Longrightarrow> max_conns (e_reg E) < INT_MAX - 3 \<Longrightarrow>
    server_start evfds rds wrs (server, E) = Inr S \<Longrightarrow> distinct evfds \<Longrightarrow> length evfds = length (y_loops S) \<Longrightarrow>
    dns_running w iter subs fds (S, now)"
| moved: "dns_running w iter subs fds s \<Longrightarrow> dns_step w iter subs fds subs_addr s s' \<Longrightarrow>
    dns_running w iter subs fds s'"

lemma dns_main_start:
  assumes m: "dns_main contents net garbage this ret version mysql rows E0 = Inr (ip, port, server, E)"
    and P: "pool_inv (e_pool E0) {}" and mx: "max_conns (e_reg E) < INT_MAX - 3"
    and s: "server_start evfds rds wrs (server, E) = Inr S" and e: "distinct evfds" "length evfds = length (y_loops S)"
  shows "sys_ok Map.empty S \<and> y_evfds S = evfds \<and>
    (\<exists>R. w_app (y_world S) = \<lparr>d_route = R, d_subs = subscribe_list_new, d_param = Map.empty\<rparr>)"
proof -
  from m obtain sock b l maxConn threadNum E1 R where
    n: "tcp_server_new sock b l maxConn threadNum garbage this E0 = Inr (server, E1)"
    and E: "E = \<lparr>e_pool = e_pool E1, e_loop = e_loop E1, e_reg = e_reg E1,
       e_app = \<lparr>d_route = R, d_subs = subscribe_list_new, d_param = Map.empty\<rparr>\<rparr>"
    by (auto simp: dns_main_def route_instance_def subscribe_instance_def pthread_once_def Let_def res_bind_Inr_iff case_prod_beta)
  have "e_pool E = e_pool E1" "e_reg E = e_reg E1" using E by simp_all
  from server_new_start[OF n this P mx s e] show ?thesis using E by simp
qed

lemma dns_running_inv:
  assumes "dns_running w iter subs fds s" and "dns_params w iter subs fds"
  shows "\<exists>G. sys_ok G (fst s) \<and> dns_inv w iter subs fds (set (y_evfds (fst s))) (dom G) (w_app (y_world (fst s)))"
  using assms
proof induction
  case (started contents net garbage this ret version mysql rows E0 ip port server E evfds rds wrs S now)
  from dns_main_start[OF started(1-6)] obtain R where "sys_ok Map.empty S"
    "w_app (y_world S) = \<lparr>d_route = R, d_subs = subscribe_list_new, d_param = Map.empty\<rparr>" by blast
  moreover have "dns_inv w iter subs fds X {} \<lparr>d_route = R, d_subs = subscribe_list_new, d_param = Map.empty\<rparr>" for X
    using started.prems by (simp add: dns_inv_def sub_inv_def push_ok_def subscribe_list_new_def book_inv_def subscribed_def lookup_def)
  ultimately show ?case by (intro exI[of _ Map.empty]) simp
next
  case (moved s sa s')
  then show ?case using dns_step_keeps[OF moved.hyps(2)] by metis
qed

text \<open>
  C3: the subscriptions of the running service agree with its connections. In every state it
  reaches, whatever the order of connections, requests, database rounds and pushes on all its
  threads: exactly the open connections have a list of routes; a connection is in the book under a
  route exactly if the route is in its list; so neither the message handler nor the close callback
  of an open connection dereferences null, and closing leaves no subscription behind; and the
  changes that wait for a descriptor which a worker listens to are for a connection that is open on
  that worker, never for the mailbox.
\<close>

theorem dns_service_consistent:
  assumes "dns_params w iter subs fds" and "dns_running w iter subs fds (S, t)" and "D = w_app (y_world S)"
  shows "(\<forall>f. d_param D f \<noteq> None \<longleftrightarrow> (\<exists>i a c. open_conn S i f a c)) \<and>
    (\<forall>md f. subscribed (d_subs D) md f \<longleftrightarrow> md \<in> lookup (d_param D) f) \<and>
    (\<forall>i f a c. open_conn S i f a c \<longrightarrow> (\<forall>data len. \<exists>r. get_route w iter D f data len = Inr r) \<and>
       (\<exists>D'. clear_subscribe subs D f = Inr D' \<and> (\<forall>md. \<not> subscribed (d_subs D') md f))) \<and>
    (\<forall>i < length (y_loops S). dom (push_list (d_subs D)) \<inter> dom (io_evs (y_loops S ! i)) \<subseteq> {f. \<exists>a c. open_conn S i f a c})"
proof -
  from dns_running_inv[OF assms(2,1)] obtain G where S: "sys_ok G S"
    and J: "dns_inv w iter subs fds (set (y_evfds S)) (dom G) D" using assms(3) by auto
  have sb: "sub_inv D" and p: "dom (d_param D) = dom G" and q: "dom (push_list (d_subs D)) \<inter> set (y_evfds S) = {}"
    using J by (simp_all add: dns_inv_def push_ok_def)
  have o: "(\<exists>i a c. open_conn S i f a c) \<longleftrightarrow> f \<in> dom G" for f using conn_fds_dom[OF S] unfolding conn_fds_def by blast
  have d: "d_param D f \<noteq> None \<longleftrightarrow> (\<exists>i a c. open_conn S i f a c)" for f unfolding o p[symmetric] by auto
  have cl: "\<exists>D'. clear_subscribe subs D f = Inr D' \<and> (\<forall>md. \<not> subscribed (d_subs D') md f)" if f: "d_param D f \<noteq> None" for f
  proof -
    from clear_defined[OF f, of subs] obtain D' where c: "clear_subscribe subs D f = Inr D'" by blast
    moreover have "enumerates subs" using assms(1) by (simp add: dns_params_def)
    ultimately show ?thesis using clear_subscribe_spec[OF sb] by blast
  qed
  have w: "dom (push_list (d_subs D)) \<inter> dom (io_evs (y_loops S ! i)) \<subseteq> {f. \<exists>a c. open_conn S i f a c}"
    if i: "i < length (y_loops S)" for i
  proof -
    have "y_evfds S ! i \<in> set (y_evfds S)" using S i by (simp add: sys_ok_def)
    moreover have "\<exists>a c. open_conn S i f a c" if "f \<in> dom (own_of G i)" for f
      using that sys_conn[OF S, of f i] by (auto simp: dom_def own_of_Some)
    ultimately show ?thesis using q unfolding conjunct1[OF sys_dom[OF S i]] by auto
  qed
  show ?thesis
  proof (intro conjI allI impI)
    fix i f a c assume "open_conn S i f a c"
    then have f: "d_param D f \<noteq> None" using d by blast
    show "\<exists>r. get_route w iter D f data len = Inr r" for data len using get_route_defined[OF f] by blast
    show "\<exists>D'. clear_subscribe subs D f = Inr D' \<and> (\<forall>md. \<not> subscribed (d_subs D') md f)" by (rule cl[OF f])
  qed (use d sb w in \<open>simp_all add: sub_inv_def\<close>)
qed

section \<open>Sending changes\<close>

definition waiting :: "dns \<Rightarrow> int \<Rightarrow> u64 set" where
  "waiting D f = lookup (push_list (d_subs D)) f"













section \<open>A running service\<close>

lemma silent_dns: "silent_start (dns_cfg w iter subs)"
  by (simp add: silent_start_def dns_callbacks)

lemma dns_params_pb: "dns_params pb_wire (\<lambda>hs. take 200000 (sorted_iter hs)) sorted_iter sorted_iter"
  using pb.wire_format_axioms by (simp add: dns_params_def)

text \<open>Without configuration file, with an empty database; one connection is accepted and opened.\<close>

lemma dns_demo:
  fixes w :: "'u wire"
  assumes "dns_params w iter subs fds"
  obtains S G a c where "dns_running w iter subs fds (S, 0)" and "sys_ok G S" and "0 < length (y_loops S)"
    and "dns_inv w iter subs fds (set (y_evfds S)) (dom G) (w_app (y_world S))" and "dom G = {9}"
    and "open_conn S 0 9 a c" and "c_obuf c = None" and "total_mem (w_pool (y_world S)) + 8192 < 400000"
    and "w_app (y_world S) = create_subscribe \<lparr>d_route = \<lparr>r_version = 0, r_data = Map.empty, r_temp = Map.empty\<rparr>,
      d_subs = subscribe_list_new, d_param = Map.empty\<rparr> 9"
proof -
  let ?R = "\<lparr>r_version = 0, r_data = Map.empty, r_temp = Map.empty\<rparr>"
  let ?D = "\<lparr>d_route = ?R, d_subs = subscribe_list_new, d_param = Map.empty\<rparr>"
  let ?sv = "\<lparr>sv_fd = 4, sv_threads = Some (Some small_pool)\<rparr>" and ?cfg = "dns_cfg w iter subs" and ?task = "dns_task w iter subs fds"
  have tp: "thread_pool_new 3 = Inr small_pool" by (simp add: thread_pool_new_def)
  have m: "dns_main None (\<lambda>_ _. (Some 4, True, True)) (\<lambda>_. None) 0 0 0 (\<lambda>_ _ _ _ _. True) (Rows []) (env_new 0 ()) =
      Inr (''0.0.0.0'', 7778, ?sv, small_env ?D)"
    by (simp add: dns_main_def set_path_def load_def instance_of_def get_string_def get_number_def Let_def tcp_server_new_def tp
        in_int_def env_new_def route_instance_def subscribe_instance_def pthread_once_def route_new_def connect_db_def build_maps_def)
  obtain S0 S k where s: "server_start [7, 8, 10] (\<lambda>_. (None, [])) (\<lambda>_. []) (?sv, small_env ?D) = Inr S0" "length (y_loops S0) = 3"
    and st: "(server_step ?cfg ?task)\<^sup>*\<^sup>* S0 S" and k: "open_conn S 0 9 0 k" "c_obuf k = None"
    and S: "w_app (y_world S) = start_app ?cfg ?D 9" "w_pool (y_world S) = buf_pool_new (\<lambda>_ _. 0)" "length (y_loops S) = 3"
    by (rule small_server[OF silent_dns])
  have P: "pool_inv (e_pool (env_new 0 ())) {}" unfolding env_new_def by (simp add: buf_pool_new_inv)
  have "dns_running w iter subs fds (S0, 0)"
    using started[OF m P _ s(1), where now = 0] s(2) by (simp add: registry_new_def)
  with st have r: "dns_running w iter subs fds (S, 0)"
  proof (induction rule: rtranclp_induct)
    case (step S1 S2)
    from moved[OF step.IH[OF step.prems] dns_step.reactor[OF step.hyps(2)]] show ?case .
  qed
  from dns_running_inv[OF this assms] obtain G where G: "sys_ok G S" "dns_inv w iter subs fds (set (y_evfds S)) (dom G) (w_app (y_world S))" by auto
  have app: "w_app (y_world S) = create_subscribe ?D 9" using S(1) by (simp add: start_app_def dns_callbacks)
  then have "dom G = {9}" using G(2) by (simp add: dns_inv_def create_subscribe_def)
  then show thesis using that[OF r G(1)] G(2) k S(2,3) app by simp
qed

theorem dns_service_consistent_witness:
  "\<exists>S. dns_running pb_wire (\<lambda>hs. take 200000 (sorted_iter hs)) sorted_iter sorted_iter (S, 0) \<and>
     (\<exists>a c. open_conn S 0 9 a c) \<and>
     (\<exists>r. get_route pb_wire (\<lambda>hs. take 200000 (sorted_iter hs)) (w_app (y_world S)) 9 (Some [8, 1]) 2 = Inr r)"
proof -
  obtain S G a c where r: "dns_running pb_wire (\<lambda>hs. take 200000 (sorted_iter hs)) sorted_iter sorted_iter (S, 0)"
    and o: "open_conn S 0 9 a c" by (rule dns_demo[OF dns_params_pb])
  from dns_service_consistent[OF dns_params_pb r refl] o
  have "\<exists>r. get_route pb_wire (\<lambda>hs. take 200000 (sorted_iter hs)) (w_app (y_world S)) 9 (Some [8, 1]) 2 = Inr r" by blast
  then show ?thesis using r o by blast
qed


text \<open>
  Closing a connection does not remove the changes that wait for its descriptor: they then wait for a
  client that gets the same number later, although it has not subscribed to anything.
\<close>

lemma stale_changes_kept:
  assumes "dns_inv w iter subs fds E F D" and "clear_subscribe subs D f = Inr D'"
  shows "waiting (create_subscribe D' f) f = waiting D f \<and> (\<forall>md. \<not> subscribed (d_subs (create_subscribe D' f)) md f)"
proof -
  have f: "d_param D f \<noteq> None" using assms(2) by (auto simp: clear_subscribe_def split: option.splits)
  have "push_list (d_subs D') = push_list (d_subs D)" using clear_defined[OF f, of subs] assms(2) by auto
  moreover have "\<forall>md. \<not> subscribed (d_subs D') md f"
    using clear_subscribe_spec[OF _ _ assms(2)] assms(1) by (simp add: dns_inv_def dns_params_def)
  ultimately show ?thesis by (simp add: waiting_def create_subscribe_def)
qed

end
