(* ===== verification/Rins_Api.thy ===== *)
theory Rins_Api
  imports Lb_Agent
begin

text \<open>
  api/cpp/src/rins\_api.cc: the library a program links to ask the agent on its machine for a host.
  It holds three UDP sockets, one for each thread of the agent, and a sequence number; a call sends
  one request and waits for the response with its number. Answers of \<open>socket\<close>, \<open>connect\<close>, \<open>sendto\<close> and
  \<open>recvfrom\<close> are arguments, as are the contents of the buffers on the stack.
\<close>

section \<open>State and operations\<close>

record rins_client =
  rc_sockfd :: "int list"
  rc_seqid :: u32

definition rins_client_new :: "(int option \<times> bool) list \<Rightarrow> rins_client res" where
  "rins_client_new net =
     res_bind (run (\<lambda>socks (sock, connected).
         case sock of
           None \<Rightarrow> Inl Exit_failure
         | Some sockfd \<Rightarrow> res_bind (check Exit_failure connected) (\<lambda>_. Inr (socks @ [sockfd]))) [] (take 3 net)) (\<lambda>socks.
       Inr \<lparr>rc_sockfd = socks, rc_seqid = 0\<rparr>)"

definition rins_client_delete :: "rins_client \<Rightarrow> int list res" where
  "rins_client_delete C =
     run (\<lambda>closed i. res_bind (check Out_of_bounds (i < length (rc_sockfd C))) (\<lambda>_. Inr (closed @ [rc_sockfd C ! i]))) [] [0..<3]"

text \<open>The text of an address in network order: the lowest byte of the word in memory comes first.\<close>

definition inet_ntoa :: "u32 \<Rightarrow> string" where
  "inet_ntoa a =
     (let octet = (\<lambda>k. decimal (unat (ucast (drop_bit (8 * k) a) :: byte)))
      in octet 0 @ ''.'' @ octet 1 @ ''.'' @ octet 2 @ ''.'' @ octet 3)"

text \<open>The request in the buffer on the stack: the head, then the serialised message.\<close>

definition request_datagram :: "'u wire \<Rightarrow> byte list \<Rightarrow> 'u GetHostRequest \<Rightarrow> byte list res" where
  "request_datagram w wbuf req =
     (let len = int (GetHostRequest_size w req) in
      res_bind (c_memcpy wbuf 0 (head_bytes \<lparr>h_id = ID_GetHostRequest, h_length = len\<rparr>) (int MESSAGE_HEAD_LEN)) (\<lambda>b1.
      res_bind (c_memcpy b1 (int MESSAGE_HEAD_LEN) (GetHostRequest_serialize w req) len) (\<lambda>b2.
        Inr (take (nat (len + int MESSAGE_HEAD_LEN)) b2))))"

text \<open>
  The receive loop. \<open>None\<close> is a failed \<open>recvfrom\<close>; a datagram is cut at the size of the buffer. The
  result is the code of an early return, or the response that ended the loop.
\<close>

fun api_recv :: "'u wire \<Rightarrow> u32 \<Rightarrow> byte list \<Rightarrow> byte list option list \<Rightarrow> (i32 + 'u GetHostResponse) res" where
  "api_recv w sq rbuf [] = Inl No_return"
| "api_recv w sq rbuf (None # as) = Inr (Inl RET_SYSTEM_ERROR)"
| "api_recv w sq rbuf (Some p # as) =
     (let d = take (length rbuf) p; message_len = length d; rbuf' = blit 0 d rbuf; head = read_head rbuf' in
      if h_id head \<noteq> ID_GetHostResponse then Inr (Inl RET_SYSTEM_ERROR)
      else
        res_bind (check Out_of_bounds (MESSAGE_HEAD_LEN \<le> message_len)) (\<lambda>_.
        let (resp, ret) = GetHostResponse_parse w (take (message_len - MESSAGE_HEAD_LEN) (drop MESSAGE_HEAD_LEN rbuf')) in
        if \<not> ret then Inr (Inl RET_SYSTEM_ERROR)
        else if hr_seq resp < sq then api_recv w sq rbuf' as
        else Inr (Inr resp)))"

text \<open>
  \<open>get_host\<close> returns its code, the address it stored into \<open>ip\<close>, the client and what it sent. The
  port is a value parameter: it is not part of the result.
\<close>

definition api_get_host ::
  "'u wire \<Rightarrow> byte list \<times> byte list \<Rightarrow> bool \<Rightarrow> byte list option list \<Rightarrow> rins_client \<Rightarrow> i32 \<Rightarrow> i32 \<Rightarrow> string \<Rightarrow>
   (i32 \<times> string \<times> rins_client \<times> (int \<times> byte list) list) res" where
  "api_get_host w bufs sent answers C modid cmdid ip =
     (let sq = rc_seqid C; C' = C\<lparr>rc_seqid := sq + 1\<rparr>;
          req = (GetHostRequest_clear w)\<lparr>hq_seq := sq, hq_modid := modid, hq_cmdid := cmdid\<rparr> in
      res_bind (request_datagram w (fst bufs) req) (\<lambda>dgram.
      res_bind (route_index modid cmdid) (\<lambda>index.
      res_bind (check Out_of_bounds (0 \<le> index \<and> nat index < length (rc_sockfd C))) (\<lambda>_.
      let sockfd = rc_sockfd C ! nat index in
      if \<not> sent then Inr (RET_SYSTEM_ERROR, ip, C', []) else
      res_bind (api_recv w sq (snd bufs) answers) (\<lambda>r.
      case r of
        Inl ret \<Rightarrow> Inr (ret, ip, C', [(sockfd, dgram)])
      | Inr resp \<Rightarrow>
          if hr_seq resp \<noteq> sq \<or> hr_modid resp \<noteq> modid \<or> hr_cmdid resp \<noteq> cmdid
          then Inr (RET_SYSTEM_ERROR, ip, C', [(sockfd, dgram)])
          else
            let host_ip = (case hr_host resp of None \<Rightarrow> 0 | Some h \<Rightarrow> hi_ip h);
                ip' = (if hr_retcode resp = 0 then inet_ntoa host_ip else ip)
            in Inr (hr_retcode resp, ip', C', [(sockfd, dgram)]))))))"

section \<open>Sockets\<close>

text \<open>The destructor closes the three sockets that the constructor opened, each once.\<close>

lemma rins_client_closes:
  assumes "rins_client_new net = Inr C" and "3 \<le> length net"
  shows "length (rc_sockfd C) = 3 \<and> rins_client_delete C = Inr (rc_sockfd C)"
proof -
  have l: "run (\<lambda>socks (sock, connected). case sock of None \<Rightarrow> Inl Exit_failure
      | Some sockfd \<Rightarrow> res_bind (check Exit_failure connected) (\<lambda>_. Inr (socks @ [sockfd]))) xs ys = Inr zs \<Longrightarrow>
      length zs = length xs + length ys" for xs zs :: "int list" and ys
    by (induction ys arbitrary: xs) (auto simp: res_bind_Inr_iff split: option.splits)
  have "length (rc_sockfd C) = 3" using assms by (auto simp: rins_client_new_def res_bind_Inr_iff dest!: l)
  then obtain x y z where "rc_sockfd C = [x, y, z]" by (auto simp: length_Suc_conv numeral_3_eq_3)
  then show ?thesis by (simp add: rins_client_delete_def upt_rec numeral_3_eq_3)
qed

section \<open>The request\<close>

lemma request_datagram_ok:
  assumes "wire_format w" and "4096 \<le> length wbuf"
  shows "request_datagram w wbuf ((GetHostRequest_clear w)\<lparr>hq_seq := sq, hq_modid := modid, hq_cmdid := cmdid\<rparr>) =
    Inr (frame_bytes (ID_GetHostRequest, GetHostRequest_serialize w ((GetHostRequest_clear w)\<lparr>hq_seq := sq, hq_modid := modid, hq_cmdid := cmdid\<rparr>)))"
proof -
  let ?m = "(GetHostRequest_clear w)\<lparr>hq_seq := sq, hq_modid := modid, hq_cmdid := cmdid\<rparr>"
  let ?s = "GetHostRequest_serialize w ?m" and ?h = "\<lambda>n. head_bytes \<lparr>h_id = ID_GetHostRequest, h_length = n\<rparr>"
  have len: "length ?s = GetHostRequest_size w ?m" using wire_format.GetHostRequest_length[OF assms(1)] by simp
  have "GetHostRequest_size w ?m \<le> 28"
    using wire_format.int32_size[OF assms(1), of modid] wire_format.int32_size[OF assms(1), of cmdid]
      wire_format.uint32_size[OF assms(1), of sq] no_unknown_size[OF assms(1)] by (simp add: GetHostRequest_size_def GetHostRequest_clear_def)
  then have l: "length ?s \<le> 28" using len by simp
  have "int (length ?s) + 8 \<le> int (length wbuf)" using l assms(2) by simp
  from copy_head_body[OF _ this, of ?s "?h (int (length ?s))"] obtain b1 b2 where
    "c_memcpy wbuf 0 (?h (int (length ?s))) 8 = Inr b1" "c_memcpy b1 8 ?s (int (length ?s)) = Inr b2"
    "take (nat (int (length ?s) + 8)) b2 = frame_bytes (ID_GetHostRequest, ?s)" by (auto simp: frame_bytes_def)
  then show ?thesis by (simp add: request_datagram_def Let_def len[symmetric] MESSAGE_HEAD_LEN_def)
qed

section \<open>The response\<close>

definition response_datagram :: "'u wire \<Rightarrow> 'u GetHostResponse \<Rightarrow> byte list" where
  "response_datagram w r = frame_bytes (ID_GetHostResponse, GetHostResponse_serialize w r)"

definition plain_response :: "'u wire \<Rightarrow> 'u GetHostResponse \<Rightarrow> bool" where
  "plain_response w r \<longleftrightarrow> unknown r = no_unknown w \<and> (\<forall>h. hr_host r = Some h \<longrightarrow> unknown h = no_unknown w)"

lemma api_recv_response:
  assumes "wire_format w" and "plain_response w r" and "length (response_datagram w r) \<le> length rbuf" and "length rbuf \<le> 81920"
  shows "api_recv w sq rbuf (Some (response_datagram w r) # as) =
    (if hr_seq r < sq then api_recv w sq (response_datagram w r @ drop (length (response_datagram w r)) rbuf) as else Inr (Inr r))"
proof -
  let ?s = "GetHostResponse_serialize w r" and ?p = "response_datagram w r"
  have p: "?p = head_bytes \<lparr>h_id = ID_GetHostResponse, h_length = int (length ?s)\<rparr> @ ?s"
    by (simp add: response_datagram_def frame_bytes_def)
  have l: "length ?p = 8 + length ?s" "length ?s \<le> 81920" using assms(3,4) p by simp_all
  have h: "read_head (?p @ xs) = \<lparr>h_id = ID_GetHostResponse, h_length = int (length ?s)\<rparr>" for xs
    unfolding p using l(2) by (simp add: in_int_def id_defs)
  have b: "drop 8 ?p = ?s" unfolding p by simp
  have "GetHostResponse_parse w ?s = (r, True)"
    using host_response_parsed[OF assms(1)] assms(2) by (simp add: plain_response_def)
  then show ?thesis using assms(3) by (simp add: h b l Let_def MESSAGE_HEAD_LEN_def)
qed

lemma api_recv_stale:
  assumes "wire_format w" and "\<forall>r \<in> set old. plain_response w r \<and> hr_seq r < sq \<and> length (response_datagram w r) \<le> length rbuf"
    and "plain_response w r" and "\<not> hr_seq r < sq" and "length (response_datagram w r) \<le> length rbuf" and "length rbuf \<le> 81920"
  shows "api_recv w sq rbuf (map (Some \<circ> response_datagram w) old @ Some (response_datagram w r) # as) = Inr (Inr r)"
  using assms
proof (induction old arbitrary: rbuf)
  case Nil
  then show ?case using api_recv_response[of w r rbuf sq as] by simp
next
  case (Cons o' old)
  let ?rb = "response_datagram w o' @ drop (length (response_datagram w o')) rbuf"
  have "length ?rb = length rbuf" using Cons.prems(2) by simp
  then show ?case
    using Cons.IH[of ?rb] Cons.prems api_recv_response[OF Cons.prems(1), of o' rbuf sq] by simp
qed

text \<open>
  C27: a call returns the response to its own request. If the sum of module and command is not
  negative and the request can be sent, it goes out as one datagram with the sequence number of the
  call, on the socket the index selects. Responses to earlier calls that arrive first are skipped; the first one with the number,
  module and command of the call decides: its code is returned, and if it is 0 the address becomes
  the text of the host's address. The sequence number is advanced.
\<close>

theorem get_host_matches_response:
  assumes "wire_format w" and "4096 \<le> length wbuf" and "length rbuf = 81920" and "length (rc_sockfd C) = 3"
    and "0 \<le> sint modid + sint cmdid" and "in_int (sint modid + sint cmdid)"
    and "\<forall>o' \<in> set old. plain_response w o' \<and> hr_seq o' < rc_seqid C \<and> length (response_datagram w o') \<le> length rbuf"
    and "plain_response w r" and "length (response_datagram w r) \<le> length rbuf"
    and "hr_seq r = rc_seqid C" and "hr_modid r = modid" and "hr_cmdid r = cmdid"
    and "req = (GetHostRequest_clear w)\<lparr>hq_seq := rc_seqid C, hq_modid := modid, hq_cmdid := cmdid\<rparr>"
  shows "api_get_host w (wbuf, rbuf) True (map (Some \<circ> response_datagram w) old @ Some (response_datagram w r) # as) C modid cmdid ip =
    Inr (hr_retcode r, if hr_retcode r = 0 then inet_ntoa (case hr_host r of None \<Rightarrow> 0 | Some h \<Rightarrow> hi_ip h) else ip,
      C\<lparr>rc_seqid := rc_seqid C + 1\<rparr>,
      [(rc_sockfd C ! nat ((sint modid + sint cmdid) mod 3), frame_bytes (ID_GetHostRequest, GetHostRequest_serialize w req))])"
proof -
  have i: "(sint modid + sint cmdid) smod 3 = (sint modid + sint cmdid) mod 3"
    using assms(5) unfolding smod_int_alt_def by (simp add: sgn_if)
  have ri: "route_index modid cmdid = Inr ((sint modid + sint cmdid) mod 3)" using assms(6) by (simp add: route_index_def i)
  have n: "nat ((sint modid + sint cmdid) mod 3) < 3" by simp
  have rv: "api_recv w (rc_seqid C) rbuf (map (Some \<circ> response_datagram w) old @ Some (response_datagram w r) # as) = Inr (Inr r)"
    using assms by (intro api_recv_stale) simp_all
  show ?thesis
    using assms(4,10-13) ri n rv by (simp add: api_get_host_def request_datagram_ok[OF assms(1,2)] Let_def)
qed

theorem get_host_matches_response_witness:
  "\<exists>d. api_get_host pb_wire (replicate 4096 0, replicate 81920 0) True
      (map (Some \<circ> response_datagram pb_wire) [GetHostResponse_clear pb_wire] @
        [Some (response_datagram pb_wire ((GetHostResponse_clear pb_wire)\<lparr>hr_seq := 1, hr_modid := 1, hr_cmdid := 1,
           hr_host := Some \<lparr>unknown = [], hi_ip = 16777343, hi_port = 80\<rparr>\<rparr>))])
      \<lparr>rc_sockfd = [7, 8, 9], rc_seqid = 1\<rparr> 1 1 '''' = Inr (0, ''127.0.0.1'', \<lparr>rc_sockfd = [7, 8, 9], rc_seqid = 2\<rparr>, [(9, d)])"
proof -
  let ?o = "GetHostResponse_clear pb_wire"
  let ?r = "?o\<lparr>hr_seq := 1, hr_modid := 1, hr_cmdid := 1, hr_host := Some \<lparr>unknown = [], hi_ip = 16777343, hi_port = 80\<rparr>\<rparr>"
  let ?C = "\<lparr>rc_sockfd = [7, 8, 9], rc_seqid = 1\<rparr>"
  have pl: "plain_response pb_wire ?o" "plain_response pb_wire ?r"
    by (simp_all add: plain_response_def GetHostResponse_clear_def pb_wire_def)
  have dl: "length (response_datagram pb_wire x) = 8 + GetHostResponse_size pb_wire x" for x
    using pb.GetHostResponse_length[of x] by (simp add: response_datagram_def frame_bytes_def)
  have l: "GetHostResponse_size pb_wire ?o = 0"  "GetHostResponse_size pb_wire ?r \<le> 100"
    by (simp_all add: GetHostResponse_size_def HostInfo_size_def GetHostResponse_clear_def pb_wire_def varint.simps)
  have ip: "inet_ntoa 16777343 = ''127.0.0.1''"
    by (simp add: inet_ntoa_def decimal.simps drop_bit_eq_div unat_div) (simp add: char_of_def bit_0)
  from get_host_matches_response[OF pb.wire_format_axioms, of "replicate 4096 0" "replicate 81920 0" ?C 1 1 "[?o]" ?r _ "[]" "''''"] pl dl l ip
  show ?thesis by (simp add: in_int_def GetHostResponse_clear_def del: api_recv.simps)
qed

text \<open>
  The API does not accept what the agent's handler sends. The handler answers under the id of
  the request; a call of the API that receives such an answer first returns the code for a system
  error and leaves the address as it was.
\<close>

theorem api_rejects_agent_answer:
  assumes "get_host_cb w g A fd data len ID_GetHostRequest u = Inr (A', [answer])"
    and "wire_format w" and "4096 \<le> length wbuf" and "length rbuf = 81920" and "length (rc_sockfd C) = 3"
    and "0 \<le> sint modid + sint cmdid" and "in_int (sint modid + sint cmdid)"
    and "length (reply_bytes answer) \<le> length rbuf"
  shows "\<exists>out. api_get_host w (wbuf, rbuf) True (Some (reply_bytes answer) # as) C modid cmdid ip =
    Inr (RET_SYSTEM_ERROR, ip, C\<lparr>rc_seqid := rc_seqid C + 1\<rparr>, out)"
proof -
  obtain b where a: "answer = (b, int (length b), ID_GetHostRequest)" using get_host_cb_answers[OF assms(1)] by auto
  have r: "reply_bytes answer = frame_bytes (ID_GetHostRequest, b)" unfolding a by (rule reply_bytes_whole)
  have "length b \<le> 81920" using assms(4,8) r by (simp add: frame_bytes_def)
  then have h: "h_id (read_head (frame_bytes (ID_GetHostRequest, b) @ xs)) = ID_GetHostRequest" for xs
    by (simp add: frame_bytes_def in_int_def id_defs)
  have rv: "api_recv w (rc_seqid C) rbuf (Some (reply_bytes answer) # as) = Inr (Inl RET_SYSTEM_ERROR)"
    using assms(8) h by (simp add: r Let_def) (simp add: id_defs)
  have i: "0 \<le> (sint modid + sint cmdid) smod 3" "nat ((sint modid + sint cmdid) smod 3) < 3"
    using smod_int_compares(1,2)[OF assms(6), of 3] by simp_all
  show ?thesis
    using assms(5,7) rv i by (simp add: api_get_host_def request_datagram_ok[OF assms(2,3)] Let_def route_index_def del: api_recv.simps)
qed

theorem api_rejects_agent_answer_witness:
  "\<exists>A' answer out. get_host_cb pb_wire (NEW, 0) (small_agent ([] :: byte list GetRouteRequest list)) 3 [] 0 ID_GetHostRequest (Some (Some 0)) =
      Inr (A', [answer]) \<and>
    api_get_host pb_wire (replicate 4096 0, replicate 81920 0) True [Some (reply_bytes answer)] \<lparr>rc_sockfd = [7, 8, 9], rc_seqid = 0\<rparr> 0 0 ''x'' =
      Inr (RET_SYSTEM_ERROR, ''x'', \<lparr>rc_sockfd = [7, 8, 9], rc_seqid = 1\<rparr>, out)"
proof -
  let ?A = "small_agent ([] :: byte list GetRouteRequest list)"
  let ?resp = "(GetHostResponse_clear pb_wire)\<lparr>hr_retcode := RET_NOEXIST\<rparr>"
  let ?s = "GetHostResponse_serialize pb_wire ?resp"
  let ?C = "\<lparr>rc_sockfd = [7, 8, 9], rc_seqid = 0\<rparr>"
  have "internal_parse (GetHostRequest_field pb_wire) (GetHostRequest_clear pb_wire) [] = (GetHostRequest_clear pb_wire, At_limit)"
    by (simp add: internal_parse_def)
  then have q: "fst (GetHostRequest_parse pb_wire []) = GetHostRequest_clear pb_wire"
    by (simp add: GetHostRequest_parse_def parse_from_array_def)
  have u: "[0..<3] = [0, 1, 2 :: nat]" by (simp add: upt_rec)
  obtain A' where A': "get_host_cb pb_wire (NEW, 0) ?A 3 [] 0 ID_GetHostRequest (Some (Some 0)) =
      Inr (A', [(?s, int (length ?s), ID_GetHostRequest)])"
    by (simp add: get_host_cb_def q GetHostRequest_clear_def GetHostResponse_clear_def small_agent_def create_route_lb_def u
        lb_pointer_def rl_get_host_def route_lb_new_def pull_def load_balance_new_def Let_def)
  have "length ?s \<le> 100" using pb.GetHostResponse_length[of ?resp]
    by (simp add: GetHostResponse_size_def GetHostResponse_clear_def pb_wire_def RET_NOEXIST_def varint.simps)
  then have "length (reply_bytes (?s, int (length ?s), ID_GetHostRequest)) \<le> length (replicate 81920 (0 :: byte))"
    by (simp add: reply_bytes_def)
  from api_rejects_agent_answer[OF A' pb.wire_format_axioms _ _ _ _ _ this, of "replicate 4096 0" ?C 0 0 "[]" "''x''"] A'
  show ?thesis by (auto simp: in_int_def simp del: api_recv.simps)
qed

section \<open>The example program\<close>

text \<open>
  api/cpp/example/example.cc: it asks for a host and prints address and port. Its variable \<open>port\<close> is
  declared without a value, which is \<open>None\<close> here, and copied into the parameter of \<open>get_host\<close>. The
  result is the exit code and the output.
\<close>

definition example_main ::
  "'u wire \<Rightarrow> byte list \<times> byte list \<Rightarrow> (int option \<times> bool) list \<Rightarrow> bool \<Rightarrow> byte list option list \<Rightarrow> int option \<Rightarrow> string list \<Rightarrow>
   (int \<times> string) res" where
  "example_main w bufs net sent answers port argv =
     (if length argv \<noteq> 3 then Inr (1, ''usage: ./example [modid] [cmdid]'' @ [newline])
      else
        let modid = atoi (argv ! 1); cmdid = atoi (argv ! 2) in
        res_bind (rins_client_new net) (\<lambda>api.
        case port of None \<Rightarrow> Inl Uninit_read | Some p \<Rightarrow>
        res_bind (api_get_host w bufs sent answers api modid cmdid []) (\<lambda>(ret, ip, _, _).
          Inr (0, if ret = 0 then ''host is '' @ ip @ '':'' @ (if p < 0 then CHR ''-'' # decimal (nat (- p)) else decimal (nat p)) @ [newline]
                  else []))))"

text \<open>
  As written, the program reads the variable before it has a value; and were it initialised, the
  port that it prints would still be that value, whatever the agent answered.
\<close>

lemma example_reads_port:
  assumes "rins_client_new net = Inr api" and "length argv = 3"
  shows "example_main w bufs net sent answers None argv = Inl Uninit_read"
  using assms by (simp add: example_main_def Let_def)

lemma example_prints_own_port:
  assumes "example_main w bufs net sent answers (Some p) argv = Inr (0, out)" and "0 \<le> p" and "out \<noteq> []"
  shows "\<exists>ip. out = ''host is '' @ ip @ '':'' @ decimal (nat p) @ [newline]"
  using assms by (auto simp: example_main_def Let_def res_bind_Inr_iff split: if_splits)

end
