(* ===== verification/Reporter.thy ===== *)
theory Reporter
  imports Config_File Rins_Proto Thread_Pool "HOL-Library.Multiset"
begin

text \<open>
  The reporter: report/src/store\_report.cc, report/include/store\_thread.h and
  report/src/reporter\_service.cc. Reports of call results are written to a database by the handler
  that receives them and by a group of threads, which get them over queues in turn. Whether the
  database accepts a connection is an argument; \<open>rp_log\<close> is the list of statements sent to it.
\<close>

section \<open>Statements\<close>

text \<open>The conversions \<open>%d\<close> and \<open>%u\<close>.\<close>

definition fmt_d :: "int \<Rightarrow> string" where
  "fmt_d i = (if i < 0 then CHR ''-'' # decimal (nat (- i)) else decimal (nat i))"

definition fmt_u :: "u32 \<Rightarrow> string" where
  "fmt_u x = decimal (unat x)"

definition sql_text :: "'u ReportStatusRequest \<Rightarrow> 'u HostCallResult \<Rightarrow> string" where
  "sql_text req result =
     (let overload = (if cr_overload result then 1 else 0) in
      ''INSERT INTO ServerCallStatus'' @
      ''(modid, cmdid, ip, port, caller, succ_cnt, err_cnt, ts, overload) '' @
      ''VALUES ('' @ fmt_d (sint (rs_modid req)) @ '', '' @ fmt_d (sint (rs_cmdid req)) @ '', '' @ fmt_u (cr_ip result) @ '', '' @
      fmt_u (cr_port result) @ '', '' @ fmt_u (rs_caller req) @ '', '' @ fmt_u (cr_succ result) @ '', '' @ fmt_u (cr_err result) @ '', '' @
      fmt_u (rs_timestamp req) @ '', '' @ fmt_d overload @ '') ON DUPLICATE KEY '' @
      ''UPDATE succ_cnt = '' @ fmt_u (cr_succ result) @ '', err_cnt = '' @ fmt_u (cr_err result) @ '', ts = '' @
      fmt_u (rs_timestamp req) @ '', overload = '' @ fmt_d overload)"

text \<open>\<open>snprintf(sql, 1024, ...)\<close> keeps 1023 characters.\<close>

definition store_sql :: "'u ReportStatusRequest \<Rightarrow> 'u HostCallResult \<Rightarrow> string" where
  "store_sql req result = take 1023 (sql_text req result)"

definition store :: "string list \<Rightarrow> 'u ReportStatusRequest \<Rightarrow> string list" where
  "store log req = foldl (\<lambda>log result. log @ [store_sql req result]) log (rs_results req)"

section \<open>The service\<close>

text \<open>\<open>queues\<close> is a null pointer until the threads are created; \<open>index\<close> is the static variable of the handler.\<close>

record 'u reporter =
  rp_config :: "str_map option"
  rp_queues :: "'u ReportStatusRequest thread_queue list option"
  rp_cnt :: int
  rp_index :: int
  rp_log :: "string list"

text \<open>The constructor of \<open>store_report\<close> reads the configuration and connects, or ends the process.\<close>

definition store_report_new :: "str_map option \<Rightarrow> bool \<Rightarrow> (string \<times> 16 word \<times> string \<times> string \<times> string) res" where
  "store_report_new config connected =
     res_bind (instance_of config) (\<lambda>m.
     let db_host = get_string m ''mysql'' ''db_host'' ''127.0.0.1'';
         db_port = ucast (get_number m ''mysql'' ''db_port'' 3306);
         db_user = get_string m ''mysql'' ''db_user'' ''root'';
         db_passwd = get_string m ''mysql'' ''db_passwd'' ''root'';
         db_name = get_string m ''mysql'' ''db_name'' ''rins''
     in res_bind (check Exit_failure connected) (\<lambda>_. Inr (db_host, db_port, db_user, db_passwd, db_name)))"

definition next_queue :: "'u reporter \<Rightarrow> (nat \<times> 'u reporter) res" where
  "next_queue P =
     (case rp_queues P of
        None \<Rightarrow> Inl Null_deref
      | Some qs \<Rightarrow>
          res_bind (check Out_of_bounds (0 \<le> rp_index P \<and> rp_index P < int (length qs))) (\<lambda>_.
          res_bind (check Div_by_zero (rp_cnt P \<noteq> 0)) (\<lambda>_.
            Inr (nat (rp_index P), P\<lparr>rp_index := (rp_index P + 1) mod rp_cnt P\<rparr>))))"

definition queue_send :: "'u reporter \<Rightarrow> nat \<Rightarrow> 'u ReportStatusRequest \<Rightarrow> 'u reporter" where
  "queue_send P i req = P\<lparr>rp_queues := map_option (\<lambda>qs. qs[i := tq_send (qs ! i) req]) (rp_queues P)\<rparr>"

definition get_report_status :: "'u wire \<Rightarrow> bool \<Rightarrow> 'u reporter \<Rightarrow> byte list \<Rightarrow> u32 \<Rightarrow> 'u reporter res" where
  "get_report_status w connected P data len =
     (let req = fst (ReportStatusRequest_parse w (take (unat len) data)) in
      res_bind (store_report_new (rp_config P) connected) (\<lambda>_.
      let P1 = P\<lparr>rp_log := store (rp_log P) req\<rparr> in
      res_bind (next_queue P1) (\<lambda>(i, P2). Inr (queue_send P2 i req))))"

text \<open>
  \<open>new T*[n]\<close> with a negative \<open>n\<close> throws, which nothing catches. \<open>rets\<close> are the answers of
  \<open>pthread_create\<close>.
\<close>

definition create_reportdb_thread :: "(nat \<Rightarrow> int) \<Rightarrow> 'u reporter \<Rightarrow> 'u reporter res" where
  "create_reportdb_thread rets P =
     res_bind (instance_of (rp_config P)) (\<lambda>m.
     let cnt = sint (get_number m ''reporter'' ''db_thread_cnt'' 3) in
     res_bind (check Exit_failure (0 \<le> cnt)) (\<lambda>_.
     res_bind (run (\<lambda>qs i. res_bind (check Exit_failure (rets i \<noteq> -1)) (\<lambda>_. Inr (qs @ [thread_queue_new]))) [] [0..<nat cnt]) (\<lambda>qs.
       Inr (P\<lparr>rp_cnt := cnt, rp_queues := Some qs\<rparr>))))"

text \<open>The callback of thread \<open>i\<close>, and the thread's start: a connection of its own and its loop.\<close>

definition thread_report_cb :: "'u reporter \<Rightarrow> nat \<Rightarrow> 'u reporter res" where
  "thread_report_cb P i =
     (case rp_queues P of
        None \<Rightarrow> Inl Null_deref
      | Some qs \<Rightarrow>
          if i < length qs then
            (let (report_msgs, q') = tq_recv (qs ! i) []
             in Inr (P\<lparr>rp_queues := Some (qs[i := q']), rp_log := foldl store (rp_log P) report_msgs\<rparr>))
          else Inl Out_of_bounds)"

definition store_main :: "str_map option \<Rightarrow> bool \<Rightarrow> (nat \<Rightarrow> bool) \<Rightarrow> fd \<Rightarrow> nat \<Rightarrow> event_loop option res" where
  "store_main config connected ans evfd args =
     res_bind (store_report_new config connected) (\<lambda>_.
       Inr (set_callback (Some (event_loop_new ans)) evfd thread_report (Some args)))"

section \<open>The statement fits its buffer\<close>

lemma length_decimal: "0 < k \<Longrightarrow> n < 10 ^ k \<Longrightarrow> length (decimal n) \<le> k"
proof (induction k arbitrary: n)
  case (Suc k)
  show ?case
  proof (cases "n < 10")
    case True
    then show ?thesis by (simp add: decimal.simps[of n])
  next
    case False
    then have "0 < k" "n div 10 < 10 ^ k" using Suc.prems by (cases k; auto)+
    then show ?thesis using Suc.IH[of "n div 10"] False by (simp add: decimal.simps[of n])
  qed
qed simp

lemma length_fmt_u: "length (fmt_u x) \<le> 10"
  unfolding fmt_u_def using unsigned_less[of x, where ?'a = nat] by (intro length_decimal) simp_all

lemma length_fmt_d:
  assumes "in_int i"
  shows "length (fmt_d i) \<le> 11"
proof -
  have "nat i < 10000000000" "nat (- i) < 10000000000" using assms unfolding in_int_def by linarith+
  then show ?thesis using length_decimal[of 10 "nat i"] length_decimal[of 10 "nat (- i)"] by (simp add: fmt_d_def)
qed

lemma sint_in_int: "in_int (sint (x :: i32))"
  using sint_range_size[of x] by (simp add: in_int_def word_size)

text \<open>
  No statement is cut. Whatever numbers a report holds, the text of the statement and its
  terminating zero fit into the 1024 bytes of the buffer, so the database gets the whole statement.
\<close>

theorem store_sql_complete: "store_sql req result = sql_text req result \<and> length (sql_text req result) < 400"
proof -
  have "length (sql_text req result) \<le> 360"
    using length_fmt_u[of "cr_ip result"] length_fmt_u[of "cr_port result"] length_fmt_u[of "rs_caller req"]
      length_fmt_u[of "cr_succ result"] length_fmt_u[of "cr_err result"] length_fmt_u[of "rs_timestamp req"]
      length_fmt_d[OF sint_in_int, of "rs_modid req"] length_fmt_d[OF sint_in_int, of "rs_cmdid req"]
      length_fmt_d[of 1] length_fmt_d[of 0]
    by (simp add: sql_text_def in_int_def)
  then show ?thesis by (simp add: store_sql_def)
qed

section \<open>Where reports go\<close>

definition rep_inv :: "'u reporter \<Rightarrow> bool" where
  "rep_inv P \<longleftrightarrow> rp_config P \<noteq> None \<and> 0 \<le> rp_index P \<and> rp_index P < rp_cnt P \<and>
     (\<exists>qs. rp_queues P = Some qs \<and> int (length qs) = rp_cnt P)"

lemma next_queue_spec:
  assumes "rep_inv P"
  shows "next_queue P = Inr (nat (rp_index P), P\<lparr>rp_index := (rp_index P + 1) mod rp_cnt P\<rparr>) \<and>
    rep_inv (P\<lparr>rp_index := (rp_index P + 1) mod rp_cnt P\<rparr>)"
  using assms by (auto simp: next_queue_def rep_inv_def)

interpretation rep: round_robin next_queue "\<lambda>P. nat (rp_index P)" "\<lambda>P. nat (rp_cnt P)" rep_inv
proof
  fix P :: "'u reporter" assume P: "rep_inv P"
  then show "0 < nat (rp_cnt P)" by (simp add: rep_inv_def)
  have i: "nat (rp_index P) < nat (rp_cnt P)" "0 \<le> rp_index P" "0 < rp_cnt P" using P by (auto simp: rep_inv_def)
  have "nat ((rp_index P + 1) mod rp_cnt P) mod nat (rp_cnt P) = Suc (nat (rp_index P)) mod nat (rp_cnt P)"
    using i by (simp add: nat_mod_distrib nat_add_distrib)
  with next_queue_spec[OF P] i show "\<exists>P'. next_queue P = Inr (nat (rp_index P) mod nat (rp_cnt P), P') \<and> rep_inv P' \<and>
      nat (rp_cnt P') = nat (rp_cnt P) \<and> nat (rp_index P') mod nat (rp_cnt P) = Suc (nat (rp_index P)) mod nat (rp_cnt P)"
    by simp
qed

definition statements :: "'u ReportStatusRequest \<Rightarrow> string list" where
  "statements req = map (store_sql req) (rs_results req)"

lemma store_eq: "store log req = log @ statements req"
proof -
  have "foldl (\<lambda>log result. log @ [store_sql req result]) log rs = log @ map (store_sql req) rs" for rs
    by (induction rs arbitrary: log) auto
  then show ?thesis by (simp add: store_def statements_def)
qed

lemma foldl_store: "foldl store log msgs = log @ concat (map statements msgs)"
  by (induction msgs arbitrary: log) (auto simp: store_eq)

text \<open>The statements that the queued reports will give.\<close>

definition due :: "'u ReportStatusRequest thread_queue list \<Rightarrow> string multiset" where
  "due qs = mset (concat (map statements (concat (map tq_queue qs))))"

lemma due_update:
  assumes "i < length qs"
  shows "due (qs[i := q]) + mset (concat (map statements (tq_queue (qs ! i)))) = due qs + mset (concat (map statements (tq_queue q)))"
proof -
  have "due (take i qs @ x # drop (Suc i) qs) =
      due (take i qs) + due (drop (Suc i) qs) + mset (concat (map statements (tq_queue x)))" for x
    by (simp add: due_def ac_simps)
  from this[of q] this[of "qs ! i"] show ?thesis
    using assms by (simp add: upd_conv_take_nth_drop id_take_nth_drop[symmetric] ac_simps)
qed

datatype report_event = Report "byte list" u32 | Drain nat

definition rep_step :: "'u wire \<Rightarrow> 'u reporter \<Rightarrow> report_event \<Rightarrow> 'u reporter res" where
  "rep_step w P e =
     (case e of Report data len \<Rightarrow> get_report_status w True P data len | Drain i \<Rightarrow> thread_report_cb P i)"

definition reported :: "'u wire \<Rightarrow> report_event \<Rightarrow> string multiset" where
  "reported w e = (case e of Report data len \<Rightarrow> mset (statements (fst (ReportStatusRequest_parse w (take (unat len) data)))) | Drain i \<Rightarrow> {#})"

definition accounted :: "'u reporter \<Rightarrow> string multiset" where
  "accounted P = mset (rp_log P) + due (the (rp_queues P))"

lemma rep_step_spec:
  assumes "rep_inv P" and "\<forall>i. e = Drain i \<longrightarrow> int i < rp_cnt P"
  shows "\<exists>P'. rep_step w P e = Inr P' \<and> rep_inv P' \<and> rp_cnt P' = rp_cnt P \<and>
    accounted P' = accounted P + reported w e + reported w e"
proof -
  obtain qs m where q: "rp_queues P = Some qs" "int (length qs) = rp_cnt P" "rp_config P = Some m"
    using assms(1) by (auto simp: rep_inv_def)
  show ?thesis
  proof (cases e)
    case (Report data len)
    let ?req = "fst (ReportStatusRequest_parse w (take (unat len) data))" and ?i = "nat (rp_index P)"
    let ?P = "P\<lparr>rp_log := store (rp_log P) ?req\<rparr>"
    have P: "rep_inv ?P" "?i < length qs" using assms(1) q by (auto simp: rep_inv_def)
    from due_update[OF P(2), of "tq_send (qs ! ?i) ?req"]
    have "due (qs[?i := tq_send (qs ! ?i) ?req]) = due qs + mset (statements ?req)" by (simp add: tq_send_def ac_simps)
    moreover have "rep_step w P e = Inr (queue_send (?P\<lparr>rp_index := (rp_index P + 1) mod rp_cnt P\<rparr>) ?i ?req)"
      using Report next_queue_spec[OF P(1)] q by (simp add: rep_step_def get_report_status_def store_report_new_def instance_of_def Let_def)
    ultimately show ?thesis
      using Report next_queue_spec[OF P(1)] q by (simp add: queue_send_def accounted_def reported_def store_eq rep_inv_def)
  next
    case (Drain i)
    then have i: "i < length qs" using assms(2) q by simp
    from due_update[OF i, of "(qs ! i)\<lparr>tq_queue := [], tq_count := 0\<rparr>"]
    have "due (qs[i := (qs ! i)\<lparr>tq_queue := [], tq_count := 0\<rparr>]) + mset (concat (map statements (tq_queue (qs ! i)))) = due qs" by simp
    then show ?thesis
      using Drain i q assms(1)
      by (simp add: rep_step_def thread_report_cb_def tq_recv_def accounted_def reported_def foldl_store rep_inv_def
          add.assoc add.commute[of "mset (concat (map statements (tq_queue (qs ! i))))"])
  qed
qed

text \<open>
  Every report is stored twice. In any interleaving of reports that arrive and of threads that
  empty their queues, the service runs without a fault, and the statements sent to the database
  together with those still to come from the queues are, each counted, twice the statements of the
  reports received: once from the handler and once from a thread.
\<close>

theorem reports_stored_twice:
  assumes "rep_inv P" and "\<forall>i. Drain i \<in> set es \<longrightarrow> int i < rp_cnt P" and "rp_log P = []" and "due (the (rp_queues P)) = {#}"
  shows "\<exists>P'. run (rep_step w) P es = Inr P' \<and>
    mset (rp_log P') + due (the (rp_queues P')) = repeat_mset 2 (\<Sum>e \<leftarrow> es. reported w e)"
proof -
  have "\<exists>P'. run (rep_step w) P es = Inr P' \<and> rep_inv P' \<and>
      accounted P' = accounted P + (\<Sum>e \<leftarrow> es. reported w e) + (\<Sum>e \<leftarrow> es. reported w e)"
    using assms(1,2)
  proof (induction es arbitrary: P)
    case (Cons e es)
    from rep_step_spec[of P e w] Cons.prems obtain P1 where P1: "rep_step w P e = Inr P1" "rep_inv P1" "rp_cnt P1 = rp_cnt P"
      "accounted P1 = accounted P + reported w e + reported w e" by auto
    from Cons.IH[OF P1(2)] Cons.prems(2) P1 show ?case by (auto simp: ac_simps)
  qed simp
  then show ?thesis using assms(3,4) by (auto simp: accounted_def numeral_2_eq_2)
qed

theorem reports_stored_twice_witness:
  "\<exists>P' data text. run (rep_step pb_wire)
      \<lparr>rp_config = Some Map.empty, rp_queues = Some [thread_queue_new, thread_queue_new], rp_cnt = 2, rp_index = 0, rp_log = []\<rparr>
      [Report data (of_nat (length data)), Drain 1] = Inr P' \<and>
    mset (rp_log P') + due (the (rp_queues P')) = {#text, text#}"
proof -
  let ?r = "\<lparr>unknown = [], cr_ip = 7, cr_port = 80, cr_succ = 3, cr_err = 0, cr_overload = True\<rparr> :: byte list HostCallResult"
  let ?m = "\<lparr>unknown = [], rs_modid = 1, rs_cmdid = 2, rs_caller = 0, rs_results = [?r], rs_timestamp = 99\<rparr> :: byte list ReportStatusRequest"
  let ?d = "ReportStatusRequest_serialize pb_wire ?m"
  let ?P = "\<lparr>rp_config = Some Map.empty, rp_queues = Some [thread_queue_new, thread_queue_new], rp_cnt = 2, rp_index = 0, rp_log = []\<rparr>"
  have p: "ReportStatusRequest_parse pb_wire ?d = (?m, True)"
    using report_request_parsed[OF pb.wire_format_axioms, of ?m] by (simp add: pb_wire_def)
  have "length ?d \<le> 100" using pb.ReportStatusRequest_length[of ?m]
    by (simp add: ReportStatusRequest_size_def HostCallResult_size_def pb_wire_def varint.simps)
  then have "take (unat (of_nat (length ?d) :: u32)) ?d = ?d" by (simp add: unat_of_nat)
  then have r: "reported pb_wire (Report ?d (of_nat (length ?d))) = {#store_sql ?m ?r#}"
    by (simp add: reported_def p statements_def)
  have d: "reported pb_wire (Drain 1) = {#}" by (simp add: reported_def)
  from reports_stored_twice[of ?P "[Report ?d (of_nat (length ?d)), Drain 1]" pb_wire] obtain P' where
    "run (rep_step pb_wire) ?P [Report ?d (of_nat (length ?d)), Drain 1] = Inr P'"
    "mset (rp_log P') + due (the (rp_queues P')) = repeat_mset 2 {#store_sql ?m ?r#}"
    by (auto simp: rep_inv_def due_def thread_queue_new_def r d[simplified])
  then show ?thesis by (intro exI[of _ P'] exI[of _ ?d] exI[of _ "store_sql ?m ?r"]) (simp add: numeral_2_eq_2)
qed

text \<open>
  Reports are spread evenly over the threads. As many consecutive reports as there are threads
  choose every queue exactly once, wherever the static index stands.
\<close>

theorem reports_spread_evenly:
  assumes "rep_inv P" and "j < nat (rp_cnt P)"
  shows "\<exists>is P'. picks next_queue (nat (rp_cnt P)) P = Inr (is, P') \<and> count_list is j = 1 \<and> length is = nat (rp_cnt P)"
  using rep.fair_round[OF assms] .

theorem reports_spread_evenly_witness:
  "\<exists>is P'. picks next_queue 2
      \<lparr>rp_config = Some Map.empty, rp_queues = Some [thread_queue_new, thread_queue_new], rp_cnt = 2, rp_index = 1, rp_log = []\<rparr> =
        Inr (is, P' :: byte list reporter) \<and> count_list is 0 = 1"
proof -
  let ?P = "\<lparr>rp_config = Some Map.empty, rp_queues = Some [thread_queue_new, thread_queue_new], rp_cnt = 2, rp_index = 1, rp_log = []\<rparr> :: byte list reporter"
  have "rep_inv ?P" by (simp add: rep_inv_def)
  from reports_spread_evenly[OF this, of 0] show ?thesis by auto
qed

text \<open>A configuration that asks for no threads leaves nothing to send a report to.\<close>

lemma no_report_threads:
  assumes "rp_config P \<noteq> None" and "rp_queues P = Some []"
  shows "get_report_status w True P data len = Inl Out_of_bounds"
  using assms by (auto simp: get_report_status_def store_report_new_def instance_of_def next_queue_def check_def Let_def)

lemma create_reportdb_thread_inv:
  assumes "create_reportdb_thread rets P = Inr P'" and "rp_index P = 0" and "rp_cnt P' \<noteq> 0"
  shows "rep_inv P'"
proof -
  have l: "run (\<lambda>qs i. res_bind (check Exit_failure (rets i \<noteq> -1)) (\<lambda>_. Inr (qs @ [thread_queue_new]))) qs is = Inr qs' \<Longrightarrow>
      length qs' = length qs + length is" for qs qs' :: "'a ReportStatusRequest thread_queue list" and "is"
    by (induction "is" arbitrary: qs) (auto simp: res_bind_Inr_iff)
  show ?thesis
    using assms by (auto simp: create_reportdb_thread_def instance_of_def res_bind_Inr_iff check_Inr_iff Let_def rep_inv_def
        split: option.splits dest!: l)
qed

end
