(* ===== verification/Report_System.thy ===== *)
theory Report_System
  imports Server_App Reporter
begin

text \<open>
  The reporter service as a whole (report/src/reporter\_service.cc, report/include/store\_thread.h):
  a TCP server whose workers call the handler of reports, and the threads that store what the
  handler put into their queues, each with an event loop of its own. Events of all these threads
  interleave in any order. The data of the application is the reporter and, beside it, the list of
  the reports that were handled, which nothing reads.
\<close>

section \<open>The program\<close>

type_synonym 'u report_app = "'u reporter \<times> 'u ReportStatusRequest list"

definition report_of :: "'u wire \<Rightarrow> byte list option \<Rightarrow> u32 \<Rightarrow> 'u ReportStatusRequest" where
  "report_of w data len = fst (ReportStatusRequest_parse w (body data len))"

text \<open>
  The database accepts the handler's connection: one that it refuses ends the process, so this holds
  in every state of a service that runs.
\<close>

definition reporter_cfg :: "'u wire \<Rightarrow> ('u report_app, unit) server_cfg" where
  "reporter_cfg w =
     add_msg_router \<lparr>s_router = router_new, conn_start_cb = None, conn_close_cb = None\<rparr> ID_ReportStatusRequest
       (\<lambda>a fd data len msgid u. quiet a
          (res_bind (get_report_status w True (fst a) (body data len) len) (\<lambda>P. Inr ((P, snd a @ [report_of w data len]), [])))) ()"

text \<open>The program has no task for the workers of this service.\<close>

definition no_task :: "task_func \<Rightarrow> nat \<Rightarrow> event_loop \<times> 'a world \<Rightarrow> (event_loop \<times> 'a world) res" where
  "no_task func args s = Inl Null_deref"

text \<open>The callback of a storing thread, whose argument leads to its queue.\<close>

definition report_invoke :: "'u reporter invoker" where
  "report_invoke cb f args s =
     (case cb of
        thread_report \<Rightarrow>
          (case args of None \<Rightarrow> Inl Null_deref
           | Some i \<Rightarrow> res_bind (thread_report_cb (snd s) i) (\<lambda>P. Inr (fst s, P)))
      | _ \<Rightarrow> Inl Null_deref)"

text \<open>
  \<open>main\<close> up to the loops: the configuration, the server, the handler (\<open>reporter_cfg\<close>), the threads.
  \<open>net\<close> says for an address whether there is a socket and whether \<open>bind\<close> and \<open>listen\<close> accept it.
\<close>

definition reporter_main ::
  "string option \<Rightarrow> (string \<Rightarrow> 16 word \<Rightarrow> int option \<times> bool \<times> bool) \<Rightarrow> (nat \<Rightarrow> nat option) \<Rightarrow> nat \<Rightarrow> (nat \<Rightarrow> int) \<Rightarrow>
   unit env \<Rightarrow> (string \<times> 16 word \<times> tcp_server \<times> 'u report_app env) res" where
  "reporter_main contents net garbage this rets E0 =
     res_bind (set_path None contents) (\<lambda>(_, config).
     res_bind (instance_of config) (\<lambda>m.
     let ip = get_string m ''reactor'' ''ip'' ''0.0.0.0'';
         port = ucast (get_number m ''reactor'' ''port'' 7779);
         (sock, bind_ok, listen_ok) = net ip port in
     res_bind (tcp_server_new sock bind_ok listen_ok (get_number m ''reactor'' ''maxConn'' 1024)
         (get_number m ''reactor'' ''threadNum'' 3) garbage this E0) (\<lambda>(server, E).
     res_bind (create_reportdb_thread rets
         \<lparr>rp_config = config, rp_queues = None, rp_cnt = 0, rp_index = 0, rp_log = []\<rparr>) (\<lambda>P.
       Inr (ip, port, server, \<lparr>e_pool = e_pool E, e_loop = e_loop E, e_reg = e_reg E, e_app = (P, [])\<rparr>)))))"

text \<open>The storing threads enter their loops; \<open>evfds\<close> are the descriptors of their queues.\<close>

definition store_start :: "fd list \<Rightarrow> 'u reporter \<Rightarrow> event_loop list res" where
  "store_start evfds P =
     run (\<lambda>ls i. res_bind (store_main (rp_config P) True (\<lambda>_. True) (evfds ! i) i) (\<lambda>l.
       case l of None \<Rightarrow> Inl Null_deref | Some l \<Rightarrow> Inr (ls @ [l]))) [] [0..<nat (rp_cnt P)]"

inductive report_step ::
  "'u wire \<Rightarrow> 'u report_app server_sys \<times> event_loop list \<Rightarrow> 'u report_app server_sys \<times> event_loop list \<Rightarrow> bool" for w where
  reactor: "server_step (reporter_cfg w) no_task S S' \<Longrightarrow> report_step w (S, ls) (S', ls)"
| store: "i < length ls \<Longrightarrow> Event_Loop.reported (ls ! i) fe \<Longrightarrow> w_app (y_world S) = (P, h) \<Longrightarrow>
    dispatch_one report_invoke (ls ! i, P) fe = Inr (l, P') \<Longrightarrow>
    report_step w (S, ls) (S\<lparr>y_world := (y_world S)\<lparr>w_app := (P', h)\<rparr>\<rparr>, ls[i := l])"

text \<open>
  The states of a service that was started, with at least one storing thread, and not stopped.
\<close>

inductive reporter_running :: "'u wire \<Rightarrow> 'u report_app server_sys \<times> event_loop list \<Rightarrow> bool" for w where
  started: "reporter_main contents net garbage this rets E0 = Inr (ip, port, server, E) \<Longrightarrow>
    pool_inv (e_pool E0) {} \<Longrightarrow> max_conns (e_reg E) < INT_MAX - 3 \<Longrightarrow> rp_cnt (fst (e_app E)) \<noteq> 0 \<Longrightarrow>
    server_start evfds rds wrs (server, E) = Inr S \<Longrightarrow> distinct evfds \<Longrightarrow> length evfds = length (y_loops S) \<Longrightarrow>
    store_start stfds (fst (e_app E)) = Inr ls \<Longrightarrow>
    reporter_running w (S, ls)"
| moved: "reporter_running w s \<Longrightarrow> report_step w s s' \<Longrightarrow> reporter_running w s'"

section \<open>Queues\<close>

definition handled_reports :: "'u ReportStatusRequest list \<Rightarrow> string multiset" where
  "handled_reports h = mset (concat (map statements h))"

definition report_ok :: "'u report_app \<Rightarrow> bool" where
  "report_ok a \<longleftrightarrow> rep_inv (fst a) \<and> accounted (fst a) = handled_reports (snd a) + handled_reports (snd a)"

lemma get_report_status_keeps:
  assumes "report_ok (P, h)"
  shows "\<exists>P'. get_report_status w True P (body data len) len = Inr P' \<and> rp_cnt P' = rp_cnt P \<and>
    report_ok (P', h @ [report_of w data len])"
proof -
  have "rep_inv P" using assms by (simp add: report_ok_def)
  from rep_step_spec[OF this, of "Report (body data len) len" w] obtain P' where
    "get_report_status w True P (body data len) len = Inr P'" "rep_inv P'" "rp_cnt P' = rp_cnt P"
    "accounted P' = accounted P + mset (statements (report_of w data len)) + mset (statements (report_of w data len))"
    by (auto simp: rep_step_def Reporter.reported_def report_of_def body_def)
  then show ?thesis using assms by (simp add: report_ok_def handled_reports_def)
qed

lemma thread_report_keeps:
  assumes "report_ok (P, h)" and "int i < rp_cnt P"
  shows "\<exists>P'. thread_report_cb P i = Inr P' \<and> rp_cnt P' = rp_cnt P \<and> report_ok (P', h) \<and>
    map tq_queue (the (rp_queues P')) = (map tq_queue (the (rp_queues P)))[i := []]"
proof -
  have P: "rep_inv P" using assms by (simp add: report_ok_def)
  from rep_step_spec[OF P, of "Drain i"] assms(2) obtain P' where P': "thread_report_cb P i = Inr P'" "rep_inv P'"
    "rp_cnt P' = rp_cnt P" "accounted P' = accounted P"
    by (auto simp: rep_step_def Reporter.reported_def)
  moreover have "map tq_queue (the (rp_queues P')) = (map tq_queue (the (rp_queues P)))[i := []]"
    using P'(1) P by (auto simp: thread_report_cb_def rep_inv_def tq_recv_def map_update split: if_splits)
  ultimately show ?thesis using assms(1) by (simp add: report_ok_def)
qed

text \<open>When every thread has had a turn, the queues are empty and all statements are in the database.\<close>

lemma all_threads_report:
  assumes "report_ok (P, h)" and "int n \<le> rp_cnt P"
  shows "\<exists>P'. run thread_report_cb P [0..<n] = Inr P' \<and> rp_cnt P' = rp_cnt P \<and> report_ok (P', h) \<and>
    (\<forall>j < n. map tq_queue (the (rp_queues P')) ! j = [])"
  using assms(2)
proof (induction n)
  case 0
  then show ?case using assms(1) by simp
next
  case (Suc n)
  then obtain P1 where P1: "run thread_report_cb P [0..<n] = Inr P1" "rp_cnt P1 = rp_cnt P" "report_ok (P1, h)"
    "\<forall>j < n. map tq_queue (the (rp_queues P1)) ! j = []" by auto
  have "int n < rp_cnt P1" using Suc.prems P1(2) by simp
  from thread_report_keeps[OF P1(3) this] obtain P2 where P2: "thread_report_cb P1 n = Inr P2" "rp_cnt P2 = rp_cnt P1"
    "report_ok (P2, h)" "map tq_queue (the (rp_queues P2)) = (map tq_queue (the (rp_queues P1)))[n := []]" by auto
  have "n < length (the (rp_queues P1))" using \<open>int n < rp_cnt P1\<close> P1(3) by (auto simp: report_ok_def rep_inv_def)
  then have "map tq_queue (the (rp_queues P2)) ! j = []" if "j < Suc n" for j
    using P1(4) P2(4) that by (cases "j = n") auto
  then show ?case using P1 P2 by (simp add: run_append)
qed

lemma all_reported:
  assumes "report_ok (P, h)" and "\<forall>j < nat (rp_cnt P). map tq_queue (the (rp_queues P)) ! j = []"
  shows "mset (rp_log P) = handled_reports h + handled_reports h"
proof -
  have "int (length (the (rp_queues P))) = rp_cnt P" using assms(1) by (auto simp: report_ok_def rep_inv_def)
  then have "\<forall>q \<in> set (the (rp_queues P)). tq_queue q = []" using assms(2) by (auto simp: in_set_conv_nth)
  then have "due (the (rp_queues P)) = {#}" by (simp add: due_def)
  then show ?thesis using assms(1) by (simp add: report_ok_def accounted_def)
qed

section \<open>The server and its handler\<close>

lemma reporter_router:
  "router_call (s_router (reporter_cfg w)) i =
     (if i = ID_ReportStatusRequest then Some (\<lambda>a fd data len msgid u. quiet a
        (res_bind (get_report_status w True (fst a) (body data len) len) (\<lambda>P. Inr ((P, snd a @ [report_of w data len]), []))), Some ())
      else None)"
  by (simp add: reporter_cfg_def add_msg_router_def router_call_register)

lemma reporter_callbacks: "conn_start_cb (reporter_cfg w) = None" "conn_close_cb (reporter_cfg w) = None"
  by (simp_all add: reporter_cfg_def add_msg_router_def)

lemma body_take: "body (Some d) len = body (Some (take (unat len) d)) len"
  by (simp add: body_def)

lemma reporter_cfg_ok: "cfg_ok (reporter_cfg w)"
proof -
  have "report_of w (Some d) len = report_of w (Some (take (unat len) d)) len" for d len
    using body_take by (metis report_of_def)
  then show ?thesis
    by (auto simp: cfg_ok_def reporter_router cb_ok_def reporter_callbacks quiet_def body_take[symmetric] res_bind_def
        split: if_splits sum.splits)
qed

lemma reporter_msg_law:
  assumes "report_ok a" and "router_call (s_router (reporter_cfg w)) i = Some (h, u)"
  shows "report_ok (fst (h a f data len i u)) \<and> rp_cnt (fst (fst (h a f data len i u))) = rp_cnt (fst a)"
proof -
  obtain P rs where a: "a = (P, rs)" by (cases a)
  from get_report_status_keeps[OF assms(1)[unfolded a], of w data len] obtain P' where
    "get_report_status w True P (body data len) len = Inr P'" "rp_cnt P' = rp_cnt P" "report_ok (P', rs @ [report_of w data len])" by blast
  then show ?thesis using assms(2) a by (auto simp: reporter_router quiet_def split: if_splits)
qed

interpretation ra: server_app "reporter_cfg w" no_task "\<lambda>E F a. report_ok a \<and> rp_cnt (fst a) = n"
  for w :: "'u wire" and n
proof (unfold_locales, goal_cases)
  case (3 E F a f i h u data len)
  then show ?case using reporter_msg_law[of a w i h u f data len] by simp
qed (simp_all add: reporter_cfg_ok start_app_def stop_app_def reporter_callbacks task_keeps_def no_task_def)

section \<open>The storing threads\<close>

text \<open>Storing does not touch the loop.\<close>

interpretation rl: loop_callbacks "report_invoke :: 'u reporter invoker" "\<lambda>s. loop_inv (fst s)"
  by unfold_locales (auto simp: report_invoke_def res_bind_Inr_iff split: io_callback.splits option.splits)

text \<open>The loop of thread \<open>i\<close> listens to the descriptor of queue \<open>i\<close> and to nothing else.\<close>

definition store_loop :: "nat \<Rightarrow> event_loop \<Rightarrow> bool" where
  "store_loop i l \<longleftrightarrow> loop_inv l \<and> (\<exists>evfd. io_evs l = [evfd \<mapsto> registered None thread_report EPOLLIN (Some i)])"

lemma store_main_loop:
  assumes "store_main config True (\<lambda>_. True) evfd i = Inr l"
  shows "\<exists>l'. l = Some l' \<and> store_loop i l'"
proof -
  let ?l0 = "event_loop_new (\<lambda>_. True)"
  have L0: "loop_inv ?l0" by (simp add: loop_inv_new)
  have "l = Some (add_io_event ?l0 evfd thread_report EPOLLIN (Some i))"
    using assms by (auto simp: store_main_def set_callback_def res_bind_Inr_iff)
  moreover have "io_evs (add_io_event ?l0 evfd thread_report EPOLLIN (Some i)) = [evfd \<mapsto> registered None thread_report EPOLLIN (Some i)]"
    using add_io_event_spec(2)[OF L0, of EPOLLIN evfd thread_report "Some i"] by (simp add: rw_mask_def) (simp add: event_loop_new_def)
  ultimately show ?thesis using add_io_event_spec(1)[OF L0, of EPOLLIN evfd thread_report "Some i"]
    unfolding store_loop_def rw_mask_def by blast
qed

lemma store_start_loops:
  assumes "store_start evfds P = Inr ls"
  shows "length ls = nat (rp_cnt P) \<and> (\<forall>i < length ls. store_loop i (ls ! i))"
proof -
  have "length ls = n \<and> (\<forall>i < length ls. store_loop i (ls ! i))"
    if "run (\<lambda>ls i. res_bind (store_main (rp_config P) True (\<lambda>_. True) (evfds ! i) i) (\<lambda>l.
       case l of None \<Rightarrow> Inl Null_deref | Some l \<Rightarrow> Inr (ls @ [l]))) [] [0..<n] = Inr ls" for n ls
    using that
  proof (induction n arbitrary: ls)
    case (Suc n)
    then obtain ls' l where "run (\<lambda>ls i. res_bind (store_main (rp_config P) True (\<lambda>_. True) (evfds ! i) i) (\<lambda>l.
       case l of None \<Rightarrow> Inl Null_deref | Some l \<Rightarrow> Inr (ls @ [l]))) [] [0..<n] = Inr ls'"
      and l: "store_main (rp_config P) True (\<lambda>_. True) (evfds ! n) n = Inr (Some l)" "ls = ls' @ [l]"
      by (auto simp: run_append res_bind_Inr_iff split: option.splits)
    with Suc.IH have "length ls' = n" "\<forall>i < length ls'. store_loop i (ls' ! i)" by auto
    then show ?case using store_main_loop[OF l(1)] l(2) by (auto simp: nth_append less_Suc_eq)
  qed simp
  then show ?thesis using assms by (simp add: store_start_def)
qed

text \<open>Whatever the kernel reports to a storing thread, it returns, or empties its queue.\<close>

lemma store_dispatch:
  assumes l: "store_loop i l" and r: "Event_Loop.reported l fe" and a: "report_ok (P, h)" and i: "int i < rp_cnt P"
  shows "\<exists>P'. dispatch_one report_invoke (l, P) fe = Inr (l, P') \<and> rp_cnt P' = rp_cnt P \<and> report_ok (P', h)"
proof -
  have "loop_inv (fst (l, P))" using l by (simp add: store_loop_def)
  from rl.dispatch_one_safe[OF this, of "fst fe" "snd fe"] r
  consider (none) "dispatch_one report_invoke (l, P) fe = Inr (l, P)"
    | (call) cb args where "entry l cb (fst fe) args" "dispatch_one report_invoke (l, P) fe = report_invoke cb (fst fe) args (l, P)"
    by auto
  then show ?thesis
  proof cases
    case none
    then show ?thesis using a by simp
  next
    case call
    then have "cb = thread_report" "args = Some i"
      using l by (auto simp: store_loop_def entry_def registered_def io_event_new_def Let_def split: if_splits)
    then show ?thesis using call(2) thread_report_keeps[OF a i] by (auto simp: report_invoke_def)
  qed
qed

section \<open>Everything together\<close>

definition report_sys_ok :: "'u report_app server_sys \<times> event_loop list \<Rightarrow> bool" where
  "report_sys_ok s \<longleftrightarrow> (\<exists>G. sys_ok G (fst s)) \<and> report_ok (w_app (y_world (fst s))) \<and>
     length (snd s) = nat (rp_cnt (fst (w_app (y_world (fst s))))) \<and> (\<forall>i < length (snd s). store_loop i (snd s ! i))"

lemma report_step_keeps:
  assumes "report_step w s s'" and "report_sys_ok s"
  shows "report_sys_ok s'"
  using assms(1)
proof (cases rule: report_step.cases)
  case (reactor S S' ls)
  from assms(2) reactor(1) obtain G where "sys_ok G S" and J: "report_ok (w_app (y_world S))" by (auto simp: report_sys_ok_def)
  from ra.step_result[OF this(1) conjI[OF J refl] reactor(3)] show ?thesis
    using assms(2) reactor(1,2) by (auto simp: report_sys_ok_def)
next
  case (store i ls fe S P h l P')
  have ok: "report_ok (P, h)" "int i < rp_cnt P" "store_loop i (ls ! i)" and S: "\<exists>G. sys_ok G S"
    and n: "length ls = nat (rp_cnt P)" "\<forall>i < length ls. store_loop i (ls ! i)"
    using assms(2) store(1,3,5) by (auto simp: report_sys_ok_def)
  from store_dispatch[OF ok(3) store(4) ok(1,2)] store(6) have "l = ls ! i" "rp_cnt P' = rp_cnt P" "report_ok (P', h)" by auto
  moreover have "\<exists>G. sys_ok G (S\<lparr>y_world := (y_world S)\<lparr>w_app := (P', h)\<rparr>\<rparr>)" using S sys_ok_app[of _ S "(P', h)"] by (elim exE) (rule exI)
  ultimately show ?thesis using n store(2,3) by (simp add: report_sys_ok_def)
qed

lemma create_reportdb_fresh:
  assumes "create_reportdb_thread rets P = Inr P'" and "rp_log P = []"
  shows "accounted P' = {#}"
proof -
  have l: "run (\<lambda>qs i. res_bind (check Exit_failure (rets i \<noteq> -1)) (\<lambda>_. Inr (qs @ [thread_queue_new]))) qs is = Inr qs' \<Longrightarrow>
      due qs' = due qs" for qs qs' :: "'a ReportStatusRequest thread_queue list" and "is"
    by (induction "is" arbitrary: qs) (auto simp: res_bind_Inr_iff due_def thread_queue_new_def)
  show ?thesis using assms
    by (auto simp: create_reportdb_thread_def res_bind_Inr_iff Let_def accounted_def dest!: l) (simp add: due_def)
qed

lemma reporter_running_ok: "reporter_running w s \<Longrightarrow> report_sys_ok s"
proof (induction rule: reporter_running.induct)
  case (started contents net garbage this rets E0 ip port server E evfds rds wrs S stfds ls)
  from started(1) obtain sock b l maxConn threadNum E1 P config where
    n: "tcp_server_new sock b l maxConn threadNum garbage this E0 = Inr (server, E1)"
    and P: "create_reportdb_thread rets \<lparr>rp_config = config, rp_queues = None, rp_cnt = 0, rp_index = 0, rp_log = []\<rparr> = Inr P"
    and E: "E = \<lparr>e_pool = e_pool E1, e_loop = e_loop E1, e_reg = e_reg E1, e_app = (P, [])\<rparr>"
    by (auto simp: reporter_main_def Let_def res_bind_Inr_iff case_prod_beta)
  have "e_pool E = e_pool E1" "e_reg E = e_reg E1" using E by simp_all
  from server_new_start[OF n this started(2,3,5-7)] have "sys_ok Map.empty S" "w_app (y_world S) = (P, [])" using E by simp_all
  moreover have "rep_inv P" using create_reportdb_thread_inv[OF P] started(4) E by simp
  then have "report_ok (P, [])" using create_reportdb_fresh[OF P] by (simp add: report_ok_def handled_reports_def)
  ultimately show ?case using store_start_loops[OF started(8)] E by (auto simp: report_sys_ok_def)
next
  case (moved s s')
  then show ?case using report_step_keeps by blast
qed

text \<open>
  C29: every report is stored twice, and none is lost, as long as the database accepts the connection that each
  call of the handler makes. In every state that the running service reaches,
  however the workers of the server and the storing threads interleave: the statements sent to the
  database together with those still to come from the queues are, each counted, twice the statements
  of the reports handled so far, once from the handler and once from a thread; the handler returns
  for whatever message a client sends, with its choice of a queue inside the array; whatever is
  reported to the loop of a storing thread is dispatched without a fault; and once every storing
  thread has had a turn, exactly twice the statements of all reports are in the database.
\<close>

theorem service_stores_twice:
  assumes "reporter_running w (S, ls)" and "w_app (y_world S) = (P, h)"
  shows "mset (rp_log P) + due (the (rp_queues P)) = repeat_mset 2 (mset (concat (map statements h))) \<and>
    (\<forall>data len. \<exists>P'. get_report_status w True P (body data len) len = Inr P') \<and>
    length ls = nat (rp_cnt P) \<and>
    (\<forall>i fe. i < length ls \<longrightarrow> Event_Loop.reported (ls ! i) fe \<longrightarrow> (\<exists>P'. dispatch_one report_invoke (ls ! i, P) fe = Inr (ls ! i, P'))) \<and>
    (\<exists>P'. run thread_report_cb P [0..<length ls] = Inr P' \<and> mset (rp_log P') = repeat_mset 2 (mset (concat (map statements h))))"
proof -
  have ok: "report_ok (P, h)" and n: "length ls = nat (rp_cnt P)" "\<forall>i < length ls. store_loop i (ls ! i)"
    using reporter_running_ok[OF assms(1)] assms(2) by (auto simp: report_sys_ok_def)
  have two: "repeat_mset 2 (mset (concat (map statements h))) = handled_reports h + handled_reports h"
    by (simp add: handled_reports_def numeral_2_eq_2)
  have "0 \<le> rp_cnt P" using ok by (auto simp: report_ok_def rep_inv_def)
  with all_threads_report[OF ok, of "length ls"] n(1) obtain P' where P': "run thread_report_cb P [0..<length ls] = Inr P'"
    "rp_cnt P' = rp_cnt P" "report_ok (P', h)" "\<forall>j < length ls. map tq_queue (the (rp_queues P')) ! j = []" by auto
  from all_reported[OF P'(3)] P'(2,4) n(1) have log: "mset (rp_log P') = handled_reports h + handled_reports h" by simp
  show ?thesis unfolding two
  proof (intro conjI allI impI)
    show "mset (rp_log P) + due (the (rp_queues P)) = handled_reports h + handled_reports h"
      using ok by (simp add: report_ok_def accounted_def)
    show "\<exists>P'. get_report_status w True P (body data len) len = Inr P'" for data len using get_report_status_keeps[OF ok] by blast
    show "\<exists>P'. dispatch_one report_invoke (ls ! i, P) fe = Inr (ls ! i, P')"
      if "i < length ls" "Event_Loop.reported (ls ! i) fe" for i fe
    proof -
      have "int i < rp_cnt P" "store_loop i (ls ! i)" using n that(1) by auto
      from store_dispatch[OF this(2) that(2) ok this(1)] show ?thesis by blast
    qed
  qed (use n P'(1) log in auto)
qed

section \<open>Reports over the network\<close>

abbreviation report_frame :: "'u wire \<Rightarrow> 'u ReportStatusRequest \<Rightarrow> frame" where
  "report_frame w r \<equiv> (ID_ReportStatusRequest, ReportStatusRequest_serialize w r)"

text \<open>A report that survives the wire, in a message the server accepts.\<close>

definition sendable :: "'u wire \<Rightarrow> 'u ReportStatusRequest \<Rightarrow> bool" where
  "sendable w r \<longleftrightarrow> unknown r = no_unknown w \<and> (\<forall>x \<in> set (rs_results r). unknown x = no_unknown w) \<and>
     frame_ok (report_frame w r) \<and> ReportStatusRequest_serialize w r \<noteq> []"

lemma report_of_frame:
  assumes "wire_format w" and "sendable w r"
  shows "report_of w (Some (ReportStatusRequest_serialize w r)) (word_of_int (int (length (ReportStatusRequest_serialize w r)))) = r"
proof -
  let ?s = "ReportStatusRequest_serialize w r"
  have "length ?s < 4294967296" using assms(2) by (simp add: sendable_def frame_ok_def message_limits)
  then have "unat (word_of_int (int (length ?s)) :: u32) = length ?s" by (simp add: unat_of_nat)
  then have "body (Some ?s) (word_of_int (int (length ?s))) = ?s" by (simp add: body_def)
  then show ?thesis using report_request_parsed[OF assms(1)] assms(2) by (simp add: report_of_def sendable_def)
qed

lemma get_report_status_log:
  "get_report_status w True P (body data len) len = Inr P' \<Longrightarrow> rp_log P' = rp_log P @ statements (report_of w data len)"
  by (auto simp: get_report_status_def Let_def res_bind_Inr_iff next_queue_def queue_send_def store_eq report_of_def body_def
      split: option.splits)

lemma reports_serve:
  assumes "wire_format w" and "\<forall>r \<in> set rs. sendable w r" and "report_ok (P, h)"
  shows "\<exists>P'. serve (reporter_cfg w) fd (P, h) (map (report_frame w) rs) = ((P', h @ rs), []) \<and> report_ok (P', h @ rs) \<and>
    rp_log P' = rp_log P @ concat (map statements rs)"
  using assms(2,3)
proof (induction rs arbitrary: P h)
  case Nil
  then show ?case by simp
next
  case (Cons r rs)
  let ?s = "ReportStatusRequest_serialize w r"
  have r: "report_of w (Some ?s) (word_of_int (int (length ?s))) = r" using report_of_frame[OF assms(1)] Cons.prems(1) by simp
  from get_report_status_keeps[OF Cons.prems(2), of w "Some ?s" "word_of_int (int (length ?s))"] obtain P1 where
    P1: "get_report_status w True P (body (Some ?s) (word_of_int (int (length ?s)))) (word_of_int (int (length ?s))) = Inr P1"
      "report_ok (P1, h @ [r])" unfolding r by blast
  have "rp_log P1 = rp_log P @ statements r" using get_report_status_log[OF P1(1)] r by simp
  moreover have "serve_one (reporter_cfg w) fd (P, h) (report_frame w r) = ((P1, h @ [r]), [])"
    using P1(1) r by (simp add: serve_one_def reporter_router quiet_def)
  moreover from Cons.IH[OF _ P1(2)] Cons.prems(1) obtain P' where
    "serve (reporter_cfg w) fd (P1, h @ [r]) (map (report_frame w) rs) = ((P', h @ r # rs), [])" "report_ok (P', h @ r # rs)"
    "rp_log P' = rp_log P1 @ concat (map statements rs)" by auto
  ultimately show ?case by auto
qed

text \<open>A running service whose first worker has read one report.\<close>

lemma report_demo:
  fixes w :: "'u wire"
  assumes w: "wire_format w" and r: "sendable w r"
  obtains S ls P where "reporter_running w (S, ls)" and "w_app (y_world S) = (P, [r])" and "length ls = 3"
proof -
  let ?P = "\<lparr>rp_config = Some Map.empty, rp_queues = Some [thread_queue_new, thread_queue_new, thread_queue_new], rp_cnt = 3,
      rp_index = 0, rp_log = []\<rparr> :: 'u reporter"
  let ?sv = "\<lparr>sv_fd = 4, sv_threads = Some (Some small_pool)\<rparr>" and ?cfg = "reporter_cfg w"
  let ?ch = "frame_bytes (report_frame w r)"
  let ?rds = "\<lambda>n. (Some (length ?ch), [Rd ?ch])"
  have tp: "thread_pool_new 3 = Inr small_pool" by (simp add: thread_pool_new_def)
  have u: "[0..<3] = [0, 1, 2]" by (simp add: upt_rec numeral_3_eq_3)
  have m: "reporter_main None (\<lambda>_ _. (Some 4, True, True)) (\<lambda>_. None) 0 (\<lambda>_. 0) (env_new 0 ()) =
      Inr (''0.0.0.0'', 7779, ?sv, small_env (?P, []))"
    by (simp add: reporter_main_def set_path_def load_def instance_of_def get_string_def get_number_def Let_def tcp_server_new_def tp
        in_int_def env_new_def create_reportdb_thread_def u)
  obtain ls where ls: "store_start [11, 12, 13] ?P = Inr ls"
    by (simp add: store_start_def u store_main_def store_report_new_def instance_of_def set_callback_def Let_def)
  have c: "silent_start ?cfg" by (simp add: silent_start_def reporter_callbacks)
  obtain S0 S k where s: "server_start [7, 8, 10] ?rds (\<lambda>_. []) (?sv, small_env (?P, [])) = Inr S0" "length (y_loops S0) = 3"
    and st: "(server_step ?cfg no_task)\<^sup>*\<^sup>* S0 S" and k: "open_conn S 0 9 0 k" "c_obuf k = None" "c_ibuf k = None"
    and S: "w_app (y_world S) = start_app ?cfg (?P, []) 9" "w_rd (y_world S) = ?rds"
      "w_pool (y_world S) = buf_pool_new (\<lambda>_ _. 0)" "length (y_loops S) = 3"
    by (rule small_server[OF c])
  have P: "pool_inv (e_pool (env_new 0 ())) {}" unfolding env_new_def by (simp add: buf_pool_new_inv)
  have "reporter_running w (S0, ls)"
    using started[OF m P _ _ s(1), where stfds = "[11, 12, 13]" and w = w] s(2) ls by (simp add: registry_new_def)
  with st have run: "reporter_running w (S, ls)"
  proof (induction rule: rtranclp_induct)
    case (step S1 S2)
    from moved[OF step.IH[OF step.prems] report_step.reactor[OF step.hyps(2)]] show ?case .
  qed
  from reporter_running_ok[OF this] obtain G where G: "sys_ok G S" and ok: "report_ok (?P, [])" and l: "length ls = 3"
    using S(1) by (auto simp: report_sys_ok_def start_app_def reporter_callbacks)
  from reports_serve[OF w, of "[r]" ?P "[]" 9] ok r obtain P' where
    sv: "serve ?cfg 9 (?P, []) [report_frame w r] = ((P', [r]), [])" by auto
  have app: "w_app (y_world S) = (?P, [])" using S(1) by (simp add: start_app_def reporter_callbacks)
  have "\<forall>x \<in> set [report_frame w r]. frame_ok x \<and> snd x \<noteq> []" using r by (simp add: sendable_def)
  moreover have "int (length ?ch) \<le> cap_of m8M"
    using r by (simp add: sendable_def frame_ok_def message_limits frame_bytes_def)
  moreover have "fits 400000 (w_pool (y_world S)) (c_obuf k) (length (replies ?cfg 9 (w_app (y_world S)) [report_frame w r]))"
    using k(2) S(3) sv app by (simp add: fits_def replies_def EXTRA_MEM_LIMIT_def)
  moreover have "in_bytes (k, env_of (thread_view S 0)) = []" using k(3) by (simp add: in_bytes_def)
  moreover have "?ch = concat (map frame_bytes [report_frame w r])" "w_rd (y_world S) (w_no (y_world S)) = (Some (length ?ch), [Rd ?ch])"
    using S(2) by simp_all
  moreover have "(400000 :: nat) + 8192 < EXTRA_MEM_LIMIT" by (simp add: EXTRA_MEM_LIMIT_def)
  ultimately obtain t where t: "Event_Loop.reported (y_loops S ! 0) (9, EPOLLIN)"
    "dispatch_one (worker_invoke ?cfg) (thread_view S 0) (9, EPOLLIN) = Inr t" "w_app (snd t) = (P', [r])"
    using read_event[OF reporter_cfg_ok G k(1), of "[report_frame w r]" ?ch 400000 w] unfolding app sv fst_conv by blast
  have "server_step ?cfg no_task S (put_thread S 0 t)" using server_step.event[OF _ t(1,2)] S(4) by simp
  from moved[OF run report_step.reactor[OF this]] that[of "put_thread S 0 t" ls P'] l t(3) show thesis by simp
qed

theorem service_stores_twice_witness:
  "\<exists>S ls P P' text. reporter_running pb_wire (S, ls) \<and> fst (w_app (y_world S)) = P \<and>
     mset (rp_log P) + due (the (rp_queues P)) = {#text, text#} \<and>
     run thread_report_cb P [0, 1, 2] = Inr P' \<and> mset (rp_log P') = {#text, text#}"
proof -
  let ?x = "\<lparr>unknown = [], cr_ip = 7, cr_port = 80, cr_succ = 3, cr_err = 0, cr_overload = True\<rparr> :: byte list HostCallResult"
  let ?m = "\<lparr>unknown = [], rs_modid = 1, rs_cmdid = 2, rs_caller = 0, rs_results = [?x], rs_timestamp = 99\<rparr> :: byte list ReportStatusRequest"
  have l: "length (ReportStatusRequest_serialize pb_wire ?m) = ReportStatusRequest_size pb_wire ?m" by (rule pb.ReportStatusRequest_length)
  have "ReportStatusRequest_size pb_wire ?m \<le> 100" "0 < ReportStatusRequest_size pb_wire ?m"
    by (simp_all add: ReportStatusRequest_size_def HostCallResult_size_def pb_wire_def varint.simps)
  then have "sendable pb_wire ?m"
    using l by (auto simp: sendable_def pb_wire_def frame_ok_def message_limits id_defs in_int_def)
  from report_demo[OF pb.wire_format_axioms this] obtain S ls P where
    r: "reporter_running pb_wire (S, ls)" "w_app (y_world S) = (P, [?m])" "length ls = 3" by blast
  have two: "repeat_mset 2 (mset (concat (map statements [?m]))) = {#store_sql ?m ?x, store_sql ?m ?x#}"
    by (simp add: statements_def numeral_2_eq_2)
  have u: "[0..<3] = [0, 1, 2]" by (simp add: upt_rec numeral_3_eq_3)
  from service_stores_twice[OF r(1,2)] obtain P' where
    "mset (rp_log P) + due (the (rp_queues P)) = {#store_sql ?m ?x, store_sql ?m ?x#}"
    "run thread_report_cb P [0, 1, 2] = Inr P'" "mset (rp_log P') = {#store_sql ?m ?x, store_sql ?m ?x#}"
    unfolding two r(3) u by blast
  then show ?thesis using r(1,2) by fastforce
qed

end
