(* ===== verification/Spec2Isabelle.thy ===== *)
theory Spec2Isabelle
  imports Tcp_Conn_Props Agent_Threads Dns_System Rins_Api Report_System
begin

text \<open>
  \<^bold>\<open>Rins\<close> is a reactor library in C++ (\<open>src/reactor\<close>) and a system of services on top of it that tells
  programs which host to call for a given module and command: a DNS service that serves routes from a
  database and announces changes (\<open>src/dns\<close>), an agent on every machine that keeps the routes in use and
  balances between their hosts (\<open>src/load_balance_agent\<close>), a library for the programs that ask the agent
  (\<open>src/api/cpp\<close>) and a reporter that stores call results (\<open>src/report\<close>). The messages between them are
  protobuf messages (\<open>src/base/proto\<close>) behind a head of 8 bytes.

  \<^bold>\<open>How the program is modelled.\<close> Every operation is a function on explicit state that returns a
  \<open>fault\<close> or a result (Prelude): a failed assertion, \<open>exit(1)\<close>, a null or dangling pointer, an access out
  of bounds, signed overflow, an uninitialised or invalidated read, a division by zero. Objects that the
  code shares by pointer are in explicit stores. What system calls, the database, \<open>epoll\<close> and the protobuf
  library answer are arguments. Threads interleave: a step of a system is what one thread does for one
  event, a task or a round of its own loop, between which a mutex or an event loop lets others run.
  Memory that is not initialised is an argument too.

  \<^bold>\<open>The reactor.\<close>
  \<^item> Io\_Buf (io\_buf.cc): a block of bytes with a window; \<open>byte_queue\<close> is its contract, interpreted on
    the output use of a block.
  \<^item> Buf\_Pool (buf\_pool.cc): size classes with free lists threaded through the blocks. \<open>pool_inv\<close> says
    that the free lists are disjoint, without cycles and disjoint from the blocks in use;
    \<open>buffer_store\<close> is the contract that the buffers rely on. A block that is handed out was not in use
    (C2), and comes back after \<open>revert\<close> (C15).
  \<^item> Reactor\_Buf (reactor\_buf.cc): input and output buffers over the pool: reading appends exactly what the
    socket gave (\<open>read_data_appends\<close>), and when sending overruns a buffer (C16).
  \<^item> Message (message.h): the head, the router, and framing: \<open>next_frame\<close> is the specification of
    message splitting, \<open>framing\<close> its contract.
  \<^item> Event\_Loop (event\_loop.cc): registered events, tasks, and one round of dispatch over a named callback;
    the table refines a map from directions to handlers and agrees with the kernel (C12);
    \<open>loop_dispatch\<close> is the contract of callbacks under which batches of events are dispatched safely,
    \<open>loop_callbacks\<close> a stronger one that gives it.
  \<^item> Conn\_Registry, Tcp\_Conn, Tcp\_Conn\_Props (tcp\_conn.cc, parts of tcp\_server.cc): connections.
    Messages are served in order however the bytes are cut into reads (C1), output leaves first in first
    out (C13) and drains (C14), malformed heads close the connection (C30), and what empty bodies and
    large replies do (C31, C32).
  \<^item> Thread\_Pool (thread\_queue.h, thread\_pool.cc): mailboxes and round-robin choice as the locales
    \<open>mailbox\<close> and \<open>round_robin\<close>: fairness, broadcast and delivery.
  \<^item> Tcp\_Server (tcp\_server.cc): accepting (C25); a worker's loop with its queue and connections keeps its
    invariant over whole batches of events; why the limit on connections has no effect (C37).
  \<^item> Server\_System: the accepting thread and all workers over the shared pool, registry, connections and
    mailboxes, one event of one thread at a time. No interleaving makes a worker fail an assertion of its
    loop or touch a buffer or connection of another (C7), and every accepted connection is opened by
    the worker it was handed to (C8).
  \<^item> Server\_App: the contract between such a server and the handlers and tasks of an application, as the
    locale \<open>server_app\<close>: what the callbacks keep holds in every state of the server.
  \<^item> Udp (udp\_server.cc, udp\_client.cc): the server in its event loop refines a specification of
    datagram service (C4); which sizes overrun the send buffer (C33).
  \<^item> Tcp\_Client (tcp\_client.cc): connecting and reconnecting, whole messages are served (C26), and the
    read loop that a peer can keep busy for ever (C38).
  \<^item> Client\_Loop: the client in its event loop. Its callbacks run only in the states they assert (C10);
    reconnecting goes on in the middle of a message (C36).
  \<^item> Config\_File (config\_file.cc): a file printed from sections and entries is read back (C24).

  \<^bold>\<open>The messages.\<close> Pb\_Wire holds the library as a record of functions with its laws in the locale
  \<open>wire_format\<close>, the parse loop of generated code, and an encoder that satisfies the laws. Rins\_Proto has
  the seven messages: round trips (C21), merging (C22), termination of parsing (C23).

  \<^bold>\<open>The services.\<close>
  \<^item> Dns\_Route, Subscribe, Dns\_Service (src/dns): the table that a result set denotes becomes visible
    at once (C17); answers hold the hosts of
    the table (C18); a new version of the database is published to all subscribers and loops (C19); a
    round of the background thread changes all or nothing (C20); the loop that takes waiting changes
    uses the iterator of an element it erased, so it never hands one over (C34).
  \<^item> Dns\_System: \<open>main\<close> of the DNS service, its server, the background thread and the pushes as one
    system; \<open>server_app\<close> is interpreted on its handlers. Connections, subscriptions and waiting changes
    agree in every state it reaches (C3). The push task of a worker fails exactly if a change waits
    for a connection of the worker; the loops behind the failing call would send each connection its
    changes (C9).
  \<^item> Load\_Balance, Route\_Lb, Lb\_Agent (src/load\_balance\_agent): the schedule of idle and overloaded hosts
    (C28), one request per route that is forwarded to the DNS service; and why no host is ever
    handed out (C35) and a host request ends the agent (C40).
  \<^item> Agent\_Threads: the agent's two client threads, each a loop that serves a TCP client and a queue, with
    the other threads in between: dispatch is safe, no wake-up is missed, and a wake-up moves the whole
    queue to a connected client's output (C11). In no state does a route response that arrives
    reach the balancers (C39).
  \<^item> Rins\_Api (src/api/cpp): a call returns the response to its own request (C27), which the agent's
    answers are not (\<open>api_rejects_agent_answer\<close>); the example program.
  \<^item> Reporter, Report\_System (src/report): statements are never cut; \<open>main\<close>, the server and the storing
    threads as one system, for which \<open>server_app\<close> is interpreted too: every report is stored twice and none
    is lost (C29).

  This theory composes them: what the agent's DNS client sends, in whatever pieces it arrives, is
  answered by the DNS service over the reactor (C5), and what its report client sends is stored by the
  reporter (C6).

  \<^bold>\<open>Loops and fuel.\<close> The loops of \<open>do_read\<close> and \<open>do_write\<close> of a server connection get as much fuel as there
  are bytes in the buffer, and every round removes at least one; the parse loop gets as much as there
  are bytes of input. The read loop of the TCP client need not end, so its fuel is an argument: a number
  above that of the messages is enough, and C38 shows a head for which none is. Retry loops around system
  calls recurse on the list of answers; \<open>No_return\<close> says that the answers ran out.

  \<^bold>\<open>Not modelled.\<close> Reflection, arenas and descriptors of the generated protobuf code, which nothing
  here calls; socket options and printing, which change no state of the program; the test drivers; the
  order of single memory accesses of threads, so data races on unprotected variables, such as the
  static index of the reporter's handler: each handler call is one step. Failures of \<open>epoll_create\<close>, which
  exit, and in the systems of threads failures of \<open>epoll_ctl\<close>, whose effect on a table alone Event\_Loop has;
  in the running reporter a database that refuses the connection of a handler call, which exits too.
\<close>

section \<open>From the agent to the DNS service and back\<close>

abbreviation request_frame :: "'u wire \<Rightarrow> 'u GetRouteRequest \<Rightarrow> frame" where
  "request_frame w r \<equiv> (ID_GetRouteRequest, GetRouteRequest_serialize w r)"

abbreviation answer_frame :: "'u wire \<Rightarrow> (u64 set \<Rightarrow> u64 list) \<Rightarrow> route \<Rightarrow> 'u GetRouteRequest \<Rightarrow> frame" where
  "answer_frame w iter R r \<equiv> (ID_GetRouteResponse, GetRouteResponse_serialize w (route_response w iter R (rq_modid r) (rq_cmdid r)))"

lemma request_length:
  assumes "wire_format w" and "unknown r = no_unknown w"
  shows "length (GetRouteRequest_serialize w r) \<le> 22"
  using wire_format.GetRouteRequest_length[OF assms(1), of r] no_unknown_size[OF assms(1)] assms(2)
    wire_format.int32_size[OF assms(1), of "rq_modid r"] wire_format.int32_size[OF assms(1), of "rq_cmdid r"]
  by (simp add: GetRouteRequest_size_def)

lemma dns_serves:
  assumes "wire_format w" and "\<forall>r \<in> set reqs. unknown r = no_unknown w" and "d_param D fd = Some subs"
  shows "\<exists>D' subs'. serve (dns_cfg w iter subs_iter) fd D (map (request_frame w) reqs) =
      (D', map (\<lambda>r. response_req w (route_response w iter (d_route D) (rq_modid r) (rq_cmdid r))) reqs) \<and>
    d_param D' fd = Some subs' \<and> subs' = subs \<union> (\<lambda>r. mod_key (rq_modid r) (rq_cmdid r)) ` set reqs \<and> (sub_inv D \<longrightarrow> sub_inv D')"
  using assms(2,3)
proof (induction reqs arbitrary: D subs)
  case Nil
  then show ?case by simp
next
  case (Cons r reqs)
  let ?s = "GetRouteRequest_serialize w r" and ?k = "mod_key (rq_modid r) (rq_cmdid r)"
  have u: "unknown r = no_unknown w" using Cons.prems(1) by simp
  have "unat (word_of_int (int (length ?s)) :: u32) = length ?s" using request_length[OF assms(1) u] by (simp add: unat_of_nat)
  then have b: "body (Some ?s) (word_of_int (int (length ?s))) = ?s" by (simp add: body_def)
  obtain D1 where D1: "get_route w iter D fd (Some ?s) (word_of_int (int (length ?s))) =
      Inr (D1, [response_req w (route_response w iter (d_route D) (rq_modid r) (rq_cmdid r))])"
      "d_param D1 fd = Some (insert ?k subs)" "d_route D1 = d_route D"
    using Cons.prems(2) unfolding get_route_def b request_roundtrip[OF assms(1) u]
    by (cases "?k \<in> subs") (auto simp: Let_def insert_absorb)
  from Cons.IH[OF _ D1(2)] Cons.prems(1) obtain D' where
    "serve (dns_cfg w iter subs_iter) fd D1 (map (request_frame w) reqs) =
      (D', map (\<lambda>r. response_req w (route_response w iter (d_route D) (rq_modid r) (rq_cmdid r))) reqs)"
    "d_param D' fd = Some (insert ?k subs \<union> (\<lambda>r. mod_key (rq_modid r) (rq_cmdid r)) ` set reqs)" "sub_inv D1 \<longrightarrow> sub_inv D'"
    unfolding D1(3) by auto
  then show ?case using D1(1) sub_inv_get_route[OF _ D1(1)] by (simp add: serve_one_def dns_router quiet_def)
qed

lemma request_frame_ok:
  assumes "wire_format w" and "unknown r = no_unknown w" and "rq_modid r \<noteq> 0 \<or> rq_cmdid r \<noteq> 0"
  shows "frame_ok (request_frame w r) \<and> snd (request_frame w r) \<noteq> []"
proof -
  have "write_int32 w n x \<noteq> []" if "1 \<le> n" "n < 16" for n x using wire_format.int32_written[OF assms(1) that, of x] by auto
  then have "GetRouteRequest_serialize w r \<noteq> []" using assms(3) by (auto simp: GetRouteRequest_serialize_def)
  then show ?thesis using request_length[OF assms(1,2)] by (simp add: frame_ok_def id_defs in_int_def message_limits)
qed

text \<open>
  C5: what the agent asks, the DNS service answers. Take an agent whose connected DNS client has an
  empty output buffer with room for the route requests in its queue, none of them for module 0 and
  command 0, and a connection of the DNS service with no input pending. When the client is woken it
  puts the requests into its buffer, in order; and however TCP cuts these bytes into reads, the
  service has afterwards queued on the connection, in order, the response for each request from its
  routing table, and has recorded the connection's subscription to each of the routes: in the list of the
  connection, and, if the lists and the book agree before, as they do whenever the service runs, in
  the book from which changes are published. The bounds: no route has more than 200000 hosts, the requests fit the largest input buffer, the
  answers the output buffer, and the allocations the memory budget.
\<close>

theorem agent_requests_answered:
  assumes "wire_format w" and "\<forall>hs. length (iter hs) \<le> 200000"
    and "client_ok K" and "k_connected K" and "bytes (k_obuf K) = []" and "room (k_obuf K) \<le> cap_of m8M"
    and "lw_dns (ag_world A) = Some q"
    and "\<forall>r \<in> set (tq_queue q). unknown r = no_unknown w \<and> (rq_modid r \<noteq> 0 \<or> rq_cmdid r \<noteq> 0)"
    and "concat chunks = concat (map (\<lambda>r. frame_bytes (request_frame w r)) (tq_queue q))" and "\<forall>ch \<in> set chunks. ch \<noteq> []"
    and "int (length (concat chunks)) \<le> room (k_obuf K)"
    and "conn_inv this X s" and "in_bytes s = []" and "d_param (e_app (snd s)) (c_fd (fst s)) = Some subs"
    and "answers = concat (map (\<lambda>r. frame_bytes (answer_frame w iter (d_route (e_app (snd s))) r)) (tq_queue q))"
    and "fits Bd (e_pool (snd s)) (c_obuf (fst s)) (length answers)" and "Bd + 8192 * length chunks < EXTRA_MEM_LIMIT"
  shows "\<exists>A' K' s'. new_dns_request_cb w (A, K) = Inr (A', K') \<and> bytes (k_obuf K') = concat chunks \<and>
    read_chunks (dns_cfg w iter subs_iter) this s chunks = Inr s' \<and> out_bytes s' = out_bytes s @ answers \<and>
    (\<forall>r \<in> set (tq_queue q). mod_key (rq_modid r) (rq_cmdid r) \<in> lookup (d_param (e_app (snd s'))) (c_fd (fst s)) \<and>
      (sub_inv (e_app (snd s)) \<longrightarrow> subscribed (d_subs (e_app (snd s'))) (mod_key (rq_modid r) (rq_cmdid r)) (c_fd (fst s))))"
proof -
  let ?fd = "c_fd (fst s)" and ?D = "e_app (snd s)" and ?ms = "map (request_frame w) (tq_queue q)"
  from dns_requests_sent[OF _ assms(4,7), of w] assms(3,5,9,11)[unfolded client_ok_out] obtain A' K' where
    c: "new_dns_request_cb w (A, K) = Inr (A', K')" "bytes (k_obuf K') = concat chunks" by auto
  have u: "\<forall>r \<in> set (tq_queue q). unknown r = no_unknown w" using assms(8) by simp
  from dns_serves[OF assms(1) u assms(14), where iter = iter and subs_iter = subs_iter] obtain D' subs' where
    D': "serve (dns_cfg w iter subs_iter) ?fd ?D ?ms =
        (D', map (\<lambda>r. response_req w (route_response w iter (d_route ?D) (rq_modid r) (rq_cmdid r))) (tq_queue q))"
      "d_param D' ?fd = Some subs'" "subs' = subs \<union> (\<lambda>r. mod_key (rq_modid r) (rq_cmdid r)) ` set (tq_queue q)" "sub_inv ?D \<longrightarrow> sub_inv D'" by blast
  have rp: "replies (dns_cfg w iter subs_iter) ?fd ?D ?ms = answers"
    unfolding replies_def D'(1) assms(15) by (simp add: response_req_def Let_def reply_bytes_whole comp_def)
  have ms: "\<forall>m \<in> set ?ms. frame_ok m \<and> snd m \<noteq> []" using request_frame_ok[OF assms(1)] assms(8) by auto
  have cc: "concat chunks = concat (map frame_bytes ?ms)" using assms(9) by (simp add: comp_def)
  have ln: "int (length (concat chunks)) \<le> cap_of m8M" using assms(6,11) by simp
  from chunks_served[OF dns_cfg_ok[OF assms(1,2), where subs = subs_iter] assms(12,13) ms cc assms(10) ln, of Bd] assms(16,17) rp D'(1)
  obtain s' where "read_chunks (dns_cfg w iter subs_iter) this s chunks = Inr s'" "e_app (snd s') = D'" "out_bytes s' = out_bytes s @ answers"
    by auto
  then show ?thesis using c D'(2-4) by (intro exI[of _ A'] exI[of _ K'] exI[of _ s']) (auto simp: lookup_def sub_inv_def)
qed

theorem agent_requests_answered_witness:
  "\<exists>A K s A' K' s' a. new_dns_request_cb pb_wire (A, K :: (unit, unit) tcp_client) = Inr (A', K') \<and> bytes (k_obuf K') \<noteq> [] \<and>
    read_chunks (dns_cfg pb_wire (\<lambda>hs. take 200000 (sorted_iter hs)) sorted_iter) 7 s [take 3 (bytes (k_obuf K')), drop 3 (bytes (k_obuf K'))] = Inr s' \<and>
    out_bytes s' = frame_bytes (ID_GetRouteResponse, a) \<and> mod_key 1 2 \<in> lookup (d_param (e_app (snd s'))) 5 \<and>
    subscribed (d_subs (e_app (snd s'))) (mod_key 1 2) 5"
proof -
  let ?it = "\<lambda>hs. take 200000 (sorted_iter hs) :: u64 list"
  let ?D = "\<lparr>d_route = \<lparr>r_version = 0, r_data = Map.empty, r_temp = Map.empty\<rparr>, d_subs = subscribe_list_new, d_param = Map.empty\<rparr>"
  let ?r = "\<lparr>unknown = [], rq_modid = 1, rq_cmdid = 2\<rparr> :: byte list GetRouteRequest"
  let ?A = "small_agent [?r]" and ?K = "connected_client () router_new :: (unit, unit) tcp_client"
  let ?b = "frame_bytes (request_frame pb_wire ?r)"
  let ?a = "answer_frame pb_wire ?it (d_route ?D) ?r"
  have it: "\<forall>hs. length (?it hs) \<le> 200000" by simp
  from fresh_conn[OF dns_cfg_ok[OF pb.wire_format_axioms it, where subs = sorted_iter], of "create_subscribe ?D 5" ?D] obtain s where
    s: "conn_inv 7 {} s" "in_bytes s = []" "out_bytes s = []" "c_fd (fst s) = 5" "c_obuf (fst s) = None"
      "e_app (snd s) = create_subscribe ?D 5" "fits 400000 (e_pool (snd s)) None 4096" by (auto simp: dns_callbacks)
  have app: "d_param (e_app (snd s)) (c_fd (fst s)) = Some {}" "d_route (e_app (snd s)) = d_route ?D"
    using s(4,6) by (simp_all add: create_subscribe_def)
  have sb: "sub_inv (e_app (snd s))" unfolding s(6)
    by (auto simp: create_subscribe_def sub_inv_def subscribe_list_new_def book_inv_def subscribed_def lookup_def)
  have u: "unknown ?r = no_unknown pb_wire" by (simp add: pb_wire_def)
  have q: "lw_dns (ag_world ?A) = Some (tq_send thread_queue_new ?r)" "tq_queue (tq_send thread_queue_new ?r) = [?r]"
    by (simp_all add: small_agent_def create_route_lb_def thread_queue_new_def tq_send_def)
  have l: "9 \<le> length ?b" "length ?b \<le> 30"
    using request_length[OF pb.wire_format_axioms u] request_frame_ok[OF pb.wire_format_axioms u]
    by (simp_all add: frame_bytes_def Suc_le_eq)
  have "length (frame_bytes ?a) \<le> 30"
    using pb.GetRouteResponse_length[of "route_response pb_wire ?it (d_route ?D) 1 2"]
      pb.int32_size[of 1] pb.int32_size[of 2] no_unknown_size[OF pb.wire_format_axioms]
    by (simp add: frame_bytes_def GetRouteResponse_size_def route_response_def get_hosts_def sorted_iter_def GetRouteResponse_clear_def)
  then have f: "fits 400000 (e_pool (snd s)) (c_obuf (fst s)) (length (frame_bytes ?a))" using s(5,7) by (simp add: fits_def)
  have ne: "take 3 ?b \<noteq> []" "drop 3 ?b \<noteq> []" using l by auto
  from agent_requests_answered[OF pb.wire_format_axioms it, where subs_iter = sorted_iter, of ?K ?A _ "[take 3 ?b, drop 3 ?b]" 7 "{}" s "{}" "frame_bytes ?a" 400000]
    q s app u l f ne sb
  have "\<exists>A' K' s'. new_dns_request_cb pb_wire (?A, ?K) = Inr (A', K') \<and> bytes (k_obuf K') = ?b \<and>
      read_chunks (dns_cfg pb_wire ?it sorted_iter) 7 s [take 3 ?b, drop 3 ?b] = Inr s' \<and> out_bytes s' = frame_bytes ?a \<and>
      mod_key 1 2 \<in> lookup (d_param (e_app (snd s'))) 5 \<and> subscribed (d_subs (e_app (snd s'))) (mod_key 1 2) 5"
    by (simp add: connected_client_ok EXTRA_MEM_LIMIT_def)
  moreover have "?b \<noteq> []" using l by force
  ultimately show ?thesis by metis
qed

section \<open>From the agent to the reporter\<close>

text \<open>
  C6: what the agent reports, the reporter stores. Take an agent whose connected report client has an
  empty output buffer with room for the reports in its queue, each of which fits a message, and a
  connection of a reporter in order, with no input pending. When the client is woken it puts the
  reports into its buffer, in order, and empties its queue; and however TCP cuts these bytes into
  reads, the reporter has afterwards sent the statements of exactly these reports to the database,
  in order, and has put each report into the queue of a storing thread as well, so that the
  statements sent and still to come are twice those of all reports handled. The bounds: the reports
  fit the largest input buffer and the allocations the memory budget.
\<close>

theorem agent_reports_stored:
  assumes "wire_format w"
    and "client_ok K" and "k_connected K" and "bytes (k_obuf K) = []" and "room (k_obuf K) \<le> cap_of m8M"
    and "ag_reports A = Some q" and "\<forall>r \<in> set (tq_queue q). sendable w r"
    and "concat chunks = concat (map (\<lambda>r. frame_bytes (report_frame w r)) (tq_queue q))" and "\<forall>ch \<in> set chunks. ch \<noteq> []"
    and "int (length (concat chunks)) \<le> room (k_obuf K)"
    and "conn_inv this X s" and "in_bytes s = []" and "e_app (snd s) = (P, h)" and "report_ok (P, h)"
    and "fits Bd (e_pool (snd s)) (c_obuf (fst s)) 0" and "Bd + 8192 * length chunks < EXTRA_MEM_LIMIT"
  shows "\<exists>A' K' q' s' P'. new_report_request_cb w (A, K) = Inr (A', K') \<and> bytes (k_obuf K') = concat chunks \<and>
    ag_reports A' = Some q' \<and> tq_queue q' = [] \<and>
    read_chunks (reporter_cfg w) this s chunks = Inr s' \<and> e_app (snd s') = (P', h @ tq_queue q) \<and>
    rp_log P' = rp_log P @ concat (map statements (tq_queue q)) \<and>
    mset (rp_log P') + due (the (rp_queues P')) = repeat_mset 2 (mset (concat (map statements (h @ tq_queue q))))"
proof -
  let ?fd = "c_fd (fst s)" and ?ms = "map (report_frame w) (tq_queue q)"
  from reports_sent[OF _ assms(3,6), of w] assms(2,4,8,10)[unfolded client_ok_out] obtain A' K' q' where
    c: "new_report_request_cb w (A, K) = Inr (A', K')" "bytes (k_obuf K') = concat chunks" "ag_reports A' = Some q'" "tq_queue q' = []" by auto
  from reports_serve[OF assms(1,7,14), of ?fd] obtain P' where P': "serve (reporter_cfg w) ?fd (P, h) ?ms = ((P', h @ tq_queue q), [])"
    "report_ok (P', h @ tq_queue q)" "rp_log P' = rp_log P @ concat (map statements (tq_queue q))" by blast
  have rp: "replies (reporter_cfg w) ?fd (e_app (snd s)) ?ms = []" unfolding replies_def assms(13) P'(1) by simp
  have ms: "\<forall>m \<in> set ?ms. frame_ok m \<and> snd m \<noteq> []" using assms(7) by (auto simp: sendable_def)
  have cc: "concat chunks = concat (map frame_bytes ?ms)" using assms(8) by (simp add: comp_def)
  have ln: "int (length (concat chunks)) \<le> cap_of m8M" using assms(5,10) by simp
  from chunks_served[OF reporter_cfg_ok[of w] assms(11,12) ms cc assms(9) ln, of Bd] assms(15,16)
  obtain s' where "read_chunks (reporter_cfg w) this s chunks = Inr s'" "e_app (snd s') = fst (serve (reporter_cfg w) ?fd (e_app (snd s)) ?ms)"
    unfolding rp by auto
  moreover have "mset (rp_log P') + due (the (rp_queues P')) = repeat_mset 2 (mset (concat (map statements (h @ tq_queue q))))"
    using P'(2) by (simp add: report_ok_def accounted_def handled_reports_def numeral_2_eq_2 del: map_append)
  ultimately show ?thesis using c P'(3) unfolding assms(13) P'(1) fst_conv by blast
qed

theorem agent_reports_stored_witness:
  "\<exists>A K s A' K' s' P' r. new_report_request_cb pb_wire (A, K :: (unit, unit) tcp_client) = Inr (A', K') \<and> bytes (k_obuf K') \<noteq> [] \<and>
    read_chunks (reporter_cfg pb_wire) 7 s [take 3 (bytes (k_obuf K')), drop 3 (bytes (k_obuf K'))] = Inr s' \<and>
    e_app (snd s') = (P', [r]) \<and> rp_log P' = statements r \<and> statements r \<noteq> []"
proof -
  let ?x = "\<lparr>unknown = [], cr_ip = 7, cr_port = 80, cr_succ = 3, cr_err = 0, cr_overload = True\<rparr> :: byte list HostCallResult"
  let ?r = "\<lparr>unknown = [], rs_modid = 1, rs_cmdid = 2, rs_caller = 0, rs_results = [?x], rs_timestamp = 99\<rparr> :: byte list ReportStatusRequest"
  let ?P = "\<lparr>rp_config = Some Map.empty, rp_queues = Some [thread_queue_new], rp_cnt = 1, rp_index = 0, rp_log = []\<rparr> :: byte list reporter"
  let ?A = "agent_globals\<lparr>ag_reports := Some (tq_send thread_queue_new ?r)\<rparr>" and ?K = "connected_client () router_new :: (unit, unit) tcp_client"
  let ?b = "frame_bytes (report_frame pb_wire ?r)"
  have ok: "report_ok (?P, [])"
    by (simp add: report_ok_def rep_inv_def accounted_def due_def thread_queue_new_def handled_reports_def)
  from fresh_conn[OF reporter_cfg_ok[of pb_wire], of "(?P, [])" "(?P, [])"] obtain s :: "tcp_conn \<times> byte list report_app env" where
    s: "conn_inv 7 {} s" "in_bytes s = []" "c_obuf (fst s) = None" "e_app (snd s) = (?P, [])" "fits 400000 (e_pool (snd s)) None 4096"
    by (auto simp: reporter_callbacks)
  have l: "length ?b = 8 + ReportStatusRequest_size pb_wire ?r" by (simp add: frame_bytes_def pb.ReportStatusRequest_length)
  have sz: "ReportStatusRequest_size pb_wire ?r \<le> 40" "0 < ReportStatusRequest_size pb_wire ?r"
    by (simp_all add: ReportStatusRequest_size_def HostCallResult_size_def pb_wire_def varint.simps)
  have sd: "sendable pb_wire ?r"
    using sz pb.ReportStatusRequest_length[of ?r] by (auto simp: sendable_def pb_wire_def frame_ok_def message_limits id_defs in_int_def)
  have ne: "take 3 ?b \<noteq> []" "drop 3 ?b \<noteq> []" using l by auto
  have f: "fits 400000 (e_pool (snd s)) (c_obuf (fst s)) 0" using s(3,5) by (simp add: fits_def)
  have q: "tq_queue (tq_send thread_queue_new ?r) = [?r]" by (simp add: thread_queue_new_def tq_send_def)
  have st: "statements ?r = [store_sql ?r ?x]" by (simp add: statements_def)
  from agent_reports_stored[OF pb.wire_format_axioms, of ?K ?A "tq_send thread_queue_new ?r" "[take 3 ?b, drop 3 ?b]" 7 "{}" s ?P "[]" 400000]
    q s(1,2,4) ok sd l sz(1) ne f
  have "\<exists>A' K' s' P'. new_report_request_cb pb_wire (?A, ?K) = Inr (A', K') \<and> bytes (k_obuf K') = ?b \<and>
      read_chunks (reporter_cfg pb_wire) 7 s [take 3 ?b, drop 3 ?b] = Inr s' \<and> e_app (snd s') = (P', [?r]) \<and> rp_log P' = statements ?r"
    by (auto simp: connected_client_ok EXTRA_MEM_LIMIT_def)
  moreover have "?b \<noteq> []" using l by force
  ultimately show ?thesis using st by (metis list.distinct(1))
qed

end
